(* ===== verification/Base.thy ===== *)
theory Base
  imports Main "HOL-Library.Word" "HOL-Library.Monad_Syntax"
begin

text \<open>
  Prelude of the development: the machine integer types of the ESP32 code, the
  collections of rewrite rules the component theories share, and the generic lemmas on
  bounded memory, bytes and C strings that several components need.

  Memory is modelled as lists. A read or a write outside the object the code was given is
  C's undefined behaviour; it is the value \<^term>\<open>None\<close> of an option, so that a theorem that an
  operation returns \<^term>\<open>Some x\<close> also states that it stays inside its buffers.
\<close>

unbundle bit_operations_syntax

type_synonym u8 = "8 word"
type_synonym u16 = "16 word"
type_synonym u32 = "32 word"

named_theorems bytes_simps \<open>layout of integers as bytes\<close>
named_theorems mem_simps \<open>bounded reads and writes\<close>

subsection \<open>Bounded memory\<close>

definition rd :: "'a list \<Rightarrow> nat \<Rightarrow> 'a option" where
  "rd m i = (if i < length m then Some (m ! i) else None)"

definition wr :: "'a list \<Rightarrow> nat \<Rightarrow> 'a list \<Rightarrow> 'a list option" where
  "wr m i bs = (if i + length bs \<le> length m
     then Some (take i m @ bs @ drop (i + length bs) m) else None)"

lemma rd_in [mem_simps]: "i < length m \<Longrightarrow> rd m i = Some (m ! i)"
  by (simp add: rd_def)

lemma rd_out [mem_simps]: "length m \<le> i \<Longrightarrow> rd m i = None"
  by (simp add: rd_def)

lemma rd_Some_iff: "rd m i = Some x \<longleftrightarrow> i < length m \<and> m ! i = x"
  by (auto simp: rd_def)

lemma rd_append1 [mem_simps]: "i < length xs \<Longrightarrow> rd (xs @ ys) i = rd xs i"
  by (simp add: rd_def nth_append)

lemma rd_append_eq [mem_simps]: "rd (xs @ y # ys) (length xs) = Some y"
  by (simp add: rd_def)

lemma rd_append_off: "rd (xs @ ys) (length xs + i) = rd ys i"
  by (simp add: rd_def)

lemma wr_length: "wr m i bs = Some m' \<Longrightarrow> length m' = length m"
  by (auto simp: wr_def split: if_splits)

lemma wr_fits: "i + length bs \<le> length m \<Longrightarrow> \<exists>m'. wr m i bs = Some m'"
  by (simp add: wr_def)

lemma wr_rd_in:
  "wr m i bs = Some m' \<Longrightarrow> j < length bs \<Longrightarrow> rd m' (i + j) = Some (bs ! j)"
  by (auto simp: wr_def rd_def nth_append split: if_splits)

lemma wr_rd_out:
  "wr m i bs = Some m' \<Longrightarrow> j < i \<or> i + length bs \<le> j \<Longrightarrow> rd m' j = rd m j"
  by (auto simp: wr_def rd_def nth_append min_def split: if_splits)

lemma wr_split:
  "wr m i (xs @ ys) = Option.bind (wr m i xs) (\<lambda>m'. wr m' (i + length xs) ys)"
  by (cases xs) (auto simp: wr_def min_def ac_simps)

text \<open>Several reads in a row stay in bounds when the largest index does.\<close>

definition readable :: "'a list \<Rightarrow> nat \<Rightarrow> bool" where
  "readable m n \<longleftrightarrow> n \<le> length m"

lemma readable_rd: "readable m n \<Longrightarrow> i < n \<Longrightarrow> rd m i = Some (m ! i)"
  by (simp add: readable_def rd_def)

subsection \<open>Words\<close>

lemma self_mod_iff: "0 < k \<Longrightarrow> n = n mod k \<longleftrightarrow> n < (k :: nat)"
  by (metis mod_less mod_less_divisor)

lemma xor_right_cancel: "a XOR c = b XOR c \<longleftrightarrow> a = (b :: 'a :: len word)"
proof
  assume eq: "a XOR c = b XOR c"
  have "a = (a XOR c) XOR c" by (simp add: xor.assoc)
  also have "\<dots> = b" by (simp only: eq) (simp add: xor.assoc)
  finally show "a = b" .
qed simp

lemma xor_left_cancel: "c XOR a = c XOR b \<longleftrightarrow> a = (b :: 'a :: len word)"
  by (simp add: xor.commute [of c] xor_right_cancel)

lemma unat_ucast_u8: "unat (ucast (x :: u8) :: u16) = unat x"
  using unsigned_less [of x, where 'a = nat]
  by (simp add: unsigned_ucast_eq take_bit_eq_mod)

lemma ucast_u8_inj: "(ucast (x :: u8) :: u16) = ucast y \<longleftrightarrow> x = y"
  by (metis unat_ucast_u8 word_unat_eq_iff)

lemma byte_mask: "(0xff :: u16) = mask 8"
  by (simp add: mask_eq_exp_minus_1)

subsection \<open>Integers as bytes\<close>

definition le16 :: "u16 \<Rightarrow> u8 list" where
  "le16 w = [ucast w, ucast (drop_bit 8 w)]"

definition be16 :: "u16 \<Rightarrow> u8 list" where
  "be16 w = [ucast (w div 256), ucast (w mod 256)]"

definition u16_of :: "u8 \<Rightarrow> u8 \<Rightarrow> u16" where
  "u16_of hi lo = 256 * ucast hi + ucast lo"

lemma length_le16 [simp]: "length (le16 w) = 2"
  by (simp add: le16_def)

lemma length_be16 [simp]: "length (be16 w) = 2"
  by (simp add: be16_def)

lemma unat_u16_of: "unat (u16_of hi lo) = 256 * unat hi + unat lo"
proof -
  have hi: "unat hi < 256" and lo: "unat lo < 256"
    using unsigned_less [of hi] unsigned_less [of lo] by simp_all
  then have hi64: "unat hi < 65536" by simp
  have "unat (u16_of hi lo) = (256 * unat hi + unat lo) mod 65536"
    by (simp add: u16_of_def unat_word_ariths unsigned_ucast_eq take_bit_eq_mod mod_less [OF hi64] mod_add_eq)
  with hi lo show ?thesis by simp
qed

lemma u16_of_le16 [bytes_simps]: "u16_of (le16 w ! 1) (le16 w ! 0) = w"
proof -
  have w: "unat w < 65536" using unsigned_less [of w] by simp
  have "unat (u16_of (ucast (drop_bit 8 w)) (ucast w)) = unat w"
    using w by (simp add: unat_u16_of unsigned_ucast_eq take_bit_eq_mod unat_div unsigned_drop_bit_eq drop_bit_eq_div)
  then have "u16_of (ucast (drop_bit 8 w)) (ucast w) = w"
    by (simp only: word_unat_eq_iff)
  then show ?thesis by (simp add: le16_def)
qed

lemma u16_of_be16 [bytes_simps]: "u16_of (be16 w ! 0) (be16 w ! 1) = w"
proof -
  have w: "unat w < 65536" using unsigned_less [of w] by simp
  have "unat (u16_of (ucast (w div 256)) (ucast (w mod 256))) = unat w"
    using w by (simp add: unat_u16_of unsigned_ucast_eq take_bit_eq_mod unat_div unat_mod)
  then have "u16_of (ucast (w div 256)) (ucast (w mod 256)) = w"
    by (simp only: word_unat_eq_iff)
  then show ?thesis by (simp add: be16_def)
qed

definition rd16 :: "u8 list \<Rightarrow> nat \<Rightarrow> u16 option" where
  "rd16 m i = do { lo \<leftarrow> rd m i; hi \<leftarrow> rd m (i + 1); Some (u16_of hi lo) }"

definition rd16_be :: "u8 list \<Rightarrow> nat \<Rightarrow> u16 option" where
  "rd16_be m i = do { hi \<leftarrow> rd m i; lo \<leftarrow> rd m (i + 1); Some (u16_of hi lo) }"

lemma rd16_in [mem_simps]: "i + 1 < length m \<Longrightarrow> rd16 m i = Some (u16_of (m ! (i + 1)) (m ! i))"
  by (simp add: rd16_def rd_def)

lemma rd16_be_in [mem_simps]:
  "i + 1 < length m \<Longrightarrow> rd16_be m i = Some (u16_of (m ! i) (m ! (i + 1)))"
  by (simp add: rd16_be_def rd_def)

subsection \<open>Loops that may not end\<close>

text \<open>
  A loop without a termination argument is run with fuel: \<open>Done\<close> of the state in which
  its guard failed, or \<open>Running\<close> when the fuel was used up before that.
\<close>

datatype 'a run = Done 'a | Running

subsection \<open>Text\<close>

text \<open>The bytes of a string constant of the code.\<close>

definition ascii :: "string \<Rightarrow> u8 list" where
  "ascii s = map (\<lambda>c. word_of_nat (of_char c)) s"

end
