(* ===== verification/BtStream.thy ===== *)
theory BtStream
  imports Base
begin

text \<open>
  The command buffer of the Bluetooth stack (\<^verbatim>\<open>bt_main.h\<close>): \<^verbatim>\<open>uint8_t cmd_buf[MAX_CMD_LEN]\<close>
  cleared with \<^verbatim>\<open>memset\<close> and the write pointer \<^verbatim>\<open>buf\<close> into it. A run of the
  \<^verbatim>\<open>UINT8_TO_STREAM\<close>, \<^verbatim>\<open>UINT16_TO_STREAM\<close> and \<^verbatim>\<open>ARRAY_TO_STREAM\<close> macros is one \<open>put\<close> of the bytes
  they write; writing past the buffer is \<^term>\<open>None\<close>.

  The layout of an outgoing packet, which every sender of the stack shares, is stated by
  \<open>framed\<close> (ACL data) and \<open>framed_cmd\<close> (HCI commands).
\<close>

definition MAX_CMD_LEN :: nat where "MAX_CMD_LEN = 300"

definition SEND_BUFFER_SIZE :: nat where "SEND_BUFFER_SIZE = 10"

definition MAX_OBEX_PACK :: u16 where "MAX_OBEX_PACK = 500"

definition H4_TYPE_COMMAND :: u8 where "H4_TYPE_COMMAND = 1"

definition H4_TYPE_ACL :: u8 where "H4_TYPE_ACL = 2"

type_synonym stream = "u8 list \<times> nat"

definition new_cmd :: stream where
  "new_cmd = (replicate MAX_CMD_LEN 0, 0)"

definition put :: "u8 list \<Rightarrow> stream \<Rightarrow> stream option" where
  "put bs s = map_option (\<lambda>m. (m, snd s + length bs)) (wr (fst s) (snd s) bs)"

text \<open>\<^verbatim>\<open>buf = cmd_buf\<close>: back to the start, the bytes written before stay in the memory.\<close>

definition rewind :: "stream \<Rightarrow> stream" where
  "rewind s = (fst s, 0)"

definition UINT8_TO_STREAM :: "u8 \<Rightarrow> stream \<Rightarrow> stream option" where
  "UINT8_TO_STREAM v = put [v]"

definition UINT16_TO_STREAM :: "u16 \<Rightarrow> stream \<Rightarrow> stream option" where
  "UINT16_TO_STREAM v = put (le16 v)"

definition ARRAY_TO_STREAM :: "u8 list \<Rightarrow> stream \<Rightarrow> stream option" where
  "ARRAY_TO_STREAM a = put a"

lemma put_append: "put (xs @ ys) s = Option.bind (put xs s) (put ys)"
  by (cases "wr (fst s) (snd s) xs")
    (auto simp: put_def wr_split option.map_comp comp_def add.assoc)

lemma stream_macros:
  "Option.bind (UINT8_TO_STREAM v s) (put bs) = put (v # bs) s"
  "Option.bind (UINT16_TO_STREAM w s) (put bs) = put (le16 w @ bs) s"
  "Option.bind (ARRAY_TO_STREAM a s) (put bs) = put (a @ bs) s"
  using put_append [of "[v]" bs s] put_append [of "le16 w" bs s] put_append [of a bs s]
  by (simp_all add: UINT8_TO_STREAM_def UINT16_TO_STREAM_def ARRAY_TO_STREAM_def)

definition pad :: "u8 list \<Rightarrow> u8 list" where
  "pad bs = bs @ replicate (MAX_CMD_LEN - length bs) 0"

lemma put_new [mem_simps]:
  "length bs \<le> MAX_CMD_LEN \<Longrightarrow> put bs new_cmd = Some (pad bs, length bs)"
  by (simp add: put_def new_cmd_def wr_def pad_def)

lemma put_at_start:
  assumes "length bs \<le> length m"
  shows "put bs (m, 0) = Some (bs @ drop (length bs) m, length bs)"
  using assms by (simp add: put_def wr_def)

lemma put_length: "put bs s = Some s' \<Longrightarrow> length (fst s') = length (fst s) \<and> snd s' = snd s + length bs"
  by (auto simp: put_def dest: wr_length)

lemma put_overflow: "length (fst s) < snd s + length bs \<Longrightarrow> put bs s = None"
  by (simp add: put_def wr_def)

lemma put_after_pad:
  "length (xs @ ys) \<le> MAX_CMD_LEN \<Longrightarrow> put ys (pad xs, length xs) = Some (pad (xs @ ys), length (xs @ ys))"
  using put_append [of xs ys new_cmd] by (simp add: mem_simps)

lemma length_pad: "length bs \<le> MAX_CMD_LEN \<Longrightarrow> length (pad bs) = MAX_CMD_LEN"
  by (simp add: pad_def)

lemma take_pad: "n \<le> length bs \<Longrightarrow> take n (pad bs) = take n bs"
  by (simp add: pad_def)

lemma drop_take_pad: "k + n \<le> length bs \<Longrightarrow> take n (drop k (pad bs)) = take n (drop k bs)"
  by (simp add: pad_def)

subsection \<open>Packet framing\<close>

text \<open>
  The first two bytes of a queued packet hold, high byte first, the number of bytes that
  \<^verbatim>\<open>send\<close> passes to the controller.
\<close>

definition pack_len :: "u8 list \<Rightarrow> nat" where
  "pack_len m = 256 * unat (m ! 0) + unat (m ! 1)"

definition payload :: "u8 list \<Rightarrow> u8 list" where
  "payload m = take (pack_len m) (drop 2 m)"

definition zero_after :: "nat \<Rightarrow> u8 list \<Rightarrow> bool" where
  "zero_after n m \<longleftrightarrow> (\<forall>b \<in> set (drop n m). b = 0)"

definition framed :: "u8 list \<Rightarrow> bool" where
  "framed m \<longleftrightarrow> length m = MAX_CMD_LEN \<and> 2 + pack_len m \<le> MAX_CMD_LEN \<and> 9 \<le> pack_len m \<and>
     m ! 2 = H4_TYPE_ACL \<and>
     unat (u16_of (m ! 6) (m ! 5)) = pack_len m - 5 \<and>
     unat (u16_of (m ! 8) (m ! 7)) = pack_len m - 9 \<and>
     zero_after (2 + pack_len m) m"

definition framed_cmd :: "u8 list \<Rightarrow> bool" where
  "framed_cmd m \<longleftrightarrow> length m = MAX_CMD_LEN \<and> 2 + pack_len m \<le> MAX_CMD_LEN \<and>
     m ! 2 = H4_TYPE_COMMAND \<and> pack_len m = 4 + unat (m ! 5)"

text \<open>An ACL packet from its fields: the three length fields are arguments, as in the code.\<close>

definition acl_packet :: "u16 \<Rightarrow> u16 \<Rightarrow> u16 \<Rightarrow> u16 \<Rightarrow> u8 list \<Rightarrow> u8 list" where
  "acl_packet n flags acl_len l2cap_len body =
     be16 n @ [H4_TYPE_ACL] @ le16 flags @ le16 acl_len @ le16 l2cap_len @ body"

lemma pack_len_be16: "pack_len (be16 n @ xs) = unat n"
proof -
  have "unat (u16_of (be16 n ! 0) (be16 n ! 1)) = unat n"
    by (simp only: u16_of_be16)
  then show ?thesis
    by (simp add: pack_len_def unat_u16_of nth_append)
qed

lemma length_acl_packet: "length (acl_packet n f a l body) = 9 + length body"
  by (simp add: acl_packet_def)

lemma acl_packet_nth:
  "acl_packet n f a l body ! 2 = H4_TYPE_ACL"
  "u16_of (acl_packet n f a l body ! 6) (acl_packet n f a l body ! 5) = a"
  "u16_of (acl_packet n f a l body ! 8) (acl_packet n f a l body ! 7) = l"
proof -
  have "acl_packet n f a l body ! 6 = le16 a ! 1" "acl_packet n f a l body ! 5 = le16 a ! 0"
    "acl_packet n f a l body ! 8 = le16 l ! 1" "acl_packet n f a l body ! 7 = le16 l ! 0"
    by (simp_all add: acl_packet_def be16_def le16_def numeral_eq_Suc)
  then show "u16_of (acl_packet n f a l body ! 6) (acl_packet n f a l body ! 5) = a"
    "u16_of (acl_packet n f a l body ! 8) (acl_packet n f a l body ! 7) = l"
    by (simp_all only: u16_of_le16)
  show "acl_packet n f a l body ! 2 = H4_TYPE_ACL"
    by (simp add: acl_packet_def be16_def numeral_eq_Suc)
qed

lemma framed_acl_packet:
  assumes "length body + 7 = unat n" and "unat n \<le> 298"
    and "unat a + 5 = unat n" and "unat l + 9 = unat n"
  shows "framed (pad (acl_packet n f a l body))"
proof -
  let ?p = "acl_packet n f a l body"
  have len: "length ?p = 2 + unat n"
    using assms(1) by (simp add: length_acl_packet)
  have nth: "pad ?p ! i = ?p ! i" if "i < 9" for i
    using that by (simp add: pad_def nth_append length_acl_packet)
  have pl: "pack_len (pad ?p) = unat n"
    by (simp add: pad_def acl_packet_def pack_len_be16)
  show ?thesis
    using assms len
    by (auto simp: framed_def pl nth acl_packet_nth length_pad MAX_CMD_LEN_def zero_after_def)
      (auto simp: pad_def)
qed

end
