(* ===== verification/BtL2cap.thy ===== *)
theory BtL2cap
  imports BtStream
begin

text \<open>
  The L2CAP side of the Bluetooth stack (\<^verbatim>\<open>bt_main.c\<close>): the static variables of the file,
  the configuration responses of \<^verbatim>\<open>conf_req\<close>, the responses of \<^verbatim>\<open>l2cap_cmd_handler\<close> on the
  signalling channel and the service discovery answers. Every packet the code writes with
  the stream macros is one byte list below, in the order of the macros.

  \<^verbatim>\<open>queue_packet(cmd_buf)\<close> appends the 300 bytes of the buffer to \<open>sent\<close>; theory
  \<^verbatim>\<open>BtQueue\<close> takes the queue to the controller. Received packets are read with \<^term>\<open>rd\<close>, so
  a handler on a packet shorter than what it reads is \<^term>\<open>None\<close>.
\<close>

record bt_state =
  obex_cid :: u8
  connected :: u8
  src_cid :: u16
  dest_cid :: u16
  mtu :: u16
  obex_conn_id :: u16
  file_len :: u32
  fi_mem :: "u8 list option"
  cpy_mem :: "u8 list option"
  sent :: "u8 list list"

definition bt_init :: bt_state where
  "bt_init = \<lparr>obex_cid = 0, connected = 0, src_cid = 0, dest_cid = 0x41, mtu = 0,
     obex_conn_id = 1, file_len = - 1, fi_mem = None, cpy_mem = None, sent = []\<rparr>"

text \<open>\<^verbatim>\<open>set_cpy_addr\<close> gives the two destinations of a received file.\<close>

definition set_cpy_addr :: "u8 list \<Rightarrow> u8 list \<Rightarrow> bt_state \<Rightarrow> bt_state" where
  "set_cpy_addr fi cpy st = st\<lparr>fi_mem := Some fi, cpy_mem := Some cpy\<rparr>"

definition queue_cmd :: "stream \<Rightarrow> bt_state \<Rightarrow> bt_state" where
  "queue_cmd s st = st\<lparr>sent := sent st @ [fst s]\<rparr>"

subsection \<open>Configuration requests\<close>

text \<open>The extended feature mask of the answer to an MTU and EFM request.\<close>

definition efm_option :: "u8 list" where
  "efm_option = [0x04, 0x09, 0x03, 0x0a, 0x14] @ le16 2000 @ le16 12000 @ le16 1010"

definition conf_res_mtu :: "u16 \<Rightarrow> u16 \<Rightarrow> u8 \<Rightarrow> u16 \<Rightarrow> u16 \<Rightarrow> u8 list" where
  "conf_res_mtu flags sig ident src new_mtu = acl_packet 23 flags 18 14
     (le16 sig @ [0x05, ident] @ le16 10 @ le16 src @ le16 0 @ le16 0 @ [0x01, 0x02] @ le16 new_mtu)"

definition conf_res_mtu_efm :: "u16 \<Rightarrow> u16 \<Rightarrow> u8 \<Rightarrow> u16 \<Rightarrow> u16 \<Rightarrow> u8 list" where
  "conf_res_mtu_efm flags sig ident src new_mtu = acl_packet 34 flags 29 25
     (le16 sig @ [0x05, ident] @ le16 21 @ le16 src @ le16 0 @ le16 0 @ [0x01, 0x02] @ le16 new_mtu
      @ efm_option)"

definition conf_req_flow :: "u16 \<Rightarrow> u16 \<Rightarrow> u8 \<Rightarrow> u16 \<Rightarrow> u8 list" where
  "conf_req_flow flags sig ident src = acl_packet 21 flags 16 12
     (le16 sig @ [0x04, ident] @ le16 8 @ le16 src @ le16 0 @ [0x01, 0x02] @ le16 1024)"

definition ertm :: "u8 list" where
  "ertm = [0x04, 0x09, 0x03, 0x0a, 0x14, 0xd0, 0x07, 0xe0, 0x2e, 0xf2, 0x03]"

definition conf_req_ertm :: "u16 \<Rightarrow> u16 \<Rightarrow> u8 \<Rightarrow> u16 \<Rightarrow> u8 list" where
  "conf_req_ertm flags sig ident src = acl_packet 32 flags 27 23
     (le16 sig @ [0x04, ident] @ le16 19 @ le16 src @ le16 0 @ [0x01, 0x02] @ le16 1024 @ ertm)"

text \<open>The four branches are tried in the order of the code; the second and the last two
  read one more byte each. When none matches the buffer is left as it is.\<close>

definition conf_req :: "u16 \<Rightarrow> u16 \<Rightarrow> stream \<Rightarrow> u8 list \<Rightarrow> u16 \<Rightarrow> (stream \<times> u16) option" where
  "conf_req src old_mtu buf packet len = do {
     p17 \<leftarrow> rd packet 17;
     if p17 = 0x01 \<and> len < 22 then do {
       flags \<leftarrow> rd16 packet 1; sig \<leftarrow> rd16 packet 7; ident \<leftarrow> rd packet 10;
       m \<leftarrow> rd16 packet 19;
       buf' \<leftarrow> put (conf_res_mtu flags sig ident src m) buf;
       Some (buf', m) }
     else if p17 = 0x01 then do {
       p21 \<leftarrow> rd packet 21;
       if p21 = 0x04 then do {
         flags \<leftarrow> rd16 packet 1; sig \<leftarrow> rd16 packet 7; ident \<leftarrow> rd packet 10;
         m \<leftarrow> rd16 packet 19;
         buf' \<leftarrow> put (conf_res_mtu_efm flags sig ident src m) buf;
         Some (buf', m) }
       else Some (buf, old_mtu) }
     else if p17 = 0x04 then do {
       p19 \<leftarrow> rd packet 19;
       if p19 = 0x00 then do {
         flags \<leftarrow> rd16 packet 1; sig \<leftarrow> rd16 packet 7; ident \<leftarrow> rd packet 10;
         buf' \<leftarrow> put (conf_req_flow flags sig ident src) buf;
         Some (buf', 1024) }
       else if p19 = 0x03 then do {
         flags \<leftarrow> rd16 packet 1; sig \<leftarrow> rd16 packet 7; ident \<leftarrow> rd packet 10;
         buf' \<leftarrow> put (conf_req_ertm flags sig ident src) buf;
         Some (buf', 1024) }
       else Some (buf, old_mtu) }
     else Some (buf, old_mtu) }"

subsection \<open>Signalling channel\<close>

definition info_features :: "u16 \<Rightarrow> u16 \<Rightarrow> u8 \<Rightarrow> u8 list" where
  "info_features flags sig ident = acl_packet 21 flags 16 12
     (le16 sig @ [0x0b, ident] @ le16 8 @ le16 0x02 @ le16 0 @ le16 0x02b8 @ le16 0)"

definition info_channels :: "u16 \<Rightarrow> u16 \<Rightarrow> u8 \<Rightarrow> u8 list" where
  "info_channels flags sig ident = acl_packet 25 flags 20 16
     (le16 sig @ [0x0b, ident] @ le16 12 @ le16 0x0003 @ le16 0 @ le16 0x86 @ le16 0 @ le16 0 @ le16 0)"

definition conn_res :: "u16 \<Rightarrow> u16 \<Rightarrow> u8 \<Rightarrow> u16 \<Rightarrow> u16 \<Rightarrow> u8 list" where
  "conn_res flags sig ident dest src = acl_packet 21 flags 16 12
     (le16 sig @ [0x03, ident] @ le16 8 @ le16 dest @ le16 src @ le16 0 @ le16 0)"

definition conn_conf_obex :: "u16 \<Rightarrow> u16 \<Rightarrow> u8 \<Rightarrow> u16 \<Rightarrow> u8 list" where
  "conn_conf_obex flags sig ident src = acl_packet 28 flags 23 19
     (le16 sig @ [0x04, ident + 1] @ le16 15 @ le16 src @ le16 0 @ [0x04, 0x09, 0x03, 63, 3]
      @ le16 2000 @ le16 12000 @ le16 1012)"

definition conn_conf_other :: "u16 \<Rightarrow> u16 \<Rightarrow> u8 \<Rightarrow> u16 \<Rightarrow> u8 list" where
  "conn_conf_other flags sig ident src = acl_packet 28 flags 23 19
     (le16 sig @ [0x04, ident + 1] @ le16 15 @ le16 src @ le16 0 @ [4, 9]
      @ le16 0 @ le16 0 @ le16 0 @ le16 0 @ [0])"

definition conf_res_ok :: "u16 \<Rightarrow> u16 \<Rightarrow> u8 \<Rightarrow> u16 \<Rightarrow> u8 list" where
  "conf_res_ok flags sig ident src = acl_packet 19 flags 14 10
     (le16 sig @ [0x05, ident] @ le16 6 @ le16 src @ le16 0 @ le16 0)"

definition disconn_res :: "u16 \<Rightarrow> u16 \<Rightarrow> u8 \<Rightarrow> u16 \<Rightarrow> u16 \<Rightarrow> u8 list" where
  "disconn_res flags sig ident dcid scid = acl_packet 17 flags 12 8
     (le16 sig @ [0x07, ident] @ le16 4 @ le16 dcid @ le16 scid)"

definition l2cap_info_req :: "u8 list \<Rightarrow> u16 \<Rightarrow> u16 \<Rightarrow> u8 \<Rightarrow> bt_state \<Rightarrow> bt_state option" where
  "l2cap_info_req packet flags sig ident st = do {
     p13 \<leftarrow> rd packet 13;
     if p13 = 0x02 then do {
       s \<leftarrow> put (info_features flags sig ident) new_cmd; Some (queue_cmd s st) }
     else if p13 = 0x03 then do {
       s \<leftarrow> put (info_channels flags sig ident) new_cmd; Some (queue_cmd s st) }
     else Some st }"

definition l2cap_conn_req :: "u8 list \<Rightarrow> u16 \<Rightarrow> u16 \<Rightarrow> u8 \<Rightarrow> bt_state \<Rightarrow> bt_state option" where
  "l2cap_conn_req packet flags sig ident st = do {
     src \<leftarrow> rd16 packet 15;
     s \<leftarrow> put (conn_res flags sig ident (dest_cid st) src) new_cmd;
     let st1 = queue_cmd s (st\<lparr>src_cid := src\<rparr>);
     p13 \<leftarrow> rd packet 13;
     obex \<leftarrow> (if p13 = 0x09 then map_option (\<lambda>b. b = 0x10) (rd packet 14) else Some False);
     st2 \<leftarrow> (if obex then do {
          s' \<leftarrow> put (conn_conf_obex flags sig ident src) new_cmd;
          Some (queue_cmd s' (st1\<lparr>obex_cid := ucast (dest_cid st1)\<rparr>)) }
        else do {
          s' \<leftarrow> put (conn_conf_other flags sig ident src) new_cmd;
          Some (queue_cmd s' st1) });
     Some (st2\<lparr>dest_cid := dest_cid st2 + 1\<rparr>) }"

definition l2cap_conf_req :: "u8 list \<Rightarrow> u16 \<Rightarrow> bt_state \<Rightarrow> bt_state option" where
  "l2cap_conf_req packet len st = do {
     (s, m) \<leftarrow> conf_req (src_cid st) (mtu st) new_cmd packet len;
     Some (queue_cmd s (st\<lparr>mtu := m\<rparr>)) }"

definition l2cap_conf_res :: "u16 \<Rightarrow> u16 \<Rightarrow> u8 \<Rightarrow> bt_state \<Rightarrow> bt_state option" where
  "l2cap_conf_res flags sig ident st = do {
     s \<leftarrow> put (conf_res_ok flags sig ident (src_cid st)) new_cmd;
     Some (queue_cmd s st) }"

definition l2cap_disconn_req :: "u8 list \<Rightarrow> u16 \<Rightarrow> u16 \<Rightarrow> u8 \<Rightarrow> bt_state \<Rightarrow> bt_state option" where
  "l2cap_disconn_req packet flags sig ident st = do {
     dcid \<leftarrow> rd16 packet 13; scid \<leftarrow> rd16 packet 15;
     s \<leftarrow> put (disconn_res flags sig ident dcid scid) new_cmd;
     Some (queue_cmd s st) }"

definition l2cap_signal :: "u8 \<Rightarrow> u8 list \<Rightarrow> u16 \<Rightarrow> u16 \<Rightarrow> u16 \<Rightarrow> bt_state \<Rightarrow> bt_state option" where
  "l2cap_signal command packet len flags sig st = do {
     ident \<leftarrow> rd packet 10;
     if command = 0x0A then l2cap_info_req packet flags sig ident st
     else if command = 0x02 then l2cap_conn_req packet flags sig ident st
     else if command = 0x04 then l2cap_conf_req packet len st
     else if command = 0x05 then l2cap_conf_res flags sig ident st
     else if command = 0x06 then l2cap_disconn_req packet flags sig ident st
     else Some st }"

subsection \<open>Service discovery\<close>

definition obex_push :: "u8 list" where
  "obex_push =
    [0x35, 0x66, 0x35, 0x64, 0x09, 0x00, 0x00, 0x0a, 0x00, 0x01, 0x00, 0x0e, 0x09, 0x00, 0x01, 0x35,
     0x03, 0x19, 0x11, 0x05, 0x09, 0x00, 0x04, 0x35, 0x11, 0x35, 0x03, 0x19, 0x01, 0x00, 0x35, 0x05,
     0x19, 0x00, 0x03, 0x08, 0x09, 0x35, 0x03, 0x19, 0x00, 0x08, 0x09, 0x00, 0x05, 0x35, 0x03, 0x19,
     0x10, 0x02, 0x09, 0x00, 0x09, 0x35, 0x08, 0x35, 0x06, 0x19, 0x11, 0x05, 0x09, 0x01, 0x02, 0x09,
     0x01, 0x00, 0x25, 0x0b, 0x4f, 0x62, 0x6a, 0x65, 0x63, 0x74, 0x20, 0x50, 0x75, 0x73, 0x68, 0x09,
     0x02, 0x00, 0x09, 0x10, 0x09, 0x09, 0x03, 0x03, 0x35, 0x0e, 0x08, 0x01, 0x08, 0x02, 0x08, 0x03,
     0x08, 0x04, 0x08, 0x05, 0x08, 0x06, 0x08, 0xff]"

definition pnp :: "u8 list" where
  "pnp =
    [0x35, 0x36, 0x36, 0x00, 0x33, 0x09, 0x00, 0x00, 0x0a, 0x00, 0x01, 0x00, 0x02, 0x09, 0x00, 0x01,
     0x35, 0x03, 0x19, 0x12, 0x00, 0x09, 0x02, 0x00, 0x09, 0x01, 0x03, 0x09, 0x02, 0x01, 0x09, 0x00,
     0x75, 0x09, 0x02, 0x02, 0x09, 0x01, 0x00, 0x09, 0x02, 0x03, 0x09, 0x02, 0x01, 0x09, 0x02, 0x04,
     0x28, 0x01, 0x09, 0x02, 0x05, 0x09, 0x00, 0x01]"

definition sdp_obex :: "u16 \<Rightarrow> u16 \<Rightarrow> u16 \<Rightarrow> u8 list" where
  "sdp_obex flags src txn_id = acl_packet 121 flags 116 112
     (le16 src @ [0x07] @ le16 txn_id @ le16 0x6b00 @ le16 0x6800 @ obex_push @ [0])"

definition sdp_pnp :: "u16 \<Rightarrow> u16 \<Rightarrow> u16 \<Rightarrow> u8 list" where
  "sdp_pnp flags src txn_id = acl_packet 73 flags 68 64
     (le16 src @ [0x07] @ le16 txn_id @ le16 0x3b00 @ le16 0x3800 @ pnp @ [0])"

definition sdp_handler :: "u8 \<Rightarrow> u8 list \<Rightarrow> u16 \<Rightarrow> bt_state \<Rightarrow> bt_state option" where
  "sdp_handler command packet flags st = (if command = 0x06 then do {
     p17 \<leftarrow> rd packet 17;
     p18 \<leftarrow> (if p17 = 0x01 \<or> p17 = 0x11 \<or> p17 = 0x12 then rd packet 18 else Some 0);
     if p17 = 0x01 \<and> p18 = 0x00 \<or> p17 = 0x11 \<and> p18 = 0x05 then do {
       txn_id \<leftarrow> rd16 packet 10;
       s \<leftarrow> put (sdp_obex flags (src_cid st) txn_id) new_cmd; Some (queue_cmd s st) }
     else if p17 = 0x12 \<and> p18 = 0x00 then do {
       txn_id \<leftarrow> rd16 packet 10;
       s \<leftarrow> put (sdp_pnp flags (src_cid st) txn_id) new_cmd; Some (queue_cmd s st) }
     else Some st }
   else Some st)"

subsection \<open>Framing of the answers\<close>

named_theorems bt_framed \<open>the packets of the stack are framed\<close>

lemma framed_conf [bt_framed]:
  "framed (pad (conf_res_mtu f s i src m))"
  "framed (pad (conf_res_mtu_efm f s i src m))"
  "framed (pad (conf_req_flow f s i src))"
  "framed (pad (conf_req_ertm f s i src))"
  unfolding conf_res_mtu_def conf_res_mtu_efm_def conf_req_flow_def conf_req_ertm_def
  by (rule framed_acl_packet; simp add: efm_option_def ertm_def)+

lemma framed_info [bt_framed]:
  "framed (pad (info_features f s i))"
  "framed (pad (info_channels f s i))"
  unfolding info_features_def info_channels_def
  by (rule framed_acl_packet; simp)+

lemma framed_conn [bt_framed]:
  "framed (pad (conn_res f s i d src))"
  "framed (pad (conn_conf_obex f s i src))"
  "framed (pad (conn_conf_other f s i src))"
  "framed (pad (conf_res_ok f s i src))"
  "framed (pad (disconn_res f s i d src))"
  unfolding conn_res_def conn_conf_obex_def conn_conf_other_def conf_res_ok_def disconn_res_def
  by (rule framed_acl_packet; simp)+

lemma framed_sdp [bt_framed]:
  "framed (pad (sdp_obex f src t))"
  "framed (pad (sdp_pnp f src t))"
  unfolding sdp_obex_def sdp_pnp_def
  by (rule framed_acl_packet; simp add: obex_push_def pnp_def)+

named_theorems bt_lengths \<open>sizes of the packets of the stack\<close>

lemma bt_packet_lengths [bt_lengths]:
  "length (conf_res_mtu f s i src m) = 25" "length (conf_res_mtu_efm f s i src m) = 36"
  "length (conf_req_flow f s i src) = 23" "length (conf_req_ertm f s i src) = 34"
  "length (info_features f s i) = 23" "length (info_channels f s i) = 27"
  "length (conn_res f s i d src) = 23" "length (conn_conf_obex f s i src) = 30"
  "length (conn_conf_other f s i src) = 30" "length (conf_res_ok f s i src) = 21"
  "length (disconn_res f s i d src) = 19"
  "length (sdp_obex f src t) = 123" "length (sdp_pnp f src t) = 75"
  by (simp_all add: conf_res_mtu_def conf_res_mtu_efm_def conf_req_flow_def conf_req_ertm_def
    info_features_def info_channels_def conn_res_def conn_conf_obex_def conn_conf_other_def
    conf_res_ok_def disconn_res_def sdp_obex_def sdp_pnp_def length_acl_packet
    efm_option_def ertm_def obex_push_def pnp_def)

text \<open>On the cleared buffer each of them fits, so \<^term>\<open>put\<close> returns the padded packet.\<close>

lemma put_fresh [bt_lengths]: "length bs \<le> 300 \<Longrightarrow> put bs new_cmd = Some (pad bs, length bs)"
  by (simp add: put_new MAX_CMD_LEN_def)

definition emits :: "(u8 list \<Rightarrow> bool) \<Rightarrow> bt_state \<Rightarrow> bt_state \<Rightarrow> bool" where
  "emits P st st' \<longleftrightarrow> (\<exists>new. sent st' = sent st @ new \<and> (\<forall>m \<in> set new. P m))"

lemma emits_none [intro]: "sent st' = sent st \<Longrightarrow> emits P st st'"
  by (auto simp: emits_def)

lemma emits_one: "P (fst s) \<Longrightarrow> sent st' = sent st \<Longrightarrow> emits P st (queue_cmd s st')"
  by (auto simp: emits_def queue_cmd_def)

lemma emits_trans: "emits P st st' \<Longrightarrow> emits P st' st'' \<Longrightarrow> emits P st st''"
  by (force simp: emits_def)

lemma emits_mono: "emits P st st' \<Longrightarrow> (\<And>m. P m \<Longrightarrow> Q m) \<Longrightarrow> emits Q st st'"
  by (auto simp: emits_def)

lemma emits_upd [simp]:
  "emits P st (st'\<lparr>dest_cid := d\<rparr>) = emits P st st'"
  "emits P st (st'\<lparr>obex_cid := c\<rparr>) = emits P st st'"
  "emits P st (st'\<lparr>mtu := m\<rparr>) = emits P st st'"
  by (simp_all add: emits_def)

lemma l2cap_info_req_framed: "l2cap_info_req p f s i st = Some st' \<Longrightarrow> emits framed st st'"
  by (auto simp: l2cap_info_req_def bt_lengths bt_framed split: Option.bind_splits if_splits
    intro!: emits_one)

lemma l2cap_conf_res_framed: "l2cap_conf_res f s i st = Some st' \<Longrightarrow> emits framed st st'"
  by (auto simp: l2cap_conf_res_def bt_lengths bt_framed intro!: emits_one)

lemma l2cap_disconn_req_framed: "l2cap_disconn_req p f s i st = Some st' \<Longrightarrow> emits framed st st'"
  by (auto simp: l2cap_disconn_req_def bt_lengths bt_framed split: Option.bind_splits
    intro!: emits_one)

lemma l2cap_conn_req_framed: "l2cap_conn_req p f s i st = Some st' \<Longrightarrow> emits framed st st'"
  by (auto simp: l2cap_conn_req_def bt_lengths bt_framed Let_def emits_def queue_cmd_def
    split: Option.bind_splits if_splits)

lemma conf_req_fresh:
  "conf_req src old new_cmd p len = Some (s, m) \<Longrightarrow> framed (fst s) \<or> s = new_cmd \<and> m = old"
  by (auto simp: conf_req_def bt_lengths bt_framed split: Option.bind_splits if_splits)

lemma sdp_handler_framed: "sdp_handler c p f st = Some st' \<Longrightarrow> emits framed st st'"
  by (auto simp: sdp_handler_def bt_lengths bt_framed split: Option.bind_splits if_splits
    intro!: emits_one)

lemma l2cap_conf_req_framed:
  assumes "l2cap_conf_req p len st = Some st'"
  shows "emits (\<lambda>m. framed m \<or> m = pad []) st st'"
proof -
  obtain s m where s: "conf_req (src_cid st) (mtu st) new_cmd p len = Some (s, m)"
    and st': "st' = queue_cmd s (st\<lparr>mtu := m\<rparr>)"
    using assms by (auto simp: l2cap_conf_req_def split: Option.bind_splits)
  have "framed (fst s) \<or> fst s = pad []"
    using conf_req_fresh [OF s] by (auto simp: new_cmd_def pad_def)
  then show ?thesis by (auto simp: st' intro!: emits_one)
qed

lemma l2cap_signal_framed_emits:
  assumes "l2cap_signal c p len flags sig st = Some st'"
  shows "emits (\<lambda>m. framed m \<or> c = 0x04 \<and> m = pad []) st st'"
proof -
  obtain ident where ident: "rd p 10 = Some ident"
    using assms by (auto simp: l2cap_signal_def split: Option.bind_splits)
  show ?thesis
  proof (cases "c = 0x04")
    case True
    with assms ident show ?thesis
      by (auto simp: l2cap_signal_def dest!: l2cap_conf_req_framed elim: emits_mono)
  next
    case False
    with assms ident have "emits framed st st'"
      by (auto simp: l2cap_signal_def split: if_splits intro: l2cap_info_req_framed
        l2cap_conn_req_framed l2cap_conf_res_framed l2cap_disconn_req_framed)
    then show ?thesis by (rule emits_mono) simp
  qed
qed


subsection \<open>Reads stay inside the received packet\<close>

lemma conf_req_safe:
  "22 \<le> length p \<Longrightarrow> \<exists>r. conf_req src old new_cmd p len = Some r"
  by (auto simp: conf_req_def mem_simps bt_lengths)

lemma l2cap_conn_req_safe:
  "22 \<le> length p \<Longrightarrow> \<exists>st'. l2cap_conn_req p f s i st = Some st'"
  by (auto simp: l2cap_conn_req_def mem_simps bt_lengths Let_def)

text \<open>
  C8: the signalling handler reads nothing outside a received packet of at least 22 bytes,
  whatever its contents: it returns a next state.
\<close>

theorem l2cap_signal_safe:
  assumes "22 \<le> length p"
  shows "\<exists>st'. l2cap_signal c p len flags sig st = Some st'"
  using assms conf_req_safe [OF assms, of "src_cid st" "mtu st" len]
    l2cap_conn_req_safe [OF assms, of flags sig _ st]
  by (auto simp: l2cap_signal_def l2cap_info_req_def l2cap_conf_req_def l2cap_conf_res_def
    l2cap_disconn_req_def mem_simps bt_lengths)

subsection \<open>Channels\<close>

text \<open>
  A connection request is answered with the channel number held in \<^verbatim>\<open>dest_cid\<close> and
  the requester's own channel, which becomes \<^verbatim>\<open>src_cid\<close>; the next request gets the next
  number. When the request names the Object Push service, packets on the returned channel
  are recognised as OBEX exactly while that number is below 256: \<^verbatim>\<open>obex_cid\<close> is a byte.
\<close>

theorem l2cap_conn_req_channels:
  assumes "l2cap_conn_req p flags sig ident st = Some st'"
  shows "take 23 (sent st' ! length (sent st)) =
      conn_res flags sig ident (dest_cid st) (u16_of (p ! 16) (p ! 15)) \<and>
    src_cid st' = u16_of (p ! 16) (p ! 15) \<and> dest_cid st' = dest_cid st + 1 \<and>
    (p ! 13 = 0x09 \<and> p ! 14 = 0x10 \<longrightarrow> (dest_cid st = ucast (obex_cid st') \<longleftrightarrow> dest_cid st < 256)) \<and>
    (\<not> (p ! 13 = 0x09 \<and> p ! 14 = 0x10) \<longrightarrow> obex_cid st' = obex_cid st)"
proof -
  have trunc: "d = ucast (ucast d :: u8) \<longleftrightarrow> d < 256" for d :: u16
  proof -
    have "unat d = unat d mod 256 \<longleftrightarrow> unat d < 256"
      by (rule self_mod_iff) simp
    moreover have "unat (ucast (ucast d :: u8) :: u16) = unat d mod 256"
      by (simp add: unat_ucast_u8) (simp add: unsigned_ucast_eq take_bit_eq_mod)
    ultimately show ?thesis
      by (simp only: word_unat_eq_iff [of d] word_less_nat_alt) simp
  qed
  obtain src where "rd16 p 15 = Some src"
    using assms by (auto simp: l2cap_conn_req_def split: Option.bind_splits)
  then have len: "17 \<le> length p"
    by (auto simp: rd16_def rd_def split: Option.bind_splits if_splits)
  show ?thesis
    using assms len
    by (auto simp: l2cap_conn_req_def mem_simps bt_lengths Let_def queue_cmd_def nth_append
      take_pad trunc split: if_splits)
qed

theorem l2cap_signal_safe_witness:
  "\<exists>st'. l2cap_signal 0x04 (replicate 22 0) 22 0 1 bt_init = Some st'"
  by (rule l2cap_signal_safe) simp

text \<open>A connection request for Object Push with the initial channel number.\<close>

definition conn_req_example :: "u8 list" where
  "conn_req_example = replicate 13 0 @ [0x09, 0x10, 0x40, 0x00]"

theorem l2cap_conn_req_channels_witness:
  "\<exists>st'. l2cap_conn_req conn_req_example 0 1 2 bt_init = Some st' \<and>
    src_cid st' = u16_of 0x00 0x40 \<and> dest_cid st' = 0x42 \<and> 0x41 = (ucast (obex_cid st') :: u16)"
proof -
  have "\<exists>st'. l2cap_conn_req conn_req_example 0 1 2 bt_init = Some st'"
    by (simp add: l2cap_conn_req_def mem_simps bt_lengths Let_def conn_req_example_def)
  then obtain st' where st': "l2cap_conn_req conn_req_example 0 1 2 bt_init = Some st'" ..
  from l2cap_conn_req_channels [OF this] st' show ?thesis
    by (simp add: conn_req_example_def bt_init_def nth_append)
qed

text \<open>
  A configuration request whose first option is neither an MTU nor an extended feature
  mask option leaves the negotiated state alone and is answered with a packet of length 0.
\<close>

theorem l2cap_conf_unknown_option:
  assumes "18 \<le> length p" and "p ! 17 \<noteq> 0x01" and "p ! 17 \<noteq> 0x04"
  shows "l2cap_conf_req p len st = Some (queue_cmd new_cmd st) \<and> payload (fst new_cmd) = []"
  using assms
  by (simp add: l2cap_conf_req_def conf_req_def mem_simps new_cmd_def MAX_CMD_LEN_def
      payload_def pack_len_def)

theorem l2cap_conf_unknown_option_witness:
  "l2cap_conf_req (replicate 18 0x02) 18 bt_init = Some (queue_cmd new_cmd bt_init) \<and>
   payload (fst new_cmd) = []"
  by (rule l2cap_conf_unknown_option) simp_all

end
