(* ===== verification/Crc16.thy ===== *)
theory Crc16
  imports Base
begin

text \<open>
  The frame check sequence of the OBEX frames (\<^verbatim>\<open>bt_main.c\<close>, \<^verbatim>\<open>crc16_table\<close>,
  \<^verbatim>\<open>crc16_byte\<close> and \<^verbatim>\<open>crc16\<close>): the table-driven code, the bit-serial division by the
  reflected polynomial 0xA001 it stands for, and the residue law a receiver relies on.
  The two step functions share the locale \<^verbatim>\<open>crc_register\<close>, in which the facts on whole
  buffers are proved once.
\<close>

subsection \<open>The code\<close>

definition crc16_table :: "u16 list" where
  "crc16_table =
    [0x0000, 0xC0C1, 0xC181, 0x0140, 0xC301, 0x03C0, 0x0280, 0xC241,
     0xC601, 0x06C0, 0x0780, 0xC741, 0x0500, 0xC5C1, 0xC481, 0x0440,
     0xCC01, 0x0CC0, 0x0D80, 0xCD41, 0x0F00, 0xCFC1, 0xCE81, 0x0E40,
     0x0A00, 0xCAC1, 0xCB81, 0x0B40, 0xC901, 0x09C0, 0x0880, 0xC841,
     0xD801, 0x18C0, 0x1980, 0xD941, 0x1B00, 0xDBC1, 0xDA81, 0x1A40,
     0x1E00, 0xDEC1, 0xDF81, 0x1F40, 0xDD01, 0x1DC0, 0x1C80, 0xDC41,
     0x1400, 0xD4C1, 0xD581, 0x1540, 0xD701, 0x17C0, 0x1680, 0xD641,
     0xD201, 0x12C0, 0x1380, 0xD341, 0x1100, 0xD1C1, 0xD081, 0x1040,
     0xF001, 0x30C0, 0x3180, 0xF141, 0x3300, 0xF3C1, 0xF281, 0x3240,
     0x3600, 0xF6C1, 0xF781, 0x3740, 0xF501, 0x35C0, 0x3480, 0xF441,
     0x3C00, 0xFCC1, 0xFD81, 0x3D40, 0xFF01, 0x3FC0, 0x3E80, 0xFE41,
     0xFA01, 0x3AC0, 0x3B80, 0xFB41, 0x3900, 0xF9C1, 0xF881, 0x3840,
     0x2800, 0xE8C1, 0xE981, 0x2940, 0xEB01, 0x2BC0, 0x2A80, 0xEA41,
     0xEE01, 0x2EC0, 0x2F80, 0xEF41, 0x2D00, 0xEDC1, 0xEC81, 0x2C40,
     0xE401, 0x24C0, 0x2580, 0xE541, 0x2700, 0xE7C1, 0xE681, 0x2640,
     0x2200, 0xE2C1, 0xE381, 0x2340, 0xE101, 0x21C0, 0x2080, 0xE041,
     0xA001, 0x60C0, 0x6180, 0xA141, 0x6300, 0xA3C1, 0xA281, 0x6240,
     0x6600, 0xA6C1, 0xA781, 0x6740, 0xA501, 0x65C0, 0x6480, 0xA441,
     0x6C00, 0xACC1, 0xAD81, 0x6D40, 0xAF01, 0x6FC0, 0x6E80, 0xAE41,
     0xAA01, 0x6AC0, 0x6B80, 0xAB41, 0x6900, 0xA9C1, 0xA881, 0x6840,
     0x7800, 0xB8C1, 0xB981, 0x7940, 0xBB01, 0x7BC0, 0x7A80, 0xBA41,
     0xBE01, 0x7EC0, 0x7F80, 0xBF41, 0x7D00, 0xBDC1, 0xBC81, 0x7C40,
     0xB401, 0x74C0, 0x7580, 0xB541, 0x7700, 0xB7C1, 0xB681, 0x7640,
     0x7200, 0xB2C1, 0xB381, 0x7340, 0xB101, 0x71C0, 0x7080, 0xB041,
     0x5000, 0x90C1, 0x9181, 0x5140, 0x9301, 0x53C0, 0x5280, 0x9241,
     0x9601, 0x56C0, 0x5780, 0x9741, 0x5500, 0x95C1, 0x9481, 0x5440,
     0x9C01, 0x5CC0, 0x5D80, 0x9D41, 0x5F00, 0x9FC1, 0x9E81, 0x5E40,
     0x5A00, 0x9AC1, 0x9B81, 0x5B40, 0x9901, 0x59C0, 0x5880, 0x9841,
     0x8801, 0x48C0, 0x4980, 0x8941, 0x4B00, 0x8BC1, 0x8A81, 0x4A40,
     0x4E00, 0x8EC1, 0x8F81, 0x4F40, 0x8D01, 0x4DC0, 0x4C80, 0x8C41,
     0x4400, 0x84C1, 0x8581, 0x4540, 0x8701, 0x47C0, 0x4680, 0x8641,
     0x8201, 0x42C0, 0x4380, 0x8341, 0x4100, 0x81C1, 0x8081, 0x4040]"

definition crc16_byte :: "u16 \<Rightarrow> u8 \<Rightarrow> u16" where
  "crc16_byte crc data =
     drop_bit 8 crc XOR crc16_table ! unat ((crc XOR ucast data) AND 0xff)"

fun crc16 :: "u16 \<Rightarrow> u8 list \<Rightarrow> u16" where
  "crc16 crc [] = crc"
| "crc16 crc (b # buffer) = crc16 (crc16_byte crc b) buffer"

subsection \<open>The bit-serial register\<close>

definition crc_bit :: "u16 \<Rightarrow> u16" where
  "crc_bit c = drop_bit 1 c XOR (if bit c 0 then 0xA001 else 0)"

definition crc_serial :: "u16 \<Rightarrow> u8 \<Rightarrow> u16" where
  "crc_serial c d = (crc_bit ^^ 8) (c XOR ucast d)"

lemma crc_bit_xor: "crc_bit (a XOR b) = crc_bit a XOR crc_bit b"
  by (rule bit_eqI) (auto simp: crc_bit_def bit_simps)

lemma crc_bits_xor: "(crc_bit ^^ n) (a XOR b) = (crc_bit ^^ n) a XOR (crc_bit ^^ n) b"
  by (induction n arbitrary: a b) (simp_all add: crc_bit_xor funpow_swap1 del: funpow.simps(2) add: funpow_Suc_right)

lemma crc_bit_even: "\<not> bit c 0 \<Longrightarrow> crc_bit c = drop_bit 1 c"
  by (simp add: crc_bit_def)

lemma crc_bits_high:
  assumes "\<And>i. i < n \<Longrightarrow> \<not> bit c i"
  shows "(crc_bit ^^ n) c = drop_bit n c"
  using assms
proof (induction n arbitrary: c)
  case 0
  then show ?case by simp
next
  case (Suc n)
  have "(crc_bit ^^ Suc n) c = (crc_bit ^^ n) (crc_bit c)"
    by (simp add: funpow_Suc_right del: funpow.simps)
  also have "crc_bit c = drop_bit 1 c"
    using Suc.prems [of 0] by (simp add: crc_bit_even)
  also have "(crc_bit ^^ n) (drop_bit 1 c) = drop_bit n (drop_bit 1 c)"
    by (rule Suc.IH) (use Suc.prems in \<open>auto simp: bit_simps\<close>)
  finally show ?case by simp
qed




text \<open>
  The register step is linear over exclusive or, so a table of 256 entries is spanned by
  its eight entries at the powers of two.
\<close>

fun xor_span :: "u16 list \<Rightarrow> u16 list" where
  "xor_span [] = [0]"
| "xor_span (p # ps) = (let t = xor_span ps in t @ map (\<lambda>x. p XOR x) t)"

lemma crc16_table_span:
  "crc16_table = xor_span [0xA001, 0xF001, 0xD801, 0xCC01, 0xC601, 0xC301, 0xC181, 0xC0C1]"
  by (simp add: crc16_table_def)

lemma crc_bits_8: "(crc_bit ^^ 8) c =
    crc_bit (crc_bit (crc_bit (crc_bit (crc_bit (crc_bit (crc_bit (crc_bit c)))))))"
  by (simp add: numeral_eq_Suc)

lemma crc_bits_basis:
  "map (crc_bit ^^ 8) [128, 64, 32, 16, 8, 4, 2, 1] = [0xA001, 0xF001, 0xD801, 0xCC01, 0xC601, 0xC301, 0xC181, 0xC0C1]"
  by (simp add: crc_bits_8 crc_bit_def)

lemma length_xor_span: "length (xor_span ps) = 2 ^ length ps"
  by (induction ps) (simp_all add: Let_def)

lemma xor_span_linear:
  fixes f :: "u16 \<Rightarrow> u16"
  assumes lin: "\<And>a b. f (a XOR b) = f a XOR f b"
  shows "k \<le> 16 \<Longrightarrow> n < 2 ^ k \<Longrightarrow>
    xor_span (map (\<lambda>i. f (2 ^ i)) (rev [0..<k])) ! n = f (word_of_nat n)"
proof (induction k arbitrary: n)
  case 0
  have "f 0 = 0" using lin [of 0 0] by simp
  with 0 show ?case by simp
next
  case (Suc k)
  let ?t = "xor_span (map (\<lambda>i. f (2 ^ i)) (rev [0..<k]))"
  have len: "length ?t = 2 ^ k" by (simp add: length_xor_span)
  show ?case
  proof (cases "n < 2 ^ k")
    case True
    with Suc.IH Suc.prems show ?thesis by (simp add: Let_def nth_append len)
  next
    case False
    define m where "m = n - 2 ^ k"
    have n: "n = 2 ^ k + m" and m: "m < 2 ^ k"
      using False Suc.prems(2) by (auto simp: m_def)
    have "\<not> bit m k" using m by (simp add: bit_iff_odd)
    then have "2 ^ k AND m = 0"
      by (intro bit_eqI) (auto simp: bit_and_iff bit_exp_iff)
    then have "2 ^ k XOR m = 2 ^ k + m"
      by (rule disjunctive_add_eq_xor [symmetric])
    then have "(word_of_nat n :: u16) = 2 ^ k XOR word_of_nat m"
      by (metis n of_nat_xor_eq of_nat_numeral of_nat_power)
    then have fn: "f (word_of_nat n) = f (2 ^ k) XOR f (word_of_nat m)"
      by (simp only: lin)
    have "?t ! m = f (word_of_nat m)"
      using Suc.IH [OF _ m] Suc.prems(1) by simp
    moreover have "(?t @ map (\<lambda>x. f (2 ^ k) XOR x) ?t) ! n = f (2 ^ k) XOR ?t ! m"
      using nth_append_length_plus [of ?t _ m] m by (simp add: n len)
    ultimately show ?thesis by (simp add: Let_def fn del: of_nat_add)
  qed
qed

lemma crc16_table_nth: "n < 256 \<Longrightarrow> crc16_table ! n = (crc_bit ^^ 8) (word_of_nat n)"
proof -
  assume n: "n < 256"
  have "map (\<lambda>i. (crc_bit ^^ 8) (2 ^ i)) (rev [0..<8]) = map (crc_bit ^^ 8) [128, 64, 32, 16, 8, 4, 2, 1]"
    by (simp add: upt_rec)
  then have "crc16_table = xor_span (map (\<lambda>i. (crc_bit ^^ 8) (2 ^ i)) (rev [0..<8]))"
    by (simp only: crc16_table_span crc_bits_basis)
  with n show ?thesis
    using xor_span_linear [of "crc_bit ^^ 8" 8 n] by (simp add: crc_bits_xor)
qed

lemma crc16_byte_serial: "crc16_byte c d = crc_serial c d"
proof -
  define x where "x = c XOR ucast d"
  have hi: "(crc_bit ^^ 8) (x AND NOT (mask 8)) = drop_bit 8 x"
  proof -
    have "(crc_bit ^^ 8) (x AND NOT (mask 8)) = drop_bit 8 (x AND NOT (mask 8))"
      by (rule crc_bits_high) (simp add: bit_simps)
    also have "\<dots> = drop_bit 8 x"
      by (rule bit_eqI) (auto simp: bit_simps dest: bit_imp_le_length)
    finally show ?thesis .
  qed
  have "x AND mask 8 \<le> mask 8" by (rule word_and_le1)
  then have lo: "unat (x AND mask 8) < 256"
    by (simp add: word_le_nat_alt mask_eq_exp_minus_1)
  have "drop_bit 8 x = drop_bit 8 c"
    by (rule bit_eqI) (auto simp: x_def bit_simps dest: bit_imp_le_length)
  moreover have "(crc_bit ^^ 8) x = (crc_bit ^^ 8) ((x AND NOT (mask 8)) XOR (x AND mask 8))"
    by (rule arg_cong [where f = "crc_bit ^^ 8"], rule bit_eqI) (auto simp: bit_simps)
  ultimately show ?thesis
    using crc16_table_nth [OF lo] hi
    by (simp add: crc16_byte_def crc_serial_def x_def crc_bits_xor byte_mask)
qed

lemma crc_bit_inj: "crc_bit a = crc_bit b \<Longrightarrow> a = b"
proof -
  assume eq: "crc_bit a = crc_bit b"
  have top: "bit (crc_bit c) 15 = bit c 0" for c
    using bit_imp_le_length [of c 16] by (auto simp: crc_bit_def bit_simps)
  then have low: "bit a 0 = bit b 0" using eq by metis
  then have "drop_bit 1 a = drop_bit 1 b"
    using eq by (simp add: crc_bit_def xor_right_cancel)
  then have "bit a (Suc n) = bit b (Suc n)" for n
    by (metis bit_drop_bit_eq comp_apply plus_1_eq_Suc)
  with low have "bit a n = bit b n" for n by (cases n) auto
  then show "a = b" by (simp add: bit_eq_iff)
qed

lemma crc_bits_inj: "(crc_bit ^^ n) a = (crc_bit ^^ n) b \<Longrightarrow> a = b"
  by (induction n) (auto dest: crc_bit_inj)

subsection \<open>Registers that shift a byte in\<close>

definition crc_run :: "(u16 \<Rightarrow> u8 \<Rightarrow> u16) \<Rightarrow> u16 \<Rightarrow> u8 list \<Rightarrow> u16" where
  "crc_run step crc bs = foldl step crc bs"

locale crc_register =
  fixes step :: "u16 \<Rightarrow> u8 \<Rightarrow> u16"
  assumes step_crc_inj: "step a x = step b x \<Longrightarrow> a = b"
    and step_byte_inj: "step a x = step a y \<Longrightarrow> x = y"
    and step_flush: "step (step a (ucast a)) (ucast (drop_bit 8 a)) = 0"
begin

lemma run_append: "crc_run step crc (xs @ ys) = crc_run step (crc_run step crc xs) ys"
  by (simp add: crc_run_def)

lemma run_residue: "crc_run step crc (bs @ le16 (crc_run step crc bs)) = 0"
  by (simp add: run_append) (simp add: crc_run_def le16_def step_flush)

lemma run_inj: "crc_run step a bs = crc_run step b bs \<Longrightarrow> a = b"
  by (induction bs arbitrary: a b) (auto simp: crc_run_def dest: step_crc_inj)

lemma run_one_byte:
  "x \<noteq> y \<Longrightarrow> crc_run step crc (xs @ x # ys) \<noteq> crc_run step crc (xs @ y # ys)"
  using run_inj [of "step (crc_run step crc xs) x" ys "step (crc_run step crc xs) y"]
    step_byte_inj [of "crc_run step crc xs" x y]
  by (auto simp: crc_run_def)

end

lemma crc_serial_flush: "crc_serial (crc_serial a (ucast a)) (ucast (drop_bit 8 a)) = 0"
proof -
  have "(crc_bit ^^ 8) (a XOR ucast (ucast a :: u8)) = drop_bit 8 (a XOR ucast (ucast a :: u8))"
    by (rule crc_bits_high) (simp add: bit_simps)
  also have "\<dots> = ucast (ucast (drop_bit 8 a) :: u8)"
    by (rule bit_eqI) (auto simp: bit_simps dest: bit_imp_le_length)
  finally have "crc_serial a (ucast a) = ucast (ucast (drop_bit 8 a) :: u8)"
    by (simp add: crc_serial_def)
  moreover have "crc_bit 0 = 0" by (simp add: crc_bit_def)
  then have "(crc_bit ^^ n) 0 = 0" for n by (induction n) auto
  ultimately show ?thesis by (simp add: crc_serial_def)
qed

interpretation serial: crc_register crc_serial
proof unfold_locales
  fix a b x
  assume "crc_serial a x = crc_serial b x"
  then have "a XOR ucast x = b XOR ucast x"
    unfolding crc_serial_def by (rule crc_bits_inj)
  then show "a = b" by (simp only: xor_right_cancel)
next
  fix a :: u16 and x y :: u8
  assume "crc_serial a x = crc_serial a y"
  then have "a XOR ucast x = a XOR ucast y"
    unfolding crc_serial_def by (rule crc_bits_inj)
  then have "(ucast x :: u16) = ucast y"
    by (simp only: xor_left_cancel)
  then show "x = y" by (simp only: ucast_u8_inj)
next
  show "crc_serial (crc_serial a (ucast a)) (ucast (drop_bit 8 a)) = 0" for a
    by (rule crc_serial_flush)
qed

lemma crc16_byte_eq: "crc16_byte = crc_serial"
  by (intro ext) (rule crc16_byte_serial)

interpretation table: crc_register crc16_byte
  unfolding crc16_byte_eq by (rule serial.crc_register_axioms)

lemma crc16_run: "crc16 crc bs = crc_run crc16_byte crc bs"
  by (induction bs arbitrary: crc) (simp_all add: crc_run_def)

subsection \<open>What the code computes\<close>

text \<open>
  C10: the table-driven \<^verbatim>\<open>crc16\<close> of bt_main.c computes, on every buffer and from every
  start value, the bit-serial cyclic redundancy check with the reflected polynomial
  0xA001: none of the 256 table entries and no shift of \<^verbatim>\<open>crc16_byte\<close> departs from it.
\<close>

theorem crc16_table_driven: "crc16 crc bs = crc_run crc_serial crc bs"
  by (simp add: crc16_run crc16_byte_eq)

text \<open>
  A frame that ends in its own check sequence, low byte first as \<^verbatim>\<open>UINT16_TO_STREAM\<close>
  writes it, has check sequence 0: the test by which the peer accepts the frames the code
  sends.
\<close>

theorem crc16_residue: "crc16 crc (bs @ le16 (crc16 crc bs)) = 0"
  by (simp add: crc16_run table.run_residue)

text \<open>
  The check sequence tells apart any two buffers that differ in exactly one byte,
  whatever the bytes around it.
\<close>

theorem crc16_one_byte:
  "x \<noteq> y \<Longrightarrow> crc16 crc (xs @ x # ys) \<noteq> crc16 crc (xs @ y # ys)"
  by (simp add: crc16_run table.run_one_byte)

theorem crc16_one_byte_witness: "crc16 0 ([1] @ 2 # [3]) \<noteq> crc16 0 ([1] @ 3 # [3])"
  by (rule crc16_one_byte) simp

end
