(* ===== verification/BtObex.thy ===== *)
theory BtObex
  imports BtL2cap Crc16
begin

text \<open>
  The OBEX side of the Bluetooth stack (\<^verbatim>\<open>bt_main.c\<close>, \<^verbatim>\<open>obex_ftp\<close>), the dispatch of ACL
  packets between signalling, OBEX and service discovery (\<^verbatim>\<open>l2cap_cmd_handler\<close>), the HCI
  events and commands, and \<^verbatim>\<open>host_rcv_pkt\<close>, the callback of the controller.

  The header loop of a PUT packet has no bound in the code; it runs with fuel, one unit
  per iteration, and gives \<^term>\<open>Running\<close> when the fuel ends first. A fault (a read outside the
  packet, a write outside a buffer or through a null destination) is \<^term>\<open>None\<close>.
\<close>

subsection \<open>Frames\<close>

text \<open>\<^verbatim>\<open>fcs = crc16(0, &cmd_buf[7], n); UINT16_TO_STREAM(buf, fcs)\<close>\<close>

definition put_fcs :: "nat \<Rightarrow> stream \<Rightarrow> stream option" where
  "put_fcs n s = put (le16 (crc16 0 (take n (drop 7 (fst s))))) s"

definition obex_ack :: "u16 \<Rightarrow> u16 \<Rightarrow> u8 \<Rightarrow> stream \<Rightarrow> stream option" where
  "obex_ack flags src tx buf = do {
     s \<leftarrow> put (acl_packet 13 flags 8 4 (le16 src @ [0x01, tx])) buf;
     put_fcs 6 s }"

definition obex_connect :: "u16 \<Rightarrow> u16 \<Rightarrow> u16 \<Rightarrow> stream \<Rightarrow> stream option" where
  "obex_connect flags src conn_id buf = do {
     s \<leftarrow> put (acl_packet 25 flags 20 16
            (le16 src @ [0x00, 0x01, 0xa0, 0, 0x0c, 0x10, 0x00] @ be16 MAX_OBEX_PACK @ [0xcb]
             @ le16 0x00 @ be16 conn_id)) buf;
     put_fcs 18 s }"

definition obex_srm :: "u16 \<Rightarrow> u16 \<Rightarrow> u8 \<Rightarrow> u8 \<Rightarrow> stream \<Rightarrow> stream option" where
  "obex_srm flags src reqseq txseq buf = do {
     s \<leftarrow> put (acl_packet 18 flags 13 9
            (le16 src @ [push_bit 1 reqseq, drop_bit 1 txseq + 1, 0x90, 0x00, 0x05, 0x97, 0x01])) buf;
     put_fcs 11 s }"

definition obex_end :: "u16 \<Rightarrow> u16 \<Rightarrow> u8 \<Rightarrow> u8 \<Rightarrow> stream \<Rightarrow> stream option" where
  "obex_end flags src reqseq txseq buf = do {
     s \<leftarrow> put (acl_packet 16 flags 11 7
            (le16 src @ [push_bit 1 reqseq, drop_bit 1 txseq + 1, 0xa0, 0x00, 0x03])) buf;
     put_fcs 9 s }"

subsection \<open>The headers of a PUT packet\<close>

text \<open>The bytes \<^verbatim>\<open>packet[j], packet[j + s + 1], ...\<close> below \<^verbatim>\<open>hi\<close>: the two copy loops step by
  2 (a UTF-16 name, one byte kept of each pair) and by 1 (the contents).\<close>

function gather :: "nat \<Rightarrow> u8 list \<Rightarrow> nat \<Rightarrow> nat \<Rightarrow> u8 list option" where
  "gather s packet j hi = (if j < hi then do {
       b \<leftarrow> rd packet j;
       bs \<leftarrow> gather s packet (j + Suc s) hi;
       Some (b # bs) } else Some [])"
  by pat_completeness auto
termination
  by (relation "measure (\<lambda>(s, packet, j, hi). hi - j)") auto

declare gather.simps [simp del]

text \<open>\<^verbatim>\<open>dst[k++] = ...; dst[k] = 0\<close> for a destination that may be the null pointer.\<close>

definition store_str :: "u8 list \<Rightarrow> u8 list option \<Rightarrow> u8 list option" where
  "store_str bs dst = do { m \<leftarrow> dst; wr m 0 (bs @ [0]) }"

definition shift_len :: "u32 \<Rightarrow> u8 \<Rightarrow> u32" where
  "shift_len acc b = push_bit 8 acc + ucast b"

type_synonym put_state = "nat \<times> bool \<times> stream \<times> bt_state"

definition put_name :: "u8 list \<Rightarrow> put_state \<Rightarrow> put_state option" where
  "put_name packet ps = (case ps of (i, snd_flag, buf, st) \<Rightarrow> do {
     head_len \<leftarrow> rd16_be packet (i + 1);
     bs \<leftarrow> gather 1 packet (i + 4) (unat head_len + i);
     m \<leftarrow> store_str bs (fi_mem st);
     Some (i + unat head_len, snd_flag, buf, st\<lparr>fi_mem := Some m\<rparr>) })"

definition put_length_hdr :: "u8 list \<Rightarrow> put_state \<Rightarrow> put_state option" where
  "put_length_hdr packet ps = (case ps of (i, snd_flag, buf, st) \<Rightarrow> do {
     b1 \<leftarrow> rd packet (i + 1); b2 \<leftarrow> rd packet (i + 2);
     b3 \<leftarrow> rd packet (i + 3); b4 \<leftarrow> rd packet (i + 4);
     Some (i + 5, snd_flag, buf, st\<lparr>file_len := foldl shift_len (file_len st) [b1, b2, b3, b4]\<rparr>) })"

definition put_body :: "u8 list \<Rightarrow> put_state \<Rightarrow> put_state option" where
  "put_body packet ps = (case ps of (i, snd_flag, buf, st) \<Rightarrow> do {
     head_len \<leftarrow> rd16_be packet (i + 1);
     bs \<leftarrow> gather 0 packet (i + 3) (unat head_len + i);
     m \<leftarrow> store_str bs (cpy_mem st);
     Some (i + unat head_len, snd_flag, buf, st\<lparr>cpy_mem := Some m\<rparr>) })"

definition put_step :: "u8 list \<Rightarrow> u16 \<Rightarrow> u8 \<Rightarrow> u8 \<Rightarrow> put_state \<Rightarrow> put_state option" where
  "put_step packet flags reqseq txseq ps = (case ps of (i, snd_flag, buf, st) \<Rightarrow> do {
     h \<leftarrow> rd packet i;
     if h = 0xcb then Some (i + 5, snd_flag, buf, st)
     else if h = 0x01 then put_name packet ps
     else if h = 0xc3 then put_length_hdr packet ps
     else if h = 0x48 then put_body packet ps
     else if h = 0x42 then do {
       head_len \<leftarrow> rd16_be packet (i + 1);
       Some (i + unat head_len, snd_flag, buf, st) }
     else if h = 0x97 then do {
       buf' \<leftarrow> obex_srm flags (src_cid st) reqseq txseq buf;
       Some (i + 2, True, buf', st) }
     else if h = 0x49 then do {
       buf' \<leftarrow> obex_end flags (src_cid st) reqseq txseq buf;
       Some (i + 3, True, buf', st) }
     else Some ps })"

fun put_loop :: "nat \<Rightarrow> u8 list \<Rightarrow> u16 \<Rightarrow> u16 \<Rightarrow> u8 \<Rightarrow> u8 \<Rightarrow> put_state \<Rightarrow> put_state run option" where
  "put_loop 0 packet len flags reqseq txseq ps = Some Running"
| "put_loop (Suc fuel) packet len flags reqseq txseq ps =
     (if int (fst ps) < int (unat len) - 2 then do {
        ps' \<leftarrow> put_step packet flags reqseq txseq ps;
        put_loop fuel packet len flags reqseq txseq ps' }
      else Some (Done ps))"

subsection \<open>The OBEX handler\<close>

definition obex_ftp :: "nat \<Rightarrow> u8 list \<Rightarrow> u16 \<Rightarrow> bt_state \<Rightarrow> bt_state run option" where
  "obex_ftp fuel packet len st = do {
     flags \<leftarrow> rd16 packet 1;
     p11 \<leftarrow> rd packet 11; p10 \<leftarrow> rd packet 10; p9 \<leftarrow> rd packet 9;
     let command = p11 AND 0x7f;
     let reqseq = p10 AND 0x3f;
     let txseq = p9 AND 0x7e;
     let frame_type = p9 AND 0x01;
     (buf, st1) \<leftarrow> (if (unat txseq div 2 + 1) mod 8 = 0 then do {
          s \<leftarrow> obex_ack flags (src_cid st) (drop_bit 1 txseq + 1) new_cmd;
          Some (rewind s, queue_cmd s st) }
        else Some (new_cmd, st));
     if frame_type = 0 \<and> command = 0x00 then do {
       s \<leftarrow> obex_connect flags (src_cid st1) (obex_conn_id st1) buf;
       Some (Done (queue_cmd s st1)) }
     else if frame_type = 0 \<and> command = 0x02 then do {
       r \<leftarrow> put_loop fuel packet len flags reqseq txseq (14, False, buf, st1);
       (case r of Running \<Rightarrow> Some Running
        | Done (i, snd_flag, buf', st2) \<Rightarrow>
            Some (Done (if snd_flag then queue_cmd buf' st2 else st2))) }
     else Some (Done st1) }"

subsection \<open>Dispatch\<close>

definition l2cap_cmd_handler :: "nat \<Rightarrow> u8 list \<Rightarrow> u16 \<Rightarrow> bt_state \<Rightarrow> bt_state run option" where
  "l2cap_cmd_handler fuel packet len st = do {
     flags \<leftarrow> rd16 packet 1; sig \<leftarrow> rd16 packet 7; command \<leftarrow> rd packet 9;
     if sig = 0x01 then map_option Done (l2cap_signal command packet len flags sig st)
     else if sig = ucast (obex_cid st) then obex_ftp fuel packet len st
     else map_option Done (sdp_handler command packet flags st) }"

definition acl_event_handler :: "nat \<Rightarrow> u8 list \<Rightarrow> u16 \<Rightarrow> bt_state \<Rightarrow> bt_state run option" where
  "acl_event_handler fuel packet len st = l2cap_cmd_handler fuel packet len st"

text \<open>\<^verbatim>\<open>pin\<close> is "1234".\<close>

definition pin :: "u8 list" where
  "pin = [0x31, 0x32, 0x33, 0x34]"

definition hci_cmd :: "u16 \<Rightarrow> u16 \<Rightarrow> u8 \<Rightarrow> u8 list \<Rightarrow> u8 list" where
  "hci_cmd n opcode plen params = be16 n @ [H4_TYPE_COMMAND] @ le16 opcode @ [plen] @ params"

definition hci_event_handler :: "u8 list \<Rightarrow> bt_state \<Rightarrow> bt_state option" where
  "hci_event_handler packet st = do {
     event \<leftarrow> rd packet 1;
     if event = 0x04 then do {
       b3 \<leftarrow> rd packet 3; b4 \<leftarrow> rd packet 4; b5 \<leftarrow> rd packet 5;
       b6 \<leftarrow> rd packet 6; b7 \<leftarrow> rd packet 7; b8 \<leftarrow> rd packet 8;
       s \<leftarrow> put (hci_cmd 11 (if connected st = 0 then 0x0009 OR push_bit 10 0x01
                                 else 0x000A OR push_bit 10 0x01) 7
                ([b3, b4, b5, b6, b7, b8] @ [1])) new_cmd;
       Some (queue_cmd s st) }
     else if event = 0x16 then do {
       b3 \<leftarrow> rd packet 3; b4 \<leftarrow> rd packet 4; b5 \<leftarrow> rd packet 5;
       b6 \<leftarrow> rd packet 6; b7 \<leftarrow> rd packet 7; b8 \<leftarrow> rd packet 8;
       s \<leftarrow> put (hci_cmd 27 (0x000D OR push_bit 10 0x01) 23
                ([b3, b4, b5, b6, b7, b8] @ [word_of_nat (length pin)] @ pin)) new_cmd;
       Some (queue_cmd s st) }
     else Some st }"

definition host_rcv_pkt :: "nat \<Rightarrow> u8 list \<Rightarrow> u16 \<Rightarrow> bt_state \<Rightarrow> bt_state run option" where
  "host_rcv_pkt fuel data len st = do {
     t \<leftarrow> rd data 0;
     if t = 0x04 then map_option Done (hci_event_handler data st)
     else if t = 0x02 then acl_event_handler fuel data len st
     else Some (Done st) }"

subsection \<open>Advertising commands\<close>

text \<open>The static \<^verbatim>\<open>hci_cmd_buf\<close> is written from its start by each command and never cleared.\<close>

definition HCI_RESET :: u16 where "HCI_RESET = 0x0003 OR push_bit 10 0x03"

definition HCI_CHANGE_LOCAL_NAME :: u16 where "HCI_CHANGE_LOCAL_NAME = 0x0013 OR push_bit 10 0x03"

definition HCI_SET_SCAN_MODE :: u16 where "HCI_SET_SCAN_MODE = 0x001a OR push_bit 10 0x03"

definition make_cmd_reset :: "u8 list \<Rightarrow> stream option" where
  "make_cmd_reset m = put (hci_cmd 4 HCI_RESET 0 []) (m, 0)"

definition make_cmd_chanage_local_name :: "u8 list \<Rightarrow> u8 list \<Rightarrow> stream option" where
  "make_cmd_chanage_local_name m name = put (hci_cmd 252 HCI_CHANGE_LOCAL_NAME 248 name) (m, 0)"

definition make_cmd_set_scan_mode :: "u8 list \<Rightarrow> u8 \<Rightarrow> stream option" where
  "make_cmd_set_scan_mode m scan_mode = put (hci_cmd 5 HCI_SET_SCAN_MODE 1 [scan_mode]) (m, 0)"

text \<open>The device name \<^verbatim>\<open>tag\<close>, "SBC23G10H3".\<close>

definition device_name :: "u8 list" where
  "device_name = [0x53, 0x42, 0x43, 0x32, 0x33, 0x47, 0x31, 0x30, 0x48, 0x33]"

text \<open>
  One round of the loop of \<^verbatim>\<open>btAdvtTask\<close>: the counter \<^verbatim>\<open>cmd_cnt\<close>, the static buffer and the
  stack state, with the answer of \<^verbatim>\<open>esp_vhci_host_check_send_available\<close>.
\<close>

definition adv_round :: "bool \<Rightarrow> nat \<times> u8 list \<times> bt_state \<Rightarrow> (nat \<times> u8 list \<times> bt_state) option" where
  "adv_round send_avail a = (case a of (cmd_cnt, m, st) \<Rightarrow>
     if send_avail then
       (if cmd_cnt = 0 then do { s \<leftarrow> make_cmd_reset m; Some (1, fst s, queue_cmd s st) }
        else if cmd_cnt = 1 then do {
          s \<leftarrow> make_cmd_chanage_local_name m device_name; Some (2, fst s, queue_cmd s st) }
        else if cmd_cnt = 2 then do {
          s \<leftarrow> make_cmd_set_scan_mode m 3; Some (3, fst s, queue_cmd s st) }
        else Some a)
     else Some a)"

subsection \<open>The frames the handler sends\<close>

text \<open>The part of a queued packet that \<^verbatim>\<open>send\<close> passes on is an ACL packet with agreeing lengths
  whose information payload ends in its own check sequence.\<close>

definition lead_ok :: "u8 list \<Rightarrow> bool" where
  "lead_ok m \<longleftrightarrow> length m = MAX_CMD_LEN \<and> 2 + pack_len m \<le> MAX_CMD_LEN \<and> 9 \<le> pack_len m \<and>
     m ! 2 = H4_TYPE_ACL \<and>
     unat (u16_of (m ! 6) (m ! 5)) = pack_len m - 5 \<and>
     unat (u16_of (m ! 8) (m ! 7)) = pack_len m - 9 \<and>
     crc16 0 (take (pack_len m - 5) (drop 7 m)) = 0"

lemma lead_ok_prefix:
  assumes ok: "lead_ok m" and len: "length m' = length m"
    and same: "take k m' = take k m" and k: "2 + pack_len m \<le> k"
  shows "lead_ok m' \<and> pack_len m' = pack_len m"
proof -
  have nth: "m' ! i = m ! i" if "i < 9" for i
    using arg_cong [OF same, of "\<lambda>xs. xs ! i"] that ok k by (simp add: lead_ok_def)
  then have pl: "pack_len m' = pack_len m" by (simp add: pack_len_def)
  have "take (pack_len m - 5) (drop 7 m') = drop 7 (take (2 + pack_len m) m')"
    using ok by (simp add: drop_take lead_ok_def)
  also have "take (2 + pack_len m) m' = take (2 + pack_len m) m"
    using arg_cong [OF same, of "take (2 + pack_len m)"] k by (simp add: min_def)
  also have "drop 7 (take (2 + pack_len m) m) = take (pack_len m - 5) (drop 7 m)"
    using ok by (simp add: drop_take lead_ok_def)
  finally show ?thesis using ok by (simp add: lead_ok_def pl nth len)
qed

lemma put_prefix: "put bs s = Some s' \<Longrightarrow> take (snd s) (fst s') = take (snd s) (fst s)"
  by (auto simp: put_def wr_def split: if_splits)

lemma put_keeps_lead:
  assumes "put bs s = Some s'" and "lead_ok (fst s)" and "2 + pack_len (fst s) \<le> snd s"
  shows "lead_ok (fst s') \<and> 2 + pack_len (fst s') \<le> snd s'"
  using lead_ok_prefix [OF assms(2) _ put_prefix [OF assms(1)] assms(3)] put_length [OF assms(1)] assms(3)
  by auto

lemma lead_frame:
  assumes m: "length m = MAX_CMD_LEN" and n: "unat n = length body + 9" "unat n \<le> 298"
    and a: "unat a + 5 = unat n" and l: "unat l + 9 = unat n"
    and s: "put (acl_packet n f a l body) (m, 0) = Some s" and k: "k = length body + 2"
    and s': "put_fcs k s = Some s'"
  shows "lead_ok (fst s') \<and> 2 + pack_len (fst s') \<le> snd s'"
proof -
  let ?p = "acl_packet n f a l body"
  define fcs where "fcs = crc16 0 (drop 7 ?p)"
  have lp: "length ?p = length body + 9" by (simp add: length_acl_packet)
  have fs: "s = (?p @ drop (length ?p) m, length ?p)"
    using s m n put_at_start [of ?p m] by (simp add: lp MAX_CMD_LEN_def)
  have "take k (drop 7 (fst s)) = drop 7 ?p"
    by (simp add: fs lp k)
  then have "put (le16 fcs) s = Some s'" using s' by (simp add: put_fcs_def fcs_def)
  then have fs': "s' = (?p @ le16 fcs @ drop (length body + 11) m, length body + 11)"
    using m n by (auto simp: put_def wr_def fs lp MAX_CMD_LEN_def add.commute)
  have pl: "pack_len (fst s') = unat n" by (simp add: fs' acl_packet_def pack_len_be16)
  have nth: "fst s' ! i = ?p ! i" if "i < 9" for i
    using that by (simp add: fs' nth_append lp)
  have "take (unat n - 5) (drop 7 (fst s')) = drop 7 ?p @ le16 fcs"
    by (simp add: fs' lp n)
  then have "crc16 0 (take (unat n - 5) (drop 7 (fst s'))) = 0"
    by (simp add: fcs_def crc16_run table.run_residue)
  then show ?thesis
    using n a l m by (simp add: lead_ok_def pl nth acl_packet_nth) (simp add: fs' lp MAX_CMD_LEN_def)
qed

lemma lead_ack:
  "obex_ack flags src tx (m, 0) = Some s \<Longrightarrow> length m = MAX_CMD_LEN \<Longrightarrow> lead_ok (fst s)"
  by (auto simp: obex_ack_def split: Option.bind_splits dest!: lead_frame [rotated 5, where k = 6])

lemma lead_connect:
  "obex_connect flags src c (m, 0) = Some s \<Longrightarrow> length m = MAX_CMD_LEN \<Longrightarrow> lead_ok (fst s)"
  by (auto simp: obex_connect_def split: Option.bind_splits dest!: lead_frame [rotated 5, where k = 18])

text \<open>What the loop keeps of the command buffer: untouched, or a lead frame and then bytes
  the length prefix does not cover.\<close>

definition buf_inv :: "bool \<Rightarrow> stream \<Rightarrow> bool" where
  "buf_inv snd_flag buf \<longleftrightarrow> length (fst buf) = MAX_CMD_LEN \<and>
     (if snd_flag then lead_ok (fst buf) \<and> 2 + pack_len (fst buf) \<le> snd buf else snd buf = 0)"

lemma put_fcs_put: "put_fcs k s = Some s' \<Longrightarrow> \<exists>bs. put bs s = Some s'"
  by (auto simp: put_fcs_def)

lemma lead_response:
  assumes inv: "buf_inv b buf" and n: "unat n = length body + 9" "unat n \<le> 298"
    and a: "unat a + 5 = unat n" and l: "unat l + 9 = unat n"
    and s: "put (acl_packet n f a l body) buf = Some s" and k: "k = length body + 2"
    and s': "put_fcs k s = Some s'"
  shows "buf_inv True s'"
proof (cases b)
  case True
  with inv have buf: "lead_ok (fst buf)" "2 + pack_len (fst buf) \<le> snd buf"
    by (simp_all add: buf_inv_def)
  obtain bs where bs: "put bs s = Some s'" using put_fcs_put [OF s'] ..
  have "lead_ok (fst s) \<and> 2 + pack_len (fst s) \<le> snd s"
    by (rule put_keeps_lead [OF s buf])
  then have "lead_ok (fst s') \<and> 2 + pack_len (fst s') \<le> snd s'"
    using put_keeps_lead [OF bs] by blast
  then show ?thesis by (simp add: buf_inv_def lead_ok_def)
next
  case False
  with inv have "buf = (fst buf, 0)" and len: "length (fst buf) = MAX_CMD_LEN"
    by (auto simp: buf_inv_def prod_eq_iff)
  with s have "put (acl_packet n f a l body) (fst buf, 0) = Some s" by simp
  from lead_frame [OF len n a l this k s'] show ?thesis
    by (simp add: buf_inv_def lead_ok_def)
qed

lemma srm_inv: "obex_srm flags src r t buf = Some s \<Longrightarrow> buf_inv b buf \<Longrightarrow> buf_inv True s"
  by (auto simp: obex_srm_def split: Option.bind_splits dest!: lead_response [rotated 5, where k = 11])

lemma end_inv: "obex_end flags src r t buf = Some s \<Longrightarrow> buf_inv b buf \<Longrightarrow> buf_inv True s"
  by (auto simp: obex_end_def split: Option.bind_splits dest!: lead_response [rotated 5, where k = 9])

text \<open>A step keeps it, and changes nothing of the connection.\<close>

definition same_conn :: "bt_state \<Rightarrow> bt_state \<Rightarrow> bool" where
  "same_conn st st' \<longleftrightarrow> connected st' = connected st \<and> obex_conn_id st' = obex_conn_id st"

lemma put_step_inv:
  assumes "put_step p flags r t (i, b, buf, st) = Some (i', b', buf', st')" and "buf_inv b buf"
  shows "buf_inv b' buf' \<and> sent st' = sent st \<and> same_conn st st' \<and> (i' = i \<or> i < i')"
  using assms
  by (auto simp: put_step_def put_name_def put_length_hdr_def put_body_def same_conn_def
    split: Option.bind_splits if_splits dest: srm_inv end_inv)

lemma put_loop_inv:
  assumes "put_loop fuel p len flags r t (i, b, buf, st) = Some (Done (i', b', buf', st'))"
    and "buf_inv b buf"
  shows "buf_inv b' buf' \<and> sent st' = sent st \<and> same_conn st st'"
  using assms
proof (induction fuel arbitrary: i b buf st)
  case (Suc fuel)
  show ?case
  proof (cases "int i < int (unat len) - 2")
    case True
    with Suc.prems obtain i1 b1 buf1 st1 where
      st1: "put_step p flags r t (i, b, buf, st) = Some (i1, b1, buf1, st1)" and
      rest: "put_loop fuel p len flags r t (i1, b1, buf1, st1) = Some (Done (i', b', buf', st'))"
      by (auto split: Option.bind_splits)
    from put_step_inv [OF st1 Suc.prems(2)] Suc.IH [OF rest] show ?thesis
      by (auto simp: same_conn_def)
  next
    case False
    with Suc.prems show ?thesis by (auto simp: same_conn_def)
  qed
qed simp

lemma buf_inv_new: "buf_inv False new_cmd" "buf_inv False (rewind s) = (length (fst s) = MAX_CMD_LEN)"
  by (simp_all add: buf_inv_def new_cmd_def rewind_def)

lemma ack_new: "obex_ack flags src tx new_cmd = Some s \<Longrightarrow> lead_ok (fst s)"
  by (rule lead_ack [where m = "replicate MAX_CMD_LEN 0"]) (simp_all add: new_cmd_def)

lemma connect_start:
  "obex_connect flags src c buf = Some s \<Longrightarrow> buf_inv False buf \<Longrightarrow> lead_ok (fst s)"
  by (cases buf) (auto simp: buf_inv_def intro: lead_connect)

lemma obex_ftp_emits:
  assumes "obex_ftp fuel p len st = Some (Done st')"
  shows "emits lead_ok st st' \<and> same_conn st st'"
proof -
  obtain p1 p9 p10 p11 where rd: "rd16 p 1 = Some p1" "rd p 9 = Some p9" "rd p 10 = Some p10"
      "rd p 11 = Some p11"
    using assms by (auto simp: obex_ftp_def split: Option.bind_splits)
  define start where "start = (if (unat (p9 AND 0x7e) div 2 + 1) mod 8 = 0 then do {
          s \<leftarrow> obex_ack p1 (src_cid st) (drop_bit 1 (p9 AND 0x7e) + 1) new_cmd;
          Some (rewind s, queue_cmd s st) }
        else Some (new_cmd, st))"
  obtain buf st1 where st1: "start = Some (buf, st1)"
    and rest: "(if p9 AND 1 = 0 \<and> p11 AND 0x7f = 0x00 then do {
       s \<leftarrow> obex_connect p1 (src_cid st1) (obex_conn_id st1) buf;
       Some (Done (queue_cmd s st1)) }
     else if p9 AND 1 = 0 \<and> p11 AND 0x7f = 0x02 then do {
       r \<leftarrow> put_loop fuel p len p1 (p10 AND 0x3f) (p9 AND 0x7e) (14, False, buf, st1);
       (case r of Running \<Rightarrow> Some Running
        | Done (i, snd_flag, buf', st2) \<Rightarrow>
            Some (Done (if snd_flag then queue_cmd buf' st2 else st2))) }
     else Some (Done st1)) = Some (Done st')"
    using assms unfolding obex_ftp_def rd start_def
    by (auto simp: Let_def rd split: Option.bind_splits)
  have 1: "emits lead_ok st st1 \<and> same_conn st st1 \<and> buf_inv False buf"
    using st1 by (auto simp: start_def buf_inv_new same_conn_def queue_cmd_def emits_def
      split: if_splits Option.bind_splits dest: ack_new) (auto dest!: ack_new simp: lead_ok_def)
  have connect: "lead_ok (fst s)" if "obex_connect f src c buf = Some s" for f src c s
    using connect_start [OF that] 1 by blast
  have 2: "emits lead_ok st1 st' \<and> same_conn st1 st'"
    using rest 1
    by (auto split: if_splits Option.bind_splits run.splits dest!: put_loop_inv
        dest!: connect intro!: emits_one simp: same_conn_def queue_cmd_def)
      (auto simp: emits_def buf_inv_def)
  show ?thesis using 1 2 by (auto simp: same_conn_def intro: emits_trans)
qed

text \<open>
  Every packet the OBEX handler queues, the receive acknowledgements and the answers to
  connect and put requests alike, is passed on as an ACL packet whose three lengths agree
  and whose payload ends in its own check sequence, so the peer's check gives 0. This holds
  for any received packet on which the handler returns, even one with several headers that
  ask for an answer.
\<close>

theorem obex_ftp_frames:
  assumes "obex_ftp fuel p len st = Some (Done st')"
  shows "\<exists>new. sent st' = sent st @ new \<and> (\<forall>m \<in> set new. lead_ok m)"
  using obex_ftp_emits [OF assms] by (simp add: emits_def)

subsection \<open>Parsing the headers of a PUT packet\<close>

text \<open>The headers the loop knows, as the peer encodes them: connection id, name (UTF-16, high
  byte first), length of the file, body, type, single response mode and end of body.\<close>

datatype put_hdr =
  ConnId "u8 list" | FileName "u8 list" | FileLength u32 | Body "u8 list" | FileType "u8 list"
| Srm u8 | EndOfBody "u8 list"

definition be32 :: "u32 \<Rightarrow> u8 list" where
  "be32 w = [ucast (drop_bit 24 w), ucast (drop_bit 16 w), ucast (drop_bit 8 w), ucast w]"

definition hdr_with_len :: "u8 \<Rightarrow> u8 list \<Rightarrow> u8 list" where
  "hdr_with_len h bs = h # be16 (word_of_nat (3 + length bs)) @ bs"

fun encode_hdr :: "put_hdr \<Rightarrow> u8 list" where
  "encode_hdr (ConnId bs) = 0xcb # bs"
| "encode_hdr (FileName bs) = hdr_with_len 0x01 bs"
| "encode_hdr (FileLength n) = 0xc3 # be32 n"
| "encode_hdr (Body bs) = hdr_with_len 0x48 bs"
| "encode_hdr (FileType bs) = hdr_with_len 0x42 bs"
| "encode_hdr (Srm b) = [0x97, b]"
| "encode_hdr (EndOfBody bs) = 0x49 # bs"

fun hdr_ok :: "put_hdr \<Rightarrow> bool" where
  "hdr_ok (ConnId bs) = (length bs = 4)"
| "hdr_ok (FileName bs) = (length bs + 3 < 65536)"
| "hdr_ok (Body bs) = (length bs + 3 < 65536)"
| "hdr_ok (FileType bs) = (length bs + 3 < 65536)"
| "hdr_ok (EndOfBody bs) = (length bs = 2)"
| "hdr_ok _ = True"

fun alternate :: "'a list \<Rightarrow> 'a list" where
  "alternate (x # y # zs) = x # alternate zs"
| "alternate xs = xs"

text \<open>What a header is to do to the answer buffer and the state.\<close>

fun apply_hdr :: "u16 \<Rightarrow> u8 \<Rightarrow> u8 \<Rightarrow> put_hdr \<Rightarrow> bool \<times> stream \<times> bt_state \<Rightarrow> (bool \<times> stream \<times> bt_state) option" where
  "apply_hdr flags r t (FileName bs) (b, buf, st) =
     map_option (\<lambda>m. (b, buf, st\<lparr>fi_mem := Some m\<rparr>)) (store_str (alternate (drop 1 bs)) (fi_mem st))"
| "apply_hdr flags r t (FileLength n) (b, buf, st) = Some (b, buf, st\<lparr>file_len := n\<rparr>)"
| "apply_hdr flags r t (Body bs) (b, buf, st) =
     map_option (\<lambda>m. (b, buf, st\<lparr>cpy_mem := Some m\<rparr>)) (store_str bs (cpy_mem st))"
| "apply_hdr flags r t (Srm _) (b, buf, st) =
     map_option (\<lambda>s. (True, s, st)) (obex_srm flags (src_cid st) r t buf)"
| "apply_hdr flags r t (EndOfBody _) (b, buf, st) =
     map_option (\<lambda>s. (True, s, st)) (obex_end flags (src_cid st) r t buf)"
| "apply_hdr flags r t _ x = Some x"

fun apply_hdrs :: "u16 \<Rightarrow> u8 \<Rightarrow> u8 \<Rightarrow> put_hdr list \<Rightarrow> bool \<times> stream \<times> bt_state \<Rightarrow> (bool \<times> stream \<times> bt_state) option" where
  "apply_hdrs flags r t [] x = Some x"
| "apply_hdrs flags r t (h # hs) x = Option.bind (apply_hdr flags r t h x) (apply_hdrs flags r t hs)"

lemma gather_1: "gather 0 (xs @ bs @ ys) (length xs) (length xs + length bs) = Some bs"
proof (induction bs arbitrary: xs)
  case Nil
  then show ?case by (simp add: gather.simps)
next
  case (Cons b bs)
  from Cons [of "xs @ [b]"] show ?case
    by (subst gather.simps) (simp add: mem_simps)
qed

lemma gather_2: "gather 1 (xs @ bs @ ys) (length xs) (length xs + length bs) = Some (alternate bs)"
proof (induction bs arbitrary: xs rule: alternate.induct)
  case (1 b c bs)
  from 1 [of "xs @ [b, c]"] show ?case
    by (subst gather.simps) (simp add: mem_simps)
qed (simp_all add: gather.simps mem_simps)

lemma gather_name:
  "gather 1 (xs @ bs @ ys) (Suc (length xs)) (length xs + length bs) = Some (alternate (drop 1 bs))"
  using gather_2 [of "xs @ [hd bs]" "tl bs" ys]
  by (cases bs) (simp_all add: gather.simps)

lemma four_bytes_nat:
  "16777216 * (n div 16777216) + 65536 * (n div 65536 mod 256) + n div 256 mod 256 * 256 + n mod 256 = (n :: nat)"
proof -
  have d: "n div 65536 = n div 256 div 256" "n div 16777216 = n div 256 div 256 div 256"
    by (simp_all add: div_mult2_eq [symmetric])
  show ?thesis
    using div_mult_mod_eq [of n 256] div_mult_mod_eq [of "n div 256" 256]
      div_mult_mod_eq [of "n div 256 div 256" 256]
    by (simp only: d)
qed

lemma shift_len_be32: "foldl shift_len acc (be32 w) = w"
proof -
  have push: "push_bit 8 a = a * 256" for a :: u32
    by (simp add: push_bit_eq_mult)
  have w: "unat w < 2 ^ 32" using unsigned_less [of w] by simp
  have "unat (((ucast (ucast (drop_bit 24 w) :: u8) * 256 + ucast (ucast (drop_bit 16 w) :: u8)) * 256
      + ucast (ucast (drop_bit 8 w) :: u8)) * 256 + ucast (ucast w :: u8) :: u32) = unat w"
    using w by (simp add: unat_word_ariths unsigned_ucast_eq take_bit_eq_mod unsigned_drop_bit_eq drop_bit_eq_div mod_simps four_bytes_nat)
  then have "((ucast (ucast (drop_bit 24 w) :: u8) * 256 + ucast (ucast (drop_bit 16 w) :: u8)) * 256
      + ucast (ucast (drop_bit 8 w) :: u8)) * 256 + ucast (ucast w :: u8) = w"
    by (rule word_unat_eq_iff [THEN iffD2])
  moreover have "(4294967296 :: u32) = 0" by simp
  then have "4294967296 * acc = 0" by (simp only: mult_zero_left)
  ultimately show ?thesis
    by (simp add: be32_def shift_len_def push distrib_left distrib_right)
qed

lemma u16_len: "n < 65536 \<Longrightarrow> unat (word_of_nat n :: u16) = n"
  by (simp add: unat_of_nat)

lemma rd16_be_hdr:
  "n < 65536 \<Longrightarrow> rd16_be (xs @ h # be16 (word_of_nat n) @ ys) (Suc (length xs)) = Some (word_of_nat n)"
  using u16_of_be16 [of "word_of_nat n"]
  by (simp add: rd16_be_def rd_def nth_append be16_def)

lemma rd_hdr: "rd (xs @ h # ys) (length xs) = Some h"
  by (simp add: rd_def)

lemma be16_shape: "\<exists>a b. be16 w = [a, b]"
  by (simp add: be16_def)

lemma put_step_encoded:
  assumes "hdr_ok h"
  shows "put_step (xs @ encode_hdr h @ ys) flags r t (length xs, x) =
    map_option (\<lambda>x'. (length xs + length (encode_hdr h), x')) (apply_hdr flags r t h x)"
proof -
  obtain b buf st where x: "x = (b, buf, st)" by (cases x)
  show ?thesis
  proof (cases h)
    case (ConnId bs)
    with assms show ?thesis by (simp add: put_step_def rd_hdr x)
  next
    case (FileName bs)
    let ?n = "3 + length bs"
    have n: "?n < 65536" using assms FileName by simp
    have "gather 1 ((xs @ 0x01 # be16 (word_of_nat ?n)) @ bs @ ys)
        (Suc (length (xs @ 0x01 # be16 (word_of_nat ?n)))) (length (xs @ 0x01 # be16 (word_of_nat ?n)) + length bs)
      = Some (alternate (drop 1 bs))" by (rule gather_name)
    then have g: "gather 1 (xs @ 0x01 # be16 (word_of_nat ?n) @ bs @ ys) (length xs + 4) (?n + length xs)
      = Some (alternate (drop 1 bs))" by (simp add: ac_simps numeral_eq_Suc)
    show ?thesis
      using g rd16_be_hdr [OF n, of xs "0x01" "bs @ ys"] n
      by (simp add: FileName x put_step_def put_name_def hdr_with_len_def rd_hdr u16_len del: of_nat_add)
       (cases "store_str (alternate (drop 1 bs)) (fi_mem st)"; simp)
  next
    case (FileLength n)
    have "map (rd (xs @ 0xc3 # be32 n @ ys)) [length xs + 1, length xs + 2, length xs + 3, length xs + 4]
      = map Some (be32 n)"
      by (simp add: rd_def nth_append be32_def)
    then show ?thesis
      using shift_len_be32 [of "file_len st" n]
      by (simp add: FileLength x put_step_def put_length_hdr_def rd_hdr be32_def)
  next
    case (Body bs)
    let ?n = "3 + length bs"
    have n: "?n < 65536" using assms Body by simp
    have "gather 0 ((xs @ 0x48 # be16 (word_of_nat ?n)) @ bs @ ys)
        (length (xs @ 0x48 # be16 (word_of_nat ?n))) (length (xs @ 0x48 # be16 (word_of_nat ?n)) + length bs)
      = Some bs" by (rule gather_1)
    then have g: "gather 0 (xs @ 0x48 # be16 (word_of_nat ?n) @ bs @ ys) (length xs + 3) (?n + length xs)
      = Some bs" by (simp add: ac_simps numeral_eq_Suc)
    show ?thesis
      using g rd16_be_hdr [OF n, of xs "0x48" "bs @ ys"] n
      by (simp add: Body x put_step_def put_body_def hdr_with_len_def rd_hdr u16_len del: of_nat_add)
       (cases "store_str bs (cpy_mem st)"; simp)
  next
    case (FileType bs)
    let ?n = "3 + length bs"
    have n: "?n < 65536" using assms FileType by simp
    show ?thesis
      using rd16_be_hdr [OF n, of xs "0x42" "bs @ ys"] n
      by (simp add: FileType x put_step_def hdr_with_len_def rd_hdr u16_len del: of_nat_add)
  next
    case (Srm c)
    show ?thesis
      by (cases "obex_srm flags (src_cid st) r t buf") (simp_all add: Srm x put_step_def rd_hdr)
  next
    case (EndOfBody bs)
    with assms show ?thesis
      by (cases "obex_end flags (src_cid st) r t buf") (simp_all add: EndOfBody x put_step_def rd_hdr)
  qed
qed

lemma encode_hdr_pos: "0 < length (encode_hdr h)"
  by (cases h) (simp_all add: hdr_with_len_def)

lemma put_loop_headers:
  assumes "list_all hdr_ok hs" and "length hs < fuel" and "length fcs = 2"
    and "unat len = length xs + length (concat (map encode_hdr hs)) + 2"
  shows "put_loop fuel (xs @ concat (map encode_hdr hs) @ fcs) len flags r t (length xs, x) =
    map_option (\<lambda>x'. Done (unat len - 2, x')) (apply_hdrs flags r t hs x)"
  using assms
proof (induction hs arbitrary: fuel xs x)
  case Nil
  then show ?case by (cases fuel) simp_all
next
  case (Cons h hs)
  then obtain k where fuel: "fuel = Suc k" by (cases fuel) auto
  have guard: "int (length xs) < int (unat len) - 2"
    using Cons.prems(4) encode_hdr_pos [of h] by (simp del: length_greater_0_conv)
  show ?case
  proof (cases "apply_hdr flags r t h x")
    case None
    with Cons.prems fuel guard show ?thesis
      by (simp add: put_step_encoded)
  next
    case (Some x')
    have "put_loop k ((xs @ encode_hdr h) @ concat (map encode_hdr hs) @ fcs) len flags r t
        (length (xs @ encode_hdr h), x') =
      map_option (\<lambda>x'. Done (unat len - 2, x')) (apply_hdrs flags r t hs x')"
      by (rule Cons.IH) (use Cons.prems fuel in simp_all)
    with Some Cons.prems fuel guard show ?thesis
      by (simp add: put_step_encoded)
  qed
qed

text \<open>A PUT request as the handler gets it: 14 bytes up to the OBEX opcode and its length, the
  headers, and the two bytes of the frame check sequence.\<close>

definition put_request :: "u8 list \<Rightarrow> put_hdr list \<Rightarrow> u8 list \<Rightarrow> u8 list" where
  "put_request pre hs fcs = pre @ concat (map encode_hdr hs) @ fcs"

definition put_prefix_ok :: "u8 list \<Rightarrow> bool" where
  "put_prefix_ok pre \<longleftrightarrow> length pre = 14 \<and> pre ! 9 AND 0x01 = 0 \<and> pre ! 11 AND 0x7f = 0x02"

text \<open>Every eighth frame is acknowledged before it is handled.\<close>

definition acked :: "u8 list \<Rightarrow> bool" where
  "acked pre \<longleftrightarrow> (unat (pre ! 9 AND 0x7e) div 2 + 1) mod 8 = 0"

lemma request_reads:
  "length pre = 14 \<Longrightarrow> rd (pre @ xs) 9 = Some (pre ! 9) \<and> rd (pre @ xs) 10 = Some (pre ! 10) \<and>
    rd (pre @ xs) 11 = Some (pre ! 11) \<and> rd16 (pre @ xs) 1 = Some (u16_of (pre ! 2) (pre ! 1))"
  by (simp add: rd_def rd16_def nth_append numeral_2_eq_2)

lemma obex_ftp_put:
  assumes "put_prefix_ok pre" and "\<not> acked pre" and "list_all hdr_ok hs" and "length hs < fuel"
    and "length fcs = 2" and "unat len = length (put_request pre hs fcs)"
  shows "obex_ftp fuel (put_request pre hs fcs) len st =
    map_option (\<lambda>(b, buf, st'). Done (if b then queue_cmd buf st' else st'))
      (apply_hdrs (u16_of (pre ! 2) (pre ! 1)) (pre ! 10 AND 0x3f) (pre ! 9 AND 0x7e) hs
        (False, new_cmd, st))"
proof -
  have "put_loop fuel (pre @ concat (map encode_hdr hs) @ fcs) len
      (u16_of (pre ! 2) (pre ! 1)) (pre ! 10 AND 0x3f) (pre ! 9 AND 0x7e) (length pre, False, new_cmd, st) =
    map_option (\<lambda>x'. Done (unat len - 2, x'))
      (apply_hdrs (u16_of (pre ! 2) (pre ! 1)) (pre ! 10 AND 0x3f) (pre ! 9 AND 0x7e) hs (False, new_cmd, st))"
    by (rule put_loop_headers) (use assms in \<open>simp_all add: put_request_def\<close>)
  with assms request_reads [of pre "concat (map encode_hdr hs) @ fcs"] show ?thesis
    by (auto simp: obex_ftp_def put_request_def put_prefix_ok_def acked_def Let_def
        split: option.splits)
      (auto simp: map_option_case split: option.splits)
qed

text \<open>
  C1: a PUT request is read header by header exactly as its sender encoded it. With one unit
  of fuel per header and one to leave the loop, the handler ends; the state then holds the
  name (the low bytes of the UTF-16 name, terminated), the contents (terminated) and the
  file length of the request, the last two whatever they were before, and one answer has
  been queued if a header asked for it. It is a fault exactly when storing a header is one.
\<close>

theorem obex_put_parses:
  assumes "put_prefix_ok pre" and "\<not> acked pre" and "list_all hdr_ok hs" and "length hs < fuel"
    and "length fcs = 2" and "unat len = length (put_request pre hs fcs)"
  shows "obex_ftp fuel (put_request pre hs fcs) len st =
    map_option (\<lambda>(b, buf, st'). Done (if b then queue_cmd buf st' else st'))
      (apply_hdrs (u16_of (pre ! 2) (pre ! 1)) (pre ! 10 AND 0x3f) (pre ! 9 AND 0x7e) hs
        (False, new_cmd, st))"
  by (rule obex_ftp_put [OF assms])

definition put_pre_example :: "u8 list" where
  "put_pre_example = [2, 0, 0x20, 30, 0, 26, 0, 0x41, 0, 0, 0, 0x82, 0, 20]"

text \<open>A request that names the file "a", announces 2 bytes and carries them.\<close>

theorem obex_put_parses_witness:
  "obex_ftp 4 (put_request put_pre_example [FileName [0, 0x61], FileLength 2, Body [7, 9]] [0, 0]) 31
     (set_cpy_addr [1, 1, 1, 1] [1, 1, 1, 1] bt_init) =
   Some (Done (bt_init\<lparr>file_len := 2, fi_mem := Some [0x61, 0, 1, 1], cpy_mem := Some [7, 9, 0, 1]\<rparr>))"
  by (subst obex_put_parses)
    (simp_all add: put_prefix_ok_def acked_def put_pre_example_def put_request_def hdr_with_len_def
      be16_def be32_def store_str_def wr_def set_cpy_addr_def bt_init_def)

lemma put_ack_total: "\<exists>s. obex_ack f src tx new_cmd = Some s \<and> length (fst s) = MAX_CMD_LEN"
  by (auto simp: obex_ack_def mem_simps MAX_CMD_LEN_def length_acl_packet put_fcs_def)
    (auto simp: put_def wr_def pad_def MAX_CMD_LEN_def length_acl_packet)

lemma known_headers_def: "put_step p flags r t (i, b, buf, st) = Some (i, b, buf, st)"
  if "rd p i = Some h" "h \<notin> {0xcb, 0x01, 0xc3, 0x48, 0x42, 0x97, 0x49}"
  using that by (simp add: put_step_def)

lemma put_loop_stuck:
  assumes "put_step p flags r t ps = Some ps" and "int (fst ps) < int (unat len) - 2"
  shows "put_loop fuel p len flags r t ps = Some Running"
proof -
  have "int (fst ps) < uint len - 2" using assms(2) by simp
  then show ?thesis by (induction fuel) (simp_all add: assms(1))
qed

lemma put_loop_hangs:
  assumes "list_all hdr_ok hs" and "apply_hdrs flags r t hs x \<noteq> None"
    and "h \<notin> {0xcb, 0x01, 0xc3, 0x48, 0x42, 0x97, 0x49}" and "2 \<le> length rest"
    and "unat len = length xs + length (concat (map encode_hdr hs)) + 1 + length rest"
  shows "put_loop fuel (xs @ concat (map encode_hdr hs) @ h # rest) len flags r t (length xs, x) = Some Running"
  using assms
proof (induction hs arbitrary: fuel xs x)
  case Nil
  obtain b buf st where x: "x = (b, buf, st)" by (cases x)
  have "put_step (xs @ h # rest) flags r t (length xs, x) = Some (length xs, x)"
    unfolding x by (rule known_headers_def) (use Nil in \<open>simp_all add: rd_hdr\<close>)
  then show ?case using Nil put_loop_stuck [of "xs @ h # rest" flags r t "(length xs, x)" len fuel] by simp
next
  case (Cons g hs)
  show ?case
  proof (cases fuel)
    case (Suc k)
    obtain x' where x': "apply_hdr flags r t g x = Some x'" "apply_hdrs flags r t hs x' \<noteq> None"
      using Cons.prems(2) by (cases "apply_hdr flags r t g x") auto
    have guard: "int (length xs) < int (unat len) - 2" using Cons.prems(4,5) by simp
    have "put_loop k ((xs @ encode_hdr g) @ concat (map encode_hdr hs) @ h # rest) len flags r t
        (length (xs @ encode_hdr g), x') = Some Running"
      by (rule Cons.IH) (use Cons.prems x' in simp_all)
    then show ?thesis using Suc x'(1) Cons.prems(1) guard by (simp add: put_step_encoded)
  qed simp
qed

text \<open>The buffer and the state with which the headers of a PUT frame are read.\<close>

definition put_start :: "u8 list \<Rightarrow> bt_state \<Rightarrow> (stream \<times> bt_state) option" where
  "put_start pre st = (if acked pre then do {
       s \<leftarrow> obex_ack (u16_of (pre ! 2) (pre ! 1)) (src_cid st) (drop_bit 1 (pre ! 9 AND 0x7e) + 1) new_cmd;
       Some (rewind s, queue_cmd s st) }
     else Some (new_cmd, st))"

text \<open>
  C13: a header the loop does not know stops the Bluetooth stack. A PUT frame on the OBEX channel, of any
  length, acknowledged first or not, that holds any number of known headers, each well formed and
  handled without a fault, and then a byte that is none of the seven known headers, with at least two bytes
  behind it, is never finished, whatever the fuel: the callback of the controller does not return.
\<close>

theorem obex_put_unknown_header_hangs:
  assumes "length pre = 14" and "pre ! 0 = 0x02" and "u16_of (pre ! 8) (pre ! 7) = ucast (obex_cid st)"
    and "obex_cid st \<noteq> 1" and "pre ! 9 AND 0x01 = 0" and "pre ! 11 AND 0x7f = 0x02"
    and "list_all hdr_ok hs" and "h \<notin> {0xcb, 0x01, 0xc3, 0x48, 0x42, 0x97, 0x49}" and "2 \<le> length rest"
    and "unat len = length (pre @ concat (map encode_hdr hs) @ h # rest)"
    and "put_start pre st = Some (buf, st1)"
    and "apply_hdrs (u16_of (pre ! 2) (pre ! 1)) (pre ! 10 AND 0x3f) (pre ! 9 AND 0x7e) hs (False, buf, st1) \<noteq> None"
  shows "host_rcv_pkt fuel (pre @ concat (map encode_hdr hs) @ h # rest) len st = Some Running"
proof -
  define p where "p = pre @ concat (map encode_hdr hs) @ h # rest"
  have loop: "put_loop fuel p len (u16_of (pre ! 2) (pre ! 1)) (pre ! 10 AND 0x3f) (pre ! 9 AND 0x7e) (length pre, False, buf, st1) =
      Some Running" unfolding p_def by (rule put_loop_hangs) (use assms in simp_all)
  have "(ucast (obex_cid st) :: u16) \<noteq> ucast (1 :: u8)"
    using assms(4) by (simp only: ucast_u8_inj not_False_eq_True)
  then have cid: "(ucast (obex_cid st) :: u16) \<noteq> 1" by simp
  have reads: "rd p 0 = Some 0x02" "rd p 9 = Some (pre ! 9)" "rd p 10 = Some (pre ! 10)" "rd p 11 = Some (pre ! 11)"
    "rd16 p 1 = Some (u16_of (pre ! 2) (pre ! 1))" "rd16 p 7 = Some (ucast (obex_cid st))"
    using assms(1-3) by (simp_all add: p_def rd_def rd16_def nth_append numeral_eq_Suc)
  have "obex_ftp fuel p len st = Some Running"
    using assms(11) loop unfolding obex_ftp_def put_start_def acked_def
    by (auto simp: reads reads [unfolded One_nat_def] assms(1,5,6) Let_def split: if_splits Option.bind_splits)
  then show ?thesis
    using cid unfolding p_def [symmetric]
    by (simp add: host_rcv_pkt_def acl_event_handler_def l2cap_cmd_handler_def reads reads [unfolded One_nat_def] Let_def)
qed

theorem obex_put_unknown_header_hangs_witness:
  "host_rcv_pkt 1000 [2, 0, 0x20, 17, 0, 13, 0, 0x41, 0, 0, 0, 0x82, 0, 11, 0xc3, 0, 0, 0, 9, 0x44, 0, 0] 22
     (bt_init\<lparr>obex_cid := 0x41\<rparr>) = Some Running"
proof -
  have "host_rcv_pkt 1000 ([2, 0, 0x20, 17, 0, 13, 0, 0x41, 0, 0, 0, 0x82, 0, 11] @ concat (map encode_hdr [FileLength 9]) @ 0x44 # [0, 0]) 22
     (bt_init\<lparr>obex_cid := 0x41\<rparr>) = Some Running"
    by (rule obex_put_unknown_header_hangs)
      (simp_all add: u16_of_def put_start_def acked_def be32_def)
  then show ?thesis by (simp add: be32_def)
qed

subsection \<open>Several answers in one request\<close>

lemma put_fits: "length (fst s) = MAX_CMD_LEN \<Longrightarrow> snd s + length bs \<le> MAX_CMD_LEN \<Longrightarrow>
    \<exists>m. put bs s = Some (m, snd s + length bs) \<and> length m = MAX_CMD_LEN"
  by (auto simp: put_def wr_def)

lemma obex_srm_size:
  assumes "length (fst s) = MAX_CMD_LEN"
  shows "if snd s + 20 \<le> MAX_CMD_LEN
    then \<exists>m. obex_srm f src r t s = Some (m, snd s + 20) \<and> length m = MAX_CMD_LEN
    else obex_srm f src r t s = None"
proof -
  let ?p = "acl_packet 18 f 13 9
    (le16 src @ [push_bit 1 r, drop_bit 1 t + 1, 0x90, 0x00, 0x05, 0x97, 0x01])"
  have lp: "length ?p = 18" by (simp add: length_acl_packet)
  show ?thesis
  proof (cases "snd s + 18 \<le> MAX_CMD_LEN")
    case True
    then obtain m where "put ?p s = Some (m, snd s + 18)" "length m = MAX_CMD_LEN"
      using put_fits [OF assms, of ?p] lp by auto
    with put_fits [of "(m, snd s + 18)" "le16 (crc16 0 (take 11 (drop 7 m)))"]
      put_overflow [of "(m, snd s + 18)" "le16 (crc16 0 (take 11 (drop 7 m)))"]
    show ?thesis by (auto simp: obex_srm_def put_fcs_def)
  next
    case False
    then show ?thesis
      using put_overflow [of s ?p] assms lp by (simp add: obex_srm_def)
  qed
qed

lemma apply_srms:
  assumes "length (fst buf) = MAX_CMD_LEN" and "snd buf \<le> MAX_CMD_LEN"
  shows "apply_hdrs f r t (replicate n (Srm 1)) (b, buf, st) = None \<longleftrightarrow>
    MAX_CMD_LEN < snd buf + 20 * n"
  using assms
proof (induction n arbitrary: b buf)
  case (Suc n)
  show ?case
  proof (cases "snd buf + 20 \<le> MAX_CMD_LEN")
    case True
    then obtain m where "obex_srm f (src_cid st) r t buf = Some (m, snd buf + 20)"
        and "length m = MAX_CMD_LEN"
      using obex_srm_size [OF Suc.prems(1), of f "src_cid st" r t] by auto
    with Suc.IH [of "(m, snd buf + 20)" True] True show ?thesis
      by (simp add: add.assoc)
  next
    case False
    then have "obex_srm f (src_cid st) r t buf = None"
      using obex_srm_size [OF Suc.prems(1)] by (auto split: if_splits)
    with False show ?thesis by simp
  qed
qed simp

text \<open>
  The answers to one PUT request share one 300-byte buffer on the stack, each written
  after the last: a request with more than 15 single response mode headers writes past it,
  one with at most 15 does not.
\<close>

theorem obex_put_answer_overflow:
  assumes "put_prefix_ok pre" and "\<not> acked pre" and "n < fuel" and "length fcs = 2"
    and "unat len = 16 + 2 * n"
  shows "obex_ftp fuel (put_request pre (replicate n (Srm 1)) fcs) len st = None \<longleftrightarrow> 15 < n"
proof -
  have len: "length (concat (map encode_hdr (replicate n (Srm 1)))) = 2 * n"
    by (induction n) simp_all
  have "list_all hdr_ok (replicate n (Srm 1))" by (simp add: list_all_iff)
  then have "obex_ftp fuel (put_request pre (replicate n (Srm 1)) fcs) len st = None \<longleftrightarrow>
    apply_hdrs (u16_of (pre ! 2) (pre ! 1)) (pre ! 10 AND 0x3f) (pre ! 9 AND 0x7e)
      (replicate n (Srm 1)) (False, new_cmd, st) = None"
    using assms len
    by (subst obex_ftp_put) (simp_all add: put_request_def put_prefix_ok_def)
  then show ?thesis
    using apply_srms [of new_cmd _ _ _ n] by (simp add: new_cmd_def MAX_CMD_LEN_def)
qed

theorem obex_put_answer_overflow_witness:
  "obex_ftp 17 (put_request put_pre_example (replicate 16 (Srm 1)) [0, 0]) 48 bt_init = None"
  by (subst obex_put_answer_overflow)
    (simp_all add: put_prefix_ok_def acked_def put_pre_example_def)

lemma srm_new: "\<exists>m. obex_srm f src r t new_cmd = Some (m, 20) \<and> length m = MAX_CMD_LEN \<and>
    take 18 m = acl_packet 18 f 13 9
      (le16 src @ [push_bit 1 r, drop_bit 1 t + 1, 0x90, 0x00, 0x05, 0x97, 0x01])"
  by (auto simp: obex_srm_def mem_simps MAX_CMD_LEN_def length_acl_packet put_fcs_def)
    (simp add: put_def wr_def pad_def MAX_CMD_LEN_def length_acl_packet min_def)

lemma end_at_20: "length m = MAX_CMD_LEN \<Longrightarrow>
    \<exists>m'. obex_end f src r t (m, 20) = Some (m', 38) \<and> take 20 m' = take 20 m \<and>
      length m' = MAX_CMD_LEN"
  by (auto simp: obex_end_def put_def wr_def MAX_CMD_LEN_def length_acl_packet put_fcs_def)

text \<open>
  When one PUT request carries both a single response mode header and the end of the
  body, one packet is queued and the controller gets only the first answer: the second, the
  success response that ends the transfer, lies behind the length prefix.
\<close>

theorem obex_put_second_answer_lost:
  assumes "put_prefix_ok pre" and "\<not> acked pre" and "length e = 2" and "length fcs = 2"
  shows "\<exists>m. obex_ftp 3 (put_request pre [Srm 1, EndOfBody e] fcs) 21 st =
      Some (Done (st\<lparr>sent := sent st @ [m]\<rparr>)) \<and>
    payload m = drop 2 (take 20 m) \<and> payload m ! 11 = 0x90"
proof -
  let ?f = "u16_of (pre ! 2) (pre ! 1)" and ?r = "pre ! 10 AND 0x3f" and ?t = "pre ! 9 AND 0x7e"
  obtain m where m: "obex_srm ?f (src_cid st) ?r ?t new_cmd = Some (m, 20)"
    and lm: "length m = MAX_CMD_LEN"
    and m18: "take 18 m = acl_packet 18 ?f 13 9
      (le16 (src_cid st) @ [push_bit 1 ?r, drop_bit 1 ?t + 1, 0x90, 0x00, 0x05, 0x97, 0x01])"
    using srm_new by blast
  obtain m' where m': "obex_end ?f (src_cid st) ?r ?t (m, 20) = Some (m', 38)"
      and same: "take 20 m' = take 20 m" and lm': "length m' = MAX_CMD_LEN"
    using end_at_20 [OF lm] by blast
  have "take 18 m' = take 18 m" using arg_cong [OF same, of "take 18"] by simp
  then have m18': "take 18 m' = acl_packet 18 ?f 13 9
      (le16 (src_cid st) @ [push_bit 1 ?r, drop_bit 1 ?t + 1, 0x90, 0x00, 0x05, 0x97, 0x01])"
    using m18 by simp
  have "pack_len m' = pack_len (take 18 m')" by (simp add: pack_len_def)
  then have pl: "pack_len m' = 18" by (simp add: m18' acl_packet_def pack_len_be16)
  have "payload m' = drop 2 (take 20 m')"
    by (simp add: payload_def pl drop_take)
  moreover have "payload m' ! 11 = m' ! 13"
    using lm' by (simp add: payload_def pl MAX_CMD_LEN_def)
  moreover have "take 18 m' ! 13 = 0x90"
    unfolding m18' by (simp add: acl_packet_def be16_def le16_def numeral_eq_Suc)
  then have "m' ! 13 = 0x90" by simp
  moreover have "obex_ftp 3 (put_request pre [Srm 1, EndOfBody e] fcs) 21 st = Some (Done (queue_cmd (m', 38) st))"
    using assms by (subst obex_ftp_put) (simp_all add: put_request_def put_prefix_ok_def m m' del: One_nat_def)
  ultimately show ?thesis by (auto simp: queue_cmd_def)
qed

theorem obex_put_second_answer_lost_witness:
  "\<exists>m. obex_ftp 3 (put_request put_pre_example [Srm 1, EndOfBody [0, 3]] [0, 0]) 21 bt_init =
      Some (Done (bt_init\<lparr>sent := [m]\<rparr>)) \<and> payload m = drop 2 (take 20 m) \<and> payload m ! 11 = 0x90"
  using obex_put_second_answer_lost [of put_pre_example "[0, 3]" "[0, 0]" bt_init]
  by (simp add: put_prefix_ok_def acked_def put_pre_example_def bt_init_def)

subsection \<open>Connections\<close>

lemma queue_cmd_simps [simp]:
  "connected (queue_cmd s st) = connected st" "obex_conn_id (queue_cmd s st) = obex_conn_id st"
  "src_cid (queue_cmd s st) = src_cid st" "fi_mem (queue_cmd s st) = fi_mem st"
  "cpy_mem (queue_cmd s st) = cpy_mem st" "file_len (queue_cmd s st) = file_len st"
  "sent (queue_cmd s st) = sent st @ [fst s]"
  by (simp_all add: queue_cmd_def)

lemma l2cap_signal_same_conn: "l2cap_signal c p len f s st = Some st' \<Longrightarrow> same_conn st st'"
  by (auto simp: l2cap_signal_def l2cap_info_req_def l2cap_conn_req_def l2cap_conf_req_def
    l2cap_conf_res_def l2cap_disconn_req_def same_conn_def Let_def
    split: Option.bind_splits if_splits)

lemma sdp_handler_same_conn: "sdp_handler c p f st = Some st' \<Longrightarrow> same_conn st st'"
  by (auto simp: sdp_handler_def same_conn_def split: Option.bind_splits if_splits)

lemma hci_event_same_conn: "hci_event_handler p st = Some st' \<Longrightarrow> same_conn st st'"
  by (auto simp: hci_event_handler_def same_conn_def split: Option.bind_splits if_splits)

lemma host_rcv_same_conn:
  assumes "host_rcv_pkt fuel p len st = Some (Done st')"
  shows "same_conn st st'"
proof -
  have "same_conn st st" by (simp add: same_conn_def)
  with assms show ?thesis
    by (auto simp: host_rcv_pkt_def acl_event_handler_def l2cap_cmd_handler_def
        split: Option.bind_splits if_splits
        dest: hci_event_same_conn l2cap_signal_same_conn sdp_handler_same_conn obex_ftp_emits)
qed

lemma framed_hci_cmd:
  assumes "unat n = 4 + unat plen" and "length params \<le> unat plen" and "unat plen \<le> 294"
  shows "framed_cmd (pad (hci_cmd n opcode plen params))"
proof -
  let ?m = "hci_cmd n opcode plen params"
  have "?m ! 2 = H4_TYPE_COMMAND" "?m ! 5 = plen" "5 < length ?m"
    by (simp_all add: hci_cmd_def be16_def le16_def eval_nat_numeral)
  then have nth: "pad ?m ! 2 = H4_TYPE_COMMAND" "pad ?m ! 5 = plen"
    by (simp_all add: pad_def nth_append)
  have "pack_len (pad ?m) = unat n"
    by (simp add: pad_def hci_cmd_def pack_len_be16)
  moreover have "length ?m \<le> MAX_CMD_LEN"
    using assms by (simp add: hci_cmd_def MAX_CMD_LEN_def)
  ultimately show ?thesis
    using assms by (simp add: framed_cmd_def nth length_pad) (simp add: MAX_CMD_LEN_def)
qed

lemma hci_conn_req:
  assumes "9 \<le> length p" and "p ! 0 = 0x04" and "p ! 1 = 0x04"
  shows "host_rcv_pkt fuel p len st = Some (Done (queue_cmd (pad (hci_cmd 11
      (if connected st = 0 then 0x0009 OR push_bit 10 0x01 else 0x000A OR push_bit 10 0x01) 7
      (take 6 (drop 3 p) @ [1])), 13) st))"
proof -
  have "take 6 (drop 3 p) = [p ! 3, p ! 4, p ! 5, p ! 6, p ! 7, p ! 8]"
    using assms(1) by (auto intro!: nth_equalityI simp: less_Suc_eq numeral_eq_Suc)
  moreover have "rd p i = Some (p ! i)" if "i < 9" for i
    using that assms(1) by (simp add: rd_def)
  ultimately show ?thesis
    using assms(2,3) by (simp add: host_rcv_pkt_def hci_event_handler_def mem_simps hci_cmd_def MAX_CMD_LEN_def)
qed

text \<open>Any run of the callback: received packets, each with the fuel its handling needs.\<close>

inductive rcv_run :: "bt_state \<Rightarrow> bt_state \<Rightarrow> bool" where
  start: "rcv_run st st"
| packet: "rcv_run st st' \<Longrightarrow> host_rcv_pkt fuel p len st' = Some (Done st'') \<Longrightarrow> rcv_run st st''"

lemma rcv_run_same_conn: "rcv_run st st' \<Longrightarrow> same_conn st st'"
  by (induction rule: rcv_run.induct) (auto simp: same_conn_def dest: host_rcv_same_conn)

text \<open>
  The stack accepts every connection request, however many peers it has already
  accepted: after any sequence of received packets from the initial state \<^verbatim>\<open>connected\<close> is
  still 0, so a connection request is answered with the accept command (0x0409) for the
  address in the request, and the branch that answers with reject (0x040A) is never taken.
\<close>

theorem hci_accepts_always:
  assumes "rcv_run bt_init st" and "9 \<le> length p" and "p ! 0 = 0x04" and "p ! 1 = 0x04"
  shows "\<exists>m. host_rcv_pkt fuel p len st = Some (Done (st\<lparr>sent := sent st @ [m]\<rparr>)) \<and> framed_cmd m \<and>
    payload m = [H4_TYPE_COMMAND] @ le16 0x0409 @ [7] @ take 6 (drop 3 p) @ [1]"
proof -
  have c: "connected st = 0"
    using rcv_run_same_conn [OF assms(1)] by (simp add: same_conn_def bt_init_def)
  let ?m = "hci_cmd 11 0x0409 7 (take 6 (drop 3 p) @ [1])"
  have "framed_cmd (pad ?m)"
    using assms(2) by (intro framed_hci_cmd) simp_all
  moreover have "payload (pad ?m) = drop 2 ?m"
    using assms(2) by (simp add: payload_def pad_def hci_cmd_def pack_len_be16)
  moreover have "host_rcv_pkt fuel p len st = Some (Done (queue_cmd (pad ?m, 13) st))"
    using hci_conn_req [OF assms(2-4), of fuel len st] c by simp
  ultimately show ?thesis
    by (intro exI [of _ "pad ?m"]) (simp add: queue_cmd_def hci_cmd_def)
qed

theorem hci_accepts_always_witness:
  "\<exists>m. host_rcv_pkt 0 [4, 4, 10, 1, 2, 3, 4, 5, 6] 9 bt_init = Some (Done (bt_init\<lparr>sent := [m]\<rparr>)) \<and>
    framed_cmd m \<and> payload m = [H4_TYPE_COMMAND] @ le16 0x0409 @ [7, 1, 2, 3, 4, 5, 6, 1]"
  using hci_accepts_always [OF rcv_run.start, of "[4, 4, 10, 1, 2, 3, 4, 5, 6]" 0 9]
  by (simp add: bt_init_def)

text \<open>
  The contents of a received file are stored through a destination that only
  \<^verbatim>\<open>set_cpy_addr\<close> sets. Until it is called, a PUT request with a body writes through a null
  pointer; after a call with a large enough buffer it does not.
\<close>

theorem obex_put_needs_destination:
  assumes "put_prefix_ok pre" and "\<not> acked pre" and "length bs + 3 < 65536" and "length fcs = 2"
    and "unat len = length (put_request pre [Body bs] fcs)"
  shows "obex_ftp 2 (put_request pre [Body bs] fcs) len st = None \<longleftrightarrow>
    (case cpy_mem st of None \<Rightarrow> True | Some m \<Rightarrow> length m < length bs + 1)"
  using assms
  by (subst obex_ftp_put) (auto simp: store_str_def wr_def split: option.splits)

theorem obex_put_needs_destination_witness:
  "obex_ftp 2 (put_request put_pre_example [Body [7, 9]] [0, 0]) 21 bt_init = None"
  by (subst obex_put_needs_destination)
    (simp_all add: put_prefix_ok_def acked_def put_pre_example_def bt_init_def put_request_def
      hdr_with_len_def be16_def)

subsection \<open>Advertising\<close>

text \<open>The payloads of the three commands that make the device visible, in their order.\<close>

definition adv_payloads :: "u8 list list" where
  "adv_payloads =
    [[1, 0x03, 0x0c, 0],
     [1, 0x13, 0x0c, 248] @ device_name @ replicate 238 0,
     [1, 0x1a, 0x0c, 1, 3]]"

definition adv_start :: "nat \<times> u8 list \<times> bt_state" where
  "adv_start = (0, replicate MAX_CMD_LEN 0, bt_init)"

fun adv_rounds :: "bool list \<Rightarrow> nat \<times> u8 list \<times> bt_state \<Rightarrow> (nat \<times> u8 list \<times> bt_state) option" where
  "adv_rounds [] a = Some a"
| "adv_rounds (v # vs) a = Option.bind (adv_round v a) (adv_rounds vs)"

text \<open>The contents of \<^verbatim>\<open>hci_cmd_buf\<close> after each command.\<close>

definition adv_mem :: "nat \<Rightarrow> u8 list" where
  "adv_mem k = [pad [],
     pad (hci_cmd 4 HCI_RESET 0 []),
     pad (hci_cmd 252 HCI_CHANGE_LOCAL_NAME 248 device_name),
     pad (hci_cmd 5 HCI_SET_SCAN_MODE 1 [3] @ drop 1 device_name)] ! k"

definition adv_after :: "nat \<Rightarrow> nat \<times> u8 list \<times> bt_state" where
  "adv_after k = (k, adv_mem k, bt_init\<lparr>sent := map adv_mem [1..<Suc k]\<rparr>)"

lemma adv_round_steps:
  "k < 3 \<Longrightarrow> adv_round True (adv_after k) = Some (adv_after (Suc k))"
  "adv_round True (adv_after 3) = Some (adv_after 3)"
  "adv_round False (adv_after k) = Some (adv_after k)"
proof -
  have up: "[Suc 0..<Suc (Suc 0)] = [1]" "[Suc 0..<Suc (Suc (Suc 0))] = [1, 2]"
     "[Suc 0..<Suc (Suc (Suc (Suc 0)))] = [1, 2, 3]"
    by (simp_all add: upt_rec numeral_eq_Suc)
  show "adv_round True (adv_after k) = Some (adv_after (Suc k))" if "k < 3"
    using that
    by (auto simp: adv_round_def adv_after_def adv_mem_def make_cmd_reset_def up
        make_cmd_chanage_local_name_def make_cmd_set_scan_mode_def less_Suc_eq numeral_3_eq_3
        put_at_start pad_def MAX_CMD_LEN_def hci_cmd_def device_name_def queue_cmd_def bt_init_def)
qed (simp_all add: adv_round_def adv_after_def)

lemma adv_start_after: "adv_start = adv_after 0"
  by (simp add: adv_start_def adv_after_def adv_mem_def pad_def bt_init_def)

lemma adv_rounds_after:
  "k \<le> 3 \<Longrightarrow> adv_rounds vs (adv_after k) = Some (adv_after (min 3 (k + length (filter id vs))))"
proof (induction vs arbitrary: k)
  case (Cons v vs)
  show ?case
  proof (cases "v \<and> k < 3")
    case True
    with Cons show ?thesis by (simp add: adv_round_steps)
  next
    case False
    with Cons.prems have "v \<longrightarrow> k = 3" by auto
    with Cons show ?thesis by (cases v) (auto simp: adv_round_steps)
  qed
qed simp

lemma payload_adv_mem: "map (payload \<circ> adv_mem) [1..<4] = adv_payloads"
proof -
  have "[1..<4] = [1, 2, 3 :: nat]" by (simp add: upt_rec)
  moreover have "H4_TYPE_COMMAND = 1" by (simp add: H4_TYPE_COMMAND_def)
  ultimately show ?thesis
    by (simp add: adv_payloads_def adv_mem_def payload_def pad_def hci_cmd_def pack_len_be16
      HCI_RESET_def HCI_CHANGE_LOCAL_NAME_def HCI_SET_SCAN_MODE_def le16_def device_name_def
      MAX_CMD_LEN_def)
qed

text \<open>
  The advertising task sends reset, change local name and set scan mode, in this order
  and each once, in the first three rounds in which the controller accepts packets,
  whatever the pattern of rounds in which it does not; the bytes of an earlier command left
  in the shared buffer never reach the controller.
\<close>

theorem adv_task_sends_in_order:
  "\<exists>k m st. adv_rounds vs adv_start = Some (k, m, st) \<and> k = min 3 (length (filter id vs)) \<and>
    map payload (sent st) = take k adv_payloads"
proof -
  let ?k = "min 3 (length (filter id vs))"
  have "map payload (map adv_mem [1..<Suc ?k]) = take ?k (map (payload \<circ> adv_mem) [1..<4])"
    by (simp add: take_map take_upt del: upt_Suc upt_rec_numeral)
  then show ?thesis
    using adv_rounds_after [of 0 vs] payload_adv_mem
    by (simp add: adv_start_after adv_after_def del: upt_Suc)
qed

lemma connect_total: "\<exists>s. obex_connect f src c new_cmd = Some s"
  by (auto simp: obex_connect_def mem_simps MAX_CMD_LEN_def length_acl_packet put_fcs_def)
    (auto simp: put_def wr_def pad_def MAX_CMD_LEN_def length_acl_packet)

definition connect_example :: "u8 list" where
  "connect_example = replicate 11 0 @ [0x80]"

theorem obex_ftp_frames_witness:
  "\<exists>st' new. obex_ftp 0 connect_example 20 bt_init = Some (Done st') \<and>
    sent st' = sent bt_init @ new \<and> (\<forall>m \<in> set new. lead_ok m)"
proof -
  obtain s where s: "obex_connect 0 0 1 new_cmd = Some s" using connect_total by blast
  have "obex_ftp 0 connect_example 20 bt_init = Some (Done (queue_cmd s bt_init))"
    using s by (simp add: connect_example_def obex_ftp_def rd_def rd16_def nth_append Let_def bt_init_def u16_of_def)
  from this obex_ftp_frames [OF this] show ?thesis by blast
qed

end
