(* ===== verification/BtQueue.thy ===== *)
theory BtQueue
  imports BtObex
begin

text \<open>
  The send queue of the Bluetooth stack (\<^verbatim>\<open>bt_main.c\<close>, \<^verbatim>\<open>queue_packet\<close> and the task \<^verbatim>\<open>send\<close>).
  The FreeRTOS queue is not part of the repository: its two operations are the parameters
  \<open>qsend\<close> (\<^verbatim>\<open>xQueueSend\<close> with no wait, \<^term>\<open>None\<close> for a full queue) and \<open>qrecv\<close>
  (\<^verbatim>\<open>xQueueReceive\<close>), and \<open>fifo_queue\<close> states the documented behaviour the code relies on: first in,
  first out, and a packet is taken as long as the queue holds fewer than \<open>cap\<close>.

  Tasks interleave: an event is one attempt of the loop of \<^verbatim>\<open>queue_packet\<close>, by whichever task
  runs it, or one round of \<^verbatim>\<open>send\<close> with the answer of the controller.
\<close>

definition fifo_queue ::
  "nat \<Rightarrow> ('q \<Rightarrow> u8 list \<Rightarrow> 'q option) \<Rightarrow> ('q \<Rightarrow> (u8 list \<times> 'q) option) \<Rightarrow> ('q \<Rightarrow> u8 list list) \<Rightarrow> bool" where
  "fifo_queue cap qsend qrecv items \<longleftrightarrow>
     (\<forall>q p. length (items q) < cap \<longrightarrow> qsend q p \<noteq> None) \<and>
     (\<forall>q p q'. qsend q p = Some q' \<longrightarrow> items q' = items q @ [p]) \<and>
     (\<forall>q. qrecv q = None \<longleftrightarrow> items q = []) \<and>
     (\<forall>q p q'. qrecv q = Some (p, q') \<longrightarrow> items q = p # items q')"

record 'q link =
  queue :: 'q
  waiting :: "u8 list list"
  wire :: "u8 list list"

text \<open>One attempt of \<^verbatim>\<open>while (xQueueSend(...) != pdTRUE);\<close>: the caller goes on waiting when the
  queue is full.\<close>

definition queue_packet :: "('q \<Rightarrow> u8 list \<Rightarrow> 'q option) \<Rightarrow> u8 list \<Rightarrow> 'q link \<Rightarrow> bool \<times> 'q link" where
  "queue_packet qsend packet l = (case qsend (queue l) packet of
     Some q' \<Rightarrow> (True, l\<lparr>queue := q'\<rparr>)
   | None \<Rightarrow> (False, l))"

text \<open>One round of \<^verbatim>\<open>send\<close>; passing on more bytes than the packet has is a fault.\<close>

definition send :: "('q \<Rightarrow> (u8 list \<times> 'q) option) \<Rightarrow> bool \<Rightarrow> 'q link \<Rightarrow> 'q link option" where
  "send qrecv avail l = (if avail then (case qrecv (queue l) of
       Some (packet, q') \<Rightarrow>
         if 2 + pack_len packet \<le> length packet
         then Some (l\<lparr>queue := q', wire := wire l @ [payload packet]\<rparr>) else None
     | None \<Rightarrow> Some l) else Some l)"

text \<open>The sender has a list of packets still to queue: it goes on to the next when one is in.\<close>

datatype link_event = Attempt | Round bool

fun link_step ::
  "('q \<Rightarrow> u8 list \<Rightarrow> 'q option) \<Rightarrow> ('q \<Rightarrow> (u8 list \<times> 'q) option) \<Rightarrow> link_event \<Rightarrow> 'q link \<Rightarrow> 'q link option"
where
  "link_step qsend qrecv Attempt l = (case waiting l of
     [] \<Rightarrow> Some l
   | p # ps \<Rightarrow> (case queue_packet qsend p l of (ok, l') \<Rightarrow>
       Some (if ok then l'\<lparr>waiting := ps\<rparr> else l')))"
| "link_step qsend qrecv (Round avail) l = send qrecv avail l"

fun link_run where
  "link_run qsend qrecv [] l = Some l"
| "link_run qsend qrecv (e # es) l = Option.bind (link_step qsend qrecv e l) (link_run qsend qrecv es)"

definition sendable :: "u8 list \<Rightarrow> bool" where
  "sendable m \<longleftrightarrow> 2 + pack_len m \<le> length m"

text \<open>What is on the wire, in the queue and still to be queued, in this order.\<close>

definition pipeline :: "('q \<Rightarrow> u8 list list) \<Rightarrow> 'q link \<Rightarrow> u8 list list" where
  "pipeline items l = wire l @ map payload (items (queue l) @ waiting l)"

definition link_inv :: "('q \<Rightarrow> u8 list list) \<Rightarrow> 'q link \<Rightarrow> bool" where
  "link_inv items l \<longleftrightarrow> list_all sendable (items (queue l)) \<and> list_all sendable (waiting l)"

lemma link_step_pipeline:
  assumes "fifo_queue cap qsend qrecv items" and "link_inv items l"
  shows "\<exists>l'. link_step qsend qrecv e l = Some l' \<and> link_inv items l' \<and>
    pipeline items l' = pipeline items l"
proof (cases e)
  case Attempt
  show ?thesis
  proof (cases "waiting l")
    case Nil
    with Attempt assms show ?thesis by simp
  next
    case (Cons p ps)
    with Attempt assms show ?thesis
      by (cases "qsend (queue l) p")
        (auto simp: queue_packet_def fifo_queue_def link_inv_def pipeline_def)
  qed
next
  case (Round avail)
  have empty: "qrecv q = None \<longleftrightarrow> items q = []"
    and recv: "qrecv q = Some (p, q') \<Longrightarrow> items q = p # items q'" for q p q'
    using assms(1) by (simp_all add: fifo_queue_def)
  show ?thesis
  proof (cases "qrecv (queue l)")
    case None
    with Round assms show ?thesis by (simp add: send_def)
  next
    case (Some a)
    obtain p q' where a: "a = (p, q')" by (cases a)
    with Some recv have "items (queue l) = p # items q'" by simp
    with Round assms(2) Some a show ?thesis
      by (simp add: send_def link_inv_def pipeline_def sendable_def)
  qed
qed

lemma link_run_pipeline:
  assumes "fifo_queue cap qsend qrecv items" and "link_inv items l"
  shows "\<exists>l'. link_run qsend qrecv es l = Some l' \<and> link_inv items l' \<and>
    pipeline items l' = pipeline items l"
  using assms(2)
proof (induction es arbitrary: l)
  case (Cons e es)
  obtain l1 where l1: "link_step qsend qrecv e l = Some l1" "link_inv items l1"
      "pipeline items l1 = pipeline items l"
    using link_step_pipeline [OF assms(1) Cons.prems] by blast
  with Cons.IH [of l1] show ?case by auto
qed simp

text \<open>
  Progress. A turn is an attempt of the sender that is followed, before the next turn, by a round in
  which the controller is available; \<open>turns\<close> counts them, and each takes a packet off the list of those that have
  not reached the controller.
\<close>

fun turns :: "bool \<Rightarrow> link_event list \<Rightarrow> nat" where
  "turns tried [] = 0"
| "turns tried (Attempt # es) = turns True es"
| "turns tried (Round avail # es) = (if tried \<and> avail then 1 + turns False es else turns tried es)"

definition pending :: "('q \<Rightarrow> u8 list list) \<Rightarrow> 'q link \<Rightarrow> nat" where
  "pending items l = length (items (queue l)) + length (waiting l)"

lemma link_run_progress:
  assumes "fifo_queue cap qsend qrecv items" and "0 < cap" and "link_inv items l"
    and "link_run qsend qrecv es l = Some l'" and "tried \<Longrightarrow> items (queue l) \<noteq> [] \<or> pending items l = 0"
  shows "pending items l' + min (turns tried es) (pending items l) \<le> pending items l"
  using assms(3-)
proof (induction tried es arbitrary: l rule: turns.induct)
  case (2 tried es)
  have room: "qsend q p \<noteq> None" if "items q = []" for q p using assms(1,2) that by (simp add: fifo_queue_def)
  have "pending items l' + min (turns True es) (pending items l1) \<le> pending items l1 \<and> pending items l1 = pending items l"
    if "link_step qsend qrecv Attempt l = Some l1" for l1
  proof -
    have "link_inv items l1" using link_step_pipeline [OF assms(1) 2(2), of Attempt] that by simp
    moreover have "pending items l1 = pending items l \<and> (items (queue l1) \<noteq> [] \<or> pending items l1 = 0)"
    proof (cases "waiting l")
      case Nil
      then show ?thesis using that by (auto simp: pending_def)
    next
      case (Cons p ps)
      show ?thesis
      proof (cases "qsend (queue l) p")
        case None
        then have "items (queue l) \<noteq> []" using room by metis
        then show ?thesis using that Cons None by (auto simp: queue_packet_def)
      next
        case (Some q')
        then have "items q' = items (queue l) @ [p]" using assms(1) by (simp add: fifo_queue_def)
        then show ?thesis using that Cons Some by (auto simp: queue_packet_def pending_def)
      qed
    qed
    moreover have "link_run qsend qrecv es l1 = Some l'" using 2(3) that by simp
    ultimately show ?thesis using 2(1) [of l1] by metis
  qed
  then show ?case using 2(3) by (auto simp: Option.bind_eq_Some_conv)
next
  case (3 tried avail es)
  obtain l1 where l1: "send qrecv avail l = Some l1" "link_run qsend qrecv es l1 = Some l'"
    using 3(4) by (auto simp: Option.bind_eq_Some_conv)
  have inv: "link_inv items l1" using link_step_pipeline [OF assms(1) 3(3), of "Round avail"] l1(1) by simp
  have recv: "qrecv q = None \<longleftrightarrow> items q = []" "qrecv q = Some (p, q') \<Longrightarrow> items q = p # items q'" for q p q'
    using assms(1) by (simp_all add: fifo_queue_def)
  show ?case
  proof (cases "qrecv (queue l)")
    case None
    then have "l1 = l" using l1(1) by (simp add: send_def split: if_splits)
    moreover have e: "items (queue l) = []" using None recv(1) by simp
    ultimately have r: "link_run qsend qrecv es l = Some l'" "link_inv items l" using l1(2) inv by simp_all
    show ?thesis
    proof (cases "tried \<and> avail")
      case True
      moreover have "pending items l = 0" using 3(5) True e by simp
      ultimately show ?thesis using 3(1) [of l] r by simp
    next
      case False
      then show ?thesis using 3(2) [of l] r 3(5) by auto
    qed
  next
    case (Some a)
    then obtain p q' where a: "qrecv (queue l) = Some (p, q')" by (cases a) auto
    show ?thesis
    proof (cases avail)
      case True
      then have "pending items l = Suc (pending items l1)"
        using l1(1) a recv(2) [OF a] by (auto simp: send_def pending_def split: if_splits)
      moreover have "pending items l' + min (turns False es) (pending items l1) \<le> pending items l1"
        if tried using 3(1) [OF _ inv l1(2)] that True by auto
      moreover have "pending items l' + min (turns tried es) (pending items l1) \<le> pending items l1"
        if "\<not> tried" using 3(2) [OF _ inv l1(2)] that by auto
      ultimately show ?thesis using True by (cases tried) auto
    next
      case False
      then have "l1 = l" using l1(1) by (simp add: send_def)
      then show ?thesis using 3(2) [OF _ inv l1(2)] 3(5) False by auto
    qed
  qed
qed simp

text \<open>Nothing reaches the controller in a round in which it is not available.\<close>

lemma link_run_wire:
  assumes "link_run qsend qrecv es l = Some l'"
  shows "length (wire l') \<le> length (wire l) + count_list es (Round True)"
  using assms
proof (induction es arbitrary: l)
  case (Cons e es)
  obtain l1 where l1: "link_step qsend qrecv e l = Some l1" "link_run qsend qrecv es l1 = Some l'"
    using Cons.prems by (auto simp: Option.bind_eq_Some_conv)
  have "length (wire l1) \<le> length (wire l) + (if e = Round True then 1 else 0)"
    using l1(1) by (cases e) (auto simp: send_def queue_packet_def split: list.splits option.splits if_splits)
  then show ?case using Cons.IH [OF l1(2)] by (cases "e = Round True") simp_all
qed simp

text \<open>
  C4: whatever the order in which the callers of \<^verbatim>\<open>queue_packet\<close> and the task \<^verbatim>\<open>send\<close> run and
  whenever the queue is full or the controller busy, no packet is lost, doubled or
  overtaken, \<^verbatim>\<open>send\<close> never reads past a packet and passes on at most one packet per round in which the
  controller is available; and all packets arrive: once there have been as many turns as packets, a
  turn being an attempt to queue followed by a round with the controller available, the controller has
  received the payload of every packet, in their order, and nothing is left in the queue.
\<close>

theorem link_fifo:
  assumes "fifo_queue cap qsend qrecv items" and "0 < cap" and "items q = []" and "list_all sendable ps"
  shows "\<exists>l. link_run qsend qrecv es \<lparr>queue = q, waiting = ps, wire = []\<rparr> = Some l \<and>
    wire l @ map payload (items (queue l) @ waiting l) = map payload ps \<and>
    length (wire l) \<le> count_list es (Round True) \<and>
    (length ps \<le> turns False es \<longrightarrow> wire l = map payload ps \<and> items (queue l) = [] \<and> waiting l = [])"
proof -
  let ?l = "\<lparr>queue = q, waiting = ps, wire = []\<rparr>"
  have inv: "link_inv items ?l" using assms(3,4) by (simp add: link_inv_def)
  obtain l where l: "link_run qsend qrecv es ?l = Some l" "pipeline items l = pipeline items ?l"
    using link_run_pipeline [OF assms(1) inv, of es] by blast
  have "pending items l + min (turns False es) (length ps) \<le> length ps"
    using link_run_progress [OF assms(1,2) inv l(1)] assms(3) by (simp add: pending_def)
  then have "length ps \<le> turns False es \<longrightarrow> items (queue l) = [] \<and> waiting l = []" by (auto simp: pending_def)
  then show ?thesis using l link_run_wire [OF l(1)] assms(3) by (auto simp: pipeline_def)
qed

text \<open>A list bounded as the stack configures the queue satisfies the laws.\<close>

definition list_send :: "u8 list list \<Rightarrow> u8 list \<Rightarrow> u8 list list option" where
  "list_send q p = (if length q < SEND_BUFFER_SIZE then Some (q @ [p]) else None)"

definition list_recv :: "u8 list list \<Rightarrow> (u8 list \<times> u8 list list) option" where
  "list_recv q = (case q of [] \<Rightarrow> None | p # q' \<Rightarrow> Some (p, q'))"

theorem link_fifo_witness:
  "\<exists>l. link_run list_send list_recv [Round True, Attempt, Attempt, Round False, Round True, Attempt, Round True]
      \<lparr>queue = [], waiting = [[0, 1, 7], [0, 2, 8, 9]], wire = []\<rparr> = Some l \<and>
    wire l = [[7], [8, 9]] \<and> queue l = [] \<and> waiting l = []"
proof -
  have fifo: "fifo_queue SEND_BUFFER_SIZE list_send list_recv id"
    by (auto simp: fifo_queue_def list_send_def list_recv_def split: list.splits if_splits)
  have "0 < SEND_BUFFER_SIZE" by (simp add: SEND_BUFFER_SIZE_def)
  from link_fifo [OF fifo this, of "[]" "[[0, 1, 7], [0, 2, 8, 9]]"
      "[Round True, Attempt, Attempt, Round False, Round True, Attempt, Round True]"]
  show ?thesis by (auto simp: sendable_def payload_def pack_len_def simp del: link_run.simps)
qed

lemma framed_sendable: "framed m \<Longrightarrow> sendable m" "framed_cmd m \<Longrightarrow> sendable m"
  "lead_ok m \<Longrightarrow> sendable m" "sendable (pad [])"
  by (simp_all add: framed_def framed_cmd_def lead_ok_def sendable_def pack_len_def pad_def MAX_CMD_LEN_def)

lemma put_hci_framed:
  assumes "put (hci_cmd n opcode plen params) new_cmd = Some s"
    and "unat n = 4 + unat plen" and "length params \<le> unat plen" and "unat plen \<le> 294"
  shows "framed_cmd (fst s)"
proof -
  have "put (hci_cmd n opcode plen params) new_cmd =
      Some (pad (hci_cmd n opcode plen params), length (hci_cmd n opcode plen params))"
    by (rule put_new) (use assms in \<open>simp add: hci_cmd_def MAX_CMD_LEN_def\<close>)
  with assms(1) framed_hci_cmd [OF assms(2-4)] show ?thesis by auto
qed

lemma hci_event_framed: "hci_event_handler p st = Some st' \<Longrightarrow> emits framed_cmd st st'"
  by (auto simp: hci_event_handler_def pin_def split: Option.bind_splits if_splits
    intro!: emits_one dest: put_hci_framed)

text \<open>
  Every packet the stack queues while it handles a received packet, on any of its
  branches, is one that \<^verbatim>\<open>send\<close> can pass on: the bytes its length prefix counts are all in the
  300-byte packet, so the order result above applies to the whole stack.
\<close>

theorem host_rcv_sendable:
  assumes "host_rcv_pkt fuel p len st = Some (Done st')"
  shows "\<exists>new. sent st' = sent st @ new \<and> (\<forall>m \<in> set new. sendable m)"
proof -
  obtain t where t: "rd p 0 = Some t"
    using assms by (auto simp: host_rcv_pkt_def split: Option.bind_splits)
  have sig: "emits sendable st st'" if "l2cap_signal c p len f s st = Some st'" for c f s
    using l2cap_signal_framed_emits [OF that] by (rule emits_mono) (auto intro: framed_sendable)
  have "emits sendable st st'"
    using assms t sig
    by (auto simp: host_rcv_pkt_def acl_event_handler_def l2cap_cmd_handler_def
        split: Option.bind_splits if_splits
        intro: emits_mono [OF hci_event_framed] emits_mono [OF sdp_handler_framed] framed_sendable
        dest!: obex_ftp_emits elim: emits_mono)
  then show ?thesis by (simp add: emits_def)
qed

theorem host_rcv_sendable_witness:
  "\<exists>st' new. host_rcv_pkt 0 [4, 4, 10, 1, 2, 3, 4, 5, 6] 9 bt_init = Some (Done st') \<and>
    sent st' = sent bt_init @ new \<and> (\<forall>m \<in> set new. sendable m)"
proof -
  have "host_rcv_pkt 0 [4, 4, 10, 1, 2, 3, 4, 5, 6] 9 bt_init = Some (Done (queue_cmd (pad (hci_cmd 11
      (if connected bt_init = 0 then 0x0009 OR push_bit 10 0x01 else 0x000A OR push_bit 10 0x01) 7
      (take 6 (drop 3 [4, 4, 10, 1, 2, 3, 4, 5, 6]) @ [1])), 13) bt_init))"
    by (rule hci_conn_req) simp_all
  from this host_rcv_sendable [OF this] show ?thesis by blast
qed

end
