(* ===== verification/Floats.thy ===== *)
theory Floats
  imports Base
begin

text \<open>
  The C types \<^verbatim>\<open>double\<close> and \<^verbatim>\<open>float\<close> as the code uses them: IEEE 754 binary formats with
  rounding to nearest, ties to even. A finite value is a sign, a natural significand and a
  binary exponent; \<open>round_to\<close> gives the value of a format nearest to a fraction of natural
  numbers. \<^verbatim>\<open>strtod\<close> is given on the characters that \<^verbatim>\<open>parse_number\<close> of cJSON hands to it:
  digits, signs, a point and the exponent letters.
\<close>

datatype dbl = NaN | Inf bool | Fin bool nat int

subsection \<open>Rounding\<close>

fun bitlen :: "nat \<Rightarrow> nat" where
  "bitlen n = (if n = 0 then 0 else Suc (bitlen (n div 2)))"

declare bitlen.simps [simp del]

text \<open>The integral part of the binary logarithm of \<open>n / d\<close>.\<close>

definition ilog2 :: "nat \<Rightarrow> nat \<Rightarrow> int" where
  "ilog2 n d = (if d \<le> n then int (bitlen (n div d)) - 1
     else - int (bitlen ((d + n - 1) div n - 1)))"

text \<open>A format: precision and the least and the largest exponent of the significand.\<close>

type_synonym format = "nat \<times> int \<times> int"

definition binary64 :: format where "binary64 = (53, - 1074, 971)"

definition binary32 :: format where "binary32 = (24, - 149, 104)"

definition half_even :: "nat \<Rightarrow> nat \<Rightarrow> nat" where
  "half_even n d = (let q = n div d; r = n mod d in
     if d < 2 * r \<or> 2 * r = d \<and> odd q then q + 1 else q)"

definition round_to :: "format \<Rightarrow> bool \<Rightarrow> nat \<Rightarrow> nat \<Rightarrow> dbl" where
  "round_to fmt neg n d = (case fmt of (p, emin, emax) \<Rightarrow>
     if n = 0 then Fin neg 0 emin
     else let e = max emin (ilog2 n d - (int p - 1));
              m = (if 0 \<le> e then half_even n (d * 2 ^ nat e) else half_even (n * 2 ^ nat (- e)) d);
              (m', e') = (if m = 2 ^ p then (2 ^ (p - 1), e + 1) else (m, e))
          in if emax < e' then Inf neg else Fin neg m' e')"

subsection \<open>Conversions and comparisons\<close>

definition signed :: "bool \<Rightarrow> nat \<Rightarrow> int" where
  "signed neg n = (if neg then - int n else int n)"

text \<open>\<^verbatim>\<open>x >= k\<close> and \<^verbatim>\<open>x <= k\<close> for an integer that the format represents exactly.\<close>

fun dbl_ge_int :: "dbl \<Rightarrow> int \<Rightarrow> bool" where
  "dbl_ge_int NaN k = False"
| "dbl_ge_int (Inf neg) k = (\<not> neg)"
| "dbl_ge_int (Fin neg m e) k =
     (if 0 \<le> e then k \<le> signed neg (m * 2 ^ nat e) else k * 2 ^ nat (- e) \<le> signed neg m)"

fun dbl_le_int :: "dbl \<Rightarrow> int \<Rightarrow> bool" where
  "dbl_le_int NaN k = False"
| "dbl_le_int (Inf neg) k = neg"
| "dbl_le_int (Fin neg m e) k =
     (if 0 \<le> e then signed neg (m * 2 ^ nat e) \<le> k else signed neg m \<le> k * 2 ^ nat (- e))"

text \<open>\<^verbatim>\<open>(int)x\<close>: towards zero; undefined (\<^term>\<open>None\<close>) when the result is no 32-bit integer.\<close>

definition INT_MAX :: int where "INT_MAX = 2147483647"

definition INT_MIN :: int where "INT_MIN = - 2147483648"

fun dbl_to_int :: "dbl \<Rightarrow> int option" where
  "dbl_to_int NaN = None"
| "dbl_to_int (Inf neg) = None"
| "dbl_to_int (Fin neg m e) =
     (let k = signed neg (if 0 \<le> e then m * 2 ^ nat e else m div 2 ^ nat (- e))
      in if INT_MIN \<le> k \<and> k \<le> INT_MAX then Some k else None)"

definition int_to_dbl :: "int \<Rightarrow> dbl" where
  "int_to_dbl k = round_to binary64 (k < 0) (nat \<bar>k\<bar>) 1"

definition dbl_zero :: dbl where "dbl_zero = Fin False 0 (- 1074)"

text \<open>\<^verbatim>\<open>(float)x\<close>.\<close>

fun dbl_to_float :: "dbl \<Rightarrow> dbl" where
  "dbl_to_float NaN = NaN"
| "dbl_to_float (Inf neg) = Inf neg"
| "dbl_to_float (Fin neg m e) =
     (if 0 \<le> e then round_to binary32 neg (m * 2 ^ nat e) 1
      else round_to binary32 neg m (2 ^ nat (- e)))"

subsection \<open>Arithmetic\<close>

text \<open>The value \<open>x * 2 ^ e\<close> of an integer, rounded.\<close>

definition scaled :: "int \<Rightarrow> int \<Rightarrow> dbl" where
  "scaled x e = (if 0 \<le> e then round_to binary64 (x < 0) (nat \<bar>x\<bar> * 2 ^ nat e) 1
     else round_to binary64 (x < 0) (nat \<bar>x\<bar>) (2 ^ nat (- e)))"

text \<open>Two finite values as integers over the smaller exponent.\<close>

definition align :: "int \<Rightarrow> bool \<Rightarrow> nat \<Rightarrow> int \<Rightarrow> int" where
  "align e neg m e' = signed neg m * 2 ^ nat (e' - e)"

fun dbl_sub :: "dbl \<Rightarrow> dbl \<Rightarrow> dbl" where
  "dbl_sub NaN y = NaN"
| "dbl_sub x NaN = NaN"
| "dbl_sub (Inf s) (Inf t) = (if s = t then NaN else Inf s)"
| "dbl_sub (Inf s) (Fin _ _ _) = Inf s"
| "dbl_sub (Fin _ _ _) (Inf t) = Inf (\<not> t)"
| "dbl_sub (Fin s m e) (Fin t n f) =
     (let g = min e f in scaled (align g s m e - align g t n f) g)"

fun dbl_abs :: "dbl \<Rightarrow> dbl" where
  "dbl_abs NaN = NaN"
| "dbl_abs (Inf s) = Inf False"
| "dbl_abs (Fin s m e) = Fin False m e"

fun dbl_le :: "dbl \<Rightarrow> dbl \<Rightarrow> bool" where
  "dbl_le NaN y = False"
| "dbl_le x NaN = False"
| "dbl_le (Inf s) (Inf t) = (s \<or> \<not> t)"
| "dbl_le (Inf s) (Fin _ _ _) = s"
| "dbl_le (Fin _ _ _) (Inf t) = (\<not> t)"
| "dbl_le (Fin s m e) (Fin t n f) = (let g = min e f in align g s m e \<le> align g t n f)"

definition dbl_lt :: "dbl \<Rightarrow> dbl \<Rightarrow> bool" where
  "dbl_lt x y \<longleftrightarrow> dbl_le x y \<and> \<not> dbl_le y x"

text \<open>\<^verbatim>\<open>x * DBL_EPSILON\<close>: a product with 2 to the -52.\<close>

fun times_epsilon :: "dbl \<Rightarrow> dbl" where
  "times_epsilon NaN = NaN"
| "times_epsilon (Inf s) = Inf s"
| "times_epsilon (Fin s m e) = scaled (signed s m) (e - 52)"

subsection \<open>strtod\<close>

definition is_digit :: "u8 \<Rightarrow> bool" where
  "is_digit c \<longleftrightarrow> 0x30 \<le> c \<and> c \<le> 0x39"

definition digits_val :: "u8 list \<Rightarrow> nat" where
  "digits_val ds = foldl (\<lambda>v c. 10 * v + (unat c - 48)) 0 ds"

text \<open>An optional sign: whether it is a minus, and how many characters it takes.\<close>

fun sign_of :: "u8 list \<Rightarrow> bool \<times> nat" where
  "sign_of (c # s) = (if c = 0x2d then (True, 1) else if c = 0x2b then (False, 1) else (False, 0))"
| "sign_of [] = (False, 0)"

text \<open>The exponent part: its value, and its length (0 when there is none).\<close>

fun exponent_of :: "u8 list \<Rightarrow> int \<times> nat" where
  "exponent_of (c # s) = (if c = 0x65 \<or> c = 0x45 then
       let (neg, k) = sign_of s; ds = takeWhile is_digit (drop k s)
       in if ds = [] then (0, 0) else (signed neg (digits_val ds), 1 + k + length ds)
     else (0, 0))"
| "exponent_of [] = (0, 0)"

text \<open>The value and the number of characters used; 0 when no number starts the string.\<close>

definition strtod :: "u8 list \<Rightarrow> dbl \<times> nat" where
  "strtod s = (let
      (neg, k) = sign_of s;
      s1 = drop k s; ip = takeWhile is_digit s1; s2 = drop (length ip) s1;
      (fp, point) = (case s2 of c # s' \<Rightarrow> if c = 0x2e then (takeWhile is_digit s', 1) else ([], 0)
                     | [] \<Rightarrow> ([], 0));
      s3 = drop (point + length fp) s2;
      (ex, l) = exponent_of s3;
      scale = ex - int (length fp);
      v = digits_val (ip @ fp)
    in if ip = [] \<and> fp = [] then (dbl_zero, 0)
       else ((if 0 \<le> scale then round_to binary64 neg (v * 10 ^ nat scale) 1
              else round_to binary64 neg v (10 ^ nat (- scale))),
             k + length ip + point + length fp + l))"

lemma round_to_not_nan [simp]: "round_to fmt neg n d \<noteq> NaN"
  by (simp add: round_to_def Let_def split: prod.split)

subsection \<open>Integers below 2 to the 53\<close>

lemma bitlen_pos: "0 < n \<Longrightarrow> 2 ^ (bitlen n - 1) \<le> n \<and> n < 2 ^ bitlen n \<and> 0 < bitlen n"
proof (induction n rule: bitlen.induct)
  case (1 n)
  show ?case
  proof (cases "n div 2 = 0")
    case True
    with 1 have "n = 1" by linarith
    then show ?thesis by (simp add: bitlen.simps)
  next
    case False
    with 1 have ih: "2 ^ (bitlen (n div 2) - 1) \<le> n div 2" "n div 2 < 2 ^ bitlen (n div 2)" "0 < bitlen (n div 2)"
      by auto
    have "bitlen n = Suc (bitlen (n div 2))" using 1 by (subst bitlen.simps) simp
    moreover have "2 * 2 ^ (bitlen (n div 2) - 1) = (2 :: nat) ^ bitlen (n div 2)"
      using ih(3) by (simp add: power_eq_if)
    moreover have "2 * (n div 2) \<le> n" "n < 2 * (n div 2) + 2" by simp_all
    ultimately show ?thesis using ih
      by (simp only: diff_Suc_1 power_Suc zero_less_Suc simp_thms) linarith
  qed
qed

lemma bitlen_le: "n < 2 ^ k \<Longrightarrow> bitlen n \<le> k"
proof (cases "n = 0")
  case False
  assume "n < 2 ^ k"
  with bitlen_pos [of n] False have "(2 :: nat) ^ (bitlen n - 1) < 2 ^ k" by linarith
  then show ?thesis using bitlen_pos [of n] False by (simp add: less_Suc_eq_le)
qed (simp add: bitlen.simps)

lemma half_even_1: "half_even n 1 = n"
  by (simp add: half_even_def Let_def)

lemma round_int:
  assumes "0 < n" and "n < 2 ^ 53"
  shows "round_to binary64 neg n 1 = Fin neg (n * 2 ^ (53 - bitlen n)) (int (bitlen n) - 53)"
proof -
  have b: "bitlen n \<le> 53" "0 < bitlen n" using assms bitlen_le bitlen_pos by auto
  have e: "max (- 1074) (ilog2 n 1 - (int 53 - 1)) = int (bitlen n) - 53"
    using assms b by (simp add: ilog2_def)
  have "n * 2 ^ (53 - bitlen n) < 2 ^ bitlen n * 2 ^ (53 - bitlen n)"
    using bitlen_pos [OF assms(1)] by simp
  also have "\<dots> = 2 ^ 53" using b by (simp flip: power_add)
  finally have m: "n * 2 ^ (53 - bitlen n) < 2 ^ 53" .
  have "nat (53 - int (bitlen n)) = 53 - bitlen n" using b by simp
  then have "(if 0 \<le> int (bitlen n) - 53 then half_even n (1 * 2 ^ nat (int (bitlen n) - 53))
     else half_even (n * 2 ^ nat (- (int (bitlen n) - 53))) 1) = n * 2 ^ (53 - bitlen n)"
    using b half_even_1 by auto
  then show ?thesis
    using assms b m unfolding round_to_def binary64_def e prod.case Let_def
    by simp
qed

definition saturate :: "int \<Rightarrow> int" where
  "saturate k = (if INT_MAX \<le> k then INT_MAX else if k \<le> INT_MIN then INT_MIN else k)"

lemma round_int_cmp:
  assumes "0 < n" and "n < 2 ^ 53"
  shows "dbl_ge_int (round_to binary64 neg n 1) k \<longleftrightarrow> k \<le> signed neg n"
    and "dbl_le_int (round_to binary64 neg n 1) k \<longleftrightarrow> signed neg n \<le> k"
    and "dbl_to_int (round_to binary64 neg n 1) =
      (if INT_MIN \<le> signed neg n \<and> signed neg n \<le> INT_MAX then Some (signed neg n) else None)"
proof -
  define s where "s = 53 - bitlen n"
  have b: "bitlen n \<le> 53" using assms bitlen_le by auto
  then have s: "nat (53 - int (bitlen n)) = s" "int (bitlen n) - 53 = - int s"
    by (simp_all add: s_def)
  have sg: "signed neg (n * 2 ^ s) = signed neg n * 2 ^ s" by (simp add: signed_def)
  have r: "round_to binary64 neg n 1 = Fin neg (n * 2 ^ s) (- int s)"
    using round_int [OF assms] by (simp add: s_def s)
  show "dbl_ge_int (round_to binary64 neg n 1) k \<longleftrightarrow> k \<le> signed neg n"
    unfolding r by (cases "s = 0") (auto simp: sg)
  show "dbl_le_int (round_to binary64 neg n 1) k \<longleftrightarrow> signed neg n \<le> k"
    unfolding r by (cases "s = 0") (auto simp: sg)
  show "dbl_to_int (round_to binary64 neg n 1) =
      (if INT_MIN \<le> signed neg n \<and> signed neg n \<le> INT_MAX then Some (signed neg n) else None)"
    unfolding r by (cases "s = 0") (auto simp: Let_def signed_def)
qed

lemma int_to_dbl_cmp:
  assumes "\<bar>i\<bar> < 2 ^ 53"
  shows "dbl_ge_int (int_to_dbl i) k \<longleftrightarrow> k \<le> i" and "dbl_le_int (int_to_dbl i) k \<longleftrightarrow> i \<le> k"
    and "dbl_to_int (int_to_dbl i) = (if INT_MIN \<le> i \<and> i \<le> INT_MAX then Some i else None)"
proof -
  have "nat \<bar>i\<bar> < 2 ^ 53" using assms by simp
  moreover have "signed (i < 0) (nat \<bar>i\<bar>) = i" by (simp add: signed_def)
  moreover have "int_to_dbl 0 = Fin False 0 (- 1074)"
    by (simp add: int_to_dbl_def round_to_def binary64_def)
  ultimately show "dbl_ge_int (int_to_dbl i) k \<longleftrightarrow> k \<le> i" and "dbl_le_int (int_to_dbl i) k \<longleftrightarrow> i \<le> k"
    and "dbl_to_int (int_to_dbl i) = (if INT_MIN \<le> i \<and> i \<le> INT_MAX then Some i else None)"
    using round_int_cmp [of "nat \<bar>i\<bar>" "i < 0"]
    by (cases "i = 0"; simp add: int_to_dbl_def signed_def INT_MIN_def INT_MAX_def mult_le_0_iff zero_le_mult_iff)+
qed

subsection \<open>Scaling\<close>

lemma ilog2_scale:
  assumes "0 < c" and "0 < d" and "0 < n"
  shows "ilog2 (n * c) (d * c) = ilog2 n d"
proof -
  have *: "(b + a - 1) div a - 1 = (b - 1) div a" if "0 < a" "0 < b" for a b :: nat
  proof -
    have "b + a - 1 = (b - 1) + a" using that by simp
    with that show ?thesis by (simp only: div_add_self2)
  qed
  have "(d * c - 1) div (n * c) = (d - 1) div n"
  proof -
    have "d * c - 1 = (c - 1) + (d - 1) * c" using assms by (cases d; cases c) simp_all
    moreover have "((c - 1) + (d - 1) * c) div c = d - 1" using assms by (subst div_mult_self1) auto
    ultimately have "(d * c - 1) div c = d - 1" by simp
    then show ?thesis by (metis div_mult2_eq mult.commute)
  qed
  then have "(d * c + n * c - 1) div (n * c) - 1 = (d + n - 1) div n - 1"
    using * [of "n * c" "d * c"] * [of n d] assms by simp
  with assms show ?thesis by (simp add: ilog2_def)
qed

lemma half_even_scale: "0 < c \<Longrightarrow> half_even (n * c) (d * c) = half_even n d"
  by (simp add: half_even_def Let_def flip: mult.assoc) (simp add: mult_mod_left)?

lemma round_to_scale:
  assumes "0 < c" and "0 < d"
  shows "round_to fmt neg (n * c) (d * c) = round_to fmt neg n d"
proof (cases "n = 0")
  case False
  have "half_even (n * c) (d * c * k) = half_even n (d * k)" for k
    using half_even_scale [OF assms(1), of n "d * k"] by (simp add: ac_simps)
  moreover have "half_even (n * c * k) (d * c) = half_even (n * k) d" for k
    using half_even_scale [OF assms(1), of "n * k" d] by (simp add: ac_simps)
  ultimately show ?thesis using assms False by (cases fmt) (simp add: round_to_def ilog2_scale Let_def)
qed (simp add: round_to_def)
lemma scaled_shift:
  assumes "g \<le> e"
  shows "scaled (x * 2 ^ nat (e - g)) g = scaled x e"
proof -
  let ?k = "nat (e - g)"
  have neg: "(x * 2 ^ ?k < 0) = (x < 0)" by (simp add: mult_less_0_iff)
  have abs: "nat \<bar>x * 2 ^ ?k\<bar> = nat \<bar>x\<bar> * 2 ^ ?k"
    by (simp add: abs_mult nat_mult_distrib nat_power_eq)
  show ?thesis
  proof (cases "0 \<le> g")
    case True
    then have "(2::nat) ^ ?k * 2 ^ nat g = 2 ^ nat e" using assms by (simp flip: power_add add: nat_diff_distrib)
    with True assms show ?thesis by (simp add: scaled_def neg abs mult.assoc)
  next
    case g: False
    show ?thesis
    proof (cases "0 \<le> e")
      case True
      have "(2::nat) ^ ?k = 2 ^ nat e * 2 ^ nat (- g)"
        using True g by (simp flip: power_add add: nat_diff_distrib nat_add_distrib [symmetric])
      then have eq: "nat \<bar>x\<bar> * 2 ^ ?k = nat \<bar>x\<bar> * 2 ^ nat e * 2 ^ nat (- g)"
        by (simp only: mult.assoc)
      have "scaled (x * 2 ^ ?k) g =
          round_to binary64 (x < 0) (nat \<bar>x\<bar> * 2 ^ nat e * 2 ^ nat (- g)) (2 ^ nat (- g))"
        using g by (simp only: scaled_def neg abs if_False eq)
      then show ?thesis
        using round_to_scale [of "2 ^ nat (- g)" 1 binary64 "x < 0" "nat \<bar>x\<bar> * 2 ^ nat e"] True
        by (simp add: scaled_def)
    next
      case False
      have "(2::nat) ^ nat (- g) = 2 ^ nat (- e) * 2 ^ ?k"
        using False g assms by (simp flip: power_add add: nat_add_distrib [symmetric])
      with g False show ?thesis
        using round_to_scale [of "2 ^ ?k" "2 ^ nat (- e)" binary64 "x < 0" "nat \<bar>x\<bar>"]
        by (simp add: scaled_def neg abs)
    qed
  qed
qed

lemma times_epsilon_eq:
  assumes "dbl_le a b" and "dbl_le b a"
  shows "times_epsilon a = times_epsilon b"
proof (cases a; cases b)
  fix s m e t n f assume ab: "a = Fin s m e" "b = Fin t n f"
  let ?g = "min e f"
  have "signed s m * 2 ^ nat (e - ?g) = signed t n * 2 ^ nat (f - ?g)"
    using assms ab by (simp add: align_def Let_def min.commute)
  then have "scaled (signed s m) (e - 52) = scaled (signed t n) (f - 52)"
    using scaled_shift [of "?g - 52" "e - 52" "signed s m"] scaled_shift [of "?g - 52" "f - 52" "signed t n"]
    by simp
  with ab show ?thesis by simp
qed (use assms in auto)

lemma abs_sub_commute: "dbl_abs (dbl_sub a b) = dbl_abs (dbl_sub b a)"
proof (cases a; cases b)
  fix s m e t n f assume ab: "a = Fin s m e" "b = Fin t n f"
  have abs_round: "dbl_abs (round_to fm p i d) = dbl_abs (round_to fm q i d)" for fm p q i d
    by (simp add: round_to_def Let_def split: prod.split)
  have abs_scaled: "dbl_abs (scaled x g) = dbl_abs (scaled (- x) g)" for x g
    using abs_round by (simp add: scaled_def)
  let ?g = "min e f"
  show ?thesis
    using ab abs_scaled [of "align ?g s m e - align ?g t n f" ?g]
    by (simp add: Let_def min.commute)
qed auto

lemma dbl_le_total: "dbl_le (dbl_abs a) (dbl_abs b) \<or> dbl_le (dbl_abs b) (dbl_abs a) \<or> a = NaN \<or> b = NaN"
  by (cases a; cases b) (auto simp: Let_def min.commute)

end
