(* ===== verification/CJson.thy ===== *)
theory CJson
  imports Floats
begin

text \<open>
  The data of cJSON (\<^verbatim>\<open>components/json/cJSON/cJSON.c\<close> and \<^verbatim>\<open>cJSON.h\<close>): the node, the
  allocator hooks, strings, creation, deletion, lookup, duplication and comparison.

  A node is a value of \<open>cjson\<close> with the fields of the C structure; its children, in C a
  doubly linked list from \<^verbatim>\<open>child\<close>, are the list \<open>child\<close>, empty for the null pointer, and
  \<^verbatim>\<open>next\<close> and \<^verbatim>\<open>prev\<close> are the positions in it. A pointer that may be null is an option. A
  string is the block it is in without the last byte, which is the terminator; library
  functions read it up to the first 0 byte.

  The allocator is a parameter: \<open>mem n\<close> tells whether the n-th request succeeds. The state
  \<open>heap\<close> counts the requests and the blocks that are live, so that a leak or a double free
  is a difference in \<open>live\<close>.
\<close>

subsection \<open>Nodes\<close>

datatype cjson = CJ (jtype: int) (valuestring: "u8 list option") (valueint: int)
  (valuedouble: dbl) (jstring: "u8 list option") (child: "cjson list")

definition cJSON_Invalid :: int where "cJSON_Invalid = 0"
definition cJSON_False :: int where "cJSON_False = 1"
definition cJSON_True :: int where "cJSON_True = 2"
definition cJSON_NULL :: int where "cJSON_NULL = 4"
definition cJSON_Number :: int where "cJSON_Number = 8"
definition cJSON_String :: int where "cJSON_String = 16"
definition cJSON_Array :: int where "cJSON_Array = 32"
definition cJSON_Object :: int where "cJSON_Object = 64"
definition cJSON_Raw :: int where "cJSON_Raw = 128"
definition cJSON_IsReference :: int where "cJSON_IsReference = 256"
definition cJSON_StringIsConst :: int where "cJSON_StringIsConst = 512"

lemmas type_codes = cJSON_Invalid_def cJSON_False_def cJSON_True_def cJSON_NULL_def
  cJSON_Number_def cJSON_String_def cJSON_Array_def cJSON_Object_def cJSON_Raw_def
  cJSON_IsReference_def cJSON_StringIsConst_def

fun set_type :: "int \<Rightarrow> cjson \<Rightarrow> cjson" where
  "set_type t (CJ _ vs vi vd nm ch) = CJ t vs vi vd nm ch"

fun set_valuestring :: "u8 list option \<Rightarrow> cjson \<Rightarrow> cjson" where
  "set_valuestring vs (CJ t _ vi vd nm ch) = CJ t vs vi vd nm ch"

fun set_valueint :: "int \<Rightarrow> cjson \<Rightarrow> cjson" where
  "set_valueint vi (CJ t vs _ vd nm ch) = CJ t vs vi vd nm ch"

fun set_valuedouble :: "dbl \<Rightarrow> cjson \<Rightarrow> cjson" where
  "set_valuedouble vd (CJ t vs vi _ nm ch) = CJ t vs vi vd nm ch"

fun set_string :: "u8 list option \<Rightarrow> cjson \<Rightarrow> cjson" where
  "set_string nm (CJ t vs vi vd _ ch) = CJ t vs vi vd nm ch"

fun set_child :: "cjson list \<Rightarrow> cjson \<Rightarrow> cjson" where
  "set_child ch (CJ t vs vi vd nm _) = CJ t vs vi vd nm ch"

definition zero_item :: cjson where
  "zero_item = CJ 0 None 0 dbl_zero None []"

subsection \<open>The allocator\<close>

record heap =
  requests :: nat
  live :: int

definition allocate :: "(nat \<Rightarrow> bool) \<Rightarrow> heap \<Rightarrow> bool \<times> heap" where
  "allocate mem h = (mem (requests h),
     h\<lparr>requests := requests h + 1, live := live h + (if mem (requests h) then 1 else 0)\<rparr>)"

definition deallocate :: "heap \<Rightarrow> heap" where
  "deallocate h = h\<lparr>live := live h - 1\<rparr>"

definition cJSON_New_Item :: "(nat \<Rightarrow> bool) \<Rightarrow> heap \<Rightarrow> cjson option \<times> heap" where
  "cJSON_New_Item mem h = (case allocate mem h of (ok, h') \<Rightarrow>
     (if ok then Some zero_item else None, h'))"

definition is_ref :: "cjson \<Rightarrow> bool" where
  "is_ref it \<longleftrightarrow> jtype it AND cJSON_IsReference \<noteq> 0"

definition const_name :: "cjson \<Rightarrow> bool" where
  "const_name it \<longleftrightarrow> jtype it AND cJSON_StringIsConst \<noteq> 0"

text \<open>A node and those that follow it in its list; the null pointer is the empty list.\<close>

fun cJSON_Delete :: "cjson list \<Rightarrow> heap \<Rightarrow> heap" where
  "cJSON_Delete [] h = h"
| "cJSON_Delete (CJ t vs vi vd nm ch # next) h = (let
      h1 = (if t AND cJSON_IsReference = 0 \<and> ch \<noteq> [] then cJSON_Delete ch h else h);
      h2 = (if t AND cJSON_IsReference = 0 \<and> vs \<noteq> None then deallocate h1 else h1);
      h3 = (if t AND cJSON_StringIsConst = 0 \<and> nm \<noteq> None then deallocate h2 else h2)
    in cJSON_Delete next (deallocate h3))"

text \<open>The blocks a node owns.\<close>

fun blocks :: "cjson list \<Rightarrow> int" where
  "blocks [] = 0"
| "blocks (CJ t vs vi vd nm ch # next) =
     1 + (if t AND cJSON_IsReference = 0 then blocks ch + (if vs \<noteq> None then 1 else 0) else 0)
       + (if t AND cJSON_StringIsConst = 0 \<and> nm \<noteq> None then 1 else 0) + blocks next"

lemma blocks_append: "blocks (xs @ ys) = blocks xs + blocks ys"
  by (induction xs rule: blocks.induct) simp_all

lemma cJSON_Delete_heap: "cJSON_Delete is h = h\<lparr>live := live h - blocks is\<rparr>"
  by (induction "is" h rule: cJSON_Delete.induct) (simp_all add: deallocate_def Let_def)

subsection \<open>Strings\<close>

definition cstr :: "u8 list \<Rightarrow> u8 list" where
  "cstr s = takeWhile (\<lambda>c. c \<noteq> 0) s"

fun strcmp :: "u8 list \<Rightarrow> u8 list \<Rightarrow> int" where
  "strcmp (x # xs) (y # ys) = (if x \<noteq> y then int (unat x) - int (unat y)
     else if x = 0 then 0 else strcmp xs ys)"
| "strcmp (x # xs) [] = int (unat x)"
| "strcmp [] (y # ys) = - int (unat y)"
| "strcmp [] [] = 0"

definition tolower :: "u8 \<Rightarrow> u8" where
  "tolower c = (if 0x41 \<le> c \<and> c \<le> 0x5a then c + 32 else c)"

fun ci_cmp :: "u8 list \<Rightarrow> u8 list \<Rightarrow> int" where
  "ci_cmp (x # xs) (y # ys) =
     (if tolower x \<noteq> tolower y then int (unat (tolower x)) - int (unat (tolower y))
      else if x = 0 then 0 else ci_cmp xs ys)"
| "ci_cmp (x # xs) [] = int (unat (tolower x))"
| "ci_cmp [] (y # ys) = - int (unat (tolower y))"
| "ci_cmp [] [] = 0"

definition case_insensitive_strcmp :: "u8 list option \<Rightarrow> u8 list option \<Rightarrow> int" where
  "case_insensitive_strcmp s t = (case (s, t) of (Some a, Some b) \<Rightarrow> ci_cmp a b | _ \<Rightarrow> 1)"

definition cJSON_strdup :: "(nat \<Rightarrow> bool) \<Rightarrow> u8 list option \<Rightarrow> heap \<Rightarrow> u8 list option \<times> heap" where
  "cJSON_strdup mem s h = (case s of None \<Rightarrow> (None, h)
     | Some bs \<Rightarrow> (case allocate mem h of (ok, h') \<Rightarrow> (if ok then Some (cstr bs) else None, h')))"

subsection \<open>Values\<close>

definition num_to_int :: "dbl \<Rightarrow> int option" where
  "num_to_int d = (if dbl_ge_int d INT_MAX then Some INT_MAX
     else if dbl_le_int d INT_MIN then Some INT_MIN else dbl_to_int d)"

text \<open>Converting a NaN to \<^verbatim>\<open>int\<close> is undefined: \<^term>\<open>None\<close>.\<close>

definition cJSON_SetNumberHelper :: "cjson \<Rightarrow> dbl \<Rightarrow> cjson option" where
  "cJSON_SetNumberHelper object number =
     map_option (\<lambda>i. set_valuedouble number (set_valueint i object)) (num_to_int number)"

text \<open>\<^verbatim>\<open>strlen\<close> of a null pointer is undefined. The short value is copied into the old block.\<close>

definition cJSON_SetValuestring ::
  "(nat \<Rightarrow> bool) \<Rightarrow> cjson \<Rightarrow> u8 list \<Rightarrow> heap \<Rightarrow> (bool \<times> cjson \<times> heap) option" where
  "cJSON_SetValuestring mem object vs h =
     (if jtype object AND cJSON_String = 0 \<or> is_ref object then Some (False, object, h)
      else case valuestring object of None \<Rightarrow> None
      | Some old \<Rightarrow>
          if length (cstr vs) \<le> length (cstr old)
          then Some (True, set_valuestring
             (Some (take (length old) (cstr vs @ 0 # drop (length (cstr vs) + 1) old))) object, h)
          else (case cJSON_strdup mem (Some vs) h of
              (None, h') \<Rightarrow> Some (False, object, h')
            | (Some copy, h') \<Rightarrow> Some (True, set_valuestring (Some copy) object, deallocate h')))"

definition is_kind :: "int \<Rightarrow> cjson option \<Rightarrow> bool" where
  "is_kind t item = (case item of None \<Rightarrow> False | Some it \<Rightarrow> jtype it AND 0xFF = t)"

definition cJSON_IsInvalid where "cJSON_IsInvalid = is_kind cJSON_Invalid"
definition cJSON_IsFalse where "cJSON_IsFalse = is_kind cJSON_False"
definition cJSON_IsTrue where "cJSON_IsTrue = is_kind cJSON_True"
definition cJSON_IsNull where "cJSON_IsNull = is_kind cJSON_NULL"
definition cJSON_IsNumber where "cJSON_IsNumber = is_kind cJSON_Number"
definition cJSON_IsString where "cJSON_IsString = is_kind cJSON_String"
definition cJSON_IsArray where "cJSON_IsArray = is_kind cJSON_Array"
definition cJSON_IsObject where "cJSON_IsObject = is_kind cJSON_Object"
definition cJSON_IsRaw where "cJSON_IsRaw = is_kind cJSON_Raw"

definition cJSON_IsBool :: "cjson option \<Rightarrow> bool" where
  "cJSON_IsBool item = (case item of None \<Rightarrow> False
     | Some it \<Rightarrow> jtype it AND (cJSON_True OR cJSON_False) \<noteq> 0)"

lemmas is_type_defs = cJSON_IsInvalid_def cJSON_IsFalse_def cJSON_IsTrue_def cJSON_IsNull_def
  cJSON_IsNumber_def cJSON_IsString_def cJSON_IsArray_def cJSON_IsObject_def cJSON_IsRaw_def
  is_kind_def

definition cJSON_GetStringValue :: "cjson option \<Rightarrow> u8 list option" where
  "cJSON_GetStringValue item =
     (if cJSON_IsString item then Option.bind item valuestring else None)"

definition cJSON_GetNumberValue :: "cjson option \<Rightarrow> dbl" where
  "cJSON_GetNumberValue item = (case item of
     Some it \<Rightarrow> if cJSON_IsNumber item then valuedouble it else NaN | None \<Rightarrow> NaN)"

subsection \<open>Lookup\<close>

definition cJSON_GetArraySize :: "cjson option \<Rightarrow> int" where
  "cJSON_GetArraySize array = (case array of None \<Rightarrow> 0
     | Some it \<Rightarrow> sint (word_of_nat (length (child it)) :: u32))"

fun nth_child :: "cjson list \<Rightarrow> nat \<Rightarrow> cjson option" where
  "nth_child [] index = None"
| "nth_child (c # cs) index = (if index = 0 then Some c else nth_child cs (index - 1))"

definition get_array_item :: "cjson option \<Rightarrow> nat \<Rightarrow> cjson option" where
  "get_array_item array index = (case array of None \<Rightarrow> None | Some it \<Rightarrow> nth_child (child it) index)"

definition cJSON_GetArrayItem :: "cjson option \<Rightarrow> int \<Rightarrow> cjson option" where
  "cJSON_GetArrayItem array index =
     (if index < 0 then None else get_array_item array (nat index))"

text \<open>The two search loops over the children; the case sensitive one stops at a child that
  has no name.\<close>

fun scan_exact :: "u8 list \<Rightarrow> cjson list \<Rightarrow> cjson option" where
  "scan_exact nm [] = None"
| "scan_exact nm (c # cs) = (case jstring c of
     Some s \<Rightarrow> if strcmp nm s \<noteq> 0 then scan_exact nm cs else Some c
   | None \<Rightarrow> Some c)"

fun scan_nocase :: "u8 list \<Rightarrow> cjson list \<Rightarrow> cjson option" where
  "scan_nocase nm [] = None"
| "scan_nocase nm (c # cs) =
     (if case_insensitive_strcmp (Some nm) (jstring c) \<noteq> 0 then scan_nocase nm cs else Some c)"

definition get_object_item :: "cjson option \<Rightarrow> u8 list option \<Rightarrow> bool \<Rightarrow> cjson option" where
  "get_object_item object nm case_sensitive = (case (object, nm) of
     (Some ob, Some n) \<Rightarrow>
        (case (if case_sensitive then scan_exact n (child ob) else scan_nocase n (child ob)) of
           Some c \<Rightarrow> if jstring c = None then None else Some c
         | None \<Rightarrow> None)
   | _ \<Rightarrow> None)"

definition cJSON_GetObjectItem :: "cjson option \<Rightarrow> u8 list option \<Rightarrow> cjson option" where
  "cJSON_GetObjectItem object nm = get_object_item object nm False"

definition cJSON_GetObjectItemCaseSensitive :: "cjson option \<Rightarrow> u8 list option \<Rightarrow> cjson option" where
  "cJSON_GetObjectItemCaseSensitive object nm = get_object_item object nm True"

definition cJSON_HasObjectItem :: "cjson option \<Rightarrow> u8 list option \<Rightarrow> bool" where
  "cJSON_HasObjectItem object nm \<longleftrightarrow> cJSON_GetObjectItem object nm \<noteq> None"

end
