(* ===== verification/CJsonParse.thy ===== *)
theory CJsonParse
  imports CJson
begin

text \<open>
  The parser of cJSON (\<^verbatim>\<open>cJSON.c\<close>, \<^verbatim>\<open>parse_number\<close> to \<^verbatim>\<open>cJSON_ParseWithLengthOpts\<close>), one
  definition per function. The parse buffer is a record; a read outside \<^verbatim>\<open>content\<close> or a
  write outside the block of \<^verbatim>\<open>parse_string\<close> is a fault, the outer \<^term>\<open>None\<close>. A parser gets
  the item it fills and returns it with C's boolean and the buffer.

  \<^verbatim>\<open>parse_value\<close>, \<^verbatim>\<open>parse_array\<close> and \<^verbatim>\<open>parse_object\<close> call each other: \<open>parse_value\<close> runs with
  fuel and hands itself, with one unit less, to the other two. A length is a natural
  number: a buffer is an object in the 32-bit address space, so offsets do not wrap.
\<close>

record pbuf =
  content :: "u8 list"
  offset :: nat
  depth :: nat
  hp :: heap

definition CJSON_NESTING_LIMIT :: nat where "CJSON_NESTING_LIMIT = 1000"

definition can_read :: "pbuf \<Rightarrow> nat \<Rightarrow> bool" where
  "can_read b n \<longleftrightarrow> offset b + n \<le> length (content b)"

definition can_access_at_index :: "pbuf \<Rightarrow> nat \<Rightarrow> bool" where
  "can_access_at_index b index \<longleftrightarrow> offset b + index < length (content b)"

definition buffer_at_offset :: "pbuf \<Rightarrow> nat \<Rightarrow> u8 option" where
  "buffer_at_offset b i = rd (content b) (offset b + i)"

definition advance :: "nat \<Rightarrow> pbuf \<Rightarrow> pbuf" where
  "advance n b = b\<lparr>offset := offset b + n\<rparr>"

definition retreat :: "pbuf \<Rightarrow> pbuf" where
  "retreat b = b\<lparr>offset := offset b - 1\<rparr>"

definition set_heap :: "heap \<Rightarrow> pbuf \<Rightarrow> pbuf" where
  "set_heap h b = b\<lparr>hp := h\<rparr>"

type_synonym parsed = "cjson \<times> bool \<times> pbuf"

subsection \<open>Numbers\<close>

definition num_char :: "u8 \<Rightarrow> bool" where
  "num_char c \<longleftrightarrow> is_digit c \<or> c \<in> {0x2b, 0x2d, 0x65, 0x45, 0x2e}"

text \<open>The local buffer holds 63 characters; the decimal point of the C locale is the point.\<close>

definition number_c_string :: "pbuf \<Rightarrow> u8 list" where
  "number_c_string b = takeWhile num_char (take 63 (drop (offset b) (content b)))"

definition parse_number :: "cjson \<Rightarrow> pbuf \<Rightarrow> parsed option" where
  "parse_number item b = (case strtod (number_c_string b) of (number, after_end) \<Rightarrow>
     if after_end = 0 then Some (item, False, b)
     else map_option (\<lambda>i. (set_type cJSON_Number (set_valueint i (set_valuedouble number item)),
            True, advance after_end b)) (num_to_int number))"

subsection \<open>Strings\<close>

definition hex_digit :: "u8 \<Rightarrow> nat option" where
  "hex_digit c = (if is_digit c then Some (unat c - 48)
     else if 0x41 \<le> c \<and> c \<le> 0x46 then Some (10 + unat c - 65)
     else if 0x61 \<le> c \<and> c \<le> 0x66 then Some (10 + unat c - 97)
     else None)"

text \<open>An invalid digit makes the result 0.\<close>

fun hex4 :: "nat \<Rightarrow> u8 list \<Rightarrow> nat" where
  "hex4 h [] = h"
| "hex4 h (c # cs) = (case hex_digit c of None \<Rightarrow> 0 | Some d \<Rightarrow> hex4 (16 * h + d) cs)"

definition parse_hex4 :: "u8 list \<Rightarrow> nat option" where
  "parse_hex4 s = (if length s < 4 then None else Some (hex4 0 (take 4 s)))"

text \<open>The bytes written for a code point, the first one last to be written.\<close>

definition utf8_encode :: "nat \<Rightarrow> u8 list" where
  "utf8_encode cp = (let
      tail = (\<lambda>k. (word_of_nat (cp div 64 ^ k) OR 0x80) AND 0xbf :: u8);
      first = (\<lambda>k mark. (word_of_nat (cp div 64 ^ k) OR mark) AND 0xff :: u8)
    in if cp < 0x80 then [word_of_nat cp AND 0x7f]
       else if cp < 0x800 then [first 1 0xc0, tail 0]
       else if cp < 0x10000 then [first 2 0xe0, tail 1, tail 0]
       else [first 3 0xf0, tail 2, tail 1, tail 0])"

text \<open>
  \<open>ip\<close> is the position of the backslash and \<open>ie\<close> the end of the literal, both in the
  content; the result is the length of the escape (0 for failure) and the bytes written.
\<close>

definition utf16_literal_to_utf8 :: "u8 list \<Rightarrow> nat \<Rightarrow> nat \<Rightarrow> (nat \<times> u8 list) option" where
  "utf16_literal_to_utf8 s ip ie =
     (if ie < ip + 6 then Some (0, [])
      else do {
        first_code \<leftarrow> parse_hex4 (drop (ip + 2) s);
        if 0xdc00 \<le> first_code \<and> first_code \<le> 0xdfff then Some (0, [])
        else if 0xd800 \<le> first_code \<and> first_code \<le> 0xdbff then
          (if ie < ip + 12 then Some (0, [])
           else do {
             c0 \<leftarrow> rd s (ip + 6); c1 \<leftarrow> rd s (ip + 7);
             if c0 \<noteq> 0x5c \<or> c1 \<noteq> 0x75 then Some (0, [])
             else do {
               second_code \<leftarrow> parse_hex4 (drop (ip + 8) s);
               if second_code < 0xdc00 \<or> 0xdfff < second_code then Some (0, [])
               else Some (12, utf8_encode
                 (0x10000 + ((first_code mod 1024) * 1024 + second_code mod 1024))) } })
        else Some (6, utf8_encode first_code) })"

text \<open>
  The first loop: from \<open>ie\<close> to the closing quote, counting the escapes; \<^term>\<open>None\<close> inside
  when the string does not end in the buffer.
\<close>

function scan_string :: "u8 list \<Rightarrow> nat \<Rightarrow> nat \<Rightarrow> (nat \<times> nat) option" where
  "scan_string s ie skipped = (if ie < length s \<and> s ! ie \<noteq> 0x22 then
       (if s ! ie = 0x5c then
          (if length s \<le> ie + 1 then None else scan_string s (ie + 2) (skipped + 1))
        else scan_string s (ie + 1) skipped)
     else if length s \<le> ie then None else Some (ie, skipped))"
  by pat_completeness auto
termination by (relation "measure (\<lambda>(s, ie, _). length s - ie)") auto

declare scan_string.simps [simp del]

text \<open>The simple escapes.\<close>

definition simple_escape :: "u8 \<Rightarrow> u8 option" where
  "simple_escape c = (if c = 0x62 then Some 0x08 else if c = 0x66 then Some 0x0c
     else if c = 0x6e then Some 0x0a else if c = 0x72 then Some 0x0d
     else if c = 0x74 then Some 0x09
     else if c = 0x22 \<or> c = 0x5c \<or> c = 0x2f then Some c else None)"

text \<open>
  The second loop: the bytes written so far into a block of \<open>cap\<close> bytes; the result is the
  position it stops at, whether it succeeded, and the bytes. Writing past the block is a fault.
\<close>

definition push :: "nat \<Rightarrow> u8 list \<Rightarrow> u8 list \<Rightarrow> u8 list option" where
  "push cap out bs = (if length out + length bs \<le> cap then Some (out @ bs) else None)"

fun unescape :: "nat \<Rightarrow> nat \<Rightarrow> u8 list \<Rightarrow> nat \<Rightarrow> nat \<Rightarrow> u8 list \<Rightarrow> (nat \<times> bool \<times> u8 list) run option" where
  "unescape 0 cap s ip ie out = Some Running"
| "unescape (Suc fuel) cap s ip ie out = (if ip < ie then do {
      c \<leftarrow> rd s ip;
      if c \<noteq> 0x5c then do { out' \<leftarrow> push cap out [c]; unescape fuel cap s (ip + 1) ie out' }
      else do {
        c1 \<leftarrow> rd s (ip + 1);
        if c1 = 0x75 then do {
          (len, bs) \<leftarrow> utf16_literal_to_utf8 s ip ie;
          if len = 0 then Some (Done (ip, False, out))
          else do { out' \<leftarrow> push cap out bs; unescape fuel cap s (ip + len) ie out' } }
        else (case simple_escape c1 of
          None \<Rightarrow> Some (Done (ip, False, out))
        | Some e \<Rightarrow> do { out' \<leftarrow> push cap out [e]; unescape fuel cap s (ip + 2) ie out' }) } }
    else Some (Done (ip, True, out)))"

text \<open>The loop makes at most one iteration per byte of the literal.\<close>

definition parse_string :: "(nat \<Rightarrow> bool) \<Rightarrow> cjson \<Rightarrow> pbuf \<Rightarrow> parsed run option" where
  "parse_string mem item b = (let s = content b; start = offset b + 1 in do {
     c \<leftarrow> rd s (offset b);
     if c \<noteq> 0x22 then Some (Done (item, False, b\<lparr>offset := start\<rparr>))
     else (case scan_string s start 0 of
       None \<Rightarrow> Some (Done (item, False, b\<lparr>offset := start\<rparr>))
     | Some (ie, skipped) \<Rightarrow>
       (case allocate mem (hp b) of (ok, h) \<Rightarrow>
          if \<not> ok then Some (Done (item, False, b\<lparr>offset := start, hp := h\<rparr>))
          else do {
            r \<leftarrow> unescape (length s + 1) (ie - offset b - skipped + 1) s start ie [];
            (case r of
              Running \<Rightarrow> Some Running
            | Done (ip, success, out) \<Rightarrow>
                if success then do {
                  out' \<leftarrow> push (ie - offset b - skipped + 1) out [0];
                  Some (Done (set_type cJSON_String (set_valuestring (Some out) item), True,
                    b\<lparr>offset := ie + 1, hp := h\<rparr>)) }
                else Some (Done (item, False, b\<lparr>offset := ip, hp := deallocate h\<rparr>))) })) })"

subsection \<open>White space\<close>

definition buffer_skip_whitespace :: "pbuf \<Rightarrow> pbuf" where
  "buffer_skip_whitespace b = (if \<not> can_access_at_index b 0 then b
     else let o' = offset b + length (takeWhile (\<lambda>c. c \<le> 32) (drop (offset b) (content b)))
          in b\<lparr>offset := (if o' = length (content b) then o' - 1 else o')\<rparr>)"

definition skip_utf8_bom :: "pbuf \<Rightarrow> pbuf option" where
  "skip_utf8_bom b = (if offset b \<noteq> 0 then None
     else if can_access_at_index b 4 \<and> take 3 (content b) = [0xef, 0xbb, 0xbf]
     then Some (advance 3 b) else Some b)"

subsection \<open>Values\<close>

definition looking_at :: "pbuf \<Rightarrow> u8 list \<Rightarrow> bool" where
  "looking_at b lit \<longleftrightarrow> can_read b (length lit) \<and> take (length lit) (drop (offset b) (content b)) = lit"

definition peek :: "pbuf \<Rightarrow> u8 option" where
  "peek b = (if can_access_at_index b 0 then buffer_at_offset b 0 else None)"

definition lit_null :: "u8 list" where "lit_null = [0x6e, 0x75, 0x6c, 0x6c]"
definition lit_false :: "u8 list" where "lit_false = [0x66, 0x61, 0x6c, 0x73, 0x65]"
definition lit_true :: "u8 list" where "lit_true = [0x74, 0x72, 0x75, 0x65]"

type_synonym parser = "cjson \<Rightarrow> pbuf \<Rightarrow> parsed run option"

text \<open>
  The loop of \<^verbatim>\<open>parse_array\<close>: the children so far, whether it reached the end of the array,
  and the buffer. \<open>pv\<close> is \<^verbatim>\<open>parse_value\<close>.
\<close>

fun array_loop :: "(nat \<Rightarrow> bool) \<Rightarrow> parser \<Rightarrow> nat \<Rightarrow> cjson list \<Rightarrow> pbuf \<Rightarrow>
    (cjson list \<times> bool \<times> pbuf) run option" where
  "array_loop mem pv 0 head b = Some Running"
| "array_loop mem pv (Suc fuel) head b = (case cJSON_New_Item mem (hp b) of
     (None, h) \<Rightarrow> Some (Done (head, False, set_heap h b))
   | (Some new_item, h) \<Rightarrow> do {
       r \<leftarrow> pv new_item (buffer_skip_whitespace (advance 1 (set_heap h b)));
       (case r of
         Running \<Rightarrow> Some Running
       | Done (it, ok, b1) \<Rightarrow>
           if \<not> ok then Some (Done (head @ [it], False, b1))
           else let b2 = buffer_skip_whitespace b1 in
             if peek b2 = Some 0x2c then array_loop mem pv fuel (head @ [it]) b2
             else Some (Done (head @ [it], peek b2 = Some 0x5d, b2))) })"

definition parse_array :: "(nat \<Rightarrow> bool) \<Rightarrow> parser \<Rightarrow> nat \<Rightarrow> cjson \<Rightarrow> pbuf \<Rightarrow> parsed run option" where
  "parse_array mem pv fuel item b0 =
     (if CJSON_NESTING_LIMIT \<le> depth b0 then Some (Done (item, False, b0))
      else let b = b0\<lparr>depth := depth b0 + 1\<rparr> in do {
        c \<leftarrow> buffer_at_offset b 0;
        if c \<noteq> 0x5b then Some (Done (item, False, b))
        else let b1 = buffer_skip_whitespace (advance 1 b) in
          if peek b1 = Some 0x5d then
            Some (Done (set_child [] (set_type cJSON_Array item), True,
              advance 1 (b1\<lparr>depth := depth b1 - 1\<rparr>)))
          else if \<not> can_access_at_index b1 0 then Some (Done (item, False, retreat b1))
          else do {
            r \<leftarrow> array_loop mem pv fuel [] (retreat b1);
            (case r of
              Running \<Rightarrow> Some Running
            | Done (head, ok, b2) \<Rightarrow>
                if ok then Some (Done (set_child head (set_type cJSON_Array item), True,
                  advance 1 (b2\<lparr>depth := depth b2 - 1\<rparr>)))
                else Some (Done (item, False, set_heap (cJSON_Delete head (hp b2)) b2))) } })"

fun object_loop :: "(nat \<Rightarrow> bool) \<Rightarrow> parser \<Rightarrow> nat \<Rightarrow> cjson list \<Rightarrow> pbuf \<Rightarrow>
    (cjson list \<times> bool \<times> pbuf) run option" where
  "object_loop mem pv 0 head b = Some Running"
| "object_loop mem pv (Suc fuel) head b = (case cJSON_New_Item mem (hp b) of
     (None, h) \<Rightarrow> Some (Done (head, False, set_heap h b))
   | (Some new_item, h) \<Rightarrow> do {
       r \<leftarrow> parse_string mem new_item (buffer_skip_whitespace (advance 1 (set_heap h b)));
       (case r of
         Running \<Rightarrow> Some Running
       | Done (it, ok, b1) \<Rightarrow>
           if \<not> ok then Some (Done (head @ [it], False, b1))
           else let b2 = buffer_skip_whitespace b1;
                    it2 = set_valuestring None (set_string (valuestring it) it) in
             if peek b2 \<noteq> Some 0x3a then Some (Done (head @ [it2], False, b2))
             else do {
               r2 \<leftarrow> pv it2 (buffer_skip_whitespace (advance 1 b2));
               (case r2 of
                 Running \<Rightarrow> Some Running
               | Done (it3, ok3, b3) \<Rightarrow>
                   if \<not> ok3 then Some (Done (head @ [it3], False, b3))
                   else let b4 = buffer_skip_whitespace b3 in
                     if peek b4 = Some 0x2c then object_loop mem pv fuel (head @ [it3]) b4
                     else Some (Done (head @ [it3], peek b4 = Some 0x7d, b4))) }) })"

definition parse_object :: "(nat \<Rightarrow> bool) \<Rightarrow> parser \<Rightarrow> nat \<Rightarrow> cjson \<Rightarrow> pbuf \<Rightarrow> parsed run option" where
  "parse_object mem pv fuel item b0 =
     (if CJSON_NESTING_LIMIT \<le> depth b0 then Some (Done (item, False, b0))
      else let b = b0\<lparr>depth := depth b0 + 1\<rparr> in
        if peek b \<noteq> Some 0x7b then Some (Done (item, False, b))
        else let b1 = buffer_skip_whitespace (advance 1 b) in
          if peek b1 = Some 0x7d then
            Some (Done (set_child [] (set_type cJSON_Object item), True,
              advance 1 (b1\<lparr>depth := depth b1 - 1\<rparr>)))
          else if \<not> can_access_at_index b1 0 then Some (Done (item, False, retreat b1))
          else do {
            r \<leftarrow> object_loop mem pv fuel [] (retreat b1);
            (case r of
              Running \<Rightarrow> Some Running
            | Done (head, ok, b2) \<Rightarrow>
                if ok then Some (Done (set_child head (set_type cJSON_Object item), True,
                  advance 1 (b2\<lparr>depth := depth b2 - 1\<rparr>)))
                else Some (Done (item, False, set_heap (cJSON_Delete head (hp b2)) b2))) })"

fun parse_value :: "(nat \<Rightarrow> bool) \<Rightarrow> nat \<Rightarrow> parser" where
  "parse_value mem 0 item b = Some Running"
| "parse_value mem (Suc fuel) item b =
     (if looking_at b lit_null then Some (Done (set_type cJSON_NULL item, True, advance 4 b))
      else if looking_at b lit_false then Some (Done (set_type cJSON_False item, True, advance 5 b))
      else if looking_at b lit_true then
        Some (Done (set_valueint 1 (set_type cJSON_True item), True, advance 4 b))
      else case peek b of
        None \<Rightarrow> Some (Done (item, False, b))
      | Some c \<Rightarrow>
          if c = 0x22 then parse_string mem item b
          else if c = 0x2d \<or> is_digit c then map_option Done (parse_number item b)
          else if c = 0x5b then parse_array mem (parse_value mem fuel) fuel item b
          else if c = 0x7b then parse_object mem (parse_value mem fuel) fuel item b
          else Some (Done (item, False, b)))"

subsection \<open>Documents\<close>

text \<open>
  The result: the item, the state of the allocator, the final offset, which is
  \<^verbatim>\<open>return_parse_end\<close> on success, and the error position, \<^term>\<open>None\<close> when there is none.
  A null \<^verbatim>\<open>value\<close> is \<^term>\<open>None\<close>. Fuel for one value per byte and one more is provided.
\<close>

record parse_result =
  res_item :: "cjson option"
  res_heap :: heap
  res_end :: nat
  res_error :: "nat option"

definition parse_failed :: "u8 list \<Rightarrow> cjson option \<Rightarrow> nat \<Rightarrow> heap \<Rightarrow> parse_result" where
  "parse_failed s item off h = (let pos = (if off < length s then off else length s - 1) in
     \<lparr>res_item = None, res_heap = (case item of None \<Rightarrow> h | Some it \<Rightarrow> cJSON_Delete [it] h),
      res_end = pos, res_error = Some pos\<rparr>)"

definition cJSON_ParseWithLengthOpts ::
  "(nat \<Rightarrow> bool) \<Rightarrow> u8 list option \<Rightarrow> bool \<Rightarrow> heap \<Rightarrow> parse_result run option" where
  "cJSON_ParseWithLengthOpts mem value require_null_terminated h = (case value of
     None \<Rightarrow> Some (Done \<lparr>res_item = None, res_heap = h, res_end = 0, res_error = None\<rparr>)
   | Some s \<Rightarrow>
     if s = [] then Some (Done (parse_failed s None 0 h))
     else (case cJSON_New_Item mem h of
       (None, h1) \<Rightarrow> Some (Done (parse_failed s None 0 h1))
     | (Some item, h1) \<Rightarrow>
        (case skip_utf8_bom \<lparr>content = s, offset = 0, depth = 0, hp = h1\<rparr> of
           None \<Rightarrow> Some (Done (parse_failed s (Some item) 0 h1))
         | Some b \<Rightarrow> do {
             r \<leftarrow> parse_value mem (length s + 1) item (buffer_skip_whitespace b);
             (case r of
               Running \<Rightarrow> Some Running
             | Done (it, ok, b1) \<Rightarrow>
                 if \<not> ok then Some (Done (parse_failed s (Some it) (offset b1) (hp b1)))
                 else let b2 = (if require_null_terminated then buffer_skip_whitespace b1 else b1) in
                   if require_null_terminated \<and> peek b2 \<noteq> Some 0
                   then Some (Done (parse_failed s (Some it) (offset b2) (hp b2)))
                   else Some (Done \<lparr>res_item = Some it, res_heap = hp b2, res_end = offset b2,
                     res_error = None\<rparr>)) })))"

definition cJSON_ParseWithOpts ::
  "(nat \<Rightarrow> bool) \<Rightarrow> u8 list option \<Rightarrow> bool \<Rightarrow> heap \<Rightarrow> parse_result run option" where
  "cJSON_ParseWithOpts mem value require_null_terminated h =
     cJSON_ParseWithLengthOpts mem (map_option (\<lambda>s. cstr s @ [0]) value) require_null_terminated h"

definition cJSON_Parse :: "(nat \<Rightarrow> bool) \<Rightarrow> u8 list option \<Rightarrow> heap \<Rightarrow> parse_result run option" where
  "cJSON_Parse mem value h = cJSON_ParseWithOpts mem value False h"

definition cJSON_ParseWithLength ::
  "(nat \<Rightarrow> bool) \<Rightarrow> u8 list option \<Rightarrow> heap \<Rightarrow> parse_result run option" where
  "cJSON_ParseWithLength mem value h = cJSON_ParseWithLengthOpts mem value False h"

end
