(* ===== verification/CJsonSafe.thy ===== *)
theory CJsonSafe
  imports CJsonParse
begin

text \<open>
  Safety of the cJSON parser: the block \<^verbatim>\<open>parse_string\<close> allocates holds what it writes; every
  parser stays inside a buffer that ends in a 0 byte, makes progress when it succeeds,
  ends, and keeps the account of live blocks. What \<^verbatim>\<open>parse_array\<close> and \<^verbatim>\<open>parse_object\<close> need of
  \<^verbatim>\<open>parse_value\<close> is the locale \<open>value_parser\<close>; it is interpreted by \<^verbatim>\<open>parse_value\<close> itself.
\<close>

subsection \<open>The block of a string is large enough\<close>

lemma hex_digit_lt: "hex_digit c = Some d \<Longrightarrow> d < 16"
proof -
  assume "hex_digit c = Some d"
  moreover have "unat c \<le> 57" if "c \<le> 0x39"
    using that by (simp add: word_le_nat_alt)
  moreover have "unat c \<le> 70" if "c \<le> 0x46"
    using that by (simp add: word_le_nat_alt)
  moreover have "unat c \<le> 102" if "c \<le> 0x66"
    using that by (simp add: word_le_nat_alt)
  ultimately show "d < 16"
    by (auto simp: hex_digit_def is_digit_def split: if_splits)
qed

lemma hex4_lt: "hex4 h cs < (h + 1) * 16 ^ length cs"
proof (induction cs arbitrary: h)
  case (Cons c cs)
  show ?case
  proof (cases "hex_digit c")
    case (Some d)
    have "hex4 (16 * h + d) cs < (16 * h + d + 1) * 16 ^ length cs" by (rule Cons.IH)
    also have "\<dots> \<le> ((h + 1) * 16) * 16 ^ length cs"
      using hex_digit_lt [OF Some] by (intro mult_right_mono) simp_all
    finally show ?thesis using Some by (simp add: algebra_simps)
  qed simp
qed simp

lemma parse_hex4_lt: "parse_hex4 s = Some n \<Longrightarrow> n < 65536"
  using hex4_lt [of 0 "take 4 s"] by (auto simp: parse_hex4_def split: if_splits)

lemma utf8_encode_length: "length (utf8_encode cp) \<le> 4" "cp < 0x10000 \<Longrightarrow> length (utf8_encode cp) \<le> 3"
  by (simp_all add: utf8_encode_def Let_def)

lemma utf16_safe:
  assumes "ie < length s" and "ip + 1 < length s"
  shows "\<exists>len bs. utf16_literal_to_utf8 s ip ie = Some (len, bs) \<and>
    (len = 0 \<or> len = 6 \<and> ip + 6 \<le> ie \<and> length bs \<le> 3 \<or> len = 12 \<and> ip + 12 \<le> ie \<and> length bs \<le> 4)"
proof -
  have hex: "\<exists>n. parse_hex4 (drop j s) = Some n \<and> n < 65536" if "j + 4 \<le> length s" for j
    using that parse_hex4_lt [of "drop j s"] by (auto simp: parse_hex4_def)
  show ?thesis
  proof (cases "ie < ip + 6")
    case True
    then show ?thesis by (simp add: utf16_literal_to_utf8_def)
  next
    case False
    then obtain n where n: "parse_hex4 (drop (ip + 2) s) = Some n" "n < 65536"
      using hex [of "ip + 2"] assms by auto
    show ?thesis
    proof (cases "ie < ip + 12")
      case True
      with False n show ?thesis
        by (auto simp: utf16_literal_to_utf8_def utf8_encode_length)
    next
      case far: False
      then obtain n2 where "parse_hex4 (drop (ip + 8) s) = Some n2" "n2 < 65536"
        using hex [of "ip + 8"] assms by auto
      with False far n assms show ?thesis
        by (auto simp: utf16_literal_to_utf8_def utf8_encode_length mem_simps)
    qed
  qed
qed

lemma scan_string_shift:
  "scan_string s a (j + k) = map_option (\<lambda>(ie, n). (ie, n + k)) (scan_string s a j)"
proof (induction s a j rule: scan_string.induct)
  case (1 s a j)
  show ?case
    using 1 by (subst (1 2) scan_string.simps) (auto simp: add.commute)
qed

text \<open>\<open>a\<close> is a position the first loop stops at on its way to \<open>ie\<close>, with \<open>k\<close> escapes to go.\<close>

definition aligned :: "u8 list \<Rightarrow> nat \<Rightarrow> nat \<Rightarrow> nat \<Rightarrow> bool" where
  "aligned s ie a k \<longleftrightarrow> scan_string s a 0 = Some (ie, k)"

lemma scan_escape: "scan_string s a (Suc 0) = Some (ie, k) \<longleftrightarrow> (\<exists>k'. scan_string s a 0 = Some (ie, k') \<and> k = Suc k')"
  using scan_string_shift [of s a 0 1] by (auto simp: map_option_case split: option.splits)

lemma aligned_iff:
  "aligned s ie a k \<longleftrightarrow>
     (if length s \<le> a then False
      else if s ! a = 0x22 then ie = a \<and> k = 0
      else if s ! a = 0x5c then a + 1 < length s \<and> (\<exists>k'. k = Suc k' \<and> aligned s ie (a + 2) k')
      else aligned s ie (a + 1) k)"
  unfolding aligned_def by (subst scan_string.simps) (auto simp: scan_escape)

lemma aligned_cases:
  assumes "aligned s ie a k"
  obtains (quote) "s ! a = 0x22" "ie = a" "k = 0" "a < length s"
  | (escape) k' where "s ! a = 0x5c" "k = Suc k'" "aligned s ie (a + 2) k'" "a + 1 < length s"
  | (plain) "s ! a \<noteq> 0x22" "s ! a \<noteq> 0x5c" "aligned s ie (a + 1) k" "a < length s"
  using assms aligned_iff [of s ie a k] by (auto split: if_splits)

lemma aligned_end: "aligned s ie a k \<Longrightarrow> a \<le> ie \<and> ie < length s \<and> s ! ie = 0x22"
proof (induction "length s - a" arbitrary: a k rule: less_induct)
  case less
  from less.prems show ?case
  proof (cases rule: aligned_cases)
    case (escape k')
    with less.hyps [of "a + 2" k'] show ?thesis by fastforce
  next
    case plain
    with less.hyps [of "a + 1" k] show ?thesis by fastforce
  qed simp
qed

lemma aligned_at_end: "aligned s ie ie k \<Longrightarrow> k = 0"
  by (erule aligned_cases) (auto dest: aligned_end)

lemma aligned_adv:
  "aligned s ie a k \<Longrightarrow> a \<le> q \<Longrightarrow> q \<le> ie \<Longrightarrow>
    \<exists>a' k'. (a' = q \<or> a' = Suc q) \<and> aligned s ie a' k' \<and> 2 * k + a \<le> 2 * k' + a'"
proof (induction "length s - a" arbitrary: a k rule: less_induct)
  case less
  show ?case
  proof (cases "a = q")
    case True
    with less.prems show ?thesis by auto
  next
    case False
    with less.prems have aq: "a < q" "a < ie" by simp_all
    with aligned_end [OF less.prems(1)] have lt: "a < length s" by simp
    from less.prems(1) show ?thesis
    proof (cases rule: aligned_cases)
      case quote
      with aq show ?thesis by simp
    next
      case (escape k')
      note k = escape(2) and al = escape(3)
      show ?thesis
      proof (cases "a + 2 \<le> q")
        case True
        from less.hyps [OF _ al True less.prems(3)] lt k show ?thesis by force
      next
        case False
        with aq have "a + 2 = Suc q" by simp
        with al k show ?thesis by (intro exI [of _ "a + 2"] exI [of _ k']) simp
      qed
    next
      case plain
      note al = plain(3)
      from less.hyps [OF _ al _ less.prems(3)] lt aq show ?thesis by force
    qed
  qed
qed

text \<open>
  The invariant of the second loop: its position may be the second half of an escape of the
  first loop (after an invalid \<^verbatim>\<open>\uXXXX\<close>), and the bytes written and the escapes passed fit
  in the bytes read.
\<close>

definition unescape_inv :: "u8 list \<Rightarrow> nat \<Rightarrow> nat \<Rightarrow> nat \<Rightarrow> nat \<Rightarrow> u8 list \<Rightarrow> bool" where
  "unescape_inv s start ie sk ip out \<longleftrightarrow>
     (ie < ip \<and> length out + sk + start \<le> ie) \<or>
     (\<exists>a k. (a = ip \<or> a = Suc ip) \<and> aligned s ie a k \<and> length out + sk + start \<le> ip + k)"

lemma unescape_inv_move:
  assumes "aligned s ie a k" and "a = ip \<or> a = Suc ip" and "ip + m \<le> ie"
    and "length out + sk + start \<le> ip + k" and "2 * w \<le> m" and "even m" and "1 < m"
  shows "length out' = length out + w \<Longrightarrow> unescape_inv s start ie sk (ip + m) out'"
proof -
  assume out': "length out' = length out + w"
  have "a \<le> ip + m" using assms(2,7) by auto
  from aligned_adv [OF assms(1) this assms(3)]
  obtain a' k' where a': "a' = ip + m \<or> a' = Suc (ip + m)" "aligned s ie a' k'" "2 * k + a \<le> 2 * k' + a'"
    by blast
  obtain j where m: "m = 2 * j" using \<open>even m\<close> by (rule evenE)
  have "k \<le> k' + j" using a' assms(2) m by auto
  then show ?thesis
    using a' out' assms(4,5) m unfolding unescape_inv_def by (intro disjI2 exI [of _ a'] exI [of _ k']) auto
qed


lemma unescape_inv_step1:
  assumes "unescape_inv s start ie sk ip out" and "ip < ie" and "s ! ip \<noteq> 0x5c"
    and "length out' = length out + 1"
  shows "unescape_inv s start ie sk (ip + 1) out'"
proof -
  obtain a k where a: "a = ip \<or> a = Suc ip" "aligned s ie a k" "length out + sk + start \<le> ip + k"
    using assms(1,2) by (auto simp: unescape_inv_def)
  have "aligned s ie (Suc ip) k"
    using a(2)
  proof (cases rule: aligned_cases)
    case quote
    with a(1,2) assms(2) show ?thesis by auto
  next
    case (escape k')
    with a(1,2) assms(3) show ?thesis by auto
  next
    case plain
    with a(1,2) show ?thesis by auto
  qed
  with a(3) assms(4) show ?thesis by (auto simp: unescape_inv_def)
qed

lemma unescape_inv_step2:
  assumes "unescape_inv s start ie sk ip out" and "ip < ie" and "s ! ip = 0x5c"
    and "length out' = length out + 1"
  shows "unescape_inv s start ie sk (ip + 2) out'"
proof -
  obtain a k where a: "a = ip \<or> a = Suc ip" "aligned s ie a k" "length out + sk + start \<le> ip + k"
    using assms(1,2) by (auto simp: unescape_inv_def)
  show ?thesis
  proof (cases "a = ip")
    case True
    with a(2) have "aligned s ie ip k" by simp
    then obtain k' where "k = Suc k'" "aligned s ie (ip + 2) k'"
      by (cases rule: aligned_cases) (use assms(3) in auto)
    with a(3) assms(4) show ?thesis
      unfolding unescape_inv_def by (intro disjI2 exI [of _ "ip + 2"] exI [of _ k']) simp
  next
    case False
    with a have al: "aligned s ie (Suc ip) k" by simp
    note e = aligned_end [OF al]
    show ?thesis
    proof (cases "Suc ip = ie")
      case True
      with al have "k = 0" by (simp add: aligned_at_end)
      with a(3) True assms(4) show ?thesis by (auto simp: unescape_inv_def)
    next
      case False
      with e have lt: "Suc ip < ie" by simp
      from al show ?thesis
      proof (cases rule: aligned_cases)
        case quote
        with lt show ?thesis by simp
      next
        case (escape k')
        with a(3) assms(4) show ?thesis
          unfolding unescape_inv_def by (intro disjI2 exI [of _ "Suc ip + 2"] exI [of _ k']) simp
      next
        case plain
        with a(3) assms(4) show ?thesis
          unfolding unescape_inv_def by (intro disjI2 exI [of _ "ip + 2"] exI [of _ k]) simp
      qed
    qed
  qed
qed

lemma unescape_inv_bound:
  assumes "unescape_inv s start ie sk ip out" and "start \<le> ip"
  shows "length out + sk + start \<le> ie"
proof -
  have "ip + k \<le> ie" if "aligned s ie a k" "a = ip \<or> a = Suc ip" for a k
  proof -
    from aligned_adv [OF that(1), of ie] aligned_end [OF that(1)]
    obtain a' k' where a': "a' = ie \<or> a' = Suc ie" "aligned s ie a' k'" "2 * k + a \<le> 2 * k' + a'"
      by auto
    then have "a' = ie" using aligned_end by fastforce
    moreover from this a' have "k' = 0" by (simp add: aligned_at_end)
    ultimately show ?thesis using a'(3) that(2) aligned_end [OF that(1)] by linarith
  qed
  note bound = this
  from assms(1) consider "ie < ip" "length out + sk + start \<le> ie"
    | a k where "a = ip \<or> a = Suc ip" "aligned s ie a k" "length out + sk + start \<le> ip + k"
    by (auto simp: unescape_inv_def)
  then show ?thesis
  proof cases
    case 2
    with bound [OF 2(2,1)] show ?thesis by simp
  qed
qed

lemma unescape_safe:
  assumes "unescape_inv s start ie sk ip out" and "start \<le> ip" and "ie < length s"
    and "cap = ie - (start - 1) - sk + 1" and "1 \<le> start" and "Suc ie - ip < fuel"
    and "ip \<le> ie + 1"
  shows "\<exists>ip' ok out'. unescape fuel cap s ip ie out = Some (Done (ip', ok, out')) \<and>
    ip \<le> ip' \<and> ip' \<le> ie + 1 \<and> (\<not> ok \<longrightarrow> ip' < ie) \<and> length out' + 1 \<le> cap"
  using assms(1,2,6,7)
proof (induction fuel arbitrary: ip out)
  case (Suc fuel)
  note inv = Suc.prems(1)
  have cap: "length out + 2 \<le> cap"
    using unescape_inv_bound [OF inv Suc.prems(2)] assms(4,5) by linarith
  show ?case
  proof (cases "ip < ie")
    case True
    note lt = this
    have rd: "rd s ip = Some (s ! ip)" "rd s (ip + 1) = Some (s ! (ip + 1))"
      using True assms(3) by (simp_all add: rd_def)
    show ?thesis
    proof (cases "s ! ip = 0x5c")
      case False
      have inv': "unescape_inv s start ie sk (ip + 1) (out @ [s ! ip])"
        by (rule unescape_inv_step1 [OF inv True False]) simp
      from Suc.IH [OF inv'] Suc.prems True rd False cap show ?thesis
        by (force simp: push_def)
    next
      case esc: True
      show ?thesis
      proof (cases "s ! (ip + 1) = 0x75")
        case True
        obtain len bs where u: "utf16_literal_to_utf8 s ip ie = Some (len, bs)"
          and len: "len = 0 \<or> len = 6 \<and> ip + 6 \<le> ie \<and> length bs \<le> 3 \<or> len = 12 \<and> ip + 12 \<le> ie \<and> length bs \<le> 4"
          using utf16_safe [OF assms(3), of ip] lt assms(3) by auto
        show ?thesis
        proof (cases "len = 0")
          case True
          with lt rd esc \<open>s ! (ip + 1) = 0x75\<close> u cap show ?thesis by (simp del: ex_simps) blast
        next
          case False
          obtain a k where a: "a = ip \<or> a = Suc ip" "aligned s ie a k" "length out + sk + start \<le> ip + k"
            using inv lt by (auto simp: unescape_inv_def)
          have fits: "2 * length bs \<le> len" "even len" "1 < len" "ip + len \<le> ie"
            using len False by auto
          have inv': "unescape_inv s start ie sk (ip + len) (out @ bs)"
            by (rule unescape_inv_move [OF a(2,1) fits(4) a(3) fits(1-3)]) simp
          have le: "start \<le> ip + len" "Suc ie - (ip + len) < fuel"
            using Suc.prems fits by auto
          have "length (out @ bs) + 2 \<le> cap"
            using unescape_inv_bound [OF inv' le(1)] assms(4,5) by linarith
          then have "push cap out bs = Some (out @ bs)" by (simp add: push_def)
          moreover from Suc.IH [OF inv' le] fits(4)
          obtain ip' ok out' where r: "unescape fuel cap s (ip + len) ie (out @ bs) = Some (Done (ip', ok, out'))"
            "ip + len \<le> ip'" "ip' \<le> ie + 1" "\<not> ok \<longrightarrow> ip' < ie" "length out' + 1 \<le> cap"
            by auto
          ultimately have "unescape (Suc fuel) cap s ip ie out = Some (Done (ip', ok, out'))"
            using lt rd esc True u False by simp
          with r show ?thesis by auto
        qed
      next
        case nu: False
        show ?thesis
        proof (cases "simple_escape (s ! (ip + 1))")
          case None
          with lt rd esc nu cap show ?thesis by (simp del: ex_simps) blast
        next
          case (Some e)
          have inv': "unescape_inv s start ie sk (ip + 2) (out @ [e])"
            by (rule unescape_inv_step2 [OF inv lt esc]) simp
          have "Suc ie - (ip + 2) < fuel" "start \<le> ip + 2" using Suc.prems lt by auto
          from Suc.IH [OF inv' this(2,1)] lt
          obtain ip' ok out' where r: "unescape fuel cap s (ip + 2) ie (out @ [e]) = Some (Done (ip', ok, out'))"
            "ip + 2 \<le> ip'" "ip' \<le> ie + 1" "\<not> ok \<longrightarrow> ip' < ie" "length out' + 1 \<le> cap"
            by auto
          moreover have "push cap out [e] = Some (out @ [e])" using cap by (simp add: push_def)
          ultimately have "unescape (Suc fuel) cap s ip ie out = Some (Done (ip', ok, out'))"
            using lt rd esc nu Some by simp
          with r show ?thesis by auto
        qed
      qed
    qed
  next
    case False
    with False cap show ?thesis using Suc.prems(4) by (simp del: ex_simps) blast
  qed
qed simp

subsection \<open>The contract of a parser\<close>

text \<open>A position inside a buffer that ends in a 0 byte.\<close>

definition good :: "pbuf \<Rightarrow> bool" where
  "good b \<longleftrightarrow> content b \<noteq> [] \<and> last (content b) = 0 \<and> offset b < length (content b)"

text \<open>An item the parsers may fill: as allocated, or with the name of a member.\<close>

definition fresh :: "cjson \<Rightarrow> bool" where
  "fresh it \<longleftrightarrow> (jtype it = 0 \<or> jtype it = cJSON_String) \<and> valuestring it = None \<and> child it = []"

text \<open>A tree the parser may return, with at most \<open>d\<close> levels of containers.\<close>

fun wf_json :: "nat \<Rightarrow> cjson \<Rightarrow> bool" where
  "wf_json d (CJ t vs vi vd nm ch) \<longleftrightarrow>
     (if t = cJSON_NULL \<or> t = cJSON_False \<or> t = cJSON_True then vs = None \<and> ch = []
      else if t = cJSON_Number then vs = None \<and> ch = [] \<and> num_to_int vd = Some vi
      else if t = cJSON_String then vs \<noteq> None \<and> ch = []
      else (t = cJSON_Array \<or> t = cJSON_Object) \<and> vs = None \<and> 0 < d \<and>
        (\<forall>c \<in> set ch. wf_json (d - 1) c \<and> (t = cJSON_Object \<longleftrightarrow> jstring c \<noteq> None)))"

definition parsed_ok :: "cjson \<Rightarrow> pbuf \<Rightarrow> parsed \<Rightarrow> bool" where
  "parsed_ok it b r = (case r of (it', ok, b') \<Rightarrow>
     content b' = content b \<and> offset b \<le> offset b' \<and> offset b' \<le> length (content b) \<and>
     live (hp b') + blocks [it] = live (hp b) + blocks [it'] \<and> jstring it' = jstring it \<and>
     (ok \<longrightarrow> good b' \<and> offset b < offset b' \<and> depth b' = depth b \<and>
        wf_json (CJSON_NESTING_LIMIT - depth b) it'))"

text \<open>No fault, and out of fuel only with less fuel than bytes left.\<close>

definition runs :: "nat \<Rightarrow> pbuf \<Rightarrow> 'a run option \<Rightarrow> ('a \<Rightarrow> bool) \<Rightarrow> bool" where
  "runs n b x P \<longleftrightarrow> (case x of None \<Rightarrow> False
     | Some Running \<Rightarrow> n \<le> length (content b) - offset b
     | Some (Done r) \<Rightarrow> P r)"

lemma runs_simps [simp]:
  "runs n b None P = False"
  "runs n b (Some Running) P = (n \<le> length (content b) - offset b)"
  "runs n b (Some (Done r)) P = P r"
  by (simp_all add: runs_def)

lemma runs_cases:
  assumes "runs n b x P"
  obtains (Out) "x = Some Running" "n \<le> length (content b) - offset b"
  | (Res) r where "x = Some (Done r)" "P r"
  using assms by (auto simp: runs_def split: option.splits run.splits)

lemma good_nonzero_next:
  assumes "good b" and "content b ! offset b \<noteq> 0"
  shows "good (advance 1 b)"
proof -
  have "offset b \<noteq> length (content b) - 1"
    using assms by (auto simp: good_def last_conv_nth)
  with assms(1) show ?thesis by (auto simp: good_def advance_def)
qed

lemma peek_good: "good b \<Longrightarrow> peek b = Some (content b ! offset b)"
  by (simp add: peek_def good_def can_access_at_index_def buffer_at_offset_def rd_def)

lemma skip_props:
  "content (buffer_skip_whitespace b) = content b" "depth (buffer_skip_whitespace b) = depth b"
  "hp (buffer_skip_whitespace b) = hp b"
  by (simp_all add: buffer_skip_whitespace_def Let_def)

lemma skip_offset:
  assumes "good b"
  shows "offset b \<le> offset (buffer_skip_whitespace b)" "good (buffer_skip_whitespace b)"
proof -
  let ?n = "length (takeWhile (\<lambda>c. c \<le> 32) (drop (offset b) (content b)))"
  have "?n \<le> length (drop (offset b) (content b))" by (rule length_takeWhile_le)
  with assms show "offset b \<le> offset (buffer_skip_whitespace b)" "good (buffer_skip_whitespace b)"
    by (auto simp: buffer_skip_whitespace_def Let_def good_def can_access_at_index_def)
qed

lemma advance_simps [simp]:
  "content (advance n b) = content b" "depth (advance n b) = depth b" "hp (advance n b) = hp b"
  "offset (advance n b) = offset b + n"
  by (simp_all add: advance_def)

lemma set_heap_simps [simp]:
  "content (set_heap h b) = content b" "depth (set_heap h b) = depth b" "hp (set_heap h b) = h"
  "offset (set_heap h b) = offset b" "good (set_heap h b) = good b" "peek (set_heap h b) = peek b"
  by (simp_all add: set_heap_def good_def peek_def can_access_at_index_def buffer_at_offset_def)

lemma retreat_simps [simp]:
  "content (retreat b) = content b" "depth (retreat b) = depth b" "hp (retreat b) = hp b"
  "offset (retreat b) = offset b - 1"
  by (simp_all add: retreat_def)

lemma blocks_set [simp]:
  "blocks [set_valueint i it] = blocks [it]" "blocks [set_valuedouble x it] = blocks [it]"
  by (cases it; simp)+

lemma set_simps [simp]:
  "jstring (set_valueint i it) = jstring it" "jstring (set_valuedouble x it) = jstring it"
  "jstring (set_type t it) = jstring it" "jstring (set_valuestring v it) = jstring it"
  "jstring (set_child c it) = jstring it" "jstring (set_string nm it) = nm"
  by (cases it; simp)+

lemma blocks_fill:
  assumes "fresh it" and "t AND cJSON_IsReference = 0" and "t AND cJSON_StringIsConst = 0"
  shows "blocks [set_child ch (set_type t (set_valuestring vs it))] =
    blocks [it] + blocks ch + (if vs = None then 0 else 1)"
  using assms by (cases it) (auto simp: fresh_def type_codes)

lemma fill_id: "fresh it \<Longrightarrow> set_valuestring None it = it \<and> set_child [] it = it"
  by (cases it) (simp add: fresh_def)

lemma fill_type: "fresh it \<Longrightarrow> set_child [] (set_type t it) = set_type t it"
  by (cases it) (simp add: fresh_def)

subsection \<open>Strings and numbers\<close>

lemma parse_string_ok:
  assumes "fresh it" and "good b"
  shows "\<exists>r. parse_string mem it b = Some (Done r) \<and> parsed_ok it b r \<and>
    (fst (snd r) \<longrightarrow> (\<exists>out. fst r = set_type cJSON_String (set_valuestring (Some out) it)))"
proof -
  let ?s = "content b" and ?start = "offset b + 1"
  have rd: "rd ?s (offset b) = Some (?s ! offset b)" using assms by (simp add: good_def rd_def)
  have short: "parsed_ok it b (it, False, b\<lparr>offset := ?start\<rparr>)"
    using assms by (simp add: parsed_ok_def good_def)
  show ?thesis
  proof (cases "?s ! offset b = 0x22 \<and> scan_string ?s ?start 0 \<noteq> None \<and> mem (requests (hp b))")
    case False
    then consider "?s ! offset b \<noteq> 0x22" | "?s ! offset b = 0x22" "scan_string ?s ?start 0 = None"
      | r where "?s ! offset b = 0x22" "scan_string ?s ?start 0 = Some r" "\<not> mem (requests (hp b))"
      by (cases "scan_string ?s ?start 0"; cases "?s ! offset b = 0x22") auto
    then show ?thesis
    proof cases
      case 3
      let ?b = "b\<lparr>offset := ?start, hp := snd (allocate mem (hp b))\<rparr>"
      have "parse_string mem it b = Some (Done (it, False, ?b))"
        using 3 rd by (cases r) (simp add: parse_string_def allocate_def)
      moreover have "parsed_ok it b (it, False, ?b)"
        using assms 3 by (simp add: parsed_ok_def good_def allocate_def)
      ultimately show ?thesis by simp
    qed (use rd short in \<open>simp_all add: parse_string_def\<close>)
  next
    case True
    then obtain ie sk where sc: "scan_string ?s ?start 0 = Some (ie, sk)" by auto
    then have al: "aligned ?s ie ?start sk" by (simp add: aligned_def)
    note e = aligned_end [OF al]
    define cap where "cap = ie - offset b - sk + 1"
    have inv: "unescape_inv ?s ?start ie sk ?start []"
      using al by (auto simp: unescape_inv_def)
    have "\<exists>ip' ok out'. unescape (length ?s + 1) cap ?s ?start ie [] = Some (Done (ip', ok, out')) \<and>
        ?start \<le> ip' \<and> ip' \<le> ie + 1 \<and> (\<not> ok \<longrightarrow> ip' < ie) \<and> length out' + 1 \<le> cap"
      by (rule unescape_safe [OF inv]) (use e in \<open>auto simp: cap_def\<close>)
    then obtain ip ok out where u: "unescape (length ?s + 1) cap ?s ?start ie [] = Some (Done (ip, ok, out))"
        and ip: "?start \<le> ip" "ip \<le> ie + 1" "\<not> ok \<longrightarrow> ip < ie" and out: "length out + 1 \<le> cap"
      by blast
    have last: "Suc ie < length ?s"
    proof -
      have "ie \<noteq> length ?s - 1" using e assms(2) by (auto simp: good_def last_conv_nth)
      with e show ?thesis by auto
    qed
    have p: "push cap out [0] = Some (out @ [0])" using out by (simp add: push_def)
    let ?h = "snd (allocate mem (hp b))"
    have ps: "parse_string mem it b = Some (Done (if ok
        then (set_type cJSON_String (set_valuestring (Some out) it), True, b\<lparr>offset := ie + 1, hp := ?h\<rparr>)
        else (it, False, b\<lparr>offset := ip, hp := deallocate ?h\<rparr>)))"
      using True rd sc u p by (simp add: parse_string_def Let_def allocate_def cap_def)
    have "blocks [set_type cJSON_String (set_valuestring (Some out) it)] = blocks [it] + 1"
      using blocks_fill [OF assms(1), of cJSON_String "[]" "Some out"] assms(1)
      by (cases it) (simp add: type_codes fresh_def)
    moreover have "wf_json d (set_type cJSON_String (set_valuestring (Some out) it))" for d
      using assms(1) by (cases it) (simp add: type_codes fresh_def)
    ultimately show ?thesis
      unfolding ps using True ip last e assms(2)
      by (auto simp: parsed_ok_def allocate_def deallocate_def good_def)
  qed
qed

lemma num_to_int_total: "d \<noteq> NaN \<Longrightarrow> \<exists>i. num_to_int d = Some i"
proof (cases d)
  case (Fin neg m e)
  show ?thesis
  proof (cases "0 \<le> e")
    case True
    then show ?thesis by (auto simp: num_to_int_def Fin Let_def INT_MIN_def INT_MAX_def)
  next
    case False
    let ?p = "2 ^ nat (- e) :: nat"
    have pos: "0 < ?p" by simp
    have "m div ?p \<le> 2147483647" if "m < 2147483647 * ?p"
      using less_mult_imp_div_less [OF that] by simp
    moreover have "m div ?p \<le> 2147483648" if "m < 2147483648 * ?p"
      using less_mult_imp_div_less [OF that] by simp
    moreover have "int m < 2147483647 * 2 ^ nat (- e) \<longleftrightarrow> m < 2147483647 * ?p"
      "int m < 2147483648 * 2 ^ nat (- e) \<longleftrightarrow> m < 2147483648 * ?p"
      by (simp_all flip: of_nat_less_iff [where 'a = int])
    ultimately show ?thesis
      using False by (cases neg) (auto simp: num_to_int_def Fin Let_def INT_MIN_def INT_MAX_def signed_def not_le)
  qed
qed (auto simp: num_to_int_def)


lemma sign_of_le: "sign_of s = (neg, k) \<Longrightarrow> k \<le> length s"
  by (cases s) (auto split: if_splits)

lemma exponent_of_le: "exponent_of s = (e, k) \<Longrightarrow> k \<le> length s"
proof (cases s)
  case (Cons c s')
  assume ex: "exponent_of s = (e, k)"
  obtain neg j where sg: "sign_of s' = (neg, j)" by (cases "sign_of s'")
  have "length (takeWhile is_digit (drop j s')) \<le> length (drop j s')" by (rule length_takeWhile_le)
  with ex sg sign_of_le [OF sg] Cons show ?thesis by (auto simp: Let_def split: if_splits)
qed simp

lemma strtod_le: "snd (strtod s) \<le> length s"
proof -
  obtain neg k where sg: "sign_of s = (neg, k)" by (cases "sign_of s")
  let ?ip = "takeWhile is_digit (drop k s)"
  let ?s2 = "drop (length ?ip) (drop k s)"
  let ?p = "case ?s2 of c # s' \<Rightarrow> if c = 0x2e then (takeWhile is_digit s', 1 :: nat) else ([], 0) | [] \<Rightarrow> ([], 0)"
  obtain fp pt where p: "?p = (fp, pt)" using prod.exhaust by blast
  obtain e l where ex: "exponent_of (drop (pt + length fp) ?s2) = (e, l)"
    by (cases "exponent_of (drop (pt + length fp) ?s2)")
  have 1: "k + length ?ip \<le> length s"
    using sign_of_le [OF sg] length_takeWhile_le [of is_digit "drop k s"] by simp
  have 2: "pt + length fp \<le> length ?s2"
  proof (cases ?s2)
    case (Cons c s')
    with p length_takeWhile_le [of is_digit s'] show ?thesis by (auto split: if_splits)
  qed (use p in simp)
  have "snd (strtod s) = 0 \<or> snd (strtod s) = k + length ?ip + pt + length fp + l"
    by (simp only: strtod_def Let_def sg p ex prod.case) simp
  with 1 2 exponent_of_le [OF ex] show ?thesis by auto
qed

lemma strtod_not_nan: "fst (strtod s) \<noteq> NaN"
  by (auto simp: strtod_def Let_def round_to_not_nan dbl_zero_def split: prod.splits)

lemma number_c_string_le: "length (number_c_string b) \<le> length (content b) - offset b"
  using length_takeWhile_le [of num_char "take 63 (drop (offset b) (content b))"]
  by (simp add: number_c_string_def)

lemma number_c_string_nth:
  assumes "i < length (number_c_string b)"
  shows "num_char (content b ! (offset b + i))"
proof -
  let ?t = "take 63 (drop (offset b) (content b))"
  have "num_char (takeWhile num_char ?t ! i)"
    using assms nth_mem set_takeWhileD unfolding number_c_string_def by metis
  moreover have "takeWhile num_char ?t ! i = ?t ! i"
    using assms by (simp add: number_c_string_def takeWhile_nth)
  moreover have "?t ! i = content b ! (offset b + i)"
    using assms length_takeWhile_le [of num_char ?t]
    by (cases "offset b \<le> length (content b)") (simp_all add: number_c_string_def)
  ultimately show ?thesis by simp
qed

lemma parse_number_ok:
  assumes "fresh it" and "good b"
  shows "\<exists>r. parse_number it b = Some r \<and> parsed_ok it b r"
proof -
  obtain d n where sd: "strtod (number_c_string b) = (d, n)" by (cases "strtod (number_c_string b)")
  obtain i where i: "num_to_int d = Some i"
    using num_to_int_total strtod_not_nan [of "number_c_string b"] sd by auto
  have n: "n \<le> length (number_c_string b)" using strtod_le [of "number_c_string b"] sd by simp
  show ?thesis
  proof (cases "n = 0")
    case True
    with sd assms show ?thesis by (simp add: parse_number_def parsed_ok_def good_def)
  next
    case False
    have "offset b + n \<noteq> length (content b)"
    proof
      assume eq: "offset b + n = length (content b)"
      have "num_char (content b ! (offset b + (n - 1)))"
        by (rule number_c_string_nth) (use n False in simp)
      moreover have "offset b + (n - 1) = length (content b) - 1" using eq False by simp
      moreover have "content b ! (length (content b) - 1) = last (content b)"
        using assms(2) by (metis good_def last_conv_nth)
      ultimately have "num_char (last (content b))" by simp
      with assms(2) show False by (simp add: good_def num_char_def is_digit_def)
    qed
    with n number_c_string_le [of b] assms(2) have "offset b + n < length (content b)"
      by (auto simp: good_def)
    moreover have "blocks [set_type cJSON_Number (set_valueint i (set_valuedouble d it))] = blocks [it]"
      "wf_json k (set_type cJSON_Number (set_valueint i (set_valuedouble d it)))" for k
      using assms(1) i by (cases it; auto simp: fresh_def type_codes)+
    ultimately show ?thesis
      using sd i False assms(2) by (simp add: parse_number_def parsed_ok_def good_def)
  qed
qed

subsection \<open>Containers\<close>

text \<open>The contract of the two loops: \<open>b\<close> is in front of an element, \<open>d\<close> the levels left.\<close>

definition elems_ok :: "nat \<Rightarrow> bool \<Rightarrow> cjson list \<Rightarrow> bool" where
  "elems_ok d named cs \<longleftrightarrow> (\<forall>c \<in> set cs. wf_json d c \<and> (named \<longleftrightarrow> jstring c \<noteq> None))"

lemma elems_ok_append: "elems_ok d named (cs @ [c]) \<longleftrightarrow>
    elems_ok d named cs \<and> wf_json d c \<and> (named \<longleftrightarrow> jstring c \<noteq> None)"
  by (auto simp: elems_ok_def)

definition loop_ok :: "nat \<Rightarrow> bool \<Rightarrow> cjson list \<Rightarrow> pbuf \<Rightarrow> cjson list \<times> bool \<times> pbuf \<Rightarrow> bool" where
  "loop_ok d named head b r = (case r of (head', ok, b') \<Rightarrow>
     content b' = content b \<and> offset b \<le> offset b' \<and> offset b' \<le> length (content b) \<and>
     live (hp b') + blocks head = live (hp b) + blocks head' \<and>
     (ok \<longrightarrow> good b' \<and> content b' ! offset b' \<noteq> 0 \<and> offset b < offset b' \<and> depth b' = depth b \<and>
        (elems_ok d named head \<longrightarrow> elems_ok d named head')))"

lemma loop_ok_step:
  assumes "loop_ok d named (head @ [it]) b' r"
    and "content b' = content b" and "offset b < offset b'" and "depth b' = depth b"
    and "live (hp b') = live (hp b) + blocks [it]"
    and "wf_json d it" and "named \<longleftrightarrow> jstring it \<noteq> None"
  shows "loop_ok d named head b r"
proof -
  obtain head' ok b'' where r: "r = (head', ok, b'')" by (cases r)
  have el: "elems_ok d named (head @ [it]) = elems_ok d named head"
    using assms(6,7) by (simp only: elems_ok_append simp_thms)
  show ?thesis
    using assms(1-5) unfolding r loop_ok_def prod.case blocks_append el by auto
qed

lemma loop_ok_end:
  assumes "content b' = content b" and "offset b < offset b'" and "offset b' \<le> length (content b)"
    and "live (hp b') = live (hp b) + blocks [it]"
    and "ok \<Longrightarrow> good b' \<and> content b' ! offset b' \<noteq> 0 \<and> depth b' = depth b"
    and "ok \<Longrightarrow> wf_json d it \<and> (named \<longleftrightarrow> jstring it \<noteq> None)"
  shows "loop_ok d named head b (head @ [it], ok, b')"
  using assms by (simp add: loop_ok_def blocks_append elems_ok_append)

lemma zero_item_facts: "fresh zero_item" "blocks [zero_item] = 1" "jstring zero_item = None"
  by (simp_all add: fresh_def zero_item_def type_codes)

lemma new_item_cases:
  obtains (No) "cJSON_New_Item mem h = (None, h\<lparr>requests := requests h + 1\<rparr>)"
  | (Yes) "cJSON_New_Item mem h = (Some zero_item, h\<lparr>requests := requests h + 1, live := live h + 1\<rparr>)"
  by (cases "mem (requests h)") (simp_all add: cJSON_New_Item_def allocate_def)

lemma good_set [simp]: "good (b\<lparr>depth := d\<rparr>) = good b" "good (b\<lparr>hp := h\<rparr>) = good b"
  by (simp_all add: good_def)

lemma runs_step:
  assumes "runs (min k n) (advance 1 b') x P" and "good (advance 1 b')"
    and "content b' = content b" and "offset b < offset b'" and "\<And>r. P r \<Longrightarrow> Q r"
  shows "runs (min (Suc k) n) (advance 1 b) x Q"
  using assms(1)
proof (cases rule: runs_cases)
  case Out
  with assms(2-4) show ?thesis by (auto simp: good_def min_def split: if_splits)
next
  case (Res r)
  with assms(5) show ?thesis by simp
qed

text \<open>Closing a container, for both kinds.\<close>

definition container :: "int \<Rightarrow> bool \<Rightarrow> bool" where
  "container t named \<longleftrightarrow> t = cJSON_Array \<and> \<not> named \<or> t = cJSON_Object \<and> named"

lemma container_done:
  assumes it: "fresh it" and d: "depth b0 < CJSON_NESTING_LIMIT" and t: "container t named"
    and b2: "good b2" "content b2 ! offset b2 \<noteq> 0" "content b2 = content b0" "offset b0 < offset b2"
      "depth b2 = depth b0 + 1" "live (hp b2) = live (hp b0) + blocks ch"
    and el: "elems_ok (CJSON_NESTING_LIMIT - Suc (depth b0)) named ch"
  shows "parsed_ok it b0 (set_child ch (set_type t it), True, advance 1 (b2\<lparr>depth := depth b2 - 1\<rparr>))"
proof -
  have "good (advance 1 b2)" by (rule good_nonzero_next [OF b2(1,2)])
  then have "good (advance 1 (b2\<lparr>depth := depth b2 - 1\<rparr>))" by (simp add: good_def)
  moreover have "blocks [set_child ch (set_type t it)] = blocks [it] + blocks ch"
    using blocks_fill [OF it, of t ch None] fill_id [OF it] t by (auto simp: type_codes container_def)
  moreover have "wf_json (CJSON_NESTING_LIMIT - depth b0) (set_child ch (set_type t it))"
    using el d it t by (cases it) (auto simp: elems_ok_def type_codes fresh_def container_def)
  ultimately show ?thesis using b2 by (simp add: parsed_ok_def good_def)
qed

lemma container_failed:
  assumes "content b2 = content b0" and "offset b0 \<le> offset b2" and "offset b2 \<le> length (content b0)"
    and "live (hp b2) = live (hp b0) + blocks head"
  shows "parsed_ok it b0 (it, False, set_heap (cJSON_Delete head (hp b2)) b2)"
  using assms by (simp add: parsed_ok_def cJSON_Delete_heap)

text \<open>The position in front of the first element.\<close>

lemma container_start:
  assumes "good b0" and "content b0 ! offset b0 \<noteq> 0"
  defines "b1 \<equiv> buffer_skip_whitespace (advance 1 (b0\<lparr>depth := depth b0 + 1\<rparr>))"
  shows "good b1" "content b1 = content b0" "hp b1 = hp b0" "depth b1 = depth b0 + 1"
    "offset b0 < offset b1" "can_access_at_index b1 0" "advance 1 (retreat b1) = b1"
    "buffer_at_offset (b0\<lparr>depth := depth b0 + 1\<rparr>) 0 = Some (content b0 ! offset b0)"
    "peek (b0\<lparr>depth := depth b0 + 1\<rparr>) = Some (content b0 ! offset b0)"
proof -
  let ?b = "b0\<lparr>depth := depth b0 + 1\<rparr>"
  have g: "good (advance 1 ?b)" by (rule good_nonzero_next) (use assms in simp_all)
  note sk = skip_offset [OF g]
  show "good b1" and off: "offset b0 < offset b1" using sk by (simp_all add: b1_def)
  show "content b1 = content b0" "hp b1 = hp b0" "depth b1 = depth b0 + 1"
    by (simp_all add: b1_def skip_props)
  show "can_access_at_index b1 0" using sk(2) by (simp add: b1_def can_access_at_index_def good_def)
  show "advance 1 (retreat b1) = b1" using off by (cases b1) (simp add: advance_def retreat_def)
  show "buffer_at_offset ?b 0 = Some (content b0 ! offset b0)" "peek ?b = Some (content b0 ! offset b0)"
    using assms(1) peek_good [of ?b] by (simp_all add: buffer_at_offset_def rd_def good_def)
qed

locale value_parser =
  fixes pv :: parser and n :: nat
  assumes pv_ok: "fresh it \<Longrightarrow> good b \<Longrightarrow> runs n b (pv it b) (parsed_ok it b)"
begin

text \<open>A value after white space: what the loops know of it.\<close>

lemma skip_cases:
  assumes "fresh it" and "good b"
  obtains (Out) "pv it (buffer_skip_whitespace b) = Some Running" "n \<le> length (content b) - offset b"
  | (Res) it' ok b' where "pv it (buffer_skip_whitespace b) = Some (Done (it', ok, b'))"
      "content b' = content b" "offset b \<le> offset b'" "offset b' \<le> length (content b)"
      "live (hp b') + blocks [it] = live (hp b) + blocks [it']" "jstring it' = jstring it"
      "ok \<Longrightarrow> good b' \<and> offset b < offset b' \<and> depth b' = depth b \<and>
        wf_json (CJSON_NESTING_LIMIT - depth b) it'"
proof -
  note skip = skip_offset [OF assms(2)]
  from pv_ok [OF assms(1) skip(2)] show ?thesis
  proof (cases rule: runs_cases)
    case run: Out
    with skip(1) show ?thesis by (intro Out) (auto simp: skip_props)
  next
    case (Res r)
    obtain it' ok b' where r: "r = (it', ok, b')" by (cases r)
    with Res skip show ?thesis
      by (intro that(2) [of it' ok b']) (auto simp: parsed_ok_def skip_props)
  qed
qed

lemma array_loop_ok:
  assumes "good (advance 1 b)"
  shows "runs (min k n) (advance 1 b) (array_loop mem pv k head b)
    (loop_ok (CJSON_NESTING_LIMIT - depth b) False head b)"
  using assms
proof (induction k arbitrary: head b)
  case (Suc k)
  show ?case
  proof (cases rule: new_item_cases [of mem "hp b"])
    case No
    with Suc.prems show ?thesis by (simp add: loop_ok_def good_def)
  next
    case Yes
    let ?h = "(hp b)\<lparr>requests := requests (hp b) + 1, live := live (hp b) + 1\<rparr>"
    let ?b1 = "advance 1 (set_heap ?h b)"
    have g: "good ?b1" using Suc.prems by (simp add: good_def)
    show ?thesis
    proof (cases rule: skip_cases [OF zero_item_facts(1) g])
      case 1
      with Yes show ?thesis by simp
    next
      case (2 it ok b2)
      show ?thesis
      proof (cases ok)
        case False
        with Yes 2 show ?thesis
          by (simp, intro loop_ok_end) (simp_all add: zero_item_facts)
      next
        case True
        let ?b3 = "buffer_skip_whitespace b2"
        have b2: "good b2" "offset b + 1 < offset b2" "depth b2 = depth b"
          "wf_json (CJSON_NESTING_LIMIT - depth b) it"
          using 2(7) [OF True] by simp_all
        have b3: "good ?b3" "offset b < offset ?b3" "content ?b3 = content b" "depth ?b3 = depth b"
          using skip_offset [OF b2(1)] b2 2 by (simp_all add: skip_props)
        have lv: "live (hp ?b3) = live (hp b) + blocks [it]"
          using 2(5) by (simp add: skip_props zero_item_facts)
        have nm: "False \<longleftrightarrow> jstring it \<noteq> None" using 2(6) by (simp add: zero_item_facts)
        show ?thesis
        proof (cases "peek ?b3 = Some 0x2c")
          case True
          then have g3: "good (advance 1 ?b3)"
            using good_nonzero_next [OF b3(1)] peek_good [OF b3(1)] by simp
          have "runs (min (Suc k) n) (advance 1 b) (array_loop mem pv k (head @ [it]) ?b3)
            (loop_ok (CJSON_NESTING_LIMIT - depth b) False head b)"
            by (rule runs_step [OF Suc.IH [OF g3] g3 b3(3,2)])
              (rule loop_ok_step [OF _ b3(3,2,4) lv b2(4) nm], simp add: b3(4))
          with Yes 2 \<open>ok\<close> True show ?thesis by (simp add: Let_def)
        next
          case False
          have "loop_ok (CJSON_NESTING_LIMIT - depth b) False head b (head @ [it], peek ?b3 = Some 0x5d, ?b3)"
            by (rule loop_ok_end [OF b3(3,2) _ lv])
              (use b3 b2 nm peek_good [OF b3(1)] in \<open>auto simp: good_def\<close>)
          with Yes 2 \<open>ok\<close> False show ?thesis by (simp add: Let_def)
        qed
      qed
    qed
  qed
qed simp

lemma parse_array_ok:
  assumes "fresh it" and "good b0" and "content b0 ! offset b0 = 0x5b"
  shows "runs (Suc n) b0 (parse_array mem pv n it b0) (parsed_ok it b0)"
proof (cases "CJSON_NESTING_LIMIT \<le> depth b0")
  case True
  with assms(2) show ?thesis by (simp add: parse_array_def parsed_ok_def good_def)
next
  case False
  let ?b1 = "buffer_skip_whitespace (advance 1 (b0\<lparr>depth := depth b0 + 1\<rparr>))"
  have d: "depth b0 < CJSON_NESTING_LIMIT" using False by simp
  have nz: "content b0 ! offset b0 \<noteq> 0" using assms(3) by simp
  note b1 = container_start [OF assms(2) nz]
  have c: "container cJSON_Array False" by (simp add: container_def)
  note fin = container_done [OF assms(1) d c]
  show ?thesis
  proof (cases "peek ?b1 = Some 0x5d")
    case True
    have "parsed_ok it b0 (set_child [] (set_type cJSON_Array it), True,
        advance 1 (?b1\<lparr>depth := depth ?b1 - 1\<rparr>))"
      by (rule fin) (use True b1 peek_good [OF b1(1)] in \<open>simp_all add: elems_ok_def\<close>)
    with True False assms(3) b1 show ?thesis by (simp add: parse_array_def Let_def)
  next
    case ne: False
    have "runs (min n n) (advance 1 (retreat ?b1)) (array_loop mem pv n [] (retreat ?b1))
        (loop_ok (CJSON_NESTING_LIMIT - depth (retreat ?b1)) False [] (retreat ?b1))"
      by (rule array_loop_ok) (simp only: b1(1,7))
    then show ?thesis
    proof (cases rule: runs_cases)
      case Out
      with b1 assms(2,3) ne False show ?thesis by (auto simp: parse_array_def Let_def good_def)
    next
      case (Res r)
      obtain head ok b2 where r: "r = (head, ok, b2)" by (cases r)
      have l: "content b2 = content b0" "offset b0 \<le> offset b2" "offset b2 \<le> length (content b0)"
        "live (hp b2) = live (hp b0) + blocks head"
        using Res(2) b1 by (auto simp: r loop_ok_def)
      have "ok \<Longrightarrow> parsed_ok it b0 (set_child head (set_type cJSON_Array it), True,
          advance 1 (b2\<lparr>depth := depth b2 - 1\<rparr>))"
        by (rule fin) (use Res(2) b1 in \<open>auto simp: r loop_ok_def elems_ok_def\<close>)
      moreover have "parse_array mem pv n it b0 = Some (Done (if ok
          then (set_child head (set_type cJSON_Array it), True, advance 1 (b2\<lparr>depth := depth b2 - 1\<rparr>))
          else (it, False, set_heap (cJSON_Delete head (hp b2)) b2)))"
        using ne False b1 assms(3) Res(1) r by (simp add: parse_array_def Let_def)
      ultimately show ?thesis using container_failed [OF l] by (cases ok) simp_all
    qed
  qed
qed

text \<open>The name of a member, moved to \<^verbatim>\<open>string\<close>.\<close>

lemma named_item:
  assumes "it = set_type cJSON_String (set_valuestring (Some out) zero_item)"
  shows "fresh (set_valuestring None (set_string (valuestring it) it))"
    "jstring (set_valuestring None (set_string (valuestring it) it)) = Some out"
    "blocks [set_valuestring None (set_string (valuestring it) it)] = 2"
    "blocks [it] = 2"
  using assms by (simp_all add: zero_item_def fresh_def type_codes)

lemma object_loop_ok:
  assumes "good (advance 1 b)"
  shows "runs (min k n) (advance 1 b) (object_loop mem pv k head b)
    (loop_ok (CJSON_NESTING_LIMIT - depth b) True head b)"
  using assms
proof (induction k arbitrary: head b)
  case (Suc k)
  show ?case
  proof (cases rule: new_item_cases [of mem "hp b"])
    case No
    with Suc.prems show ?thesis by (simp add: loop_ok_def good_def)
  next
    case Yes
    let ?h = "(hp b)\<lparr>requests := requests (hp b) + 1, live := live (hp b) + 1\<rparr>"
    let ?b1 = "advance 1 (set_heap ?h b)"
    let ?s1 = "buffer_skip_whitespace ?b1"
    have g: "good ?b1" using Suc.prems by (simp add: good_def)
    note s1 = skip_offset [OF g]
    obtain it ok b2 where ps: "parse_string mem zero_item ?s1 = Some (Done (it, ok, b2))"
      and po: "parsed_ok zero_item ?s1 (it, ok, b2)"
      and out: "ok \<longrightarrow> (\<exists>out. it = set_type cJSON_String (set_valuestring (Some out) zero_item))"
      using parse_string_ok [OF zero_item_facts(1) s1(2)] by (metis fst_conv snd_conv prod_cases3)
    have b2: "content b2 = content b" "offset b < offset b2" "offset b2 \<le> length (content b)"
      "live (hp b2) = live (hp b) + blocks [it]" "ok \<Longrightarrow> good b2 \<and> depth b2 = depth b"
      using po s1(1) by (auto simp: parsed_ok_def skip_props zero_item_facts)
    show ?thesis
    proof (cases ok)
      case False
      with Yes ps b2 show ?thesis
        by (simp, intro loop_ok_end) simp_all
    next
      case True
      then obtain out where it: "it = set_type cJSON_String (set_valuestring (Some out) zero_item)"
        using out by blast
      let ?it2 = "set_valuestring None (set_string (valuestring it) it)"
      note it2 = named_item [OF it]
      let ?b3 = "buffer_skip_whitespace b2"
      note b3 = skip_offset [OF b2(5) [OF True, THEN conjunct1]]
      have b3': "content ?b3 = content b" "offset b < offset ?b3" "live (hp ?b3) = live (hp b) + 2"
        "depth ?b3 = depth b"
        using b3 b2 True it2 by (simp_all add: skip_props)
      show ?thesis
      proof (cases "peek ?b3 = Some 0x3a")
        case False
        have "loop_ok (CJSON_NESTING_LIMIT - depth b) True head b (head @ [?it2], False, ?b3)"
          by (rule loop_ok_end) (use b3 b3' it2 in \<open>simp_all add: good_def\<close>)
        with Yes ps True False show ?thesis by (simp add: Let_def)
      next
        case colon: True
        let ?b4 = "advance 1 ?b3"
        have g4: "good ?b4"
          using good_nonzero_next [OF b3(2)] peek_good [OF b3(2)] colon by simp
        show ?thesis
        proof (cases rule: skip_cases [OF it2(1) g4])
          case 1
          with b3' have "min (Suc k) n \<le> length (content b) - (offset b + 1)" by auto
          with Yes ps True colon 1 show ?thesis by (simp add: Let_def)
        next
          case (2 it3 ok3 b5)
          show ?thesis
          proof (cases ok3)
            case False
            have "loop_ok (CJSON_NESTING_LIMIT - depth b) True head b (head @ [it3], False, b5)"
              by (rule loop_ok_end) (use 2 b3' it2 in simp_all)
            with Yes ps True colon 2 False show ?thesis by (simp add: Let_def)
          next
            case ok3: True
            let ?b6 = "buffer_skip_whitespace b5"
            have b5: "good b5" "offset b < offset b5" "depth b5 = depth b"
              "wf_json (CJSON_NESTING_LIMIT - depth b) it3"
              using 2(7) [OF ok3] b3' by simp_all
            have b6: "good ?b6" "offset b < offset ?b6" "content ?b6 = content b" "depth ?b6 = depth b"
              using skip_offset [OF b5(1)] b5 2 b3' by (simp_all add: skip_props)
            have lv: "live (hp ?b6) = live (hp b) + blocks [it3]"
              using 2(5) b3' it2 by (simp add: skip_props)
            have nm: "True \<longleftrightarrow> jstring it3 \<noteq> None" using 2(6) it2 by simp
            show ?thesis
            proof (cases "peek ?b6 = Some 0x2c")
              case comma: True
              then have g6: "good (advance 1 ?b6)"
                using good_nonzero_next [OF b6(1)] peek_good [OF b6(1)] by simp
              have "runs (min (Suc k) n) (advance 1 b) (object_loop mem pv k (head @ [it3]) ?b6)
                (loop_ok (CJSON_NESTING_LIMIT - depth b) True head b)"
                by (rule runs_step [OF Suc.IH [OF g6] g6 b6(3,2)])
                  (rule loop_ok_step [OF _ b6(3,2,4) lv b5(4) nm], simp add: b6(4))
              with Yes ps True colon 2 ok3 comma show ?thesis by (simp add: Let_def)
            next
              case False
              have "loop_ok (CJSON_NESTING_LIMIT - depth b) True head b
                  (head @ [it3], peek ?b6 = Some 0x7d, ?b6)"
                by (rule loop_ok_end [OF b6(3,2) _ lv])
                  (use b6 b5 nm peek_good [OF b6(1)] in \<open>auto simp: good_def\<close>)
              with Yes ps True colon 2 ok3 False show ?thesis by (simp add: Let_def)
            qed
          qed
        qed
      qed
    qed
  qed
qed simp

lemma parse_object_ok:
  assumes "fresh it" and "good b0" and "content b0 ! offset b0 = 0x7b"
  shows "runs (Suc n) b0 (parse_object mem pv n it b0) (parsed_ok it b0)"
proof (cases "CJSON_NESTING_LIMIT \<le> depth b0")
  case True
  with assms(2) show ?thesis by (simp add: parse_object_def parsed_ok_def good_def)
next
  case False
  let ?b1 = "buffer_skip_whitespace (advance 1 (b0\<lparr>depth := depth b0 + 1\<rparr>))"
  have d: "depth b0 < CJSON_NESTING_LIMIT" using False by simp
  have nz: "content b0 ! offset b0 \<noteq> 0" using assms(3) by simp
  note b1 = container_start [OF assms(2) nz]
  have c: "container cJSON_Object True" by (simp add: container_def)
  note fin = container_done [OF assms(1) d c]
  show ?thesis
  proof (cases "peek ?b1 = Some 0x7d")
    case True
    have "parsed_ok it b0 (set_child [] (set_type cJSON_Object it), True,
        advance 1 (?b1\<lparr>depth := depth ?b1 - 1\<rparr>))"
      by (rule fin) (use True b1 peek_good [OF b1(1)] in \<open>simp_all add: elems_ok_def\<close>)
    with True False assms(3) b1 show ?thesis by (simp add: parse_object_def Let_def)
  next
    case ne: False
    have "runs (min n n) (advance 1 (retreat ?b1)) (object_loop mem pv n [] (retreat ?b1))
        (loop_ok (CJSON_NESTING_LIMIT - depth (retreat ?b1)) True [] (retreat ?b1))"
      by (rule object_loop_ok) (simp only: b1(1,7))
    then show ?thesis
    proof (cases rule: runs_cases)
      case Out
      with b1 assms(2,3) ne False show ?thesis by (auto simp: parse_object_def Let_def good_def)
    next
      case (Res r)
      obtain head ok b2 where r: "r = (head, ok, b2)" by (cases r)
      have l: "content b2 = content b0" "offset b0 \<le> offset b2" "offset b2 \<le> length (content b0)"
        "live (hp b2) = live (hp b0) + blocks head"
        using Res(2) b1 by (auto simp: r loop_ok_def)
      have "ok \<Longrightarrow> parsed_ok it b0 (set_child head (set_type cJSON_Object it), True,
          advance 1 (b2\<lparr>depth := depth b2 - 1\<rparr>))"
        by (rule fin) (use Res(2) b1 in \<open>auto simp: r loop_ok_def elems_ok_def\<close>)
      moreover have "parse_object mem pv n it b0 = Some (Done (if ok
          then (set_child head (set_type cJSON_Object it), True, advance 1 (b2\<lparr>depth := depth b2 - 1\<rparr>))
          else (it, False, set_heap (cJSON_Delete head (hp b2)) b2)))"
        using ne False b1 assms(3) Res(1) r by (simp add: parse_object_def Let_def)
      ultimately show ?thesis using container_failed [OF l] by (cases ok) simp_all
    qed
  qed
qed

end

subsection \<open>Values and documents\<close>

lemma literal_ok:
  assumes "fresh it" and "good b" and "looking_at b lit" and "last lit \<noteq> 0" and "lit \<noteq> []"
    and "t = cJSON_NULL \<or> t = cJSON_False \<or> t = cJSON_True"
  shows "parsed_ok it b (set_type t it, True, advance (length lit) b)"
proof -
  have len: "offset b + length lit \<le> length (content b)" and
    lit: "take (length lit) (drop (offset b) (content b)) = lit"
    using assms(3) by (simp_all add: looking_at_def can_read_def)
  have "lit ! (length lit - 1) = content b ! (offset b + (length lit - 1))"
    using arg_cong [OF lit, of "\<lambda>xs. xs ! (length lit - 1)"] len assms(5) by simp
  then have "content b ! (offset b + (length lit - 1)) \<noteq> 0"
    using assms(4,5) by (simp add: last_conv_nth)
  moreover have "content b ! (length (content b) - 1) = 0"
    using assms(2) by (metis good_def last_conv_nth)
  ultimately have "offset b + length lit \<noteq> length (content b)"
    using assms(5) by (metis Nat.add_diff_assoc Suc_leI length_greater_0_conv One_nat_def)
  with len have "good (advance (length lit) b)" using assms(2) by (simp add: good_def)
  moreover have "blocks [set_type t it] = blocks [it]" "wf_json k (set_type t it)" for k
    using assms(1,6) by (cases it; auto simp: fresh_def type_codes)+
  ultimately show ?thesis using assms(5) len by (simp add: parsed_ok_def)
qed

lemma lit_facts:
  "length lit_null = 4" "length lit_false = 5" "length lit_true = 4"
  "last lit_null \<noteq> 0" "last lit_false \<noteq> 0" "last lit_true \<noteq> 0"
  "lit_null \<noteq> []" "lit_false \<noteq> []" "lit_true \<noteq> []"
  by (simp_all add: lit_null_def lit_false_def lit_true_def)

lemma parsed_ok_valueint:
  "parsed_ok it b (set_type cJSON_True it', True, b') \<Longrightarrow>
    parsed_ok it b (set_valueint 1 (set_type cJSON_True it'), True, b')"
  by (cases it') (simp add: parsed_ok_def type_codes)

lemma parse_value_ok: "fresh it \<Longrightarrow> good b \<Longrightarrow> runs n b (parse_value mem n it b) (parsed_ok it b)"
proof (induction n arbitrary: it b)
  case (Suc n)
  have pv: "value_parser (parse_value mem n) n"
    by (rule value_parser.intro) (rule Suc.IH)
  let ?c = "content b ! offset b"
  have pk: "peek b = Some ?c" by (rule peek_good [OF Suc.prems(2)])
  note lit = literal_ok [OF Suc.prems]
  consider "looking_at b lit_null" | "\<not> looking_at b lit_null" "looking_at b lit_false"
    | "\<not> looking_at b lit_null" "\<not> looking_at b lit_false" "looking_at b lit_true"
    | "\<not> looking_at b lit_null" "\<not> looking_at b lit_false" "\<not> looking_at b lit_true"
    by blast
  then show ?case
  proof cases
    case 1
    have "parsed_ok it b (set_type cJSON_NULL it, True, advance 4 b)"
      using lit [OF 1, of cJSON_NULL] by (simp add: lit_facts)
    with 1 show ?thesis by simp
  next
    case 2
    have "parsed_ok it b (set_type cJSON_False it, True, advance 5 b)"
      using lit [OF 2(2), of cJSON_False] by (simp add: lit_facts)
    with 2 show ?thesis by simp
  next
    case 3
    have "parsed_ok it b (set_type cJSON_True it, True, advance 4 b)"
      using lit [OF 3(3)] by (simp add: lit_facts)
    with 3 show ?thesis by (simp add: parsed_ok_valueint)
  next
    case 4
    consider "?c = 0x22" | "?c = 0x2d \<or> is_digit ?c" "?c \<noteq> 0x22" | "?c = 0x5b" | "?c = 0x7b"
      | "?c \<noteq> 0x22" "?c \<noteq> 0x2d" "\<not> is_digit ?c" "?c \<noteq> 0x5b" "?c \<noteq> 0x7b" by blast
    then show ?thesis
    proof cases
      case 1
      with 4 pk parse_string_ok [OF Suc.prems, of mem] show ?thesis by auto
    next
      case 2
      with 4 pk parse_number_ok [OF Suc.prems] show ?thesis by auto
    next
      case 3
      with 4 pk value_parser.parse_array_ok [OF pv Suc.prems 3, of mem] show ?thesis
        by (simp add: is_digit_def)
    next
      case c: 4
      with 4 pk value_parser.parse_object_ok [OF pv Suc.prems c, of mem] show ?thesis
        by (simp add: is_digit_def)
    next
      case 5
      with 4 pk Suc.prems show ?thesis by (simp add: parsed_ok_def good_def)
    qed
  qed
qed simp

interpretation json: value_parser "parse_value mem n" n for mem n
  by unfold_locales (rule parse_value_ok)

text \<open>What a result says of the allocator and of the tree.\<close>

definition result_ok :: "heap \<Rightarrow> parse_result \<Rightarrow> bool" where
  "result_ok h r = (case res_item r of
     None \<Rightarrow> live (res_heap r) = live h
   | Some it \<Rightarrow> live (res_heap r) = live h + blocks [it] \<and> wf_json CJSON_NESTING_LIMIT it \<and>
       jstring it = None)"

lemma parse_document_ok:
  assumes "s \<noteq> []" and "last s = 0"
  shows "\<exists>r. cJSON_ParseWithLengthOpts mem (Some s) rnt h = Some (Done r) \<and> result_ok h r"
proof (cases rule: new_item_cases [of mem h])
  case No
  with assms show ?thesis
    by (simp add: cJSON_ParseWithLengthOpts_def parse_failed_def result_ok_def Let_def)
next
  case Yes
  let ?h1 = "h\<lparr>requests := requests h + 1, live := live h + 1\<rparr>"
  let ?b0 = "\<lparr>content = s, offset = 0, depth = 0, hp = ?h1\<rparr>"
  obtain b where b: "skip_utf8_bom ?b0 = Some b" and gb: "good b" and b': "content b = s"
      "depth b = 0" "hp b = ?h1"
    using assms by (cases "can_access_at_index ?b0 4 \<and> take 3 s = [0xef, 0xbb, 0xbf]")
      (auto simp: skip_utf8_bom_def good_def can_access_at_index_def advance_def)
  let ?w = "buffer_skip_whitespace b"
  note w = skip_offset [OF gb]
  have "runs (length s + 1) ?w (parse_value mem (length s + 1) zero_item ?w) (parsed_ok zero_item ?w)"
    by (rule parse_value_ok [OF zero_item_facts(1) w(2)])
  then obtain it ok b1 where pv: "parse_value mem (length s + 1) zero_item ?w = Some (Done (it, ok, b1))"
    and po: "parsed_ok zero_item ?w (it, ok, b1)"
    by (cases rule: runs_cases) (auto simp: skip_props b')
  have acc: "live (hp b1) = live h + blocks [it]" "jstring it = None"
    "ok \<Longrightarrow> wf_json CJSON_NESTING_LIMIT it"
    using po b' by (simp_all add: parsed_ok_def skip_props zero_item_facts)
  then have del: "live (cJSON_Delete [it] (hp b1)) = live h" by (simp add: cJSON_Delete_heap)
  let ?b2 = "if rnt then buffer_skip_whitespace b1 else b1"
  have hp2: "hp ?b2 = hp b1" by (simp add: skip_props)
  have "cJSON_ParseWithLengthOpts mem (Some s) rnt h = Some (Done (
      if \<not> ok then parse_failed s (Some it) (offset b1) (hp b1)
      else if rnt \<and> peek ?b2 \<noteq> Some 0 then parse_failed s (Some it) (offset ?b2) (hp ?b2)
      else \<lparr>res_item = Some it, res_heap = hp ?b2, res_end = offset ?b2, res_error = None\<rparr>))"
    using Yes assms(1) b pv by (simp add: cJSON_ParseWithLengthOpts_def Let_def del: parse_value.simps)
  then show ?thesis
    using acc del by (auto simp: result_ok_def parse_failed_def Let_def hp2 skip_props)
qed

lemma parse_cstr_ok:
  "\<exists>r. cJSON_ParseWithOpts mem (Some s) rnt h = Some (Done r) \<and> result_ok h r"
  using parse_document_ok [of "cstr s @ [0]" mem rnt h] by (simp add: cJSON_ParseWithOpts_def)

text \<open>
  C2: parsing any C string, with any allocator, returns: no read outside the string and its
  terminator, no write outside the block of a string value, no endless loop and no unbounded
  recursion, whatever the text. When it fails, every block it had allocated is free again;
  when it succeeds, the live blocks are exactly those of the returned tree.
\<close>

theorem cjson_parse_safe:
  "\<exists>r. cJSON_ParseWithOpts mem (Some s) rnt h = Some (Done r) \<and>
     live (res_heap r) = live h + (case res_item r of None \<Rightarrow> 0 | Some it \<Rightarrow> blocks [it])"
  using parse_cstr_ok [of mem s rnt h] by (fastforce simp: result_ok_def split: option.splits)

text \<open>
  C9: a tree that parsing returns is well formed: every node has the kind, value and
  children that go with its type, every child of an object and no other node has a name, the
  integer of a number is its double truncated and saturated to 32 bits, and containers nest
  at most 1000 deep.
\<close>

theorem cjson_parse_well_formed:
  assumes "cJSON_ParseWithOpts mem (Some s) rnt h = Some (Done r)" and "res_item r = Some it"
  shows "wf_json CJSON_NESTING_LIMIT it \<and> jstring it = None"
  using parse_cstr_ok [of mem s rnt h] assms by (auto simp: result_ok_def)

end
