(* ===== verification/CJsonText.thy ===== *)
theory CJsonText
  imports CJsonSafe
begin

text \<open>
  What the cJSON parser returns on the JSON texts it is meant to read. \<open>json\<close> is an abstract
  JSON value, \<open>json_text\<close> its compact text (strings with the escapes that \<^verbatim>\<open>print_string_ptr\<close> of
  cJSON.c writes) and \<open>tree\<close> the cJSON tree that stands for it; parsing the text gives the
  tree. The allocator always succeeds here; theory \<^verbatim>\<open>CJsonSafe\<close> has the other runs.
\<close>

subsection \<open>Texts\<close>

text \<open>A number as JSON writes it: a minus, the integral part, the digits behind the point, and the exponent
  with its letter, sign and digits.\<close>

datatype number = Number (num_neg: bool) (num_ip: nat) (num_frac: "u8 list option")
  (num_expo: "(u8 \<times> u8 list \<times> u8 list) option")

datatype json = JNull | JBool bool | JInt int | JString "u8 list" | JArray "json list"
  | JObject "(u8 list \<times> json) list" | JNum number

fun decimal :: "nat \<Rightarrow> u8 list" where
  "decimal n = (if n < 10 then [word_of_nat (48 + n)]
     else decimal (n div 10) @ [word_of_nat (48 + n mod 10)])"

declare decimal.simps [simp del]

definition int_text :: "int \<Rightarrow> u8 list" where
  "int_text i = (if i < 0 then [0x2d] else []) @ decimal (nat \<bar>i\<bar>)"

definition frac_text :: "number \<Rightarrow> u8 list" where
  "frac_text l = (case num_frac l of None \<Rightarrow> [] | Some ds \<Rightarrow> 0x2e # ds)"

definition expo_text :: "number \<Rightarrow> u8 list" where
  "expo_text l = (case num_expo l of None \<Rightarrow> [] | Some (letter, sg, ds) \<Rightarrow> letter # sg @ ds)"

definition num_text :: "number \<Rightarrow> u8 list" where
  "num_text l = (if num_neg l then [0x2d] else []) @ decimal (num_ip l) @ frac_text l @ expo_text l"

definition number_ok :: "number \<Rightarrow> bool" where
  "number_ok l \<longleftrightarrow> (\<forall>ds. num_frac l = Some ds \<longrightarrow> ds \<noteq> [] \<and> list_all is_digit ds) \<and>
     (\<forall>c sg ds. num_expo l = Some (c, sg, ds) \<longrightarrow> (c = 0x65 \<or> c = 0x45) \<and> (sg = [] \<or> sg = [0x2b] \<or> sg = [0x2d]) \<and>
        ds \<noteq> [] \<and> list_all is_digit ds) \<and>
     length (num_text l) \<le> 63"

text \<open>The double next to the number.\<close>

definition number_scale :: "number \<Rightarrow> int" where
  "number_scale l = (case num_expo l of None \<Rightarrow> 0 | Some (c, sg, ds) \<Rightarrow> signed (sg = [0x2d]) (digits_val ds)) -
     (case num_frac l of None \<Rightarrow> 0 | Some ds \<Rightarrow> int (length ds))"

definition number_digits :: "number \<Rightarrow> nat" where
  "number_digits l = (case num_frac l of None \<Rightarrow> num_ip l | Some ds \<Rightarrow> num_ip l * 10 ^ length ds + digits_val ds)"

definition number_value :: "number \<Rightarrow> dbl" where
  "number_value l = round_to binary64 (num_neg l) (number_digits l * 10 ^ nat (number_scale l)) (10 ^ nat (- number_scale l))"

definition hex_char :: "nat \<Rightarrow> u8" where
  "hex_char d = word_of_nat (if d < 10 then 48 + d else 87 + d)"

definition escape :: "u8 \<Rightarrow> u8 list" where
  "escape c = (if c = 0x22 then [0x5c, 0x22] else if c = 0x5c then [0x5c, 0x5c]
     else if c = 0x08 then [0x5c, 0x62] else if c = 0x0c then [0x5c, 0x66]
     else if c = 0x0a then [0x5c, 0x6e] else if c = 0x0d then [0x5c, 0x72]
     else if c = 0x09 then [0x5c, 0x74]
     else if c < 32 then [0x5c, 0x75, 0x30, 0x30, hex_char (unat c div 16), hex_char (unat c mod 16)]
     else [c])"

definition string_text :: "u8 list \<Rightarrow> u8 list" where
  "string_text s = 0x22 # concat (map escape s) @ [0x22]"

fun commas :: "u8 list list \<Rightarrow> u8 list" where
  "commas [] = []"
| "commas [x] = x"
| "commas (x # xs) = x @ 0x2c # commas xs"

fun json_text :: "json \<Rightarrow> u8 list" where
  "json_text JNull = lit_null"
| "json_text (JBool b) = (if b then lit_true else lit_false)"
| "json_text (JInt i) = int_text i"
| "json_text (JString s) = string_text s"
| "json_text (JArray js) = 0x5b # commas (map json_text js) @ [0x5d]"
| "json_text (JObject ms) = 0x7b # commas (map (\<lambda>m. string_text (fst m) @ 0x3a # json_text (snd m)) ms) @ [0x7d]"
| "json_text (JNum l) = num_text l"

fun tree :: "u8 list option \<Rightarrow> json \<Rightarrow> cjson" where
  "tree nm JNull = CJ cJSON_NULL None 0 dbl_zero nm []"
| "tree nm (JBool b) = (if b then CJ cJSON_True None 1 dbl_zero nm []
     else CJ cJSON_False None 0 dbl_zero nm [])"
| "tree nm (JInt i) = CJ cJSON_Number None (saturate i) (int_to_dbl i) nm []"
| "tree nm (JString s) = CJ cJSON_String (Some s) 0 dbl_zero nm []"
| "tree nm (JArray js) = CJ cJSON_Array None 0 dbl_zero nm (map (tree None) js)"
| "tree nm (JObject ms) = CJ cJSON_Object None 0 dbl_zero nm (map (\<lambda>m. tree (Some (fst m)) (snd m)) ms)"
| "tree nm (JNum l) = CJ cJSON_Number None (the (num_to_int (number_value l))) (number_value l) nm []"

text \<open>Values with at most \<open>d\<close> levels of containers, whose numbers have at most 63 characters and whose integers
  (\<open>JInt\<close>) a double holds exactly.\<close>

fun plain_json :: "nat \<Rightarrow> json \<Rightarrow> bool" where
  "plain_json d (JInt i) \<longleftrightarrow> \<bar>i\<bar> < 2 ^ 53"
| "plain_json d (JArray js) \<longleftrightarrow> 0 < d \<and> (\<forall>j \<in> set js. plain_json (d - 1) j)"
| "plain_json d (JObject ms) \<longleftrightarrow> 0 < d \<and> (\<forall>m \<in> set ms. plain_json (d - 1) (snd m))"
| "plain_json d (JNum l) \<longleftrightarrow> number_ok l"
| "plain_json d _ \<longleftrightarrow> True"

subsection \<open>Integers\<close>

lemma decimal_digits: "list_all is_digit (decimal n) \<and> decimal n \<noteq> [] \<and> digits_val (decimal n) = n"
proof (induction n rule: decimal.induct)
  case (1 n)
  have dig: "is_digit (word_of_nat (48 + k)) \<and> unat (word_of_nat (48 + k) :: u8) = 48 + k" if "k < 10" for k
    using that by (simp add: is_digit_def word_le_nat_alt unat_of_nat del: of_nat_add of_nat_numeral)
  show ?case
  proof (cases "n < 10")
    case True
    then show ?thesis
      using dig [of n] by (subst (1 2 3) decimal.simps) (simp add: digits_val_def del: of_nat_add)
  next
    case False
    with 1 dig [of "n mod 10"] show ?thesis
      by (subst (1 2 3) decimal.simps) (simp add: digits_val_def del: of_nat_add)
  qed
qed

lemma decimal_length: "n < 10 ^ k \<Longrightarrow> 0 < k \<Longrightarrow> length (decimal n) \<le> k"
proof (induction k arbitrary: n)
  case (Suc k)
  show ?case
  proof (cases "n < 10")
    case True
    then show ?thesis by (subst decimal.simps) simp
  next
    case False
    then have "n div 10 < 10 ^ k" "0 < k" using Suc.prems by (auto intro: gr0I)
    with Suc.IH [of "n div 10"] False show ?thesis by (subst decimal.simps) simp
  qed
qed simp

lemma is_digit_num: "is_digit c \<Longrightarrow> num_char c"
  by (simp add: num_char_def)

lemma takeWhile_prefix: "list_all P xs \<Longrightarrow> ys = [] \<or> \<not> P (hd ys) \<Longrightarrow> takeWhile P (xs @ ys) = xs"
  by (cases ys) (auto simp: list_all_iff takeWhile_append2)

lemma strtod_int: "strtod (int_text i) = (int_to_dbl i, length (int_text i))"
proof -
  let ?ds = "decimal (nat \<bar>i\<bar>)"
  have d: "list_all is_digit ?ds" "?ds \<noteq> []" "digits_val ?ds = nat \<bar>i\<bar>"
    using decimal_digits by auto
  then have tw: "takeWhile is_digit ?ds = ?ds"
    by (simp add: takeWhile_eq_all_conv list_all_iff)
  have "is_digit (hd ?ds)" using d by (simp add: list_all_iff)
  then have "hd ?ds \<noteq> 0x2d" "hd ?ds \<noteq> 0x2b" by (auto simp: is_digit_def)
  then have "sign_of ?ds = (False, 0)" using d(2) by (cases ?ds) auto
  then have sg: "sign_of (int_text i) = (i < 0, if i < 0 then 1 else 0)"
    by (cases "i < 0"; simp add: int_text_def)
  have dr: "drop (if i < 0 then 1 else 0) (int_text i) = ?ds"
    "length (int_text i) = (if i < 0 then 1 else 0) + length ?ds"
    by (cases "i < 0"; simp add: int_text_def)+
  show ?thesis
    unfolding strtod_def sg Let_def prod.case dr tw
    using d by (simp add: int_to_dbl_def)
qed

lemma int_text_chars: "list_all num_char (int_text i)"
  using decimal_digits [of "nat \<bar>i\<bar>"]
  by (auto simp: int_text_def list_all_iff is_digit_num num_char_def)

lemma num_to_int_small: "\<bar>i\<bar> < 2 ^ 53 \<Longrightarrow> num_to_int (int_to_dbl i) = Some (saturate i)"
  by (simp add: num_to_int_def saturate_def int_to_dbl_cmp)

lemma int_text_length:
  assumes "\<bar>i\<bar> < 2 ^ 53"
  shows "length (int_text i) \<le> 63"
proof -
  have "nat \<bar>i\<bar> < 10 ^ 62" using assms by simp
  then have "length (decimal (nat \<bar>i\<bar>)) \<le> 62" by (rule decimal_length) simp
  then show ?thesis by (cases "i < 0"; simp add: int_text_def)
qed

lemma parse_number_int:
  assumes "content b = xs @ int_text i @ c # ys" and "offset b = length xs"
    and "\<not> num_char c" and "\<bar>i\<bar> < 2 ^ 53"
  shows "parse_number it b = Some (set_type cJSON_Number (set_valueint (saturate i)
    (set_valuedouble (int_to_dbl i) it)), True, advance (length (int_text i)) b)"
proof -
  have "take 63 (int_text i @ c # ys) = int_text i @ take (63 - length (int_text i)) (c # ys)"
    using int_text_length [OF assms(4)] by simp
  moreover have "takeWhile num_char (int_text i @ take (63 - length (int_text i)) (c # ys)) = int_text i"
    by (rule takeWhile_prefix [OF int_text_chars]) (use assms(3) in \<open>cases "63 - length (int_text i)"; simp\<close>)
  ultimately have "number_c_string b = int_text i"
    using assms(1,2) by (simp add: number_c_string_def)
  moreover have "length (int_text i) \<noteq> 0"
    using decimal_digits [of "nat \<bar>i\<bar>"] by (simp add: int_text_def)
  ultimately show ?thesis
    by (simp add: parse_number_def strtod_int num_to_int_small [OF assms(4)])
qed

subsection \<open>Decimal numbers\<close>

lemma digits_val_from: "foldl (\<lambda>v c. 10 * v + (unat c - 48)) a ds = a * 10 ^ length ds + digits_val ds"
proof (induction ds arbitrary: a)
  case (Cons c ds)
  have "digits_val (c # ds) = (unat c - 48) * 10 ^ length ds + digits_val ds"
    using Cons [of "unat c - 48"] by (simp add: digits_val_def)
  then show ?case using Cons [of "10 * a + (unat c - 48)"] by (simp add: algebra_simps)
qed (simp add: digits_val_def)

lemma digits_val_append: "digits_val (xs @ ys) = digits_val xs * 10 ^ length ys + digits_val ys"
  using digits_val_from [of "digits_val xs" ys] by (simp add: digits_val_def)

lemma sign_of_digits: "list_all is_digit ds \<Longrightarrow> ds \<noteq> [] \<Longrightarrow> sign_of (ds @ r) = (False, 0)"
  by (cases ds) (auto simp: is_digit_def)

lemma exponent_of_text:
  assumes "number_ok l"
  shows "exponent_of (expo_text l) = (case num_expo l of None \<Rightarrow> 0 | Some (c, sg, ds) \<Rightarrow> signed (sg = [0x2d]) (digits_val ds),
    length (expo_text l))"
proof (cases "num_expo l")
  case None
  then show ?thesis by (simp add: expo_text_def)
next
  case (Some e)
  then obtain c sg ds where e: "num_expo l = Some (c, sg, ds)" by (cases e) auto
  then have ok: "c = 0x65 \<or> c = 0x45" "sg = [] \<or> sg = [0x2b] \<or> sg = [0x2d]" "ds \<noteq> []" "list_all is_digit ds"
    using assms by (auto simp: number_ok_def)
  have tw: "takeWhile is_digit ds = ds" using ok(4) by (simp add: takeWhile_eq_all_conv list_all_iff)
  have "sign_of (sg @ ds) = (sg = [0x2d], length sg)" using ok(2) sign_of_digits [OF ok(4,3), of "[]"] by auto
  then show ?thesis using ok(1,3) by (simp add: expo_text_def e tw Let_def)
qed

lemma digit_facts: "\<not> is_digit 0x2e" "\<not> is_digit 0x65" "\<not> is_digit 0x45"
  by (simp_all add: is_digit_def)

lemma strtod_number:
  assumes "number_ok l"
  shows "strtod (num_text l) = (number_value l, length (num_text l))"
proof -
  let ?ip = "decimal (num_ip l)" and ?r = "frac_text l @ expo_text l"
  define fp where "fp = (case num_frac l of None \<Rightarrow> [] | Some ds \<Rightarrow> ds)"
  define pt where "pt = (if num_frac l = None then 0 else 1 :: nat)"
  have ip: "list_all is_digit ?ip" "?ip \<noteq> []" "digits_val ?ip = num_ip l" using decimal_digits by auto
  have sg: "sign_of (num_text l) = (num_neg l, if num_neg l then 1 else 0)"
    using sign_of_digits [OF ip(1,2), of ?r] by (simp add: num_text_def)
  have ex0: "expo_text l = [] \<or> \<not> is_digit (hd (expo_text l)) \<and> hd (expo_text l) \<noteq> 0x2e"
    using assms digit_facts by (cases "num_expo l") (auto simp: expo_text_def number_ok_def)
  then have r0: "?r = [] \<or> \<not> is_digit (hd ?r)" using digit_facts by (cases "num_frac l") (auto simp: frac_text_def)
  have dr: "drop (if num_neg l then 1 else 0) (num_text l) = ?ip @ ?r" by (simp add: num_text_def)
  have tw: "takeWhile is_digit (?ip @ ?r) = ?ip" by (rule takeWhile_prefix [OF ip(1) r0])
  have fr: "(case ?r of [] \<Rightarrow> ([], 0) | c # s' \<Rightarrow> if c = 0x2e then (takeWhile is_digit s', 1) else ([], 0)) = (fp, pt)"
  proof (cases "num_frac l")
    case None
    then show ?thesis using ex0 by (cases "expo_text l") (simp_all add: frac_text_def fp_def pt_def)
  next
    case (Some ds)
    then have "list_all is_digit ds" using assms by (simp add: number_ok_def)
    then have "takeWhile is_digit (ds @ expo_text l) = ds" by (rule takeWhile_prefix) (use ex0 in blast)
    then show ?thesis using Some by (simp add: frac_text_def fp_def pt_def)
  qed
  have len: "pt + length fp = length (frac_text l)" by (simp add: pt_def fp_def frac_text_def split: option.split)
  have sc: "(case num_expo l of None \<Rightarrow> 0 | Some (c, sg, ds) \<Rightarrow> signed (sg = [0x2d]) (digits_val ds)) - int (length fp) = number_scale l"
    by (simp add: number_scale_def fp_def split: option.split)
  have "digits_val [] = 0" by (simp add: digits_val_def)
  then have dv: "digits_val (?ip @ fp) = number_digits l"
    by (simp add: digits_val_append ip(3) number_digits_def fp_def split: option.split)
  have d2: "drop (length ?ip) (?ip @ ?r) = ?r" by simp
  have d3: "drop (pt + length fp) ?r = expo_text l" unfolding len by simp
  have val: "(if 0 \<le> number_scale l then round_to binary64 (num_neg l) (number_digits l * 10 ^ nat (number_scale l)) 1
      else round_to binary64 (num_neg l) (number_digits l) (10 ^ nat (- number_scale l))) = number_value l"
    by (simp add: number_value_def)
  have size: "(if num_neg l then 1 else 0) + length ?ip + pt + length fp + length (expo_text l) = length (num_text l)"
    using len by (simp add: num_text_def)
  have ne: "(?ip = [] \<and> fp = []) = False" using ip(2) by simp
  show ?thesis
    unfolding strtod_def sg Let_def prod.case dr tw d2 fr d3 exponent_of_text [OF assms] sc dv val size ne if_False ..
qed

lemma num_text_chars: "number_ok l \<Longrightarrow> list_all num_char (num_text l)"
proof -
  assume ok: "number_ok l"
  have d: "is_digit c \<Longrightarrow> num_char c" for c by (rule is_digit_num)
  have "list_all num_char (decimal (num_ip l))" using decimal_digits [of "num_ip l"] d by (auto simp: list_all_iff)
  moreover have "list_all num_char (frac_text l)"
    using ok d by (cases "num_frac l") (auto simp: frac_text_def number_ok_def list_all_iff num_char_def)
  moreover have "list_all num_char (expo_text l)"
    using ok d by (cases "num_expo l") (auto simp: expo_text_def number_ok_def list_all_iff num_char_def)
  ultimately show ?thesis by (simp add: num_text_def num_char_def)
qed

lemma parse_number_number:
  assumes "content b = xs @ num_text l @ c # ys" and "offset b = length xs" and "\<not> num_char c" and "number_ok l"
  shows "parse_number it b = Some (set_type cJSON_Number (set_valueint (the (num_to_int (number_value l)))
    (set_valuedouble (number_value l) it)), True, advance (length (num_text l)) b)"
proof -
  have len: "length (num_text l) \<le> 63" using assms(4) by (simp add: number_ok_def)
  then have "take 63 (num_text l @ c # ys) = num_text l @ take (63 - length (num_text l)) (c # ys)" by simp
  moreover have "takeWhile num_char (num_text l @ take (63 - length (num_text l)) (c # ys)) = num_text l"
    by (rule takeWhile_prefix [OF num_text_chars [OF assms(4)]]) (use assms(3) in \<open>cases "63 - length (num_text l)"; simp\<close>)
  ultimately have "number_c_string b = num_text l" using assms(1,2) by (simp add: number_c_string_def)
  moreover have "length (num_text l) \<noteq> 0" using decimal_digits [of "num_ip l"] by (simp add: num_text_def)
  moreover obtain i where "num_to_int (number_value l) = Some i"
    using num_to_int_total [of "number_value l"] by (auto simp: number_value_def)
  ultimately show ?thesis by (simp add: parse_number_def strtod_number [OF assms(4)])
qed

subsection \<open>Strings\<close>

definition escaped :: "u8 list \<Rightarrow> nat" where
  "escaped s = length (filter (\<lambda>c. escape c \<noteq> [c]) s)"

lemma hex_char_facts: "\<forall>d < 16. hex_digit (hex_char d) = Some d \<and> hex_char d \<noteq> 0x22 \<and> hex_char d \<noteq> 0x5c"
  by code_simp

lemma hex_char_digit: "d < 16 \<Longrightarrow> hex_digit (hex_char d) = Some d"
  and hex_char_plain: "d < 16 \<Longrightarrow> hex_char d \<noteq> 0x22 \<and> hex_char d \<noteq> 0x5c"
  using hex_char_facts by blast+

text \<open>The three shapes of an escaped character.\<close>

lemma escape_cases:
  obtains (raw) "escape c = [c]" "c \<noteq> 0x22" "c \<noteq> 0x5c"
  | (simple) e where "escape c = [0x5c, e]" "simple_escape e = Some c" "e \<noteq> 0x75" "escape c \<noteq> [c]"
  | (uni) x y where "escape c = [0x5c, 0x75, 0x30, 0x30, hex_char x, hex_char y]" "x < 16" "y < 16"
      "16 * x + y = unat c" "unat c < 32" "escape c \<noteq> [c]"
proof -
  consider "c \<in> {0x22, 0x5c, 0x08, 0x0c, 0x0a, 0x0d, 0x09}"
    | "c \<notin> {0x22, 0x5c, 0x08, 0x0c, 0x0a, 0x0d, 0x09}" "c < 32"
    | "c \<notin> {0x22, 0x5c, 0x08, 0x0c, 0x0a, 0x0d, 0x09}" "\<not> c < 32" by blast
  then show thesis
  proof cases
    case 1
    then show ?thesis
      using that(2) [of "0x22"] that(2) [of "0x5c"] that(2) [of "0x62"] that(2) [of "0x66"]
        that(2) [of "0x6e"] that(2) [of "0x72"] that(2) [of "0x74"]
      by (auto simp: escape_def simple_escape_def)
  next
    case 2
    then have "unat c < 32" by (simp add: word_less_nat_alt)
    then have "unat c div 16 < 16" "unat c mod 16 < 16" by auto
    with 2 \<open>unat c < 32\<close> show ?thesis
      by (intro that(3) [of "unat c div 16" "unat c mod 16"]) (simp_all add: escape_def)
  next
    case 3
    then show ?thesis by (intro that(1)) (simp_all add: escape_def)
  qed
qed

lemma scan_plain:
  "list_all (\<lambda>c. c \<noteq> 0x22 \<and> c \<noteq> 0x5c) bs \<Longrightarrow>
    scan_string (xs @ bs @ ys) (length xs) k = scan_string ((xs @ bs) @ ys) (length (xs @ bs)) k"
proof (induction bs arbitrary: xs)
  case (Cons c bs)
  then have "scan_string (xs @ (c # bs) @ ys) (length xs) k =
      scan_string ((xs @ [c]) @ bs @ ys) (length (xs @ [c])) k"
    by (subst scan_string.simps) simp
  also have "\<dots> = scan_string (((xs @ [c]) @ bs) @ ys) (length ((xs @ [c]) @ bs)) k"
    by (rule Cons.IH) (use Cons.prems in simp)
  finally show ?case by simp
qed simp

lemma scan_escape_char:
  "scan_string (xs @ escape c @ ys) (length xs) k =
    scan_string ((xs @ escape c) @ ys) (length (xs @ escape c)) (k + escaped [c])"
proof (cases rule: escape_cases [of c])
  case raw
  then show ?thesis using scan_plain [of "[c]" xs ys k] by (simp add: escaped_def)
next
  case (simple e)
  then show ?thesis by (subst scan_string.simps) (simp add: escaped_def)
next
  case (uni x y)
  have "scan_string (xs @ escape c @ ys) (length xs) k =
      scan_string ((xs @ [0x5c, 0x75]) @ [0x30, 0x30, hex_char x, hex_char y] @ ys) (length (xs @ [0x5c, 0x75])) (k + 1)"
    using uni by (subst scan_string.simps) simp
  also have "\<dots> = scan_string (((xs @ [0x5c, 0x75]) @ [0x30, 0x30, hex_char x, hex_char y]) @ ys)
      (length ((xs @ [0x5c, 0x75]) @ [0x30, 0x30, hex_char x, hex_char y])) (k + 1)"
    by (rule scan_plain) (use hex_char_plain uni in simp)
  finally show ?thesis using uni by (simp add: escaped_def)
qed

lemma scan_text:
  "scan_string (xs @ concat (map escape s) @ 0x22 # ys) (length xs) k =
    Some (length xs + length (concat (map escape s)), k + escaped s)"
proof (induction s arbitrary: xs k)
  case Nil
  then show ?case by (subst scan_string.simps) (simp add: escaped_def)
next
  case (Cons c s)
  have "escaped (c # s) = escaped [c] + escaped s" by (simp add: escaped_def)
  then show ?case
    using scan_escape_char [of xs c "concat (map escape s) @ 0x22 # ys" k]
      Cons.IH [of "xs @ escape c" "k + escaped [c]"] by simp
qed

lemma escape_room: "length s + escaped s \<le> length (concat (map escape s))"
proof (induction s)
  case (Cons c s)
  have "1 + escaped [c] \<le> length (escape c)"
    by (cases rule: escape_cases [of c]) (simp_all add: escaped_def)
  moreover have "escaped (c # s) = escaped [c] + escaped s" by (simp add: escaped_def)
  ultimately show ?case using Cons by simp
qed (simp add: escaped_def)

lemma utf8_ascii: "unat (c :: u8) < 32 \<Longrightarrow> utf8_encode (unat c) = [c]"
proof -
  assume c: "unat c < 32"
  have "c < 2 ^ 7" using c by (simp add: word_less_nat_alt)
  then have "c AND mask 7 = c" by (rule less_mask_eq)
  then have "c AND 0x7f = c" by (simp add: mask_eq_exp_minus_1)
  with c show ?thesis by (simp add: utf8_encode_def Let_def)
qed

lemma utf16_control:
  assumes "s = xs @ [0x5c, 0x75, 0x30, 0x30, hex_char x, hex_char y] @ ys" and "x < 16" and "y < 16"
    and "16 * x + y = unat c" and "unat c < 32" and "length xs + 6 \<le> ie"
  shows "utf16_literal_to_utf8 s (length xs) ie = Some (6, [c])"
proof -
  have "hex_digit 0x30 = Some 0" by (simp add: hex_digit_def is_digit_def)
  then have "parse_hex4 (drop (length xs + 2) s) = Some (unat c)"
    using assms(2-4) by (simp add: assms(1) parse_hex4_def hex_char_digit)
  with assms(5,6) utf8_ascii [OF assms(5)] show ?thesis
    by (simp add: utf16_literal_to_utf8_def)
qed

lemma unescape_text:
  assumes "length out + length s \<le> cap" and "length s < fuel"
    and "ie = length xs + length (concat (map escape s))"
  shows "unescape fuel cap (xs @ concat (map escape s) @ ys) (length xs) ie out =
    Some (Done (ie, True, out @ s))"
  using assms
proof (induction s arbitrary: xs fuel out)
  case Nil
  then show ?case by (cases fuel) simp_all
next
  case (Cons c s)
  let ?t = "xs @ concat (map escape (c # s)) @ ys"
  obtain f where f: "fuel = Suc f" using Cons.prems(2) by (cases fuel) auto
  have ih: "unescape f cap ?t (length xs + length (escape c)) ie (out @ [c]) = Some (Done (ie, True, out @ c # s))"
    using Cons.IH [of "out @ [c]" f "xs @ escape c"] Cons.prems f by (simp add: ac_simps)
  have p: "push cap out [c] = Some (out @ [c])" using Cons.prems(1) by (simp add: push_def)
  have lt: "length xs < ie" using Cons.prems(3) by (cases rule: escape_cases [of c]) simp_all
  show ?case
  proof (cases rule: escape_cases [of c])
    case raw
    with ih p lt f show ?thesis by (simp add: mem_simps)
  next
    case (simple e)
    with ih p lt f show ?thesis by (simp add: rd_def nth_append)
  next
    case (uni x y)
    have "utf16_literal_to_utf8 ?t (length xs) ie = Some (6, [c])"
      by (rule utf16_control [where x = x and y = y and ys = "concat (map escape s) @ ys"])
        (use uni Cons.prems(3) in simp_all)
    moreover have "length (escape c) = 6" using uni by simp
    ultimately show ?thesis
      using uni ih [unfolded \<open>length (escape c) = 6\<close>] p lt f by (simp add: rd_def nth_append)
  qed
qed

abbreviation always :: "nat \<Rightarrow> bool" where
  "always \<equiv> \<lambda>_. True"

definition grow :: "nat \<Rightarrow> heap \<Rightarrow> heap" where
  "grow k h = h\<lparr>requests := requests h + k, live := live h + int k\<rparr>"

text \<open>The buffer after \<open>n\<close> more bytes and \<open>k\<close> more blocks.\<close>

definition after :: "nat \<Rightarrow> nat \<Rightarrow> pbuf \<Rightarrow> pbuf" where
  "after n k b = b\<lparr>offset := offset b + n, hp := grow k (hp b)\<rparr>"

lemma grow_grow [simp]: "grow a (grow b h) = grow (b + a) h" "grow 0 h = h"
  by (simp_all add: grow_def)

lemma after_after [simp]: "after n k (after m l b) = after (m + n) (l + k) b"
  "after 0 0 b = b" "advance n (after m l b) = after (m + n) l b" "advance n b = after n 0 b"
  by (simp_all add: after_def advance_def grow_grow add.assoc)

lemma after_simps [simp]: "content (after n k b) = content b" "offset (after n k b) = offset b + n"
  "depth (after n k b) = depth b" "hp (after n k b) = grow k (hp b)"
  "set_heap (grow j h) (after n k b) = (after n k b)\<lparr>hp := grow j h\<rparr>"
  by (simp_all add: after_def set_heap_def)

lemma new_item_always: "cJSON_New_Item always h = (Some zero_item, grow 1 h)"
  by (simp add: cJSON_New_Item_def allocate_def grow_def)

lemma skip_none: "content b = xs @ c # ys \<Longrightarrow> offset b = length xs \<Longrightarrow> 32 < c \<Longrightarrow> buffer_skip_whitespace b = b"
  by (simp add: buffer_skip_whitespace_def can_access_at_index_def Let_def not_le)

lemma peek_here: "content b = xs @ c # ys \<Longrightarrow> offset b = length xs \<Longrightarrow> peek b = Some c"
  by (simp add: peek_def can_access_at_index_def buffer_at_offset_def rd_def)

lemma parse_string_text:
  assumes "content b = xs @ string_text s @ ys" and "offset b = length xs"
  shows "parse_string always it b = Some (Done (set_type cJSON_String (set_valuestring (Some s) it), True,
    after (length (string_text s)) 1 b))"
proof -
  let ?e = "concat (map escape s)"
  have c: "content b = (xs @ [0x22]) @ ?e @ 0x22 # ys" using assms(1) by (simp add: string_text_def)
  define ie where "ie = length (xs @ [0x22]) + length ?e"
  have ie: "ie + 1 = offset b + length (string_text s)"
    using assms(2) by (simp add: ie_def string_text_def)
  have sc: "scan_string (content b) (offset b + 1) 0 = Some (ie, escaped s)"
    using scan_text [of "xs @ [0x22]" s ys 0] assms(2) by (simp add: c ie_def)
  define cap where "cap = ie - offset b - escaped s + 1"
  have cap: "length s + 2 \<le> cap"
    using escape_room [of s] assms(2) by (simp add: cap_def ie_def)
  have "unescape (length (content b) + 1) cap ((xs @ [0x22]) @ ?e @ 0x22 # ys) (length (xs @ [0x22])) ie [] =
      Some (Done (ie, True, [] @ s))"
    by (rule unescape_text) (use cap escape_room [of s] in \<open>simp_all add: c ie_def\<close>)
  then have u: "unescape (length (content b) + 1) cap (content b) (offset b + 1) ie [] = Some (Done (ie, True, s))"
    using assms(2) by (simp add: c)
  have r: "rd (content b) (offset b) = Some 0x22" using assms(2) by (simp add: c rd_def nth_append)
  have p: "push cap s [0] = Some (s @ [0])" using cap by (simp add: push_def)
  have h: "allocate always (hp b) = (True, grow 1 (hp b))" by (simp add: allocate_def grow_def)
  have aft: "after (length (string_text s)) 1 b = b\<lparr>offset := ie + 1, hp := grow 1 (hp b)\<rparr>"
    by (simp add: after_def flip: ie)
  show ?thesis
    unfolding parse_string_def Let_def r aft
    by (simp add: sc h u p flip: cap_def del: One_nat_def add_Suc_right diff_diff_left)
qed

fun allocs :: "json \<Rightarrow> nat" where
  "allocs (JString s) = 1"
| "allocs (JArray js) = sum_list (map (\<lambda>j. 1 + allocs j) js)"
| "allocs (JObject ms) = sum_list (map (\<lambda>m. 2 + allocs (snd m)) ms)"
| "allocs _ = 0"

text \<open>What is known of a value: \<open>n\<close> units of fuel read it.\<close>

definition reads :: "nat \<Rightarrow> nat \<Rightarrow> json \<Rightarrow> bool" where
  "reads n d j \<longleftrightarrow> (\<forall>b xs c ys t nm. content b = xs @ json_text j @ c # ys \<longrightarrow> offset b = length xs \<longrightarrow>
     \<not> num_char c \<longrightarrow> depth b + d \<le> CJSON_NESTING_LIMIT \<longrightarrow>
     parse_value always n (CJ t None 0 dbl_zero nm []) b =
       Some (Done (tree nm j, True, after (length (json_text j)) (allocs j) b)))"

lemma json_text_start: "\<exists>c cs. json_text j = c # cs \<and> 32 < c \<and> c \<noteq> 0x5d \<and> c \<noteq> 0x7d \<and> c \<noteq> 0xef"
proof (cases j)
  case (JInt i)
  have d: "list_all is_digit (decimal (nat \<bar>i\<bar>))" "decimal (nat \<bar>i\<bar>) \<noteq> []"
    using decimal_digits by auto
  then obtain c cs where c: "decimal (nat \<bar>i\<bar>) = c # cs" "is_digit c" by (cases "decimal (nat \<bar>i\<bar>)") auto
  then have "32 < c" "c \<noteq> 0x5d" "c \<noteq> 0x7d" "c \<noteq> 0xef"
    by (auto simp: is_digit_def word_le_nat_alt word_less_nat_alt)
  with c JInt show ?thesis by (simp add: int_text_def)
next
  case (JNum l)
  have d: "list_all is_digit (decimal (num_ip l))" "decimal (num_ip l) \<noteq> []"
    using decimal_digits by auto
  then obtain c cs where c: "decimal (num_ip l) = c # cs" "is_digit c" by (cases "decimal (num_ip l)") auto
  then have "32 < c" "c \<noteq> 0x5d" "c \<noteq> 0x7d" "c \<noteq> 0xef"
    by (auto simp: is_digit_def word_le_nat_alt word_less_nat_alt)
  with c JNum show ?thesis by (simp add: num_text_def)
qed (simp_all add: lit_null_def lit_true_def lit_false_def string_text_def)

lemma json_text_nonempty: "0 < length (json_text j)"
  using json_text_start [of j] by auto

lemma commas_Cons: "xs \<noteq> [] \<Longrightarrow> commas (x # xs) = x @ 0x2c # commas xs"
  by (cases xs) simp_all

text \<open>One element and the byte \<open>c\<close> after it.\<close>

lemma array_step:
  assumes "reads n d j" and "content b = xs @ sep # json_text j @ c # zs" and "offset b = length xs"
    and "\<not> num_char c" and "32 < c" and "depth b + d \<le> CJSON_NESTING_LIMIT"
  defines "b2 \<equiv> after (1 + length (json_text j)) (1 + allocs j) b"
  shows "array_loop always (parse_value always n) (Suc k) head b =
    (if c = 0x2c then array_loop always (parse_value always n) k (head @ [tree None j]) b2
     else Some (Done (head @ [tree None j], c = 0x5d, b2)))"
proof -
  obtain a as where start: "json_text j = a # as" "32 < a" using json_text_start by blast
  let ?b1 = "after 1 1 b"
  have sk: "buffer_skip_whitespace ?b1 = ?b1"
    by (rule skip_none [of _ "xs @ [sep]" a]) (use assms start in simp_all)
  have "content ?b1 = (xs @ [sep]) @ json_text j @ c # zs" "offset ?b1 = length (xs @ [sep])"
    "depth ?b1 + d \<le> CJSON_NESTING_LIMIT" using assms by simp_all
  then have pv: "parse_value always n zero_item ?b1 = Some (Done (tree None j, True, after (length (json_text j)) (allocs j) ?b1))"
    using assms(1,4) unfolding reads_def zero_item_def by blast
  have sk2: "buffer_skip_whitespace b2 = b2"
    by (rule skip_none [of _ "xs @ sep # json_text j" c]) (use assms in simp_all)
  have pk: "peek b2 = Some c"
    by (rule peek_here [of _ "xs @ sep # json_text j" _ zs]) (use assms in simp_all)
  have sh: "advance 1 (set_heap (grow 1 (hp b)) b) = ?b1" by (simp add: after_def set_heap_def advance_def)
  have b2: "after (length (json_text j)) (allocs j) ?b1 = b2" by (simp add: b2_def)
  show ?thesis
    unfolding array_loop.simps new_item_always option.case prod.case sh sk pv bind.bind_lunit run.case
      Let_def b2 sk2 pk by auto
qed

lemma array_loop_text:
  assumes "js \<noteq> []" and "\<forall>j \<in> set js. reads n d j" and "length js \<le> k"
    and "content b = xs @ sep # commas (map json_text js) @ 0x5d # ys" and "offset b = length xs"
    and "depth b + d \<le> CJSON_NESTING_LIMIT"
  shows "array_loop always (parse_value always n) k head b = Some (Done (head @ map (tree None) js, True,
    after (1 + length (commas (map json_text js))) (sum_list (map (\<lambda>j. 1 + allocs j) js)) b))"
  using assms
proof (induction js arbitrary: k head b xs sep)
  case (Cons j js)
  obtain k' where k: "k = Suc k'" using Cons.prems(3) by (cases k) auto
  have rj: "reads n d j" using Cons.prems(2) by simp
  show ?case
  proof (cases "js = []")
    case True
    with Cons.prems array_step [OF rj, of b xs sep "0x5d" ys k' head] show ?thesis
      by (simp add: k num_char_def is_digit_def del: array_loop.simps)
  next
    case False
    let ?b2 = "after (1 + length (json_text j)) (1 + allocs j) b"
    have cont: "content b = xs @ sep # json_text j @ 0x2c # commas (map json_text js) @ 0x5d # ys"
      using Cons.prems(4) False by (simp add: commas_Cons)
    have "array_loop always (parse_value always n) k' (head @ [tree None j]) ?b2 =
      Some (Done ((head @ [tree None j]) @ map (tree None) js, True,
        after (1 + length (commas (map json_text js))) (sum_list (map (\<lambda>j. 1 + allocs j) js)) ?b2))"
      by (rule Cons.IH [where xs = "xs @ sep # json_text j" and sep = "0x2c"])
        (use False Cons.prems k cont in simp_all)
    moreover have "array_loop always (parse_value always n) k head b =
      array_loop always (parse_value always n) k' (head @ [tree None j]) ?b2"
      unfolding k by (subst array_step [OF rj cont Cons.prems(5) _ _ Cons.prems(6)])
        (simp_all add: num_char_def is_digit_def)
    ultimately show ?thesis using False by (simp add: commas_Cons ac_simps)
  qed
qed simp

definition member_text :: "u8 list \<times> json \<Rightarrow> u8 list" where
  "member_text m = string_text (fst m) @ 0x3a # json_text (snd m)"

lemma member_texts: "map (\<lambda>m. string_text (fst m) @ 0x3a # json_text (snd m)) ms = map member_text ms"
  by (simp add: member_text_def [abs_def])

lemma parse_name:
  assumes "content b = xs @ sep # string_text s @ ys" and "offset b = length xs"
  shows "parse_string always zero_item (buffer_skip_whitespace (advance 1 (set_heap (grow 1 (hp b)) b))) =
    Some (Done (CJ cJSON_String (Some s) 0 dbl_zero None [], True, after (1 + length (string_text s)) 2 b))"
proof -
  let ?b1 = "after 1 1 b"
  have sk: "buffer_skip_whitespace ?b1 = ?b1"
    by (rule skip_none [of _ "xs @ [sep]" "0x22"]) (use assms in \<open>simp_all add: string_text_def\<close>)
  have sh: "advance 1 (set_heap (grow 1 (hp b)) b) = ?b1" by (simp add: after_def set_heap_def advance_def)
  have "parse_string always zero_item ?b1 = Some (Done (set_type cJSON_String (set_valuestring (Some s) zero_item),
      True, after (length (string_text s)) 1 ?b1))"
    by (rule parse_string_text [of _ "xs @ [sep]" _ ys]) (use assms in simp_all)
  then show ?thesis unfolding sh sk by (simp add: zero_item_def numeral_2_eq_2)
qed

text \<open>One member and the byte \<open>c\<close> after it.\<close>

lemma object_step:
  assumes "reads n d j" and "content b = xs @ sep # member_text (nm, j) @ c # zs" and "offset b = length xs"
    and "\<not> num_char c" and "32 < c" and "depth b + d \<le> CJSON_NESTING_LIMIT"
  defines "b4 \<equiv> after (1 + length (member_text (nm, j))) (2 + allocs j) b"
  shows "object_loop always (parse_value always n) (Suc k) head b =
    (if c = 0x2c then object_loop always (parse_value always n) k (head @ [tree (Some nm) j]) b4
     else Some (Done (head @ [tree (Some nm) j], c = 0x7d, b4)))"
proof -
  have mt: "member_text (nm, j) = string_text nm @ 0x3a # json_text j" by (simp add: member_text_def)
  have cont: "content b = xs @ sep # string_text nm @ 0x3a # json_text j @ c # zs"
    using assms(2) by (simp add: mt)
  obtain a as where start: "json_text j = a # as" "32 < a" using json_text_start by blast
  note name = parse_name [OF cont assms(3)]
  let ?b2 = "after (1 + length (string_text nm)) 2 b"
  let ?it = "CJ cJSON_String None 0 dbl_zero (Some nm) []"
  have sk2: "buffer_skip_whitespace ?b2 = ?b2"
    by (rule skip_none [of _ "xs @ sep # string_text nm" "0x3a"]) (use cont assms(3) in simp_all)
  have pk2: "peek ?b2 = Some 0x3a"
    by (rule peek_here [of _ "xs @ sep # string_text nm" _ "json_text j @ c # zs"]) (use cont assms(3) in simp_all)
  let ?b3 = "after (2 + length (string_text nm)) 2 b"
  have sk3: "buffer_skip_whitespace ?b3 = ?b3"
    by (rule skip_none [of _ "xs @ sep # string_text nm @ [0x3a]" a]) (use cont start assms(3) in simp_all)
  have "content ?b3 = (xs @ sep # string_text nm @ [0x3a]) @ json_text j @ c # zs"
    "offset ?b3 = length (xs @ sep # string_text nm @ [0x3a])" "depth ?b3 + d \<le> CJSON_NESTING_LIMIT"
    using assms(3,6) cont by simp_all
  then have pv: "parse_value always n ?it ?b3 = Some (Done (tree (Some nm) j, True, after (length (json_text j)) (allocs j) ?b3))"
    using assms(1,4) unfolding reads_def by blast
  have b4: "after (length (json_text j)) (allocs j) ?b3 = b4" by (simp add: b4_def mt ac_simps)
  have sk4: "buffer_skip_whitespace b4 = b4"
    by (rule skip_none [of _ "xs @ sep # member_text (nm, j)" c]) (use cont assms(3,5) in \<open>simp_all add: mt b4_def\<close>)
  have pk4: "peek b4 = Some c"
    by (rule peek_here [of _ "xs @ sep # member_text (nm, j)" _ zs]) (use cont assms(3) in \<open>simp_all add: mt b4_def\<close>)
  have adv: "advance 1 ?b2 = ?b3" by simp
  have it: "set_valuestring None (set_string (valuestring (CJ cJSON_String (Some nm) 0 dbl_zero None []))
      (CJ cJSON_String (Some nm) 0 dbl_zero None [])) = ?it" by simp
  show ?thesis
    unfolding object_loop.simps new_item_always option.case prod.case name bind.bind_lunit run.case
      Let_def it sk2 pk2 adv sk3 pv b4 sk4 pk4 by auto
qed

lemma object_loop_text:
  assumes "ms \<noteq> []" and "\<forall>m \<in> set ms. reads n d (snd m)" and "length ms \<le> k"
    and "content b = xs @ sep # commas (map member_text ms) @ 0x7d # ys" and "offset b = length xs"
    and "depth b + d \<le> CJSON_NESTING_LIMIT"
  shows "object_loop always (parse_value always n) k head b = Some (Done (head @ map (\<lambda>m. tree (Some (fst m)) (snd m)) ms, True,
    after (1 + length (commas (map member_text ms))) (sum_list (map (\<lambda>m. 2 + allocs (snd m)) ms)) b))"
  using assms
proof (induction ms arbitrary: k head b xs sep)
  case (Cons m ms)
  obtain k' where k: "k = Suc k'" using Cons.prems(3) by (cases k) auto
  obtain nm j where m: "m = (nm, j)" by (cases m)
  have rj: "reads n d j" using Cons.prems(2) m by simp
  show ?case
  proof (cases "ms = []")
    case True
    with Cons.prems m object_step [OF rj, of b xs sep nm "0x7d" ys k' head] show ?thesis
      by (simp add: k num_char_def is_digit_def del: object_loop.simps)
  next
    case False
    let ?b4 = "after (1 + length (member_text m)) (2 + allocs j) b"
    have cont: "content b = xs @ sep # member_text (nm, j) @ 0x2c # commas (map member_text ms) @ 0x7d # ys"
      using Cons.prems(4) False m by (simp add: commas_Cons)
    have "object_loop always (parse_value always n) k' (head @ [tree (Some nm) j]) ?b4 =
      Some (Done ((head @ [tree (Some nm) j]) @ map (\<lambda>m. tree (Some (fst m)) (snd m)) ms, True,
        after (1 + length (commas (map member_text ms))) (sum_list (map (\<lambda>m. 2 + allocs (snd m)) ms)) ?b4))"
      by (rule Cons.IH [where xs = "xs @ sep # member_text m" and sep = "0x2c"])
        (use False Cons.prems k cont m in simp_all)
    moreover have "object_loop always (parse_value always n) k head b =
      object_loop always (parse_value always n) k' (head @ [tree (Some nm) j]) ?b4"
      unfolding k m by (subst object_step [OF rj cont Cons.prems(5) _ _ Cons.prems(6)])
        (simp_all add: num_char_def is_digit_def)
    ultimately show ?thesis using False m by (simp add: commas_Cons ac_simps)
  qed
qed simp

subsection \<open>Values\<close>

lemma looking_at_start:
  assumes "content b = xs @ a # zs" and "offset b = length xs"
  shows "a \<noteq> 0x6e \<Longrightarrow> \<not> looking_at b lit_null" "a \<noteq> 0x66 \<Longrightarrow> \<not> looking_at b lit_false"
    "a \<noteq> 0x74 \<Longrightarrow> \<not> looking_at b lit_true"
  using assms by (auto simp: looking_at_def lit_null_def lit_false_def lit_true_def)

lemma looking_at_here:
  "content b = xs @ lit @ zs \<Longrightarrow> offset b = length xs \<Longrightarrow> looking_at b lit"
  by (simp add: looking_at_def can_read_def)

text \<open>The first byte decides which parser a value goes to.\<close>

lemma parse_value_dispatch:
  assumes "content b = xs @ a # zs" and "offset b = length xs" and "a \<notin> {0x6e, 0x66, 0x74}"
  shows "parse_value mem (Suc n) it b =
    (if a = 0x22 then parse_string mem it b
     else if a = 0x2d \<or> is_digit a then map_option Done (parse_number it b)
     else if a = 0x5b then parse_array mem (parse_value mem n) n it b
     else if a = 0x7b then parse_object mem (parse_value mem n) n it b
     else Some (Done (it, False, b)))"
  using looking_at_start [OF assms(1,2)] peek_here [OF assms(1,2)] assms(3) by simp

lemma int_text_start: "\<exists>a as. int_text i = a # as \<and> (a = 0x2d \<or> is_digit a)"
proof -
  have d: "list_all is_digit (decimal (nat \<bar>i\<bar>))" "decimal (nat \<bar>i\<bar>) \<noteq> []"
    using decimal_digits by auto
  then obtain c cs where "decimal (nat \<bar>i\<bar>) = c # cs" "is_digit c" by (cases "decimal (nat \<bar>i\<bar>)") auto
  then show ?thesis by (cases "i < 0") (simp_all add: int_text_def)
qed

lemma reads_int: "\<bar>i\<bar> < 2 ^ 53 \<Longrightarrow> reads (Suc n) d (JInt i)"
proof -
  assume i: "\<bar>i\<bar> < 2 ^ 53"
  obtain a as where a: "int_text i = a # as" "a = 0x2d \<or> is_digit a" using int_text_start by blast
  then have na: "a \<notin> {0x6e, 0x66, 0x74, 0x22}" by (auto simp: is_digit_def)
  show ?thesis
    unfolding reads_def
  proof (intro allI impI)
    fix b :: pbuf and xs c ys t nm
    assume b: "content b = xs @ json_text (JInt i) @ c # ys" "offset b = length xs" "\<not> num_char c"
    then have "parse_value always (Suc n) (CJ t None 0 dbl_zero nm []) b =
        map_option Done (parse_number (CJ t None 0 dbl_zero nm []) b)"
      using a na by (subst parse_value_dispatch [of b xs a "as @ c # ys"]) auto
    then show "parse_value always (Suc n) (CJ t None 0 dbl_zero nm []) b =
        Some (Done (tree nm (JInt i), True, after (length (json_text (JInt i))) (allocs (JInt i)) b))"
      using parse_number_int [OF _ b(2,3) i] b(1) by simp
  qed
qed

lemma reads_num: "number_ok l \<Longrightarrow> reads (Suc n) d (JNum l)"
proof -
  assume l: "number_ok l"
  have "list_all is_digit (decimal (num_ip l))" "decimal (num_ip l) \<noteq> []" using decimal_digits by auto
  then obtain a as where a: "num_text l = a # as" "a = 0x2d \<or> is_digit a"
    by (cases "decimal (num_ip l)"; cases "num_neg l"; simp add: num_text_def)
  then have na: "a \<notin> {0x6e, 0x66, 0x74, 0x22}" by (auto simp: is_digit_def)
  show ?thesis
    unfolding reads_def
  proof (intro allI impI)
    fix b :: pbuf and xs c ys t nm
    assume b: "content b = xs @ json_text (JNum l) @ c # ys" "offset b = length xs" "\<not> num_char c"
    then have "parse_value always (Suc n) (CJ t None 0 dbl_zero nm []) b =
        map_option Done (parse_number (CJ t None 0 dbl_zero nm []) b)"
      using a na by (subst parse_value_dispatch [of b xs a "as @ c # ys"]) auto
    then show "parse_value always (Suc n) (CJ t None 0 dbl_zero nm []) b =
        Some (Done (tree nm (JNum l), True, after (length (json_text (JNum l))) (allocs (JNum l)) b))"
      using parse_number_number [OF _ b(2,3) l] b(1) by simp
  qed
qed

lemma reads_simple: "reads (Suc n) d JNull" "reads (Suc n) d (JBool x)" "reads (Suc n) d (JString s)"
proof -
  show "reads (Suc n) d JNull"
    unfolding reads_def using looking_at_here [of _ _ lit_null] by (auto simp: lit_facts)
  have f: "\<not> looking_at b lit_null" if "content b = xs @ lit_false @ c # ys" "offset b = length xs" for b xs c ys
    by (rule looking_at_start(1) [of b xs "0x66"]) (use that in \<open>auto simp: lit_false_def\<close>)
  have t: "\<not> looking_at b lit_null" "\<not> looking_at b lit_false"
    if "content b = xs @ lit_true @ c # ys" "offset b = length xs" for b xs c ys
    using that looking_at_start [of b xs "0x74"] by (auto simp: lit_true_def)
  show "reads (Suc n) d (JBool x)"
    unfolding reads_def using looking_at_here [of _ _ lit_false] looking_at_here [of _ _ lit_true] f t
    by (cases x) (auto simp: lit_facts)
  show "reads (Suc n) d (JString s)"
    unfolding reads_def
  proof (intro allI impI)
    fix b :: pbuf and xs c ys t nm
    assume b: "content b = xs @ json_text (JString s) @ c # ys" "offset b = length xs"
    then have "parse_value always (Suc n) (CJ t None 0 dbl_zero nm []) b =
        parse_string always (CJ t None 0 dbl_zero nm []) b"
      by (subst parse_value_dispatch [of b xs "0x22"]) (auto simp: string_text_def)
    then show "parse_value always (Suc n) (CJ t None 0 dbl_zero nm []) b =
        Some (Done (tree nm (JString s), True, after (length (json_text (JString s))) (allocs (JString s)) b))"
      using parse_string_text [of b xs s "c # ys"] b by simp
  qed
qed

text \<open>In front of the elements of a container.\<close>

lemma container_enter:
  assumes "content b = xs @ opening # a # zs" and "offset b = length xs" and "32 < a"
  shows "buffer_skip_whitespace (advance 1 (b\<lparr>depth := k\<rparr>)) = advance 1 (b\<lparr>depth := k\<rparr>)"
    "peek (advance 1 (b\<lparr>depth := k\<rparr>)) = Some a"
    "can_access_at_index (advance 1 (b\<lparr>depth := k\<rparr>)) 0"
    "retreat (advance 1 (b\<lparr>depth := k\<rparr>)) = b\<lparr>depth := k\<rparr>"
    "buffer_at_offset (b\<lparr>depth := k\<rparr>) 0 = Some opening" "peek (b\<lparr>depth := k\<rparr>) = Some opening"
proof -
  let ?b = "b\<lparr>depth := k\<rparr>"
  have c: "content (advance 1 ?b) = (xs @ [opening]) @ a # zs" "offset (advance 1 ?b) = length (xs @ [opening])"
    using assms by (simp_all add: advance_def)
  show "buffer_skip_whitespace (advance 1 ?b) = advance 1 ?b"
    by (rule skip_none [OF c assms(3)])
  show "peek (advance 1 ?b) = Some a" by (rule peek_here [OF c])
  show "can_access_at_index (advance 1 ?b) 0" using c by (simp add: can_access_at_index_def del: after_after)
  show "retreat (advance 1 ?b) = ?b" by (simp add: retreat_def advance_def del: after_after)
  show "peek ?b = Some opening" by (rule peek_here) (use assms in simp_all)
  show "buffer_at_offset ?b 0 = Some opening" using assms by (simp add: buffer_at_offset_def rd_def nth_append)
qed

lemma leave_container: "advance 1 (after n k (b\<lparr>depth := depth b + 1\<rparr>)
    \<lparr>depth := depth (after n k (b\<lparr>depth := depth b + 1\<rparr>)) - 1\<rparr>) = after (n + 1) k b"
  by (simp add: after_def advance_def)

lemma leave_empty: "advance 1 (advance 1 (b\<lparr>depth := depth b + 1\<rparr>)\<lparr>depth := depth b + 1 - 1\<rparr>) = after 2 0 b"
  by (simp add: after_def advance_def grow_def)

lemma commas_start:
  assumes "xs \<noteq> []" and "\<forall>x \<in> set xs. \<exists>c cs. x = c # cs \<and> P c"
  shows "\<exists>c cs. commas xs = c # cs \<and> P c"
  using assms by (cases xs rule: commas.cases) auto

lemma commas_length: "\<forall>x \<in> set xs. x \<noteq> [] \<Longrightarrow> length xs \<le> length (commas xs)"
  by (induction xs rule: commas.induct) (auto simp: Suc_le_eq)

lemma commas_member: "x \<in> set xs \<Longrightarrow> length x \<le> length (commas xs)"
  by (induction xs rule: commas.induct) auto

lemma reads_array:
  assumes "\<forall>j \<in> set js. reads n (d - 1) j" and "0 < d" and "length js \<le> n"
  shows "reads (Suc n) d (JArray js)"
  unfolding reads_def
proof (intro allI impI)
  fix b :: pbuf and xs c ys t nm
  let ?it = "CJ t None 0 dbl_zero nm []"
  let ?els = "commas (map json_text js)"
  assume b: "content b = xs @ json_text (JArray js) @ c # ys" "offset b = length xs"
    "depth b + d \<le> CJSON_NESTING_LIMIT"
  let ?b = "b\<lparr>depth := depth b + 1\<rparr>"
  have dp: "\<not> CJSON_NESTING_LIMIT \<le> depth b" using b(3) assms(2) by simp
  have cont: "content b = xs @ 0x5b # ?els @ 0x5d # c # ys" using b(1) by simp
  have pv: "parse_value always (Suc n) ?it b = parse_array always (parse_value always n) n ?it b"
    using parse_value_dispatch [OF cont b(2)] by (simp add: is_digit_def del: parse_value.simps)
  show "parse_value always (Suc n) ?it b =
      Some (Done (tree nm (JArray js), True, after (length (json_text (JArray js))) (allocs (JArray js)) b))"
  proof (cases "js = []")
    case True
    with cont have "content b = xs @ 0x5b # 0x5d # c # ys" by simp
    note e = container_enter [OF this b(2)]
    show ?thesis
      unfolding pv parse_array_def Let_def using dp True
      by (simp add: e leave_empty [simplified] numeral_2_eq_2 [symmetric] del: parse_value.simps after_after(3,4) One_nat_def)
  next
    case False
    then obtain a as where a: "?els = a # as" "32 < a" "a \<noteq> 0x5d"
      using commas_start [of "map json_text js" "\<lambda>c. 32 < c \<and> c \<noteq> 0x5d"] json_text_start by fastforce
    from cont a have "content b = xs @ 0x5b # a # as @ 0x5d # c # ys" by simp
    note e = container_enter [OF this b(2) a(2)]
    have loop: "array_loop always (parse_value always n) n [] ?b = Some (Done ([] @ map (tree None) js, True,
        after (1 + length ?els) (sum_list (map (\<lambda>j. 1 + allocs j) js)) ?b))"
      by (rule array_loop_text [OF False assms(1,3)]) (use cont b assms(2) in simp_all)
    show ?thesis
      unfolding pv parse_array_def Let_def using dp a(3)
      by (simp add: e loop leave_container del: parse_value.simps after_after One_nat_def)
  qed
qed

lemma reads_object:
  assumes "\<forall>m \<in> set ms. reads n (d - 1) (snd m)" and "0 < d" and "length ms \<le> n"
  shows "reads (Suc n) d (JObject ms)"
  unfolding reads_def
proof (intro allI impI)
  fix b :: pbuf and xs c ys t nm
  let ?it = "CJ t None 0 dbl_zero nm []"
  let ?els = "commas (map member_text ms)"
  assume b: "content b = xs @ json_text (JObject ms) @ c # ys" "offset b = length xs"
    "depth b + d \<le> CJSON_NESTING_LIMIT"
  let ?b = "b\<lparr>depth := depth b + 1\<rparr>"
  have dp: "\<not> CJSON_NESTING_LIMIT \<le> depth b" using b(3) assms(2) by simp
  have jt: "json_text (JObject ms) = 0x7b # ?els @ [0x7d]" by (simp only: json_text.simps member_texts)
  have cont: "content b = xs @ 0x7b # ?els @ 0x7d # c # ys" using b(1) unfolding jt by simp
  have pv: "parse_value always (Suc n) ?it b = parse_object always (parse_value always n) n ?it b"
    using parse_value_dispatch [OF cont b(2)] by (simp add: is_digit_def del: parse_value.simps)
  show "parse_value always (Suc n) ?it b =
      Some (Done (tree nm (JObject ms), True, after (length (json_text (JObject ms))) (allocs (JObject ms)) b))"
  proof (cases "ms = []")
    case True
    with cont have "content b = xs @ 0x7b # 0x7d # c # ys" by simp
    note e = container_enter [OF this b(2)]
    show ?thesis
      unfolding pv parse_object_def Let_def using dp True
      by (simp add: e leave_empty [simplified] numeral_2_eq_2 [symmetric] del: parse_value.simps after_after(3,4) One_nat_def)
  next
    case False
    then obtain a as where a: "?els = a # as" "32 < a" "a \<noteq> 0x7d"
      using commas_start [of "map member_text ms" "\<lambda>c. 32 < c \<and> c \<noteq> 0x7d"]
      by (fastforce simp: member_text_def string_text_def)
    from cont a have "content b = xs @ 0x7b # a # as @ 0x7d # c # ys" by simp
    note e = container_enter [OF this b(2) a(2)]
    have loop: "object_loop always (parse_value always n) n [] ?b = Some (Done ([] @ map (\<lambda>m. tree (Some (fst m)) (snd m)) ms, True,
        after (1 + length ?els) (sum_list (map (\<lambda>m. 2 + allocs (snd m)) ms)) ?b))"
      by (rule object_loop_text [OF False assms(1,3)]) (use cont b assms(2) in simp_all)
    show ?thesis
      unfolding pv parse_object_def Let_def jt using dp a(3)
      by (simp add: e loop leave_container del: parse_value.simps after_after json_text.simps One_nat_def)
  qed
qed

lemma json_text_neq: "json_text j \<noteq> []"
  using json_text_nonempty [of j] by simp

lemma reads_all: "length (json_text j) \<le> n \<Longrightarrow> plain_json d j \<Longrightarrow> reads (Suc n) d j"
proof (induction j arbitrary: n d rule: json_text.induct)
  case (5 js)
  have "length (json_text j) \<le> length (commas (map json_text js))" if "j \<in> set js" for j
    by (rule commas_member) (use that in simp)
  with 5 obtain k where k: "n = Suc k" "\<forall>j \<in> set js. length (json_text j) \<le> k"
    by (cases n) force+
  have "length (map json_text js) \<le> length (commas (map json_text js))"
    by (rule commas_length) (simp add: json_text_neq)
  with 5 k show ?case by (intro reads_array) auto
next
  case (6 ms)
  have els: "length (json_text (JObject ms)) = 2 + length (commas (map member_text ms))"
    by (simp only: json_text.simps member_texts) simp
  have "length (json_text (snd m)) \<le> length (commas (map member_text ms))" if "m \<in> set ms" for m
    using commas_member [of "member_text m" "map member_text ms"] that by (simp add: member_text_def)
  with 6(2) els obtain k where k: "n = Suc k" "\<forall>m \<in> set ms. length (json_text (snd m)) \<le> k"
    by (cases n) fastforce+
  have "length (map member_text ms) \<le> length (commas (map member_text ms))"
    by (rule commas_length) (simp add: member_text_def string_text_def)
  with 6 k els show ?case by (intro reads_object) auto
qed (auto intro: reads_simple reads_int reads_num)

subsection \<open>Documents\<close>

lemma list_all_commas: "(\<forall>x \<in> set xs. list_all P x) \<Longrightarrow> P 0x2c \<Longrightarrow> list_all P (commas xs)"
  by (induction xs rule: commas.induct) auto

lemma escape_nonzero: "list_all (\<lambda>c. c \<noteq> 0) (escape c)"
proof -
  have "\<forall>d < 16. hex_char d \<noteq> 0" by code_simp
  then show ?thesis by (cases rule: escape_cases [of c]) (auto simp: simple_escape_def escape_def)
qed

lemma string_text_nonzero: "list_all (\<lambda>c. c \<noteq> 0) (string_text s)"
  using escape_nonzero by (induction s) (simp_all add: string_text_def list_all_append)

lemma chars_nonzero: "list_all num_char xs \<Longrightarrow> list_all (\<lambda>c. c \<noteq> 0) xs"
  by (auto simp: list_all_iff num_char_def is_digit_def)

lemma json_text_nonzero: "plain_json d j \<Longrightarrow> list_all (\<lambda>c. c \<noteq> 0) (json_text j)"
proof (induction j arbitrary: d rule: json_text.induct)
  case (5 js)
  then have "\<forall>x \<in> set (map json_text js). list_all (\<lambda>c. c \<noteq> 0) x" by fastforce
  then have "list_all (\<lambda>c. c \<noteq> 0) (commas (map json_text js))" by (rule list_all_commas) simp
  then show ?case by simp
next
  case (6 ms)
  have "\<forall>m \<in> set ms. list_all (\<lambda>c. c \<noteq> 0) (json_text (snd m))" using 6 by fastforce
  then have "\<forall>x \<in> set (map (\<lambda>m. string_text (fst m) @ 0x3a # json_text (snd m)) ms). list_all (\<lambda>c. c \<noteq> 0) x"
    using string_text_nonzero by simp
  then have "list_all (\<lambda>c. c \<noteq> 0) (commas (map (\<lambda>m. string_text (fst m) @ 0x3a # json_text (snd m)) ms))"
    by (rule list_all_commas) simp
  then show ?case by simp
qed (simp_all add: lit_null_def lit_true_def lit_false_def string_text_nonzero chars_nonzero int_text_chars num_text_chars)

lemma cstr_json_text: "plain_json d j \<Longrightarrow> cstr (json_text j) = json_text j"
  using json_text_nonzero [of d j] by (simp add: cstr_def takeWhile_eq_all_conv list_all_iff)

lemma skip_nul: "content b = xs @ [0] \<Longrightarrow> offset b = length xs \<Longrightarrow> buffer_skip_whitespace b = b"
  by (simp add: buffer_skip_whitespace_def can_access_at_index_def Let_def)

lemma document_start:
  assumes s: "s = a # zs" "32 < a" "a \<noteq> 0xef" and m: "mem (requests h)"
  shows "cJSON_New_Item mem h = (Some zero_item, grow 1 h)"
    and "skip_utf8_bom \<lparr>content = s, offset = 0, depth = 0, hp = grow 1 h\<rparr> =
      Some \<lparr>content = s, offset = 0, depth = 0, hp = grow 1 h\<rparr>"
    and "buffer_skip_whitespace \<lparr>content = s, offset = 0, depth = 0, hp = grow 1 h\<rparr> =
      \<lparr>content = s, offset = 0, depth = 0, hp = grow 1 h\<rparr>"
proof -
  show "cJSON_New_Item mem h = (Some zero_item, grow 1 h)"
    using m by (simp add: cJSON_New_Item_def allocate_def grow_def)
  show "skip_utf8_bom \<lparr>content = s, offset = 0, depth = 0, hp = grow 1 h\<rparr> =
      Some \<lparr>content = s, offset = 0, depth = 0, hp = grow 1 h\<rparr>"
    using s by (simp add: skip_utf8_bom_def numeral_3_eq_3)
  show "buffer_skip_whitespace \<lparr>content = s, offset = 0, depth = 0, hp = grow 1 h\<rparr> =
      \<lparr>content = s, offset = 0, depth = 0, hp = grow 1 h\<rparr>"
    by (rule skip_none [of _ "[]" a zs]) (use s in simp_all)
qed

lemma parse_text_document:
  assumes "plain_json CJSON_NESTING_LIMIT j"
  shows "cJSON_ParseWithOpts always (Some (json_text j)) rnt h =
    Some (Done \<lparr>res_item = Some (tree None j), res_heap = grow (1 + allocs j) h,
      res_end = length (json_text j), res_error = None\<rparr>)"
proof -
  let ?s = "json_text j @ [0]"
  let ?b = "\<lparr>content = ?s, offset = 0, depth = 0, hp = grow 1 h\<rparr>"
  have pv: "parse_value always (length ?s + 1) zero_item ?b =
      Some (Done (tree None j, True, after (length (json_text j)) (allocs j) ?b))"
    using reads_all [of j "length ?s" CJSON_NESTING_LIMIT] assms
    unfolding reads_def zero_item_def
    by (auto simp: num_char_def is_digit_def simp del: parse_value.simps
        dest!: spec [of _ ?b] spec [of _ "[]"])
  let ?b1 = "after (length (json_text j)) (allocs j) ?b"
  have "buffer_skip_whitespace ?b1 = ?b1"
    by (rule skip_nul [of _ "json_text j"]) simp_all
  moreover have "peek ?b1 = Some 0"
    by (rule peek_here [of _ "json_text j" _ "[]"]) simp_all
  moreover obtain a as where a: "?s = a # as" "32 < a" "a \<noteq> 0xef"
    using json_text_start [of j] by auto
  note ds = document_start [OF a, of always h]
  ultimately show ?thesis
    using ds pv
    by (simp add: cJSON_ParseWithOpts_def cJSON_ParseWithLengthOpts_def cstr_json_text [OF assms] Let_def
        del: parse_value.simps)
qed

text \<open>
  C3: \<^verbatim>\<open>cJSON_Parse\<close> reads every JSON value back from its compact text: for any value of at most 1000
  levels, with any strings, and with any numbers of JSON (with or without fraction and exponent) of
  at most 63 characters, it returns exactly the tree of the value, in which a number is the nearest
  double and, cut and saturated, an int; it stops at the end of the text, reports no error and keeps
  one block per node, string value and member name.
\<close>

theorem cjson_parse_text:
  assumes "plain_json CJSON_NESTING_LIMIT j"
  shows "cJSON_ParseWithOpts always (Some (json_text j)) rnt h =
    Some (Done \<lparr>res_item = Some (tree None j), res_heap = grow (1 + allocs j) h,
      res_end = length (json_text j), res_error = None\<rparr>)"
  by (rule parse_text_document [OF assms])

text \<open>The text of a settings value, as an instance.\<close>

definition json_example :: json where
  "json_example = JObject [([0x61], JArray [JInt (- 7), JBool True]), ([0x62], JString [0x0a])]"

text \<open>The number -12.50e-1, whose value is -5/4.\<close>

definition number_example :: number where
  "number_example = Number True 12 (Some [0x35, 0x30]) (Some (0x65, [0x2d], [0x31]))"

lemma number_example: "number_ok number_example" "number_value number_example = Fin True (5 * 2 ^ 50) (- 52)"
  "the (num_to_int (number_value number_example)) = - 1"
proof -
  have "decimal 12 = [0x31, 0x32]" by (simp add: decimal.simps [of 12] decimal.simps [of "Suc 0"])
  then show "number_ok number_example"
    by (simp add: number_ok_def number_example_def num_text_def frac_text_def expo_text_def is_digit_def)
  show v: "number_value number_example = Fin True (5 * 2 ^ 50) (- 52)"
  proof -
    have "number_digits number_example = 1250" "number_scale number_example = - 3" "num_neg number_example"
      by (simp_all add: number_digits_def number_scale_def number_example_def digits_val_def signed_def)
    then have "number_value number_example = round_to binary64 True 1250 1000" by (simp add: number_value_def)
    then show ?thesis
      by (simp add: round_to_def binary64_def ilog2_def bitlen.simps half_even_def Let_def)
  qed
  show "the (num_to_int (number_value number_example)) = - 1"
    by (simp add: v num_to_int_def signed_def INT_MAX_def INT_MIN_def)
qed

theorem cjson_parse_text_witness:
  "\<exists>r. cJSON_ParseWithOpts always (Some (json_text (JArray [json_example, JNum number_example]))) True \<lparr>requests = 0, live = 0\<rparr> =
      Some (Done r) \<and>
    res_item r = Some (CJ 32 None 0 dbl_zero None [CJ 64 None 0 dbl_zero None
      [CJ 32 None 0 dbl_zero (Some [0x61]) [CJ 8 None (- 7) (int_to_dbl (- 7)) None [], CJ 2 None 1 dbl_zero None []],
       CJ 16 (Some [0x0a]) 0 dbl_zero (Some [0x62]) []],
      CJ 8 None (- 1) (Fin True (5 * 2 ^ 50) (- 52)) None []])"
  by (subst cjson_parse_text)
    (simp_all add: json_example_def number_example number_example(3) [unfolded number_example(2), simplified] CJSON_NESTING_LIMIT_def type_codes saturate_def INT_MAX_def INT_MIN_def)

theorem cjson_parse_well_formed_witness:
  "wf_json CJSON_NESTING_LIMIT (tree None json_example) \<and> jstring (tree None json_example) = None"
proof -
  have plain: "plain_json CJSON_NESTING_LIMIT json_example"
    by (simp add: json_example_def CJSON_NESTING_LIMIT_def)
  show ?thesis
    using cjson_parse_well_formed [OF parse_text_document [OF plain]] by simp
qed

text \<open>A member name and value, a comma, and the end of the buffer.\<close>

lemma parse_string_at_end: "offset b = length (content b) \<Longrightarrow> parse_string mem it b = None"
  by (simp add: parse_string_def rd_def Let_def)

text \<open>
  C0: \<^verbatim>\<open>cJSON_ParseWithLength\<close> reads beyond the buffer it is given when the text of an object
  is cut right after a comma: in the next round of the loop \<^verbatim>\<open>parse_string\<close> looks at the byte at
  the offset without asking whether it is inside. A C string is safe because its terminator
  is part of the buffer.
\<close>

theorem cjson_parse_with_length_overread:
  assumes "plain_json (CJSON_NESTING_LIMIT - 1) j"
  shows "cJSON_ParseWithLength always (Some (0x7b # member_text (nm, j) @ [0x2c])) h = None"
proof -
  let ?s = "0x7b # member_text (nm, j) @ [0x2c]"
  define b where "b = \<lparr>content = ?s, offset = 0, depth = 0, hp = grow 1 h\<rparr>"
  define bb where "bb = b\<lparr>depth := depth b + 1\<rparr>"
  have b: "content b = ?s" "offset b = length ([] :: u8 list)" "depth bb = 1"
    by (simp_all add: b_def bb_def)
  have cbb: "content bb = [] @ 0x7b # member_text (nm, j) @ 0x2c # []" "offset bb = length ([] :: u8 list)"
    by (simp_all add: b_def bb_def)
  let ?d = "CJSON_NESTING_LIMIT - 1"
  obtain k where k: "length ?s = Suc (Suc k)" "length (json_text j) \<le> Suc k"
    by (simp add: member_text_def string_text_def)
  have rj: "reads (Suc (Suc k)) ?d j" by (rule reads_all [OF k(2) assms])
  let ?pv = "parse_value always (Suc (Suc k))"
  define b4 where "b4 = after (1 + length (member_text (nm, j))) (2 + allocs j) bb"
  let ?e = "advance 1 (set_heap (grow 1 (hp b4)) b4)"
  have off: "offset ?e = length (content ?e)" using cbb by (simp add: b4_def advance_def set_heap_def after_def)
  then have "buffer_skip_whitespace ?e = ?e"
    by (simp add: buffer_skip_whitespace_def can_access_at_index_def)
  with off have "object_loop always ?pv (Suc k) [tree (Some nm) j] b4 = None"
    unfolding object_loop.simps new_item_always option.case prod.case by (simp add: parse_string_at_end)
  moreover have "object_loop always ?pv (Suc (Suc k)) [] bb = object_loop always ?pv (Suc k) ([] @ [tree (Some nm) j]) b4"
    unfolding b4_def by (subst object_step [OF rj cbb])
      (simp_all add: num_char_def is_digit_def CJSON_NESTING_LIMIT_def b)
  ultimately have loop: "object_loop always ?pv (Suc (Suc k)) [] bb = None" by simp
  obtain as where a: "member_text (nm, j) @ [0x2c] = 0x22 # as"
    by (simp add: member_text_def string_text_def)
  have cont: "content b = [] @ 0x7b # 0x22 # as" using a b by simp
  have "32 < (0x22 :: u8)" by simp
  note e = container_enter [OF cont b(2) this, where k = "depth b + 1", folded bb_def]
  have "\<not> CJSON_NESTING_LIMIT \<le> depth b" by (simp add: CJSON_NESTING_LIMIT_def b_def)
  then have po: "parse_object always ?pv (Suc (Suc k)) zero_item b = None"
    unfolding parse_object_def Let_def bb_def [symmetric] e using e loop by simp
  have "parse_value always (Suc (Suc (Suc k))) zero_item b = None"
    using parse_value_dispatch [OF cont b(2)] po by (simp add: is_digit_def del: parse_value.simps)
  with document_start [of ?s "0x7b" "member_text (nm, j) @ [0x2c]" always h] k(1) show ?thesis
    by (simp add: cJSON_ParseWithLength_def cJSON_ParseWithLengthOpts_def b_def del: parse_value.simps)
qed

theorem cjson_parse_with_length_overread_witness:
  "cJSON_ParseWithLength always (Some (0x7b # member_text ([0x61], JInt 1) @ [0x2c])) \<lparr>requests = 0, live = 0\<rparr> = None"
  by (rule cjson_parse_with_length_overread) simp

end
