(* ===== verification/CJsonTree.thy ===== *)
theory CJsonTree
  imports CJson
begin

text \<open>
  Building, searching, copying and comparing cJSON trees (\<^verbatim>\<open>cJSON.c\<close>, the creation functions,
  \<^verbatim>\<open>cJSON_Duplicate\<close>, \<^verbatim>\<open>cJSON_Compare\<close> and the lookups of \<^verbatim>\<open>CJson\<close>). What a search by name
  relies on is the locale \<open>key_compare\<close>; it is interpreted for the two comparisons the code
  has, \<^verbatim>\<open>strcmp\<close> and \<^verbatim>\<open>case_insensitive_strcmp\<close>.
\<close>

subsection \<open>Creation\<close>

type_synonym created = "cjson option \<times> heap"

definition create_typed :: "(nat \<Rightarrow> bool) \<Rightarrow> int \<Rightarrow> heap \<Rightarrow> created" where
  "create_typed mem t h = (case cJSON_New_Item mem h of (item, h') \<Rightarrow> (map_option (set_type t) item, h'))"

definition cJSON_CreateNull where "cJSON_CreateNull mem = create_typed mem cJSON_NULL"
definition cJSON_CreateTrue where "cJSON_CreateTrue mem = create_typed mem cJSON_True"
definition cJSON_CreateFalse where "cJSON_CreateFalse mem = create_typed mem cJSON_False"
definition cJSON_CreateArray where "cJSON_CreateArray mem = create_typed mem cJSON_Array"
definition cJSON_CreateObject where "cJSON_CreateObject mem = create_typed mem cJSON_Object"

definition cJSON_CreateBool :: "(nat \<Rightarrow> bool) \<Rightarrow> bool \<Rightarrow> heap \<Rightarrow> created" where
  "cJSON_CreateBool mem b = create_typed mem (if b then cJSON_True else cJSON_False)"

text \<open>The conversion of a NaN is undefined.\<close>

definition cJSON_CreateNumber :: "(nat \<Rightarrow> bool) \<Rightarrow> dbl \<Rightarrow> heap \<Rightarrow> created option" where
  "cJSON_CreateNumber mem num h = (case cJSON_New_Item mem h of
     (None, h') \<Rightarrow> Some (None, h')
   | (Some item, h') \<Rightarrow>
       map_option (\<lambda>i. (Some (set_valueint i (set_valuedouble num (set_type cJSON_Number item))), h'))
         (num_to_int num))"

definition create_text :: "(nat \<Rightarrow> bool) \<Rightarrow> int \<Rightarrow> u8 list option \<Rightarrow> heap \<Rightarrow> created" where
  "create_text mem t s h = (case cJSON_New_Item mem h of
     (None, h1) \<Rightarrow> (None, h1)
   | (Some item, h1) \<Rightarrow> (case cJSON_strdup mem s h1 of
       (None, h2) \<Rightarrow> (None, cJSON_Delete [set_type t item] h2)
     | (Some v, h2) \<Rightarrow> (Some (set_valuestring (Some v) (set_type t item)), h2)))"

definition cJSON_CreateString where "cJSON_CreateString mem = create_text mem cJSON_String"
definition cJSON_CreateRaw where "cJSON_CreateRaw mem = create_text mem cJSON_Raw"

definition cJSON_CreateStringReference :: "(nat \<Rightarrow> bool) \<Rightarrow> u8 list option \<Rightarrow> heap \<Rightarrow> created" where
  "cJSON_CreateStringReference mem s h = (case cJSON_New_Item mem h of (item, h') \<Rightarrow>
     (map_option (\<lambda>it. set_valuestring s (set_type (cJSON_String OR cJSON_IsReference) it)) item, h'))"

definition create_reference_to :: "(nat \<Rightarrow> bool) \<Rightarrow> int \<Rightarrow> cjson list \<Rightarrow> heap \<Rightarrow> created" where
  "create_reference_to mem t ch h = (case cJSON_New_Item mem h of (item, h') \<Rightarrow>
     (map_option (\<lambda>it. set_child ch (set_type (t OR cJSON_IsReference) it)) item, h'))"

definition cJSON_CreateObjectReference where
  "cJSON_CreateObjectReference mem = create_reference_to mem cJSON_Object"

definition cJSON_CreateArrayReference where
  "cJSON_CreateArrayReference mem = create_reference_to mem cJSON_Array"

text \<open>The loop of the four array constructors: \<open>xs\<close> are the reads of the C array, the array
  built so far is deleted when an element cannot be created.\<close>

fun fill_array :: "('a \<Rightarrow> heap \<Rightarrow> created option) \<Rightarrow> 'a option list \<Rightarrow> cjson \<Rightarrow> heap \<Rightarrow> created option" where
  "fill_array f [] a h = Some (Some a, h)"
| "fill_array f (x # xs) a h = do {
     v \<leftarrow> x; (n, h') \<leftarrow> f v h;
     (case n of None \<Rightarrow> Some (None, cJSON_Delete [a] h')
      | Some c \<Rightarrow> fill_array f xs (set_child (child a @ [c]) a) h') }"

definition create_array_of ::
  "(nat \<Rightarrow> bool) \<Rightarrow> ('a \<Rightarrow> heap \<Rightarrow> created option) \<Rightarrow> 'a list option \<Rightarrow> int \<Rightarrow> heap \<Rightarrow> created option" where
  "create_array_of mem f numbers count h = (if count < 0 then Some (None, h)
     else case numbers of None \<Rightarrow> Some (None, h)
     | Some xs \<Rightarrow> (case cJSON_CreateArray mem h of
         (None, h') \<Rightarrow> Some (None, h')
       | (Some a, h') \<Rightarrow> fill_array f (map (rd xs) [0..<nat count]) a h'))"

definition cJSON_CreateIntArray where
  "cJSON_CreateIntArray mem = create_array_of mem (\<lambda>i. cJSON_CreateNumber mem (int_to_dbl i))"

definition cJSON_CreateFloatArray where
  "cJSON_CreateFloatArray mem = create_array_of mem (\<lambda>x. cJSON_CreateNumber mem x)"

definition cJSON_CreateDoubleArray where
  "cJSON_CreateDoubleArray mem = create_array_of mem (\<lambda>x. cJSON_CreateNumber mem x)"

definition cJSON_CreateStringArray where
  "cJSON_CreateStringArray mem = create_array_of mem (\<lambda>s h. Some (cJSON_CreateString mem s h))"

subsection \<open>Duplication\<close>

text \<open>\<^verbatim>\<open>item->type & ~cJSON_IsReference\<close>, and the name of a child, which a node with a constant
  name shares.\<close>

definition dup_name :: "(nat \<Rightarrow> bool) \<Rightarrow> int \<Rightarrow> u8 list option \<Rightarrow> heap \<Rightarrow> u8 list option \<times> heap" where
  "dup_name mem t nm h = (if t AND cJSON_StringIsConst \<noteq> 0 then (nm, h) else cJSON_strdup mem nm h)"

fun cJSON_Duplicate :: "(nat \<Rightarrow> bool) \<Rightarrow> bool \<Rightarrow> cjson \<Rightarrow> heap \<Rightarrow> created"
  and dup_children :: "(nat \<Rightarrow> bool) \<Rightarrow> cjson list \<Rightarrow> heap \<Rightarrow> cjson list \<times> bool \<times> heap"
where
  "cJSON_Duplicate mem recurse (CJ t vs vi vd nm ch) h = (case cJSON_New_Item mem h of
     (None, h1) \<Rightarrow> (None, h1)
   | (Some _, h1) \<Rightarrow>
      (let t' = t AND NOT cJSON_IsReference; new = CJ t' None vi vd None [] in
       case cJSON_strdup mem vs h1 of (vs', h2) \<Rightarrow>
       if vs \<noteq> None \<and> vs' = None then (None, cJSON_Delete [new] h2)
       else case dup_name mem t nm h2 of (nm', h3) \<Rightarrow>
       if nm \<noteq> None \<and> nm' = None then (None, cJSON_Delete [set_valuestring vs' new] h3)
       else if \<not> recurse then (Some (CJ t' vs' vi vd nm' []), h3)
       else case dup_children mem ch h3 of (ch', ok, h4) \<Rightarrow>
         if ok then (Some (CJ t' vs' vi vd nm' ch'), h4)
         else (None, cJSON_Delete [CJ t' vs' vi vd nm' ch'] h4)))"
| "dup_children mem [] h = ([], True, h)"
| "dup_children mem (c # cs) h = (case cJSON_Duplicate mem True c h of
     (None, h') \<Rightarrow> ([], False, h')
   | (Some c', h') \<Rightarrow> (case dup_children mem cs h' of (cs', ok, h'') \<Rightarrow> (c' # cs', ok, h'')))"

subsection \<open>Comparison\<close>

definition compare_double :: "dbl \<Rightarrow> dbl \<Rightarrow> bool" where
  "compare_double a b = (let maxVal = (if dbl_lt (dbl_abs b) (dbl_abs a) then dbl_abs a else dbl_abs b)
     in dbl_le (dbl_abs (dbl_sub a b)) (times_epsilon maxVal))"

lemma scan_exact_mem: "scan_exact n cs = Some c \<Longrightarrow> c \<in> set cs"
  by (induction n cs rule: scan_exact.induct) (auto split: option.splits if_splits)

lemma scan_nocase_mem: "scan_nocase n cs = Some c \<Longrightarrow> c \<in> set cs"
  by (induction n cs rule: scan_nocase.induct) (auto split: if_splits)

lemma get_object_item_mem: "get_object_item (Some ob) nm cs = Some c \<Longrightarrow> c \<in> set (child ob)"
  by (auto simp: get_object_item_def split: option.splits if_splits dest: scan_exact_mem scan_nocase_mem)

lemma child_size: "c \<in> set (child a) \<Longrightarrow> size c < size a"
  by (cases a) (auto dest!: size_list_estimation' [where f = size, OF _ order_refl])

lemma item_size: "get_object_item (Some ob) nm cs = Some c \<Longrightarrow> size c < size ob"
  using child_size get_object_item_mem by blast

text \<open>
  The test for one and the same node, which is equal to itself, is not part of the model: the
  two arguments are different nodes.
\<close>

function cJSON_Compare :: "cjson \<Rightarrow> cjson \<Rightarrow> bool \<Rightarrow> bool" where
  "cJSON_Compare a b case_sensitive =
     (if jtype a AND 0xFF \<noteq> jtype b AND 0xFF then False
      else let t = jtype a AND 0xFF in
      if t = cJSON_False \<or> t = cJSON_True \<or> t = cJSON_NULL then True
      else if t = cJSON_Number then compare_double (valuedouble a) (valuedouble b)
      else if t = cJSON_String \<or> t = cJSON_Raw then
        (case (valuestring a, valuestring b) of (Some x, Some y) \<Rightarrow> strcmp x y = 0 | _ \<Rightarrow> False)
      else if t = cJSON_Array then list_all2 (\<lambda>x y. cJSON_Compare x y case_sensitive) (child a) (child b)
      else if t = cJSON_Object then
        (\<forall>x \<in> set (child a). case get_object_item (Some b) (jstring x) case_sensitive of
            None \<Rightarrow> False | Some y \<Rightarrow> cJSON_Compare x y case_sensitive) \<and>
        (\<forall>y \<in> set (child b). case get_object_item (Some a) (jstring y) case_sensitive of
            None \<Rightarrow> False | Some x \<Rightarrow> cJSON_Compare y x case_sensitive)
      else False)"
  by pat_completeness auto
termination
proof (relation "measure (\<lambda>(a, b, _). size a + size b)", goal_cases)
qed (auto dest!: item_size child_size intro: add_strict_mono simp: add.commute)

declare cJSON_Compare.simps [simp del]

subsection \<open>Searching by name\<close>

text \<open>What a search needs of a comparison of names: that it is an equivalence.\<close>

locale key_compare =
  fixes same :: "u8 list \<Rightarrow> u8 list \<Rightarrow> bool"
  assumes same_refl: "same k k"
    and same_sym: "same k l \<Longrightarrow> same l k"
    and same_trans: "same k l \<Longrightarrow> same l m \<Longrightarrow> same k m"
begin

text \<open>The first child whose name is the same.\<close>

definition lookup :: "u8 list \<Rightarrow> cjson list \<Rightarrow> cjson option" where
  "lookup k cs = find (\<lambda>c. \<exists>s. jstring c = Some s \<and> same k s) cs"

lemma lookup_Some_iff:
  "lookup k cs = Some c \<longleftrightarrow> (\<exists>pre post s. cs = pre @ c # post \<and> jstring c = Some s \<and> same k s \<and>
     (\<forall>p \<in> set pre. \<forall>s'. jstring p = Some s' \<longrightarrow> \<not> same k s'))"
proof (induction cs)
  case (Cons x xs)
  show ?case
  proof (cases "\<exists>s. jstring x = Some s \<and> same k s")
    case True
    then show ?thesis
      by (auto simp: lookup_def Cons_eq_append_conv)
  next
    case False
    then have "\<not> (\<exists>s. jstring x = Some s \<and> same k s)" .
    then have "lookup k (x # xs) = lookup k xs" unfolding lookup_def find.simps by (simp only: if_False)
    moreover have "(\<exists>pre post s. x # xs = pre @ c # post \<and> jstring c = Some s \<and> same k s \<and>
        (\<forall>p \<in> set pre. \<forall>s'. jstring p = Some s' \<longrightarrow> \<not> same k s')) \<longleftrightarrow>
      (\<exists>pre post s. xs = pre @ c # post \<and> jstring c = Some s \<and> same k s \<and>
        (\<forall>p \<in> set pre. \<forall>s'. jstring p = Some s' \<longrightarrow> \<not> same k s'))" (is "?l \<longleftrightarrow> ?r")
    proof
      assume ?l
      with False show ?r by (fastforce simp: Cons_eq_append_conv)
    next
      assume ?r
      then obtain pre post s where "x # xs = (x # pre) @ c # post" "jstring c = Some s" "same k s"
        "\<forall>p \<in> set (x # pre). \<forall>s'. jstring p = Some s' \<longrightarrow> \<not> same k s'"
        using False by auto
      then show ?l by blast
    qed
    ultimately show ?thesis using Cons.IH by (simp only:)
  qed
qed (simp add: lookup_def)

lemma lookup_same_key: "same k l \<Longrightarrow> lookup k cs = lookup l cs"
proof -
  assume "same k l"
  then have "same k s = same l s" for s using same_sym same_trans by blast
  then show ?thesis by (simp add: lookup_def)
qed

lemma lookup_None_iff:
  "lookup k cs = None \<longleftrightarrow> (\<forall>c \<in> set cs. \<forall>s. jstring c = Some s \<longrightarrow> \<not> same k s)"
  by (auto simp: lookup_def find_None_iff)

end

lemma strcmp_eq: "strcmp s t = 0 \<longleftrightarrow> cstr s = cstr t"
proof (induction s t rule: strcmp.induct)
  case (1 x xs y ys)
  have "uint x = uint y \<longleftrightarrow> x = y" by (simp add: word_uint_eq_iff)
  with 1 show ?case by (auto simp: cstr_def uint_0_iff)
qed (auto simp: cstr_def uint_0_iff)

lemma tolower_zero: "tolower c = 0 \<longleftrightarrow> c = 0"
proof -
  have "c + 32 \<noteq> 0" if "c \<le> 0x5a"
  proof
    assume "c + 32 = 0"
    then have "c = - 32" by (simp add: eq_neg_iff_add_eq_0)
    with that show False by simp
  qed
  then show ?thesis by (auto simp: tolower_def)
qed

lemma ci_cmp_eq: "ci_cmp s t = 0 \<longleftrightarrow> map tolower (cstr s) = map tolower (cstr t)"
proof (induction s t rule: ci_cmp.induct)
  case (1 x xs y ys)
  have "uint (tolower x) = uint (tolower y) \<longleftrightarrow> tolower x = tolower y" by (simp add: word_uint_eq_iff)
  moreover have "tolower x = tolower y \<Longrightarrow> x = 0 \<longleftrightarrow> y = 0" using tolower_zero by metis
  ultimately show ?case using 1 by (auto simp: cstr_def)
qed (auto simp: cstr_def uint_0_iff tolower_zero)

interpretation exact: key_compare "\<lambda>k l. strcmp k l = 0"
  by unfold_locales (simp_all add: strcmp_eq)

interpretation nocase: key_compare "\<lambda>k l. ci_cmp k l = 0"
  by unfold_locales (simp_all add: ci_cmp_eq)

lemma scan_nocase_lookup: "scan_nocase k cs = nocase.lookup k cs"
  by (induction cs) (auto simp: nocase.lookup_def case_insensitive_strcmp_def split: option.splits)

lemma scan_exact_lookup:
  "list_all (\<lambda>c. jstring c \<noteq> None) cs \<Longrightarrow> scan_exact k cs = exact.lookup k cs"
  by (induction cs) (auto simp: exact.lookup_def)

lemma get_object_item_nocase: "get_object_item (Some ob) (Some k) False = nocase.lookup k (child ob)"
  by (cases "nocase.lookup k (child ob)")
    (auto simp: get_object_item_def scan_nocase_lookup dest: nocase.lookup_Some_iff [THEN iffD1])

lemma get_object_item_exact:
  "list_all (\<lambda>c. jstring c \<noteq> None) (child ob) \<Longrightarrow>
    get_object_item (Some ob) (Some k) True = exact.lookup k (child ob)"
  by (cases "exact.lookup k (child ob)")
    (auto simp: get_object_item_def scan_exact_lookup dest: exact.lookup_Some_iff [THEN iffD1])

text \<open>
  C0: \<^verbatim>\<open>cJSON_GetObjectItem\<close> finds a member exactly when one has the name up to the case of
  ASCII letters, and then the first such member; names that differ only in case find the
  same one.
\<close>

theorem get_object_item_first:
  "(cJSON_GetObjectItem (Some ob) (Some k) = Some c \<longleftrightarrow>
     (\<exists>pre post s. child ob = pre @ c # post \<and> jstring c = Some s \<and>
        map tolower (cstr k) = map tolower (cstr s) \<and>
        (\<forall>p \<in> set pre. \<forall>s'. jstring p = Some s' \<longrightarrow> map tolower (cstr k) \<noteq> map tolower (cstr s')))) \<and>
   (map tolower (cstr k) = map tolower (cstr l) \<longrightarrow>
     cJSON_GetObjectItem (Some ob) (Some k) = cJSON_GetObjectItem (Some ob) (Some l))"
  using nocase.lookup_Some_iff [of k "child ob" c] nocase.lookup_same_key [of k l "child ob"]
  unfolding cJSON_GetObjectItem_def get_object_item_nocase ci_cmp_eq by blast

theorem get_object_item_first_witness:
  "cJSON_GetObjectItem (Some (CJ 64 None 0 dbl_zero None [CJ 4 None 0 dbl_zero (Some [0x41]) []])) (Some [0x61]) =
   Some (CJ 4 None 0 dbl_zero (Some [0x41]) [])"
  using get_object_item_first [of "CJ 64 None 0 dbl_zero None [CJ 4 None 0 dbl_zero (Some [0x41]) []]"
      "[0x61]" "CJ 4 None 0 dbl_zero (Some [0x41]) []" "[0x41]"]
  by (fastforce simp: cstr_def tolower_def)

text \<open>
  On an object whose members all have names, a case sensitive search finds only members
  that a case insensitive search also finds, possibly an earlier one.
\<close>

theorem get_object_item_case:
  assumes "list_all (\<lambda>c. jstring c \<noteq> None) (child ob)"
    and "cJSON_GetObjectItemCaseSensitive (Some ob) (Some k) = Some c"
  shows "(\<exists>s. jstring c = Some s \<and> cstr k = cstr s) \<and> cJSON_HasObjectItem (Some ob) (Some k)"
proof -
  obtain s where s: "jstring c = Some s" "cstr k = cstr s" "c \<in> set (child ob)"
    using assms(2) exact.lookup_Some_iff [of k "child ob" c]
    unfolding cJSON_GetObjectItemCaseSensitive_def get_object_item_exact [OF assms(1)] strcmp_eq
    by fastforce
  then have "nocase.lookup k (child ob) \<noteq> None"
    by (simp only: nocase.lookup_None_iff) (auto simp: ci_cmp_eq)
  with s show ?thesis
    by (simp add: cJSON_HasObjectItem_def cJSON_GetObjectItem_def get_object_item_nocase)
qed

theorem get_object_item_case_witness:
  "(\<exists>s. jstring (CJ 4 None 0 dbl_zero (Some [0x41]) []) = Some s \<and> cstr [0x41] = cstr s) \<and>
   cJSON_HasObjectItem (Some (CJ 64 None 0 dbl_zero None [CJ 4 None 0 dbl_zero (Some [0x41]) []])) (Some [0x41])"
  by (rule get_object_item_case)
    (simp_all add: cJSON_GetObjectItemCaseSensitive_def get_object_item_def)

subsection \<open>Copies\<close>

text \<open>The tree a copy is meant to be: owned by nobody else, strings up to their terminator.\<close>

fun copy :: "cjson \<Rightarrow> cjson" where
  "copy (CJ t vs vi vd nm ch) = CJ (t AND NOT cJSON_IsReference) (map_option cstr vs) vi vd
     (if t AND cJSON_StringIsConst \<noteq> 0 then nm else map_option cstr nm) (map copy ch)"

lemma strdup_cases: "cJSON_strdup mem s h = (s', h') \<Longrightarrow>
    (s = None \<and> s' = None \<and> live h' = live h) \<or> (s \<noteq> None \<and> s' = None \<and> live h' = live h) \<or>
    (\<exists>b. s = Some b \<and> s' = Some (cstr b) \<and> live h' = live h + 1)"
  by (auto simp: cJSON_strdup_def allocate_def split: option.splits)

lemma dup_name_cases: "dup_name mem t s h = (s', h') \<Longrightarrow>
    (s' = None \<and> live h' = live h) \<or>
    (t AND cJSON_StringIsConst \<noteq> 0 \<and> s' = s \<and> live h' = live h) \<or>
    (\<exists>b. t AND cJSON_StringIsConst = 0 \<and> s = Some b \<and> s' = Some (cstr b) \<and> live h' = live h + 1)"
  by (auto simp: dup_name_def dest!: strdup_cases split: if_splits)

lemma flag_simps:
  "(t AND NOT cJSON_IsReference) AND cJSON_IsReference = 0"
  "(t AND NOT cJSON_IsReference) AND cJSON_StringIsConst = t AND cJSON_StringIsConst"
proof -
  show "(t AND NOT cJSON_IsReference) AND cJSON_IsReference = 0"
    by (rule bit_eqI) (auto simp: bit_simps)
  have "NOT cJSON_IsReference AND cJSON_StringIsConst = cJSON_StringIsConst"
    by (simp add: type_codes)
  then show "(t AND NOT cJSON_IsReference) AND cJSON_StringIsConst = t AND cJSON_StringIsConst"
    by (simp only: and.assoc)
qed

lemma Duplicate_ok:
  "cJSON_Duplicate mem recurse it h = (r, h') \<Longrightarrow>
    (case r of None \<Rightarrow> live h' = live h
     | Some c \<Rightarrow> live h' = live h + blocks [c] \<and> c = (if recurse then copy it else set_child [] (copy it)))"
  "dup_children mem cs h = (cs', ok, h') \<Longrightarrow>
    live h' = live h + blocks cs' \<and> (ok \<longrightarrow> cs' = map copy cs)"
proof (induction mem recurse it h and mem cs h arbitrary: r h' and cs' ok h' rule: cJSON_Duplicate_dup_children.induct)
  case (1 mem recurse t vs vi vd nm ch h)
  let ?t = "t AND NOT cJSON_IsReference"
  show ?case
  proof (cases "cJSON_New_Item mem h")
    case new: (Pair n h1)
    show ?thesis
    proof (cases n)
      case None
      with 1(2) new show ?thesis by (auto simp: cJSON_New_Item_def allocate_def split: if_splits)
    next
      case n: (Some z)
      have l1: "live h1 = live h + 1"
        using new n by (auto simp: cJSON_New_Item_def allocate_def split: if_splits)
      obtain vs' h2 where v: "cJSON_strdup mem vs h1 = (vs', h2)" by fastforce
      obtain nm' h3 where m: "dup_name mem t nm h2 = (nm', h3)" by fastforce
      obtain ch' ok h4 where k: "dup_children mem ch h3 = (ch', ok, h4)" by (metis prod_cases3)
      note vc = strdup_cases [OF v] and mc = dup_name_cases [OF m]
      show ?thesis
      proof (cases "(vs \<noteq> None \<and> vs' = None) \<or> (nm \<noteq> None \<and> nm' = None) \<or> \<not> recurse")
        case True
        with 1(2) new n v m vc mc l1 show ?thesis
          by (auto simp: cJSON_Delete_heap flag_simps Let_def split: if_splits)
      next
        case False
        then have "live h4 = live h3 + blocks ch' \<and> (ok \<longrightarrow> ch' = map copy ch)"
          using 1(1) new n v m k by auto
        with False 1(2) new n v m k vc mc l1 show ?thesis
          by (auto simp: cJSON_Delete_heap flag_simps Let_def split: if_splits)
      qed
    qed
  qed
next
  case (3 mem c cs h)
  have "blocks (x # xs) = blocks [x] + blocks xs" for x xs using blocks_append [of "[x]" xs] by simp
  note count = this
  obtain q h1 where q: "cJSON_Duplicate mem True c h = (q, h1)" by fastforce
  show ?case
  proof (cases q)
    case None
    with 3(1) [OF q] 3(3) q show ?thesis by auto
  next
    case (Some c')
    obtain ds ok' h2 where d: "dup_children mem cs h1 = (ds, ok', h2)" by (metis prod_cases3)
    have "live h1 = live h + blocks [c'] \<and> c' = copy c" using 3(1) [OF q] Some by simp
    moreover have "live h2 = live h1 + blocks ds \<and> (ok' \<longrightarrow> ds = map copy cs)"
      using 3(2) [OF _ _ d] q Some by simp
    ultimately show ?thesis using 3(3) q Some d count [of c' ds] by auto
  qed
qed simp

text \<open>
  C6: \<^verbatim>\<open>cJSON_Duplicate\<close> leaks nothing: when it returns null every block it allocated is free
  again, whichever allocation failed; otherwise the new tree owns exactly the blocks that
  were allocated, and a recursive duplicate is a deep copy, one without its children otherwise, equal up to the bytes behind the
  terminators of its strings and to the reference flags, which are cleared.
\<close>

theorem cJSON_Duplicate_copies:
  "(case cJSON_Duplicate mem recurse it h of
      (None, h') \<Rightarrow> live h' = live h
    | (Some c, h') \<Rightarrow> live h' = live h + blocks [c] \<and> c = (if recurse then copy it else set_child [] (copy it)) \<and>
        live (cJSON_Delete [c] h') = live h)"
proof (cases "cJSON_Duplicate mem recurse it h")
  case (Pair r h')
  with Duplicate_ok(1) [OF Pair] show ?thesis by (cases r) (simp_all add: cJSON_Delete_heap)
qed

subsection \<open>Equality\<close>

lemma round_to_nonneg: "dbl_le (Fin False 0 e) (round_to binary64 False n d)"
  by (auto simp: round_to_def binary64_def align_def signed_def Let_def split: prod.splits)

lemma compare_double_sym: "compare_double a b = compare_double b a"
proof (cases "a = NaN \<or> b = NaN")
  case True
  then have "dbl_sub a b = NaN" "dbl_sub b a = NaN" by (cases a; cases b; simp)+
  then show ?thesis by (simp add: compare_double_def)
next
  case False
  let ?x = "dbl_abs a" and ?y = "dbl_abs b"
  have "times_epsilon (if dbl_lt ?y ?x then ?x else ?y) = times_epsilon (if dbl_lt ?x ?y then ?y else ?x)"
    using False dbl_le_total [of a b] times_epsilon_eq [of ?x ?y] unfolding dbl_lt_def by auto
  then show ?thesis
    using abs_sub_commute [of a b] by (simp only: compare_double_def Let_def)
qed

lemma compare_double_refl: "compare_double (Fin s m e) (Fin s m e)"
proof -
  have "dbl_sub (Fin s m e) (Fin s m e) = dbl_zero"
    by (simp add: scaled_def round_to_def binary64_def dbl_zero_def)
  then show ?thesis
    using round_to_nonneg by (simp add: compare_double_def dbl_lt_def scaled_def signed_def dbl_zero_def)
qed

definition fold_key :: "bool \<Rightarrow> u8 list \<Rightarrow> u8 list" where
  "fold_key case_sensitive s = (if case_sensitive then cstr s else map tolower (cstr s))"

definition key_of :: "bool \<Rightarrow> cjson \<Rightarrow> u8 list" where
  "key_of case_sensitive c = fold_key case_sensitive (the (jstring c))"

lemma get_object_item_find:
  assumes "\<forall>c \<in> set (child ob). jstring c \<noteq> None"
  shows "get_object_item (Some ob) (Some k) cs = find (\<lambda>c. fold_key cs k = key_of cs c) (child ob)"
proof (cases cs)
  case True
  have "exact.lookup k xs = find (\<lambda>c. fold_key cs k = key_of cs c) xs"
    if "\<forall>c \<in> set xs. jstring c \<noteq> None" for xs
    using that unfolding exact.lookup_def
    by (induction xs) (auto simp: strcmp_eq key_of_def fold_key_def True)
  with assms True show ?thesis by (simp add: get_object_item_exact list_all_iff)
next
  case False
  have "nocase.lookup k xs = find (\<lambda>c. fold_key cs k = key_of cs c) xs"
    if "\<forall>c \<in> set xs. jstring c \<noteq> None" for xs
    using that unfolding nocase.lookup_def
    by (induction xs) (auto simp: ci_cmp_eq key_of_def fold_key_def False)
  with assms False show ?thesis by (simp add: get_object_item_nocase)
qed

lemma find_distinct: "distinct (map f xs) \<Longrightarrow> x \<in> set xs \<Longrightarrow> find (\<lambda>c. f x = f c) xs = Some x"
  by (induction xs) (auto, metis imageI)

text \<open>Trees whose comparison means something: finite numbers, and names that are all different.\<close>

fun comparable :: "bool \<Rightarrow> cjson \<Rightarrow> bool" where
  "comparable cs (CJ t vs vi vd nm ch) \<longleftrightarrow>
     (let k = t AND 0xFF in
      k \<in> {cJSON_False, cJSON_True, cJSON_NULL} \<or>
      k = cJSON_Number \<and> (case vd of Fin _ _ _ \<Rightarrow> True | _ \<Rightarrow> False) \<or>
      k \<in> {cJSON_String, cJSON_Raw} \<and> vs \<noteq> None \<or>
      k = cJSON_Array \<and> list_all (comparable cs) ch \<or>
      k = cJSON_Object \<and> list_all (comparable cs) ch \<and> list_all (\<lambda>c. jstring c \<noteq> None) ch \<and>
        distinct (map (key_of cs) ch))"

lemma cstr_idem: "cstr (cstr s) = cstr s"
  by (simp add: cstr_def takeWhile_idem)

lemma copy_key: "jstring c \<noteq> None \<Longrightarrow> jstring (copy c) \<noteq> None \<and> key_of cs (copy c) = key_of cs c"
  by (cases c) (auto simp: key_of_def fold_key_def cstr_idem)

lemma copy_kind: "jtype (copy c) AND 0xFF = jtype c AND 0xFF"
proof (cases c)
  case (CJ t vs vi vd nm ch)
  have "NOT cJSON_IsReference AND (0xFF :: int) = 0xFF" by (simp add: type_codes)
  with CJ show ?thesis by (simp only: copy.simps cjson.sel and.assoc)
qed

lemma cJSON_Compare_sym: "cJSON_Compare a b cs = cJSON_Compare b a cs"
proof (induction a b cs rule: cJSON_Compare.induct)
  case (1 a b cs)
  show ?case
  proof (cases "jtype a AND 0xFF = jtype b AND 0xFF \<and> jtype a AND 0xFF = cJSON_Array")
    case True
    then have "list_all2 (\<lambda>x y. cJSON_Compare x y cs) (child a) (child b) =
        list_all2 (\<lambda>x y. cJSON_Compare x y cs) (child b) (child a)"
      using 1(1) True by (simp add: list_all2_conv_all_nth type_codes) (metis nth_mem)
    with True show ?thesis
      by (subst (1 2) cJSON_Compare.simps) (auto simp: type_codes)
  next
    case False
    have str: "(case (valuestring a, valuestring b) of (Some x, Some y) \<Rightarrow> strcmp x y = 0 | _ \<Rightarrow> False) =
        (case (valuestring b, valuestring a) of (Some x, Some y) \<Rightarrow> strcmp x y = 0 | _ \<Rightarrow> False)"
      using strcmp_eq by (auto split: option.splits)
    from False show ?thesis
      using str compare_double_sym [of "valuedouble a" "valuedouble b"]
      by (subst (1 2) cJSON_Compare.simps) (auto simp: Let_def)
  qed
qed
lemma Compare_copy: "comparable cs it \<Longrightarrow> cJSON_Compare it (copy it) cs"
proof (induction cs it rule: comparable.induct)
  case (1 cs t vs vi vd nm ch)
  let ?it = "CJ t vs vi vd nm ch"
  have kind: "jtype (copy ?it) AND 0xFF = t AND 0xFF" using copy_kind [of ?it] by simp
  consider (const) "t AND 0xFF \<in> {cJSON_False, cJSON_True, cJSON_NULL}"
    | (num) s m e where "t AND 0xFF = cJSON_Number" "vd = Fin s m e"
    | (str) x where "t AND 0xFF \<in> {cJSON_String, cJSON_Raw}" "vs = Some x"
    | (arr) "t AND 0xFF = cJSON_Array" "list_all (comparable cs) ch"
    | (obj) "t AND 0xFF = cJSON_Object" "list_all (comparable cs) ch"
        "list_all (\<lambda>c. jstring c \<noteq> None) ch" "distinct (map (key_of cs) ch)"
    using 1(3) by (auto simp: Let_def split: dbl.splits)
  then show ?case
  proof cases
    case const
    with kind show ?thesis by (subst cJSON_Compare.simps) (auto simp: type_codes)
  next
    case num
    with kind show ?thesis by (subst cJSON_Compare.simps) (auto simp: type_codes compare_double_refl)
  next
    case str
    with kind show ?thesis by (subst cJSON_Compare.simps) (auto simp: type_codes strcmp_eq cstr_idem)
  next
    case arr
    with kind 1(1,2) show ?thesis
      by (subst cJSON_Compare.simps) (auto simp: type_codes list_all2_conv_all_nth list_all_iff)
  next
    case obj
    have names: "\<forall>c \<in> set (map copy ch). jstring c \<noteq> None" "\<forall>c \<in> set ch. jstring c \<noteq> None"
      using obj(3) copy_key by (auto simp: list_all_iff)
    have keys: "map (key_of cs) (map copy ch) = map (key_of cs) ch"
      using names copy_key by simp
    have there: "get_object_item (Some (copy ?it)) (jstring x) cs = Some (copy x)" if "x \<in> set ch" for x
      using get_object_item_find [of "copy ?it" "the (jstring x)" cs] names that
        find_distinct [of "key_of cs" "map copy ch" "copy x"] obj(4) keys copy_key [of x cs]
      by (auto simp: key_of_def simp del: map_map)
    have back_to: "get_object_item (Some ?it) (jstring (copy x)) cs = Some x" if "x \<in> set ch" for x
      using get_object_item_find [of ?it "the (jstring (copy x))" cs] names that
        find_distinct [of "key_of cs" ch x] obj(4) copy_key [of x cs]
      by (auto simp: key_of_def)
    show ?thesis
      using kind obj 1(1,2) there back_to cJSON_Compare_sym
      by (subst cJSON_Compare.simps) (auto simp: type_codes list_all_iff)
  qed
qed

text \<open>
  C11: \<^verbatim>\<open>cJSON_Compare\<close> finds a recursive duplicate equal to its original, in both
  directions, for every tree of valid nodes with finite numbers, strings that are present and
  names that are all different under the chosen comparison.
\<close>

theorem cJSON_Compare_duplicate:
  assumes "comparable cs it" and "cJSON_Duplicate mem True it h = (Some c, h')"
  shows "cJSON_Compare it c cs \<and> cJSON_Compare c it cs"
proof -
  have "c = copy it" using Duplicate_ok(1) [OF assms(2)] by simp
  with Compare_copy [OF assms(1)] cJSON_Compare_sym show ?thesis by blast
qed

text \<open>The tree of \<^verbatim>\<open>{"a":1,"A":[null]}\<close>: its names differ for the case sensitive comparison only.\<close>

definition compare_example :: cjson where
  "compare_example = CJ 64 None 0 dbl_zero None
     [CJ 8 None 1 (Fin False 1 0) (Some [0x61]) [],
      CJ 32 None 0 dbl_zero (Some [0x41]) [CJ 4 None 0 dbl_zero None []]]"

theorem cJSON_Compare_duplicate_witness:
  "\<exists>c h'. cJSON_Duplicate (\<lambda>_. True) True compare_example \<lparr>requests = 0, live = 0\<rparr> = (Some c, h') \<and>
     cJSON_Compare compare_example c True \<and> cJSON_Compare c compare_example True"
proof -
  have ok: "comparable True compare_example"
    by (simp add: compare_example_def type_codes key_of_def fold_key_def cstr_def)
  have "\<exists>c h'. cJSON_Duplicate (\<lambda>_. True) True compare_example \<lparr>requests = 0, live = 0\<rparr> = (Some c, h')"
    by (simp add: compare_example_def cJSON_New_Item_def allocate_def cJSON_strdup_def dup_name_def type_codes)
  then obtain c h' where
    "cJSON_Duplicate (\<lambda>_. True) True compare_example \<lparr>requests = 0, live = 0\<rparr> = (Some c, h')" by blast
  with cJSON_Compare_duplicate [OF ok this] show ?thesis by blast
qed

text \<open>
  C0: \<^verbatim>\<open>cJSON_Compare\<close> is symmetric on distinct nodes, numbers included: the tolerance it
  applies to two numbers does not depend on their order.
\<close>

theorem cJSON_Compare_symmetric: "cJSON_Compare a b case_sensitive = cJSON_Compare b a case_sensitive"
  by (rule cJSON_Compare_sym)

end
