(* ===== verification/CJsonMinify.thy ===== *)
theory CJsonMinify
  imports CJson
begin

text \<open>
  \<^verbatim>\<open>cJSON_Minify\<close> (cJSON.c): removes blanks and comments from a JSON text, in place. The
  buffer is a bounded memory (theory \<^verbatim>\<open>Base\<close>) with the read pointer \<open>i\<close> and the write pointer
  \<open>k\<close>; \<open>minified\<close> is the text the function is meant to leave, read off without a buffer, and
  the functions below are shown to compute it although they overwrite their own input.
\<close>

subsection \<open>Comments\<close>

function skip_oneline_loop :: "u8 list \<Rightarrow> nat \<Rightarrow> nat option" where
  "skip_oneline_loop m i = Option.bind (rd m i) (\<lambda>c.
     if c = 0 then Some i else if c = 0x0a then Some (i + 1) else skip_oneline_loop m (i + 1))"
  by pat_completeness auto
termination by (relation "measure (\<lambda>(m, i). length m - i)") (auto simp: rd_Some_iff)

declare skip_oneline_loop.simps [simp del]

definition skip_oneline_comment :: "u8 list \<Rightarrow> nat \<Rightarrow> nat option" where
  "skip_oneline_comment m i = skip_oneline_loop m (i + 2)"

function skip_multiline_loop :: "u8 list \<Rightarrow> nat \<Rightarrow> nat option" where
  "skip_multiline_loop m i = Option.bind (rd m i) (\<lambda>c.
     if c = 0 then Some i
     else if c = 0x2a then Option.bind (rd m (i + 1)) (\<lambda>d.
        if d = 0x2f then Some (i + 2) else skip_multiline_loop m (i + 1))
     else skip_multiline_loop m (i + 1))"
  by pat_completeness auto
termination by (relation "measure (\<lambda>(m, i). length m - i)") (auto simp: rd_Some_iff)

declare skip_multiline_loop.simps [simp del]

definition skip_multiline_comment :: "u8 list \<Rightarrow> nat \<Rightarrow> nat option" where
  "skip_multiline_comment m i = skip_multiline_loop m (i + 2)"

subsection \<open>Strings\<close>

text \<open>Each round writes the byte first and reads it again for its tests, as the code does.\<close>

function minify_string_loop :: "u8 list \<Rightarrow> nat \<Rightarrow> nat \<Rightarrow> (u8 list \<times> nat \<times> nat) option" where
  "minify_string_loop m i k = Option.bind (rd m i) (\<lambda>c.
     if c = 0 then Some (m, i, k)
     else Option.bind (wr m k [c]) (\<lambda>m1. Option.bind (rd m1 i) (\<lambda>c1.
       if c1 = 0x22 then Option.bind (wr m1 k [0x22]) (\<lambda>m2. Some (m2, i + 1, k + 1))
       else if c1 = 0x5c then Option.bind (rd m1 (i + 1)) (\<lambda>d.
         if d = 0x22 then Option.bind (wr m1 (k + 1) [d]) (\<lambda>m2. minify_string_loop m2 (i + 2) (k + 2))
         else minify_string_loop m1 (i + 1) (k + 1))
       else minify_string_loop m1 (i + 1) (k + 1))))"
  by pat_completeness auto
termination
  by (relation "measure (\<lambda>(m, i, k). length m - i)") (auto simp: rd_Some_iff dest!: wr_length)

declare minify_string_loop.simps [simp del]

definition minify_string :: "u8 list \<Rightarrow> nat \<Rightarrow> nat \<Rightarrow> (u8 list \<times> nat \<times> nat) option" where
  "minify_string m i k = Option.bind (rd m i) (\<lambda>c. Option.bind (wr m k [c]) (\<lambda>m1.
     minify_string_loop m1 (i + 1) (k + 1)))"

subsection \<open>The main loop\<close>

lemma skip_oneline_mono: "skip_oneline_loop m i = Some j \<Longrightarrow> i \<le> j"
proof (induction m i rule: skip_oneline_loop.induct)
  case (1 m i)
  from 1(2) show ?case
    by (subst (asm) skip_oneline_loop.simps)
      (auto simp: Option.bind_eq_Some_conv split: if_splits dest: 1(1))
qed

lemma skip_multiline_mono: "skip_multiline_loop m i = Some j \<Longrightarrow> i \<le> j"
proof (induction m i rule: skip_multiline_loop.induct)
  case (1 m i)
  from 1(3) show ?case
    by (subst (asm) skip_multiline_loop.simps)
      (auto simp: Option.bind_eq_Some_conv split: if_splits dest: 1(1,2))
qed

lemma minify_string_mono:
  "minify_string_loop m i k = Some (m', i', k') \<Longrightarrow> i \<le> i' \<and> length m' = length m"
proof (induction "length m - i" arbitrary: m i k rule: less_induct)
  case less
  have next_round: "i \<le> i' \<and> length m' = length m"
    if "minify_string_loop m1 (Suc d) k1 = Some (m', i', k')" "length m1 = length m" "i < length m" "i \<le> d"
    for m1 k1 d
  proof -
    have "length m1 - Suc d < length m - i" using that(2-4) by arith
    from less(1) [OF this that(1)] that show ?thesis by simp
  qed
  from less(2) show ?case
    by (subst (asm) minify_string_loop.simps)
      (auto simp: Option.bind_eq_Some_conv rd_Some_iff split: if_splits dest!: wr_length next_round)
qed

function minify_loop :: "u8 list \<Rightarrow> nat \<Rightarrow> nat \<Rightarrow> (u8 list \<times> nat) option" where
  "minify_loop m i k = Option.bind (rd m i) (\<lambda>c.
     if c = 0 then Some (m, k)
     else if c = 0x20 \<or> c = 0x09 \<or> c = 0x0d \<or> c = 0x0a then minify_loop m (i + 1) k
     else if c = 0x2f then Option.bind (rd m (i + 1)) (\<lambda>d.
       if d = 0x2f then Option.bind (skip_oneline_comment m i) (\<lambda>j. minify_loop m j k)
       else if d = 0x2a then Option.bind (skip_multiline_comment m i) (\<lambda>j. minify_loop m j k)
       else minify_loop m (i + 1) k)
     else if c = 0x22 then Option.bind (minify_string m i k) (\<lambda>(m', i', k'). minify_loop m' i' k')
     else Option.bind (wr m k [c]) (\<lambda>m1. minify_loop m1 (i + 1) (k + 1)))"
  by pat_completeness auto
termination
  by (relation "measure (\<lambda>(m, i, k). length m - i)")
    (auto simp: rd_Some_iff skip_oneline_comment_def skip_multiline_comment_def minify_string_def
      dest!: wr_length skip_oneline_mono skip_multiline_mono minify_string_mono simp: Option.bind_eq_Some_conv)

declare minify_loop.simps [simp del]

definition cJSON_Minify :: "u8 list option \<Rightarrow> u8 list option option" where
  "cJSON_Minify json = (case json of None \<Rightarrow> Some None
     | Some m \<Rightarrow> Option.bind (minify_loop m 0 0) (\<lambda>(m', k). map_option Some (wr m' k [0])))"


subsection \<open>What it computes\<close>

fun oneline_rest :: "u8 list \<Rightarrow> u8 list" where
  "oneline_rest [] = []"
| "oneline_rest (c # s) = (if c = 0x0a then s else oneline_rest s)"

fun multiline_rest :: "u8 list \<Rightarrow> u8 list" where
  "multiline_rest (c # d # s) = (if c = 0x2a \<and> d = 0x2f then s else multiline_rest (d # s))"
| "multiline_rest [] = []"
| "multiline_rest [c] = []"

fun string_part :: "u8 list \<Rightarrow> u8 list \<times> u8 list" where
  "string_part (c # d # s) =
     (if c = 0x22 then ([c], d # s)
      else if c = 0x5c \<and> d = 0x22 then (case string_part s of (a, r) \<Rightarrow> (c # d # a, r))
      else (case string_part (d # s) of (a, r) \<Rightarrow> (c # a, r)))"
| "string_part [] = ([], [])"
| "string_part [c] = ([c], [])"

lemma oneline_rest_length: "length (oneline_rest s) \<le> length s"
  by (induction s) auto

lemma multiline_rest_length: "length (multiline_rest s) \<le> length s"
  by (induction s rule: multiline_rest.induct) auto

lemma string_part_append: "fst (string_part s) @ snd (string_part s) = s"
  by (induction s rule: string_part.induct) (auto split: prod.splits)

lemma string_part_length: "length (snd (string_part s)) \<le> length s"
  using arg_cong [OF string_part_append [of s], of length] by simp

function minified :: "u8 list \<Rightarrow> u8 list" where
  "minified [] = []"
| "minified (c # s) =
     (if c = 0x20 \<or> c = 0x09 \<or> c = 0x0d \<or> c = 0x0a then minified s
      else if c = 0x2f then
        (case s of
           d # s' \<Rightarrow> if d = 0x2f then minified (oneline_rest s')
             else if d = 0x2a then minified (multiline_rest s') else minified s
         | [] \<Rightarrow> [])
      else if c = 0x22 then c # fst (string_part s) @ minified (snd (string_part s))
      else c # minified s)"
  by pat_completeness auto
termination
  by (relation "measure length")
    (auto simp: less_Suc_eq_le string_part_length oneline_rest_length multiline_rest_length le_SucI)

lemma minify_loop_length: "minify_loop m i k = Some (m', k') \<Longrightarrow> length m' = length m"
proof (induction "length m - i" arbitrary: m i k rule: less_induct)
  case less
  have next_round: "length m' = length m"
    if "minify_loop m1 d k1 = Some (m', k')" "length m1 = length m" "i < length m" "i < d" for m1 k1 d
  proof -
    have "length m1 - d < length m - i" using that(2-4) by arith
    from less(1) [OF this that(1)] that show ?thesis by simp
  qed
  from less(2) show ?case
    by (subst (asm) minify_loop.simps)
      (auto simp: Option.bind_eq_Some_conv rd_Some_iff skip_oneline_comment_def
        skip_multiline_comment_def minify_string_def split: if_splits
        dest!: wr_length next_round skip_oneline_mono skip_multiline_mono minify_string_mono)
qed

subsection \<open>In place\<close>

text \<open>
  The buffer while the loops run: the bytes written so far, a gap of bytes already read, the
  unread text and its terminator.
\<close>

definition holds :: "u8 list \<Rightarrow> u8 list \<Rightarrow> u8 list \<Rightarrow> nat \<Rightarrow> u8 list \<Rightarrow> bool" where
  "holds t m out i s \<longleftrightarrow> (\<exists>gap. m = out @ gap @ s @ 0 # t \<and> i = length out + length gap)"

lemma holds_rd:
  assumes "holds t m out i (c # s)"
  shows "rd m i = Some c" and "rd m (Suc i) = Some (case s of [] \<Rightarrow> 0 | d # _ \<Rightarrow> d)"
    and "holds t m out (Suc i) s"
proof -
  obtain gap where m: "m = out @ gap @ c # s @ 0 # t" "i = length out + length gap"
    using assms by (auto simp: holds_def)
  then show "rd m i = Some c" "rd m (Suc i) = Some (case s of [] \<Rightarrow> 0 | d # _ \<Rightarrow> d)"
    by (auto simp: rd_def nth_append split: list.split)
  from m have "m = out @ (gap @ [c]) @ s @ 0 # t \<and> Suc i = length out + length (gap @ [c])" by simp
  then show "holds t m out (Suc i) s" unfolding holds_def by blast
qed

lemma holds_end: "holds t m out i [] \<Longrightarrow> rd m i = Some 0"
  by (auto simp: holds_def rd_def nth_append)

text \<open>Writing the byte under the read pointer leaves the unread text as it is.\<close>

lemma holds_wr:
  assumes "holds t m out i (c # s)"
  obtains m1 where "wr m (length out) [c] = Some m1" and "holds t m1 out i (c # s)"
    and "holds t m1 (out @ [c]) (Suc i) s"
proof -
  obtain gap where m: "m = out @ gap @ c # s @ 0 # t" "i = length out + length gap"
    using assms by (auto simp: holds_def)
  show thesis
  proof (cases gap)
    case Nil
    with m have "m = (out @ [c]) @ [] @ s @ 0 # t \<and> Suc i = length (out @ [c]) + length ([] :: u8 list)" by simp
    then have "holds t m (out @ [c]) (Suc i) s" unfolding holds_def by blast
    moreover have "wr m (length out) [c] = Some m" using m Nil by (simp add: wr_def)
    ultimately show thesis using that assms by blast
  next
    case (Cons g gs)
    let ?m = "out @ c # gs @ c # s @ 0 # t"
    have "?m = (out @ [c]) @ (gs @ [c]) @ s @ 0 # t \<and> Suc i = length (out @ [c]) + length (gs @ [c])"
      using m Cons by simp
    then have "holds t ?m (out @ [c]) (Suc i) s" unfolding holds_def by blast
    moreover have "?m = out @ (c # gs) @ (c # s) @ 0 # t \<and> i = length out + length (c # gs)"
      using m Cons by simp
    then have "holds t ?m out i (c # s)" unfolding holds_def by blast
    moreover have "wr m (length out) [c] = Some ?m" using m Cons by (simp add: wr_def)
    ultimately show thesis using that by blast
  qed
qed

lemma skip_oneline_holds:
  "0 \<notin> set s \<Longrightarrow> holds t m out i s \<Longrightarrow>
    \<exists>j. skip_oneline_loop m i = Some j \<and> holds t m out j (oneline_rest s)"
proof (induction s arbitrary: i)
  case Nil
  then show ?case by (subst skip_oneline_loop.simps) (simp add: holds_end)
next
  case (Cons c s)
  from Cons.prems Cons.IH [of "Suc i"] holds_rd [OF Cons.prems(2)] show ?case
    by (subst skip_oneline_loop.simps) auto
qed

lemma skip_multiline_holds:
  "0 \<notin> set s \<Longrightarrow> holds t m out i s \<Longrightarrow>
    \<exists>j. skip_multiline_loop m i = Some j \<and> holds t m out j (multiline_rest s)"
proof (induction s arbitrary: i rule: multiline_rest.induct)
  case (1 c d s)
  from 1 holds_rd [OF 1(3)] holds_rd [OF holds_rd(3) [OF 1(3)]] show ?case
    by (subst skip_multiline_loop.simps) auto
next
  case 2
  then show ?case by (subst skip_multiline_loop.simps) (simp add: holds_end)
next
  case (3 c)
  note h = holds_rd [OF 3(2)]
  have "skip_multiline_loop m (Suc i) = Some (Suc i)"
    using holds_end [OF h(3)] by (subst skip_multiline_loop.simps) simp
  with 3 h show ?case by (subst skip_multiline_loop.simps) auto
qed

lemma minify_string_holds:
  "0 \<notin> set s \<Longrightarrow> holds t m out i s \<Longrightarrow>
    \<exists>m' i'. minify_string_loop m i (length out) =
        Some (m', i', length out + length (fst (string_part s))) \<and>
      holds t m' (out @ fst (string_part s)) i' (snd (string_part s))"
proof (induction s arbitrary: m out i rule: string_part.induct)
  case (1 c d s)
  obtain m1 where w: "wr m (length out) [c] = Some m1" "holds t m1 out i (c # d # s)"
    "holds t m1 (out @ [c]) (Suc i) (d # s)" by (rule holds_wr [OF 1(4)])
  note r = holds_rd [OF 1(4)] and r1 = holds_rd [OF w(2)]
  consider (quote) "c = 0x22" | (esc) "c = 0x5c" "d = 0x22" | (other) "c \<noteq> 0x22" "\<not> (c = 0x5c \<and> d = 0x22)" by auto
  then show ?case
  proof cases
    case quote
    obtain m2 where "wr m1 (length out) [c] = Some m2" "holds t m2 (out @ [c]) (Suc i) (d # s)"
      by (rule holds_wr [OF w(2)])
    with quote r r1 w(1) 1(3) show ?thesis by (subst minify_string_loop.simps) simp
  next
    case esc
    obtain m2 where w2: "wr m1 (length (out @ [c])) [d] = Some m2" "holds t m2 ((out @ [c]) @ [d]) (Suc (Suc i)) s"
      by (rule holds_wr [OF w(3)])
    have "0 \<notin> set s" using 1(3) by simp
    from 1(1) [OF _ _ this w2(2)] esc r r1 w(1) w2(1) 1(3) show ?thesis
      by (subst minify_string_loop.simps) (auto split: prod.splits)
  next
    case other
    have "0 \<notin> set (d # s)" using 1(3) by simp
    from 1(2) [OF _ _ this w(3)] other r r1 w(1) 1(3) show ?thesis
      by (subst minify_string_loop.simps) (auto split: prod.splits)
  qed
next
  case 2
  then show ?case by (subst minify_string_loop.simps) (auto simp: holds_end)
next
  case (3 c)
  obtain m1 where w: "wr m (length out) [c] = Some m1" "holds t m1 out i [c]"
    "holds t m1 (out @ [c]) (Suc i) []" by (rule holds_wr [OF 3(2)])
  obtain m2 where w2: "wr m1 (length out) [c] = Some m2" "holds t m2 (out @ [c]) (Suc i) []"
    by (rule holds_wr [OF w(2)])
  have "minify_string_loop m1 (Suc i) (Suc (length out)) = Some (m1, Suc i, Suc (length out))"
    using holds_end [OF w(3)] by (subst minify_string_loop.simps) simp
  with 3 holds_rd [OF 3(2)] holds_rd [OF w(2)] w w2 show ?case
    by (subst minify_string_loop.simps) auto
qed

lemma zero_rest: "0 \<notin> set s \<Longrightarrow> 0 \<notin> set (oneline_rest s) \<and> 0 \<notin> set (multiline_rest s) \<and> 0 \<notin> set (snd (string_part s))"
proof -
  assume "0 \<notin> set s"
  moreover have "set (oneline_rest s) \<subseteq> set s" by (induction s) auto
  moreover have "set (multiline_rest s) \<subseteq> set s" by (induction s rule: multiline_rest.induct) auto
  moreover have "set (snd (string_part s)) \<subseteq> set s"
    using arg_cong [OF string_part_append [of s], of set] by auto
  ultimately show ?thesis by blast
qed

lemma minify_loop_holds:
  "0 \<notin> set s \<Longrightarrow> holds t m out i s \<Longrightarrow>
    \<exists>m' i'. minify_loop m i (length out) = Some (m', length out + length (minified s)) \<and>
      holds t m' (out @ minified s) i' []"
proof (induction s arbitrary: m out i rule: minified.induct)
  case 1
  then show ?case by (subst minify_loop.simps) (auto simp: holds_end)
next
  case (2 c s)
  note r = holds_rd [OF 2(8)] and z = zero_rest [of s] zero_rest [of "tl s"]
  have s0: "0 \<notin> set s" "c \<noteq> 0" using 2(7) by auto
  consider (blank) "c = 0x20 \<or> c = 0x09 \<or> c = 0x0d \<or> c = 0x0a" | (slash) "c = 0x2f" | (quote) "c = 0x22"
    | (other) "\<not> (c = 0x20 \<or> c = 0x09 \<or> c = 0x0d \<or> c = 0x0a)" "c \<noteq> 0x2f" "c \<noteq> 0x22" by auto
  then show ?case
  proof cases
    case blank
    from 2(1) [OF this s0(1) r(3)] blank r s0 show ?thesis
      by (subst minify_loop.simps) auto
  next
    case slash
    show ?thesis
    proof (cases s)
      case Nil
      have "minify_loop m (Suc i) (length out) = Some (m, length out)"
        using holds_end r(3) Nil by (subst minify_loop.simps) simp
      with slash Nil r s0 show ?thesis by (subst minify_loop.simps) auto
    next
      case (Cons d s')
      have r2: "holds t m out (Suc (Suc i)) s'" using holds_rd(3) r(3) Cons by blast
      have s2: "0 \<notin> set s'" using s0 Cons by simp
      consider (line) "d = 0x2f" | (block) "d = 0x2a" | (no) "d \<noteq> 0x2f" "d \<noteq> 0x2a" by auto
      then show ?thesis
      proof cases
        case line
        obtain j where j: "skip_oneline_loop m (Suc (Suc i)) = Some j" "holds t m out j (oneline_rest s')"
          using skip_oneline_holds [OF s2 r2] by blast
        from 2(2) [OF _ slash Cons line _ j(2)] slash line r s0 z Cons j(1) show ?thesis
          by (subst minify_loop.simps) (auto simp: skip_oneline_comment_def)
      next
        case block
        obtain j where j: "skip_multiline_loop m (Suc (Suc i)) = Some j" "holds t m out j (multiline_rest s')"
          using skip_multiline_holds [OF s2 r2] by blast
        from 2(3) [OF _ slash Cons _ block _ j(2)] slash block r s0 z Cons j(1) show ?thesis
          by (subst minify_loop.simps) (auto simp: skip_multiline_comment_def)
      next
        case no
        from 2(4) [OF _ slash Cons no s0(1) r(3)] slash no r s0 Cons show ?thesis
          by (subst minify_loop.simps) auto
      qed
    qed
  next
    case quote
    obtain m1 where w: "wr m (length out) [c] = Some m1" "holds t m1 (out @ [c]) (Suc i) s"
      by (rule holds_wr [OF 2(8)])
    obtain m2 i2 where p: "minify_string_loop m1 (Suc i) (length (out @ [c])) =
        Some (m2, i2, length (out @ [c]) + length (fst (string_part s)))"
      and h: "holds t m2 ((out @ [c]) @ fst (string_part s)) i2 (snd (string_part s))"
      using minify_string_holds [OF s0(1) w(2)] by blast
    from 2(5) [OF _ _ quote _ h] quote r s0 z w(1) p show ?thesis
      by (subst minify_loop.simps) (auto simp: minify_string_def)
  next
    case other
    obtain m1 where w: "wr m (length out) [c] = Some m1" "holds t m1 (out @ [c]) (Suc i) s"
      by (rule holds_wr [OF 2(8)])
    from 2(6) [OF other s0(1) w(2)] other r s0 w(1) show ?thesis
      by (subst minify_loop.simps) auto
  qed
qed

lemma minify_in_place:
  assumes "0 \<notin> set s"
  shows "\<exists>m. cJSON_Minify (Some (s @ 0 # tail)) = Some (Some m) \<and> length m = length s + 1 + length tail \<and>
    take (length (minified s) + 1) m = minified s @ [0] \<and> drop (length s + 1) m = tail"
proof -
  have "s @ 0 # tail = [] @ [] @ s @ 0 # tail \<and> 0 = length ([] :: u8 list) + length ([] :: u8 list)" by simp
  then have "holds tail (s @ 0 # tail) [] 0 s" unfolding holds_def by blast
  from minify_loop_holds [OF assms this] obtain m i where
    m: "minify_loop (s @ 0 # tail) 0 0 = Some (m, length (minified s))" "holds tail m (minified s) i []"
    by auto
  obtain gap where g: "m = minified s @ gap @ 0 # tail" using m(2) by (auto simp: holds_def)
  have len: "length m = length (s @ 0 # tail)" using minify_loop_length [OF m(1)] .
  show ?thesis
  proof (cases gap)
    case Nil
    with g len m(1) show ?thesis by (auto simp: cJSON_Minify_def wr_def)
  next
    case (Cons c cs)
    with g len have "length s = length (minified s) + length cs + 1" by simp
    with g Cons m(1) show ?thesis by (simp add: cJSON_Minify_def wr_def)
  qed
qed

text \<open>
  C5: \<^verbatim>\<open>cJSON_Minify\<close> works in place: on every C string it stays inside the string and its
  terminator and returns, it leaves the minified text followed by a terminator at the start
  of the buffer, and nothing behind the old terminator changes.
\<close>

theorem cJSON_Minify_in_place:
  assumes "0 \<notin> set s"
  shows "\<exists>m. cJSON_Minify (Some (s @ 0 # tail)) = Some (Some m) \<and> length m = length s + 1 + length tail \<and>
    take (length (minified s) + 1) m = minified s @ [0] \<and> drop (length s + 1) m = tail"
  by (rule minify_in_place [OF assms])

text \<open>The text \<^verbatim>\<open>[1, "a b"]\<close>.\<close>

theorem cJSON_Minify_in_place_witness:
  "\<exists>m. cJSON_Minify (Some [0x5b, 0x31, 0x2c, 0x20, 0x22, 0x61, 0x20, 0x62, 0x22, 0x5d, 0, 7]) = Some (Some m) \<and>
    length m = 12 \<and> take 10 m = [0x5b, 0x31, 0x2c, 0x22, 0x61, 0x20, 0x62, 0x22, 0x5d, 0] \<and> drop 11 m = [7]"
proof -
  let ?s = "[0x5b, 0x31, 0x2c, 0x20, 0x22, 0x61, 0x20, 0x62, 0x22, 0x5d] :: u8 list"
  have min: "minified ?s = [0x5b, 0x31, 0x2c, 0x22, 0x61, 0x20, 0x62, 0x22, 0x5d]" and "0 \<notin> set ?s"
    by simp_all
  from cJSON_Minify_in_place [OF this(2), of "[7]"] obtain m where
    m: "cJSON_Minify (Some (?s @ 0 # [7])) = Some (Some m)" "length m = length ?s + 1 + length [7 :: u8]"
      "take (length (minified ?s) + 1) m = minified ?s @ [0]" "drop (length ?s + 1) m = [7]"
    by blast
  have len: "length ?s + 1 + length [7 :: u8] = 12" "length (minified ?s) + 1 = 10" "length ?s + 1 = 11"
    by (simp_all add: min)
  show ?thesis
    by (rule exI [of _ m]) (use m(1) m(2) [unfolded len] m(3) [unfolded len] m(4) [unfolded len] min in simp)
qed

subsection \<open>Texts in lexemes\<close>

datatype str_item = Plain u8 | Esc u8

datatype lexeme = Blank u8 | Line "u8 list" | Block "u8 list" | Quoted "str_item list" | Other u8

fun item_text :: "str_item \<Rightarrow> u8 list" where
  "item_text (Plain c) = [c]"
| "item_text (Esc c) = [0x5c, c]"

fun item_ok :: "str_item \<Rightarrow> bool" where
  "item_ok (Plain c) \<longleftrightarrow> c \<noteq> 0x22 \<and> c \<noteq> 0x5c"
| "item_ok (Esc c) \<longleftrightarrow> True"

definition quoted_text :: "str_item list \<Rightarrow> u8 list" where
  "quoted_text xs = 0x22 # concat (map item_text xs) @ [0x22]"

fun lex_text :: "lexeme \<Rightarrow> u8 list" where
  "lex_text (Blank c) = [c]"
| "lex_text (Line s) = [0x2f, 0x2f] @ s @ [0x0a]"
| "lex_text (Block s) = [0x2f, 0x2a] @ s @ [0x2a, 0x2f]"
| "lex_text (Quoted xs) = quoted_text xs"
| "lex_text (Other c) = [c]"

fun lex_kept :: "lexeme \<Rightarrow> u8 list" where
  "lex_kept (Quoted xs) = quoted_text xs"
| "lex_kept (Other c) = [c]"
| "lex_kept _ = []"

definition is_blank :: "u8 \<Rightarrow> bool" where
  "is_blank c \<longleftrightarrow> c = 0x20 \<or> c = 0x09 \<or> c = 0x0d \<or> c = 0x0a"

text \<open>A string must not end in an escaped backslash.\<close>

fun lex_ok :: "lexeme \<Rightarrow> bool" where
  "lex_ok (Blank c) \<longleftrightarrow> is_blank c"
| "lex_ok (Line s) \<longleftrightarrow> 0x0a \<notin> set s"
| "lex_ok (Block s) \<longleftrightarrow> \<not> (\<exists>a b. s = a @ [0x2a, 0x2f] @ b)"
| "lex_ok (Quoted xs) \<longleftrightarrow> list_all item_ok xs \<and> (xs = [] \<or> last xs \<noteq> Esc 0x5c)"
| "lex_ok (Other c) \<longleftrightarrow> \<not> is_blank c \<and> c \<noteq> 0x22 \<and> c \<noteq> 0x2f"

lemma oneline_rest_line: "0x0a \<notin> set s \<Longrightarrow> oneline_rest (s @ 0x0a # r) = r"
  by (induction s) auto

lemma multiline_rest_block:
  "\<not> (\<exists>a b. s = a @ [0x2a, 0x2f] @ b) \<Longrightarrow> multiline_rest (s @ 0x2a # 0x2f # r) = r"
proof (induction s)
  case (Cons c s)
  have no: "\<not> (\<exists>a b. s = a @ [0x2a, 0x2f] @ b)" using Cons.prems by (metis append_Cons)
  show ?case
  proof (cases s)
    case Nil
    then show ?thesis by simp
  next
    case (Cons d s')
    then have "\<not> (c = 0x2a \<and> d = 0x2f)" using Cons.prems by (metis append_Cons append_Nil)
    with Cons Cons.IH [OF no] show ?thesis by simp
  qed
qed simp

lemma string_part_step:
  "c \<noteq> 0x22 \<Longrightarrow> c \<noteq> 0x5c \<or> s = [] \<or> hd s \<noteq> 0x22 \<Longrightarrow>
    string_part (c # s) = (c # fst (string_part s), snd (string_part s))"
  by (cases s) (auto split: prod.split)

lemma string_part_items:
  "list_all item_ok xs \<Longrightarrow> xs = [] \<or> last xs \<noteq> Esc 0x5c \<Longrightarrow>
    string_part (concat (map item_text xs) @ 0x22 # r) = (concat (map item_text xs) @ [0x22], r)"
proof (induction xs)
  case Nil
  then show ?case by (cases r) auto
next
  case (Cons x xs)
  let ?s = "concat (map item_text xs) @ 0x22 # r"
  have IH: "string_part ?s = (concat (map item_text xs) @ [0x22], r)" using Cons by (auto split: if_splits)
  show ?case
  proof (cases x)
    case (Plain c)
    with Cons.prems IH show ?thesis using string_part_step [of c ?s] by simp
  next
    case (Esc c)
    consider (quote) "c = 0x22" | (bslash) "c = 0x5c" | (plain) "c \<noteq> 0x22" "c \<noteq> 0x5c" by auto
    then show ?thesis
    proof cases
      case quote
      with Esc IH show ?thesis by simp
    next
      case bslash
      then have "xs \<noteq> []" using Cons.prems Esc by auto
      then obtain y ys where xs: "xs = y # ys" by (cases xs) auto
      then have "hd ?s \<noteq> 0x22" using Cons.prems by (cases y) auto
      then have "string_part (0x5c # ?s) = (0x5c # concat (map item_text xs) @ [0x22], r)"
        using string_part_step [of "0x5c" ?s] IH by simp
      with bslash Esc show ?thesis using string_part_step [of "0x5c" "0x5c # ?s"] by simp
    next
      case plain
      then have "string_part (c # ?s) = (c # concat (map item_text xs) @ [0x22], r)"
        using string_part_step [of c ?s] IH by simp
      with plain Esc show ?thesis using string_part_step [of "0x5c" "c # ?s"] by simp
    qed
  qed
qed

lemma minified_lexemes:
  assumes "list_all lex_ok ls"
  shows "minified (concat (map lex_text ls)) = concat (map lex_kept ls)"
  using assms
proof (induction ls)
  case (Cons l ls)
  then have IH: "minified (concat (map lex_text ls)) = concat (map lex_kept ls)" and ok: "lex_ok l" by auto
  show ?case
  proof (cases l)
    case (Quoted xs)
    with ok IH string_part_items [of xs "concat (map lex_text ls)"] show ?thesis
      by (simp add: quoted_text_def)
  qed (use ok IH in \<open>auto simp: is_blank_def oneline_rest_line multiline_rest_block\<close>)
qed simp

text \<open>
  C12: \<^verbatim>\<open>cJSON_Minify\<close> on a text in lexemes (blanks, comments of both kinds, strings and other bytes, in any
  order) in which no string ends in an escaped backslash: it leaves the text of the strings and the other bytes, in
  their order and unchanged, escaped quotes and everything that looks like a blank or a comment inside
  a string included, and none of the blanks and comments, followed by a terminator.
\<close>

theorem cJSON_Minify_lexemes:
  assumes "list_all lex_ok ls" and "0 \<notin> set (concat (map lex_text ls))"
  shows "\<exists>m. cJSON_Minify (Some (concat (map lex_text ls) @ 0 # tail)) = Some (Some m) \<and>
    take (length (concat (map lex_kept ls)) + 1) m = concat (map lex_kept ls) @ [0]"
  using minify_in_place [OF assms(2), of tail] unfolding minified_lexemes [OF assms(1)] by blast

text \<open>The text \<^verbatim>\<open>{ /**/"\" /": 1}//\<close> and a line feed.\<close>

theorem cJSON_Minify_lexemes_witness:
  "\<exists>m. cJSON_Minify (Some [0x7b, 0x20, 0x2f, 0x2a, 0x2a, 0x2f, 0x22, 0x5c, 0x22, 0x20, 0x2f, 0x22, 0x3a, 0x20, 0x31, 0x7d, 0x2f, 0x2f, 0x0a, 0]) =
     Some (Some m) \<and> take 11 m = [0x7b, 0x22, 0x5c, 0x22, 0x20, 0x2f, 0x22, 0x3a, 0x31, 0x7d, 0]"
  using cJSON_Minify_lexemes [of "[Other 0x7b, Blank 0x20, Block [], Quoted [Esc 0x22, Plain 0x20, Plain 0x2f],
    Other 0x3a, Blank 0x20, Other 0x31, Other 0x7d, Line []]" "[]"]
  by (simp add: is_blank_def quoted_text_def) (simp only: numeral_nat BitM.simps One_nat_def)

text \<open>
  A string that ends in an escaped backslash is not seen to end: its closing quote is
  taken for an escaped one, the text up to the next quote is kept as if it were inside the
  string, and what follows that quote, the inside of the next string, is minified.
\<close>

theorem minify_escaped_backslash:
  assumes "list_all item_ok xs" and "0x22 \<notin> set gap" and "0x5c \<notin> set gap"
  shows "minified (quoted_text (xs @ [Esc 0x5c]) @ gap @ 0x22 # rest) =
    quoted_text (xs @ [Esc 0x5c]) @ gap @ 0x22 # minified rest"
proof -
  have tail: "string_part (gap @ 0x22 # rest) = (gap @ [0x22], rest)"
    using assms(2,3)
  proof (induction gap)
    case Nil
    then show ?case by (cases rest) auto
  next
    case (Cons c gap)
    then show ?case using string_part_step [of c "gap @ 0x22 # rest"] by simp
  qed
  have "string_part (concat (map item_text zs) @ 0x5c # 0x5c # 0x22 # gap @ 0x22 # rest) =
      (concat (map item_text zs) @ 0x5c # 0x5c # 0x22 # gap @ [0x22], rest)"
    if "list_all item_ok zs" for zs
    using that
  proof (induction zs)
    case Nil
    show ?case using tail string_part_step [of "0x5c" "0x5c # 0x22 # gap @ 0x22 # rest"] by simp
  next
    case (Cons z zs)
    let ?s = "concat (map item_text zs) @ 0x5c # 0x5c # 0x22 # gap @ 0x22 # rest"
    have fst_ok: "hd ?s \<noteq> 0x22"
      using Cons.prems by (cases zs; cases "hd zs") auto
    have IH: "string_part ?s = (concat (map item_text zs) @ 0x5c # 0x5c # 0x22 # gap @ [0x22], rest)"
      using Cons by simp
    show ?case
    proof (cases z)
      case (Plain c)
      with Cons.prems IH string_part_step [of c ?s] show ?thesis by simp
    next
      case (Esc c)
      show ?thesis
      proof (cases "c = 0x22")
        case True
        with Esc IH show ?thesis by simp
      next
        case False
        then have "string_part (c # ?s) = (c # concat (map item_text zs) @ 0x5c # 0x5c # 0x22 # gap @ [0x22], rest)"
          using string_part_step [of c ?s] IH fst_ok by simp
        with False Esc show ?thesis using string_part_step [of "0x5c" "c # ?s"] by simp
      qed
    qed
  qed
  from this [OF assms(1)] show ?thesis by (simp add: quoted_text_def)
qed

text \<open>The text \<^verbatim>\<open>["\\","a b"]\<close> becomes \<^verbatim>\<open>["\\","ab"]\<close>.\<close>

theorem minify_escaped_backslash_witness:
  "minified [0x22, 0x5c, 0x5c, 0x22, 0x2c, 0x22, 0x61, 0x20, 0x62, 0x22] =
   [0x22, 0x5c, 0x5c, 0x22, 0x2c, 0x22, 0x61, 0x62, 0x22]"
  using minify_escaped_backslash [of "[]" "[0x2c]" "[0x61, 0x20, 0x62, 0x22]"]
  by (simp add: quoted_text_def)

end
