(* ===== verification/FloatOps.thy ===== *)
theory FloatOps
  imports Floats Complex_Main
begin

text \<open>
  Arithmetic of the C++ types \<^verbatim>\<open>float\<close> and \<^verbatim>\<open>double\<close> in a given format: sums, products, quotients
  and square roots are exact and then rounded once, and the constants are decimal fractions.
  The lemmas bound a rounded value by the small integers that bound the exact one.
\<close>

subsection \<open>Operations\<close>

definition f_zero :: "format \<Rightarrow> bool \<Rightarrow> dbl" where
  "f_zero fmt neg = round_to fmt neg 0 1"

text \<open>A decimal constant.\<close>

definition lit :: "format \<Rightarrow> nat \<Rightarrow> nat \<Rightarrow> dbl" where
  "lit fmt n d = round_to fmt False n d"

text \<open>The conversion of an integer.\<close>

definition of_integer :: "format \<Rightarrow> int \<Rightarrow> dbl" where
  "of_integer fmt k = round_to fmt (k < 0) (nat \<bar>k\<bar>) 1"

text \<open>The value \<open>n * 2 ^ e / d\<close>, rounded.\<close>

definition scaled_ratio :: "format \<Rightarrow> bool \<Rightarrow> nat \<Rightarrow> int \<Rightarrow> nat \<Rightarrow> dbl" where
  "scaled_ratio fmt neg n e d = (if 0 \<le> e then round_to fmt neg (n * 2 ^ nat e) d
     else round_to fmt neg n (d * 2 ^ nat (- e)))"

fun f_neg :: "dbl \<Rightarrow> dbl" where
  "f_neg NaN = NaN"
| "f_neg (Inf s) = Inf (\<not> s)"
| "f_neg (Fin s m e) = Fin (\<not> s) m e"

fun f_add :: "format \<Rightarrow> dbl \<Rightarrow> dbl \<Rightarrow> dbl" where
  "f_add fmt NaN y = NaN"
| "f_add fmt (Inf s) NaN = NaN"
| "f_add fmt (Fin _ _ _) NaN = NaN"
| "f_add fmt (Inf s) (Inf t) = (if s = t then Inf s else NaN)"
| "f_add fmt (Inf s) (Fin _ _ _) = Inf s"
| "f_add fmt (Fin _ _ _) (Inf t) = Inf t"
| "f_add fmt (Fin s m e) (Fin t n f) =
     (let g = min e f; x = align g s m e + align g t n f
      in if x = 0 then f_zero fmt (s \<and> t) else scaled_ratio fmt (x < 0) (nat \<bar>x\<bar>) g 1)"

definition f_sub :: "format \<Rightarrow> dbl \<Rightarrow> dbl \<Rightarrow> dbl" where
  "f_sub fmt x y = f_add fmt x (f_neg y)"

fun f_mul :: "format \<Rightarrow> dbl \<Rightarrow> dbl \<Rightarrow> dbl" where
  "f_mul fmt NaN y = NaN"
| "f_mul fmt (Inf s) NaN = NaN"
| "f_mul fmt (Fin _ _ _) NaN = NaN"
| "f_mul fmt (Inf s) (Inf t) = Inf (s \<noteq> t)"
| "f_mul fmt (Inf s) (Fin t n f) = (if n = 0 then NaN else Inf (s \<noteq> t))"
| "f_mul fmt (Fin s m e) (Inf t) = (if m = 0 then NaN else Inf (s \<noteq> t))"
| "f_mul fmt (Fin s m e) (Fin t n f) = scaled_ratio fmt (s \<noteq> t) (m * n) (e + f) 1"

fun f_div :: "format \<Rightarrow> dbl \<Rightarrow> dbl \<Rightarrow> dbl" where
  "f_div fmt NaN y = NaN"
| "f_div fmt (Inf s) NaN = NaN"
| "f_div fmt (Fin _ _ _) NaN = NaN"
| "f_div fmt (Inf s) (Inf t) = NaN"
| "f_div fmt (Inf s) (Fin t n f) = Inf (s \<noteq> t)"
| "f_div fmt (Fin s m e) (Inf t) = f_zero fmt (s \<noteq> t)"
| "f_div fmt (Fin s m e) (Fin t n f) =
     (if n = 0 then (if m = 0 then NaN else Inf (s \<noteq> t)) else scaled_ratio fmt (s \<noteq> t) m (e - f) n)"

text \<open>The integral square root, two bits at a time.\<close>

fun isqrt :: "nat \<Rightarrow> nat" where
  "isqrt n = (if n = 0 then 0 else let r = 2 * isqrt (n div 4) in if (r + 1) * (r + 1) \<le> n then r + 1 else r)"

declare isqrt.simps [simp del]

text \<open>
  The significand is widened to four times the precision, the exponent made even, and an inexact
  root gets an odd last bit below the rounding position.
\<close>

fun f_sqrt :: "format \<Rightarrow> dbl \<Rightarrow> dbl" where
  "f_sqrt fmt NaN = NaN"
| "f_sqrt fmt (Inf s) = (if s then NaN else Inf False)"
| "f_sqrt fmt (Fin s m e) = (if m = 0 then Fin s m e else if s then NaN else
     let k = (if even e then 4 * fst fmt else 4 * fst fmt + 1);
         n = m * 2 ^ k; r = isqrt n
     in scaled_ratio fmt False (2 * r + (if r * r < n then 1 else 0)) ((e - int k) div 2 - 1) 1)"

text \<open>\<^verbatim>\<open>round\<close>: to the nearest integer, halves away from zero.\<close>

fun f_round :: "format \<Rightarrow> dbl \<Rightarrow> dbl" where
  "f_round fmt NaN = NaN"
| "f_round fmt (Inf s) = Inf s"
| "f_round fmt (Fin s m e) = round_to fmt s (if 0 \<le> e then m * 2 ^ nat e
     else (2 * m + 2 ^ nat (- e)) div (2 * 2 ^ nat (- e))) 1"

text \<open>\<^verbatim>\<open>x == y\<close>.\<close>

definition f_eq :: "dbl \<Rightarrow> dbl \<Rightarrow> bool" where
  "f_eq x y \<longleftrightarrow> dbl_le x y \<and> dbl_le y x"

fun is_finite_f :: "dbl \<Rightarrow> bool" where
  "is_finite_f NaN = False"
| "is_finite_f (Inf s) = False"
| "is_finite_f (Fin s m e) = True"

subsection \<open>No number appears from nowhere\<close>

lemma scaled_ratio_not_nan [simp]: "scaled_ratio fmt neg n e d \<noteq> NaN"
  by (simp add: scaled_ratio_def)

lemma f_zero_not_nan [simp]: "f_zero fmt neg \<noteq> NaN"
  by (simp add: f_zero_def)

lemma f_mul_not_nan: "is_finite_f x \<Longrightarrow> is_finite_f y \<Longrightarrow> f_mul fmt x y \<noteq> NaN"
  by (cases x; cases y) simp_all

lemma f_add_not_nan: "is_finite_f x \<Longrightarrow> y \<noteq> NaN \<Longrightarrow> f_add fmt x y \<noteq> NaN"
  by (cases x; cases y) (simp_all add: Let_def)

lemma f_neg_eq_nan [simp]: "f_neg x = NaN \<longleftrightarrow> x = NaN"
  by (cases x) simp_all

lemma f_neg_finite [simp]: "is_finite_f (f_neg x) = is_finite_f x"
  by (cases x) simp_all

lemma f_sub_not_nan: "is_finite_f x \<Longrightarrow> y \<noteq> NaN \<Longrightarrow> f_sub fmt x y \<noteq> NaN"
  by (simp add: f_sub_def f_add_not_nan)

lemma dbl_le_linear: "x \<noteq> NaN \<Longrightarrow> y \<noteq> NaN \<Longrightarrow> dbl_le x y \<or> dbl_le y x"
  by (cases x; cases y) (auto simp: Let_def min.commute)

lemma dbl_lt_not_le: "x \<noteq> NaN \<Longrightarrow> y \<noteq> NaN \<Longrightarrow> dbl_lt x y \<longleftrightarrow> \<not> dbl_le y x"
  using dbl_le_linear by (auto simp: dbl_lt_def)

lemma f_neg_sub: "dbl_abs (f_neg x) = dbl_abs x"
  by (cases x) simp_all

subsection \<open>Rounding and bounds\<close>


lemma half_even_le: "0 < d \<Longrightarrow> n \<le> j * d \<Longrightarrow> half_even n d \<le> j"
proof -
  assume d: "0 < d" and le: "n \<le> j * d"
  define q where "q = n div d"
  define r where "r = n mod d"
  have n: "n = q * d + r" "r < d" using d by (simp_all add: q_def r_def)
  have q: "q \<le> j" using div_le_mono [OF le, of d] d by (simp add: q_def)
  have "r = 0" if "q = j" using that n(1) le by simp
  then show ?thesis
    using q d by (cases "q = j") (auto simp: half_even_def Let_def q_def [symmetric] r_def [symmetric])
qed

lemma half_even_ge: "0 < d \<Longrightarrow> j * d \<le> n \<Longrightarrow> j \<le> half_even n d"
proof -
  assume d: "0 < d" and le: "j * d \<le> n"
  have "j \<le> n div d" using div_le_mono [OF le, of d] d by simp
  then show ?thesis by (auto simp: half_even_def Let_def)
qed


text \<open>Formats whose integers up to the precision are values.\<close>

fun format_ok :: "format \<Rightarrow> bool" where
  "format_ok (p, emin, emax) \<longleftrightarrow> 0 < p \<and> emin \<le> 0 \<and> 0 < emax"

lemma format_ok_std [simp]: "format_ok binary32" "format_ok binary64"
  by (simp_all add: binary32_def binary64_def)

fun mag_le :: "dbl \<Rightarrow> nat \<Rightarrow> bool" where
  "mag_le NaN k = False"
| "mag_le (Inf s) k = False"
| "mag_le (Fin s m e) k = (if 0 \<le> e then m * 2 ^ nat e \<le> k else m \<le> k * 2 ^ nat (- e))"

fun mag_ge :: "dbl \<Rightarrow> nat \<Rightarrow> bool" where
  "mag_ge NaN k = False"
| "mag_ge (Inf s) k = True"
| "mag_ge (Fin s m e) k = (if 0 \<le> e then k \<le> m * 2 ^ nat e else k * 2 ^ nat (- e) \<le> m)"

lemma mag_carry:
  assumes "0 < p"
  shows "mag_le (Fin s (2 ^ (p - 1)) (e + 1)) k = mag_le (Fin s (2 ^ p) e) k"
    and "mag_ge (Fin s (2 ^ (p - 1)) (e + 1)) k = mag_ge (Fin s (2 ^ p) e) k"
proof -
  have p: "(2 :: nat) ^ p = 2 * 2 ^ (p - 1)" using assms by (cases p) simp_all
  have pos: "nat (e + 1) = Suc (nat e)" if "0 \<le> e" using that by simp
  have neg: "nat (- e) = Suc (nat (- (e + 1)))" if "e < 0" using that by simp
  consider "0 \<le> e" | "e = - 1" | "e < - 1" by linarith
  then show "mag_le (Fin s (2 ^ (p - 1)) (e + 1)) k = mag_le (Fin s (2 ^ p) e) k"
    and "mag_ge (Fin s (2 ^ (p - 1)) (e + 1)) k = mag_ge (Fin s (2 ^ p) e) k"
    by (cases; auto simp: p pos neg)+
qed

text \<open>Below the exponent 0 a carry into the next power of two changes nothing.\<close>

lemma ilog2_ge:
  assumes "0 < n" and "0 < d" and "0 < ilog2 n d"
  shows "d * 2 ^ nat (ilog2 n d) \<le> n"
proof -
  have le: "d \<le> n" using assms(3) by (auto simp: ilog2_def split: if_splits)
  then have pos: "0 < n div d" using assms(2) by (simp add: div_greater_zero_iff)
  have "2 ^ (bitlen (n div d) - 1) \<le> n div d" using bitlen_pos [OF pos] by simp
  moreover have "nat (ilog2 n d) = bitlen (n div d) - 1" using le by (simp add: ilog2_def)
  ultimately have "d * 2 ^ nat (ilog2 n d) \<le> d * (n div d)" by simp
  also have "\<dots> \<le> n" by simp
  finally show ?thesis .
qed

lemma round_to_mag:
  assumes fmt: "fmt = (p, emin, emax)" and "format_ok fmt" and d: "0 < d" and k: "k \<le> 2 ^ p"
  shows "n \<le> k * d \<Longrightarrow> mag_le (round_to fmt neg n d) k"
    and "k * d \<le> n \<Longrightarrow> mag_ge (round_to fmt neg n d) k"
proof -
  from assms have p: "0 < p" and emin: "emin \<le> 0" and emax: "0 < emax" by simp_all
  define e where "e = max emin (ilog2 n d - (int p - 1))"
  define m where "m = (if 0 \<le> e then half_even n (d * 2 ^ nat e) else half_even (n * 2 ^ nat (- e)) d)"
  have r: "round_to fmt neg n d = (if n = 0 then Fin neg 0 emin
      else let (m', e') = (if m = 2 ^ p then (2 ^ (p - 1), e + 1) else (m, e))
        in if emax < e' then Inf neg else Fin neg m' e')"
    by (simp add: round_to_def fmt e_def m_def Let_def)
  have big: "d * 2 ^ (p - 1 + nat e) \<le> n" if "0 < n" "0 < e"
  proof -
    have i: "ilog2 n d = e + (int p - 1)" using that emin by (simp add: e_def max_def split: if_splits)
    then have "nat (ilog2 n d) = p - 1 + nat e" using that p by simp
    then show ?thesis using ilog2_ge [OF that(1) d] i that p by simp
  qed
  have carry: "(2 :: nat) ^ (p - 1) * 2 = 2 ^ p" using p by (cases p) simp_all
  { assume le: "n \<le> k * d"
    show "mag_le (round_to fmt neg n d) k"
    proof (cases "n = 0")
      case False
      have e: "e \<le> 0 \<or> e = 1 \<and> n = 2 ^ p * d"
      proof (rule ccontr)
        assume c: "\<not> ?thesis"
        then have "0 < e" by simp
        with big False have "d * 2 ^ (p - 1 + nat e) \<le> n" by simp
        moreover have "n \<le> 2 ^ p * d" using le k by (meson le_trans mult_le_mono1)
        ultimately have "d * 2 ^ (p - 1 + nat e) \<le> d * 2 ^ p" by (metis le_trans mult.commute)
        then have "(2 :: nat) ^ (p - 1 + nat e) \<le> 2 ^ p" using d by (simp only: nat_mult_le_cancel1)
        then have "p - 1 + nat e \<le> p" by (rule power_le_imp_le_exp [rotated]) simp
        with c \<open>0 < e\<close> have "e = 1" "n \<noteq> 2 ^ p * d" by auto
        with big False have "d * 2 ^ p \<le> n" using p by simp
        with \<open>n \<le> 2 ^ p * d\<close> \<open>n \<noteq> 2 ^ p * d\<close> show False by (simp add: mult.commute)
      qed
      show ?thesis
      proof (cases "e \<le> 0")
        case True
        have "m \<le> k * 2 ^ nat (- e)"
          using half_even_le [OF d, of "n * 2 ^ nat (- e)" "k * 2 ^ nat (- e)"] half_even_le [OF d, of n k]
            le True by (cases "e = 0") (simp_all add: m_def ac_simps)
        then have "mag_le (Fin neg m e) k" using True by (cases "e = 0") simp_all
        then show ?thesis using False True emax mag_carry(1) [OF p, of neg e k] by (auto simp: r Let_def simp del: mag_le.simps)
      next
        case eq: False
        with e have 1: "e = 1" "n = 2 ^ p * d" by auto
        have "k = 2 ^ p" using le k 1 d by simp
        moreover have "m = 2 ^ (p - 1)"
        proof -
          have "n = 2 ^ (p - 1) * (d * 2)" using 1 carry by (simp add: ac_simps)
          moreover have "m = half_even n (1 * (d * 2))" using 1(1) by (simp add: m_def)
          ultimately have "m = half_even (2 ^ (p - 1) * (d * 2)) (1 * (d * 2))" by (simp only:)
          also have "\<dots> = 2 ^ (p - 1)" using d half_even_scale [of "d * 2" "2 ^ (p - 1)" 1] half_even_1 by simp
          finally show ?thesis .
        qed
        moreover have "(2 :: nat) ^ (p - 1) \<noteq> 2 ^ p" using p by simp
        ultimately show ?thesis unfolding r using 1(1) False emax carry d by simp
      qed
    next
      case True
      then show ?thesis using emin by (simp add: round_to_def fmt)
    qed }
  { assume le: "k * d \<le> n"
    show "mag_ge (round_to fmt neg n d) k"
    proof (cases "n = 0")
      case True
      with le d have "k = 0" by simp
      then show ?thesis by (simp add: round_to_def fmt True)
    next
      case False
      show ?thesis
      proof (cases "0 < e")
        case True
        have "2 ^ (p - 1) \<le> m"
          using half_even_ge [of "d * 2 ^ nat e" "2 ^ (p - 1)" n] big [OF _ True] False d True
          by (simp add: m_def power_add ac_simps)
        moreover have "(2 :: nat) ^ 1 \<le> 2 ^ nat e" using True by (intro power_increasing) simp_all
        ultimately have "2 ^ (p - 1) * 2 \<le> m * 2 ^ nat e" by (intro mult_le_mono) simp_all
        then have "k \<le> m * 2 ^ nat e" using k carry by simp
        moreover have "k \<le> 2 ^ (p - 1) * 2 ^ nat (e + 1)"
        proof -
          have "(2 :: nat) ^ 1 \<le> 2 ^ nat (e + 1)" using True by (intro power_increasing) simp_all
          then have "(2 :: nat) ^ (p - 1) * 2 \<le> 2 ^ (p - 1) * 2 ^ nat (e + 1)" by simp
          with k carry show ?thesis by simp
        qed
        ultimately show ?thesis using True False by (simp add: r Let_def)
      next
        case e: False
        have m: "k * 2 ^ nat (- e) \<le> m"
          using half_even_ge [OF d, of "k * 2 ^ nat (- e)" "n * 2 ^ nat (- e)"] half_even_ge [OF d, of k n]
            le e by (cases "e = 0") (simp_all add: m_def ac_simps)
        then have "mag_ge (Fin neg m e) k" using e by (cases "e = 0") simp_all
        then show ?thesis using False e emax mag_carry(2) [OF p, of neg e k] by (auto simp: r Let_def simp del: mag_ge.simps)
      qed
    qed }
qed



text \<open>Comparisons with integers in terms of the magnitude.\<close>

lemma cmp_int_mag:
  "dbl_le_int (Fin False m e) k \<longleftrightarrow> 0 \<le> k \<and> mag_le (Fin s m e) (nat k)"
  "dbl_le_int (Fin True m e) k \<longleftrightarrow> 0 \<le> k \<or> mag_ge (Fin s m e) (nat (- k))"
  "dbl_ge_int (Fin False m e) k \<longleftrightarrow> k \<le> 0 \<or> mag_ge (Fin s m e) (nat k)"
  "dbl_ge_int (Fin True m e) k \<longleftrightarrow> k \<le> 0 \<and> mag_le (Fin s m e) (nat (- k))"
proof -
  have pos: "0 \<le> int a * 2 ^ b" "- (int a * 2 ^ b) \<le> 0" for a b :: nat by simp_all
  have flip: "int a * 2 ^ b = int (a * 2 ^ b)" for a b by simp
  have ge: "j \<le> - (int a * 2 ^ b) \<longleftrightarrow> int a * 2 ^ b \<le> - j" "- (int a * 2 ^ b) \<le> j \<longleftrightarrow> - j \<le> int a * 2 ^ b"
    "- int a \<le> j * 2 ^ b \<longleftrightarrow> - (j * 2 ^ b) \<le> int a" "j * 2 ^ b \<le> - int a \<longleftrightarrow> int a \<le> - (j * 2 ^ b)" for j a b
    by linarith+
  { fix i :: int assume "0 \<le> i"
    then obtain n where i: "i = int n" using zero_le_imp_eq_int by blast
    have "int a * 2 ^ b \<le> i \<longleftrightarrow> a * 2 ^ b \<le> nat i" "i \<le> int a * 2 ^ b \<longleftrightarrow> nat i \<le> a * 2 ^ b"
      "int a \<le> i * 2 ^ b \<longleftrightarrow> a \<le> nat i * 2 ^ b" "i * 2 ^ b \<le> int a \<longleftrightarrow> nat i * 2 ^ b \<le> a" for a b
      unfolding i flip by (simp_all only: nat_int of_nat_le_iff) }
  note up = this
  have neg: "i * 2 ^ b \<le> 0" if "i < 0" for i :: int and b :: nat
    using that by (simp add: mult_le_0_iff)
  have neg': "int a \<le> i * 2 ^ b \<longleftrightarrow> False" "int a * 2 ^ b \<le> i \<longleftrightarrow> False" if "i < 0" for a b i
    using that neg [OF that, of b] mult_neg_pos [OF that, of "2 ^ b"] by (simp_all add: not_le) (smt (verit) pos(1))
  show "dbl_le_int (Fin False m e) k \<longleftrightarrow> 0 \<le> k \<and> mag_le (Fin s m e) (nat k)"
    by (cases "0 \<le> k") (simp_all add: signed_def up neg')
  show "dbl_ge_int (Fin False m e) k \<longleftrightarrow> k \<le> 0 \<or> mag_ge (Fin s m e) (nat k)"
    using up [of k] neg [of k] by (cases "0 \<le> k") (auto simp: signed_def intro: order_trans [OF _ pos(1)] order_trans [OF neg])
  show "dbl_le_int (Fin True m e) k \<longleftrightarrow> 0 \<le> k \<or> mag_ge (Fin s m e) (nat (- k))"
    using up [of "- k"] neg [of "- k"] by (cases "0 \<le> k") (auto simp: signed_def ge intro: order_trans [of _ 0])
  show "dbl_ge_int (Fin True m e) k \<longleftrightarrow> k \<le> 0 \<and> mag_le (Fin s m e) (nat (- k))"
    using up [of "- k"] neg' [of "- k"] by (cases "k \<le> 0") (auto simp: signed_def ge)
qed


lemma round_to_bounds:
  assumes fmt: "fmt = (p, emin, emax)" and ok: "format_ok fmt" and d: "0 < d" and k: "\<bar>k\<bar> \<le> 2 ^ p"
  shows "signed neg n \<le> k * int d \<Longrightarrow> dbl_le_int (round_to fmt neg n d) k"
    and "k * int d \<le> signed neg n \<Longrightarrow> dbl_ge_int (round_to fmt neg n d) k"
proof -
  have k': "nat \<bar>k\<bar> \<le> 2 ^ p" using k by (simp add: nat_le_iff)
  note mag = round_to_mag [OF fmt ok d k', of n neg]
  have up: "int n \<le> j * int d \<longleftrightarrow> n \<le> nat j * d" "j * int d \<le> int n \<longleftrightarrow> nat j * d \<le> n" if "0 \<le> j" for j
    using that by (auto simp flip: of_nat_le_iff [where 'a = int])
  have neg: "j * int d < 0" if "j < 0" for j using that d by (simp add: mult_less_0_iff)
  have shape: "(\<exists>m e. round_to fmt neg n d = Fin neg m e) \<or> round_to fmt neg n d = Inf neg"
    by (cases fmt) (auto simp: round_to_def Let_def)
  define x where "x = round_to fmt neg n d"
  note mag' = mag [folded x_def]
  note cmp = cmp_int_mag(1) [where s = False] cmp_int_mag(2) [where s = True]
    cmp_int_mag(3) [where s = False] cmp_int_mag(4) [where s = True]
  have le: "dbl_le_int x k \<longleftrightarrow> (if neg then 0 \<le> k \<or> mag_ge x (nat (- k)) else 0 \<le> k \<and> mag_le x (nat k))"
    and ge: "dbl_ge_int x k \<longleftrightarrow> (if neg then k \<le> 0 \<and> mag_le x (nat (- k)) else k \<le> 0 \<or> mag_ge x (nat k))"
    using shape [folded x_def] cmp by (cases neg; auto simp del: mag_le.simps(3) mag_ge.simps(3) dbl_le_int.simps(3) dbl_ge_int.simps(3))+
  show "dbl_le_int (round_to fmt neg n d) k" if "signed neg n \<le> k * int d"
  proof (cases "0 \<le> k")
    case True
    then show ?thesis using that mag'(1) up(1) by (auto simp: signed_def le simp flip: x_def)
  next
    case False
    then show ?thesis
      using that mag'(2) up(2) [of "- k"] neg [of k] by (auto simp: signed_def le simp flip: x_def split: if_splits)
  qed
  show "dbl_ge_int (round_to fmt neg n d) k" if "k * int d \<le> signed neg n"
  proof (cases "0 < k")
    case True
    then show ?thesis using that mag'(2) up(2) neg [of "- k"] by (auto simp: signed_def ge simp flip: x_def split: if_splits)
  next
    case False
    then show ?thesis
      using that mag'(1) up(1) [of "- k"] by (auto simp: signed_def ge simp flip: x_def split: if_splits)
  qed
qed

text \<open>A format with precision \<open>p\<close>.\<close>

definition precision :: "format \<Rightarrow> nat" where
  "precision fmt = fst fmt"

lemma precision_std [simp]: "precision binary32 = 24" "precision binary64 = 53"
  by (simp_all add: precision_def binary32_def binary64_def)

lemma scaled_ratio_bounds:
  assumes ok: "format_ok fmt" and d: "0 < d" and k: "\<bar>k\<bar> \<le> 2 ^ precision fmt"
  shows "(if 0 \<le> e then signed neg n * 2 ^ nat e \<le> k * int d else signed neg n \<le> k * int d * 2 ^ nat (- e)) \<Longrightarrow>
      dbl_le_int (scaled_ratio fmt neg n e d) k"
    and "(if 0 \<le> e then k * int d \<le> signed neg n * 2 ^ nat e else k * int d * 2 ^ nat (- e) \<le> signed neg n) \<Longrightarrow>
      dbl_ge_int (scaled_ratio fmt neg n e d) k"
proof -
  obtain p emin emax where fmt: "fmt = (p, emin, emax)" by (cases fmt) auto
  have k': "\<bar>k\<bar> \<le> 2 ^ p" using k by (simp add: fmt precision_def)
  note b = round_to_bounds [OF fmt ok _ k']
  have s: "signed neg (n * 2 ^ j) = signed neg n * 2 ^ j" for j by (simp add: signed_def)
  show "dbl_le_int (scaled_ratio fmt neg n e d) k"
    if "if 0 \<le> e then signed neg n * 2 ^ nat e \<le> k * int d else signed neg n \<le> k * int d * 2 ^ nat (- e)"
    using that d b(1) [of d neg "n * 2 ^ nat e"] b(1) [of "d * 2 ^ nat (- e)" neg n]
    by (auto simp: scaled_ratio_def s mult.assoc split: if_splits)
  show "dbl_ge_int (scaled_ratio fmt neg n e d) k"
    if "if 0 \<le> e then k * int d \<le> signed neg n * 2 ^ nat e else k * int d * 2 ^ nat (- e) \<le> signed neg n"
    using that d b(2) [of d neg "n * 2 ^ nat e"] b(2) [of "d * 2 ^ nat (- e)" neg n]
    by (auto simp: scaled_ratio_def s mult.assoc split: if_splits)
qed

lemma align_cmp:
  assumes "g \<le> e"
  shows "dbl_ge_int (Fin s m e) k \<longleftrightarrow> (if 0 \<le> g then k \<le> align g s m e * 2 ^ nat g else k * 2 ^ nat (- g) \<le> align g s m e)"
    and "dbl_le_int (Fin s m e) k \<longleftrightarrow> (if 0 \<le> g then align g s m e * 2 ^ nat g \<le> k else align g s m e \<le> k * 2 ^ nat (- g))"
proof -
  have s: "signed s (m * 2 ^ j) = signed s m * 2 ^ j" for j by (simp add: signed_def)
  have pow: "(2 :: int) ^ nat (e - g) * 2 ^ nat g = 2 ^ nat e" if "0 \<le> g"
    using that assms by (simp add: nat_diff_distrib flip: power_add)
  have pow2: "(2 :: int) ^ nat (e - g) = 2 ^ nat e * 2 ^ nat (- g)" if "g < 0" "0 \<le> e"
    using that by (simp add: nat_add_distrib flip: power_add)
  have pow3: "(2 :: int) ^ nat (- g) = 2 ^ nat (- e) * 2 ^ nat (e - g)" if "e < 0"
    using that assms by (simp add: nat_add_distrib [symmetric] flip: power_add)
  consider "0 \<le> g" "0 \<le> e" | "g < 0" "0 \<le> e" | "g < 0" "e < 0" using assms by linarith
  then have "(if 0 \<le> g then k \<le> align g s m e * 2 ^ nat g else k * 2 ^ nat (- g) \<le> align g s m e) = dbl_ge_int (Fin s m e) k \<and>
    (if 0 \<le> g then align g s m e * 2 ^ nat g \<le> k else align g s m e \<le> k * 2 ^ nat (- g)) = dbl_le_int (Fin s m e) k"
  proof cases
    case 1
    then show ?thesis by (simp add: align_def s mult.assoc pow)
  next
    case 2
    have "align g s m e = signed s m * 2 ^ nat e * 2 ^ nat (- g)" using 2 by (simp only: align_def pow2 mult.assoc)
    then show ?thesis using 2 by (simp add: s)
  next
    case 3
    have "k * 2 ^ nat (- g) = k * 2 ^ nat (- e) * 2 ^ nat (e - g)" using 3 by (simp only: pow3 mult.assoc)
    then show ?thesis using 3 by (simp only: align_def mult_le_cancel_right) simp
  qed
  then show "dbl_ge_int (Fin s m e) k \<longleftrightarrow> (if 0 \<le> g then k \<le> align g s m e * 2 ^ nat g else k * 2 ^ nat (- g) \<le> align g s m e)"
    and "dbl_le_int (Fin s m e) k \<longleftrightarrow> (if 0 \<le> g then align g s m e * 2 ^ nat g \<le> k else align g s m e \<le> k * 2 ^ nat (- g))"
    by blast+
qed

lemma signed_abs: "signed (x < 0) (nat \<bar>x\<bar>) = x"
  by (simp add: signed_def)

lemma f_zero_cmp:
  assumes "format_ok fmt"
  shows "dbl_ge_int (f_zero fmt s) k \<longleftrightarrow> k \<le> 0" and "dbl_le_int (f_zero fmt s) k \<longleftrightarrow> 0 \<le> k"
  using assms by (cases fmt; simp add: f_zero_def round_to_def signed_def mult_le_0_iff zero_le_mult_iff)+

lemma f_add_bounds:
  assumes ok: "format_ok fmt" and fin: "is_finite_f x" "is_finite_f y" and k: "\<bar>a + b\<bar> \<le> 2 ^ precision fmt"
  shows "dbl_ge_int x a \<Longrightarrow> dbl_ge_int y b \<Longrightarrow> dbl_ge_int (f_add fmt x y) (a + b)"
    and "dbl_le_int x a \<Longrightarrow> dbl_le_int y b \<Longrightarrow> dbl_le_int (f_add fmt x y) (a + b)"
proof -
  obtain s m e t n f where xy: "x = Fin s m e" "y = Fin t n f"
    using fin by (cases x; cases y) auto
  define g where "g = min e f"
  have g: "g \<le> e" "g \<le> f" by (simp_all add: g_def)
  define z where "z = align g s m e + align g t n f"
  have add: "f_add fmt x y = (if z = 0 then f_zero fmt (s \<and> t) else scaled_ratio fmt (z < 0) (nat \<bar>z\<bar>) g 1)"
    by (simp add: xy z_def Let_def flip: g_def)
  note zb = scaled_ratio_bounds [OF ok _ k, of 1 g "z < 0" "nat \<bar>z\<bar>", unfolded signed_abs, simplified]
  { assume "dbl_ge_int x a" "dbl_ge_int y b"
    then have c: "if 0 \<le> g then a + b \<le> z * 2 ^ nat g else (a + b) * 2 ^ nat (- g) \<le> z"
      unfolding xy align_cmp(1) [OF g(1)] align_cmp(1) [OF g(2)]
      by (auto simp: z_def distrib_right split: if_splits)
    then have "a + b \<le> 0" if "z = 0" using that by (auto simp: mult_le_0_iff split: if_splits)
    with c zb(2) show "dbl_ge_int (f_add fmt x y) (a + b)"
      using f_zero_cmp(1) [OF ok] by (auto simp: add split: if_splits) }
  { assume "dbl_le_int x a" "dbl_le_int y b"
    then have c: "if 0 \<le> g then z * 2 ^ nat g \<le> a + b else z \<le> (a + b) * 2 ^ nat (- g)"
      unfolding xy align_cmp(2) [OF g(1)] align_cmp(2) [OF g(2)]
      by (auto simp: z_def distrib_right split: if_splits)
    then have "0 \<le> a + b" if "z = 0" using that by (auto simp: zero_le_mult_iff split: if_splits)
    with c zb(1) show "dbl_le_int (f_add fmt x y) (a + b)"
      using f_zero_cmp(2) [OF ok] by (auto simp: add split: if_splits) }
qed

lemma mag_le_int: "mag_le x k \<longleftrightarrow> dbl_le_int x (int k) \<and> dbl_ge_int x (- int k)"
proof (cases x)
  case (Fin s m e)
  show ?thesis unfolding Fin
    by (cases s) (simp_all add: cmp_int_mag [where s = s] del: dbl_le_int.simps dbl_ge_int.simps mag_le.simps mag_ge.simps;
      cases "k = 0"; auto)+
qed auto

lemma mag_le_uniform: "mag_le (Fin s m e) k \<longleftrightarrow> m * 2 ^ nat e \<le> k * 2 ^ nat (- e)"
  by (cases "0 \<le> e") simp_all

lemma f_mul_mag:
  assumes ok: "format_ok fmt" and k: "a * b \<le> 2 ^ precision fmt" and x: "mag_le x a" and y: "mag_le y b"
  shows "mag_le (f_mul fmt x y) (a * b)"
proof -
  obtain p emin emax where fmt: "fmt = (p, emin, emax)" by (cases fmt) auto
  obtain s m e t n f where xy: "x = Fin s m e" "y = Fin t n f" using x y by (cases x; cases y) auto
  define c where "c = nat e + nat f - nat (e + f)"
  have c: "nat e + nat f = nat (e + f) + c" "nat (- e) + nat (- f) = nat (- (e + f)) + c"
    by (simp_all add: c_def)
  have "(m * 2 ^ nat e) * (n * 2 ^ nat f) \<le> (a * 2 ^ nat (- e)) * (b * 2 ^ nat (- f))"
    using x y by (intro mult_le_mono [of "m * _"]) (simp_all add: xy mag_le_uniform del: mag_le.simps)
  then have "m * n * 2 ^ (nat e + nat f) \<le> a * b * 2 ^ (nat (- e) + nat (- f))"
    by (simp add: power_add ac_simps)
  then have "m * n * 2 ^ nat (e + f) * 2 ^ c \<le> a * b * 2 ^ nat (- (e + f)) * 2 ^ c"
    by (simp only: c power_add mult.assoc)
  then have *: "m * n * 2 ^ nat (e + f) \<le> a * b * 2 ^ nat (- (e + f))" by simp
  have k': "a * b \<le> 2 ^ p" using k by (simp add: fmt precision_def)
  show ?thesis
    using * round_to_mag(1) [OF fmt ok _ k', of 1 "m * n * 2 ^ nat (e + f)"]
      round_to_mag(1) [OF fmt ok _ k', of "2 ^ nat (- (e + f))" "m * n"]
    by (cases "0 \<le> e + f") (simp_all add: xy scaled_ratio_def)
qed

lemma of_integer_bounds:
  assumes "format_ok fmt" and "\<bar>k\<bar> \<le> 2 ^ precision fmt"
  shows "dbl_le_int (of_integer fmt k) k" and "dbl_ge_int (of_integer fmt k) k"
proof -
  obtain p emin emax where fmt: "fmt = (p, emin, emax)" by (cases fmt) auto
  then have k: "\<bar>k\<bar> \<le> 2 ^ p" using assms(2) by (simp add: precision_def)
  show "dbl_le_int (of_integer fmt k) k" and "dbl_ge_int (of_integer fmt k) k"
    using round_to_bounds [OF fmt assms(1) _ k, of 1 "k < 0" "nat \<bar>k\<bar>"] by (simp_all add: of_integer_def signed_abs)
qed

lemma finite_of_bounds: "dbl_ge_int x a \<Longrightarrow> dbl_le_int x b \<Longrightarrow> is_finite_f x"
  by (cases x) auto

lemma cmp_int_mono: "dbl_le_int x a \<Longrightarrow> a \<le> b \<Longrightarrow> dbl_le_int x b" "dbl_ge_int x b \<Longrightarrow> a \<le> b \<Longrightarrow> dbl_ge_int x a"
proof -
  have m: "a \<le> b \<Longrightarrow> a * 2 ^ j \<le> b * 2 ^ j" for j :: nat by (simp add: mult_right_mono)
  show "dbl_le_int x a \<Longrightarrow> a \<le> b \<Longrightarrow> dbl_le_int x b"
    by (cases x) (auto split: if_splits intro: order_trans [OF _ m])
  show "dbl_ge_int x b \<Longrightarrow> a \<le> b \<Longrightarrow> dbl_ge_int x a"
    by (cases x) (auto split: if_splits intro: order_trans [OF m])
qed

lemma cmp_int_linear: "x \<noteq> NaN \<Longrightarrow> dbl_le_int x k \<or> dbl_ge_int x k"
  by (cases x) auto

subsection \<open>Values of a format\<close>

text \<open>What the format can represent; every rounded value is such.\<close>

fun f_ok :: "format \<Rightarrow> dbl \<Rightarrow> bool" where
  "f_ok (p, emin, emax) NaN = True"
| "f_ok (p, emin, emax) (Inf s) = True"
| "f_ok (p, emin, emax) (Fin s m e) \<longleftrightarrow> emin \<le> e \<and> e \<le> emax \<and> m < 2 ^ p"

lemma ilog2_spec:
  assumes n: "0 < n" and d: "0 < d"
  shows "d * 2 ^ nat (ilog2 n d) \<le> n * 2 ^ nat (- ilog2 n d)"
    and "n * 2 ^ nat (- (ilog2 n d + 1)) < d * 2 ^ nat (ilog2 n d + 1)"
proof -
  have "d * 2 ^ nat (ilog2 n d) \<le> n * 2 ^ nat (- ilog2 n d) \<and>
    n * 2 ^ nat (- (ilog2 n d + 1)) < d * 2 ^ nat (ilog2 n d + 1)"
  proof (cases "d \<le> n")
    case True
    define b where "b = bitlen (n div d)"
    have "0 < n div d" using True d by (simp add: div_greater_zero_iff)
    then have b: "2 ^ (b - 1) \<le> n div d" "n div d < 2 ^ b" "0 < b" using bitlen_pos by (auto simp: b_def)
    have i: "ilog2 n d = int b - 1" using True by (simp add: ilog2_def b_def)
    have "d * 2 ^ (b - 1) \<le> d * (n div d)" using b(1) by simp
    also have "\<dots> \<le> n" by simp
    finally have lower: "d * 2 ^ (b - 1) \<le> n" .
    have "n < d * (n div d + 1)" using d by (metis Suc_eq_plus1 dividend_less_times_div mult_Suc_right)
    also have "\<dots> \<le> d * 2 ^ b" using b(2) by (intro mult_le_mono2) simp
    finally have "n < d * 2 ^ b" .
    moreover have "nat (int b - 1) = b - 1" "nat (- (int b - 1)) = 0" using b(3) by auto
    ultimately show ?thesis using lower b(3) by (simp add: i)
  next
    case False
    define c where "c = (d + n - 1) div n"
    define b where "b = bitlen (c - 1)"
    have c: "d \<le> n * c" "n * (c - 1) < d"
    proof -
      have "d + n - 1 < n * (c + 1)" using n by (metis Suc_eq_plus1 c_def dividend_less_times_div mult_Suc_right)
      then show "d \<le> n * c" using n by simp
      have "n * c \<le> d + n - 1" by (simp add: c_def)
      then have "n * c < d + n" using n d by linarith
      then show "n * (c - 1) < d" by (cases c) (simp_all add: d)
    qed
    have "1 < c"
    proof (rule ccontr)
      assume "\<not> ?thesis"
      then have "n * c \<le> n * 1" by (intro mult_le_mono2) simp
      with c(1) False show False by simp
    qed
    then have b: "2 ^ (b - 1) \<le> c - 1" "c - 1 < 2 ^ b" "0 < b" using bitlen_pos [of "c - 1"] by (auto simp: b_def)
    have i: "ilog2 n d = - int b" using False by (simp add: ilog2_def b_def c_def)
    have "n * c \<le> n * 2 ^ b" using b(2) by (intro mult_le_mono2) simp
    with c(1) have "d \<le> n * 2 ^ b" by (rule le_trans)
    moreover have "n * 2 ^ (b - 1) \<le> n * (c - 1)" using b(1) by simp
    then have "n * 2 ^ (b - 1) < d" using c(2) by (rule le_less_trans)
    moreover have "nat (- (- int b + 1)) = b - 1" "nat (- int b + 1) = 0" using b(3) by auto
    ultimately show ?thesis by (simp add: i)
  qed
  then show "d * 2 ^ nat (ilog2 n d) \<le> n * 2 ^ nat (- ilog2 n d)"
    and "n * 2 ^ nat (- (ilog2 n d + 1)) < d * 2 ^ nat (ilog2 n d + 1)" by blast+
qed

text \<open>The value of a finite number.\<close>

fun val :: "dbl \<Rightarrow> real" where
  "val NaN = 0"
| "val (Inf s) = 0"
| "val (Fin s m e) = of_int (signed s m) * 2 powi e"

lemma powi_nat: "(2 :: real) powi e = 2 ^ nat e / 2 ^ nat (- e)"
  by (cases "0 \<le> e") (simp_all add: power_int_def field_simps)

lemma powi_pos [simp]: "\<not> (2 :: real) powi e \<le> 0" "\<not> (2 :: real) powi e < 0"
  by (simp_all add: not_le not_less)

lemma ilog2_real:
  assumes n: "0 < n" and d: "0 < d"
  shows "2 powi ilog2 n d \<le> real n / real d" and "real n / real d < 2 powi (ilog2 n d + 1)"
proof -
  have "real (d * 2 ^ nat (ilog2 n d)) \<le> real (n * 2 ^ nat (- ilog2 n d))"
    using ilog2_spec(1) [OF n d] by (simp only: of_nat_le_iff)
  then show "2 powi ilog2 n d \<le> real n / real d" using d by (simp add: powi_nat field_simps)
  have "real (n * 2 ^ nat (- (ilog2 n d + 1))) < real (d * 2 ^ nat (ilog2 n d + 1))"
    using ilog2_spec(2) [OF n d] by (simp only: of_nat_less_iff)
  then show "real n / real d < 2 powi (ilog2 n d + 1)" using d by (simp add: powi_nat field_simps)
qed

lemma align_val: "g \<le> e \<Longrightarrow> val (Fin s m e) = of_int (align g s m e) * 2 powi g"
proof -
  assume "g \<le> e"
  then have "(2 :: real) powi e = 2 ^ nat (e - g) * 2 powi g"
    by (simp add: power_int_add [symmetric] flip: power_int_of_nat)
  then show ?thesis by (simp add: align_def)
qed

lemma dbl_le_val: "dbl_le (Fin s m e) (Fin t n f) \<longleftrightarrow> val (Fin s m e) \<le> val (Fin t n f)"
proof -
  let ?g = "min e f"
  have "val (Fin s m e) = of_int (align ?g s m e) * 2 powi ?g" "val (Fin t n f) = of_int (align ?g t n f) * 2 powi ?g"
    by (rule align_val; simp)+
  then show ?thesis by (simp add: Let_def)
qed

text \<open>The significand before a carry is the value rounded at the last place.\<close>

lemma round_to_spec:
  assumes fmt: "fmt = (p, emin, emax)" and p: "0 < p" and n: "0 < n" and d: "0 < d"
  obtains m e m' e' where "round_to fmt neg n d = (if emax < e' then Inf neg else Fin neg m' e')"
    and "emin \<le> e" and "e' = e \<and> m' = m \<or> e' = e + 1 \<and> m' = 2 ^ (p - 1) \<and> m = 2 ^ p"
    and "m' < 2 ^ p" and "e = emin \<or> 2 powi (int p - 1 + e) \<le> real n / real d"
    and "\<And>j. real n / real d \<le> real j * 2 powi e \<Longrightarrow> m \<le> j" and "\<And>j. real j * 2 powi e \<le> real n / real d \<Longrightarrow> j \<le> m"
proof -
  define e where "e = max emin (ilog2 n d - (int p - 1))"
  define m where "m = (if 0 \<le> e then half_even n (d * 2 ^ nat e) else half_even (n * 2 ^ nat (- e)) d)"
  define me where "me = (if m = 2 ^ p then (2 ^ (p - 1), e + 1) else (m, e))"
  have r: "round_to fmt neg n d = (if emax < snd me then Inf neg else Fin neg (fst me) (snd me))"
    using n by (simp add: round_to_def fmt e_def m_def me_def Let_def split: prod.split)
  have le: "m \<le> j" if "real n / real d \<le> real j * 2 powi e" for j
  proof (cases "0 \<le> e")
    case True
    then have "real n \<le> real (j * (d * 2 ^ nat e))" using that d by (simp add: powi_nat field_simps)
    then show ?thesis using True d half_even_le [of "d * 2 ^ nat e" n j] by (simp only: of_nat_le_iff m_def) simp
  next
    case False
    then have "real (n * 2 ^ nat (- e)) \<le> real (j * d)" using that d by (simp add: powi_nat field_simps)
    then show ?thesis using False d half_even_le [of d "n * 2 ^ nat (- e)" j] by (simp only: of_nat_le_iff m_def) simp
  qed
  have ge: "j \<le> m" if "real j * 2 powi e \<le> real n / real d" for j
  proof (cases "0 \<le> e")
    case True
    then have "real (j * (d * 2 ^ nat e)) \<le> real n" using that d by (simp add: powi_nat field_simps)
    then show ?thesis using True d half_even_ge [of "d * 2 ^ nat e" j n] by (simp only: of_nat_le_iff m_def) simp
  next
    case False
    then have "real (j * d) \<le> real (n * 2 ^ nat (- e))" using that d by (simp add: powi_nat field_simps)
    then show ?thesis using False d half_even_ge [of d j "n * 2 ^ nat (- e)"] by (simp only: of_nat_le_iff m_def) simp
  qed
  have normal: "e = emin \<or> 2 powi (int p - 1 + e) \<le> real n / real d"
    using ilog2_real(1) [OF n d] by (auto simp: e_def max_def)
  have "real n / real d < 2 powi (ilog2 n d + 1)" by (rule ilog2_real(2) [OF n d])
  also have "\<dots> \<le> 2 powi (int p + e)" by (rule power_int_increasing) (simp_all add: e_def)
  also have "\<dots> = real (2 ^ p) * 2 powi e" by (simp add: power_int_add)
  finally have "m \<le> 2 ^ p" by (intro le) simp
  then have "fst me < 2 ^ p" using p by (auto simp: me_def)
  moreover have "snd me = e \<and> fst me = m \<or> snd me = e + 1 \<and> fst me = 2 ^ (p - 1) \<and> m = 2 ^ p" by (simp add: me_def)
  moreover have "emin \<le> e" by (simp add: e_def)
  ultimately show ?thesis using that [OF r] le ge normal by blast
qed


lemma pow2_lt: "m < 2 ^ p \<Longrightarrow> real m * 2 powi e < 2 powi (int p + e)"
proof -
  assume "m < 2 ^ p"
  then have "real m < 2 ^ p" by (metis of_nat_less_iff of_nat_numeral of_nat_power)
  then show ?thesis by (simp add: power_int_add)
qed

lemma shift_le: "e \<le> f \<Longrightarrow> real m * 2 powi f = real (m * 2 ^ nat (f - e)) * 2 powi e"
  by (simp add: power_int_add [symmetric] flip: power_int_of_nat)

lemma round_to_ok: "format_ok fmt \<Longrightarrow> 0 < d \<Longrightarrow> f_ok fmt (round_to fmt neg n d)"
proof -
  assume ok: "format_ok fmt" and d: "0 < d"
  obtain p emin emax where fmt: "fmt = (p, emin, emax)" by (cases fmt) auto
  show ?thesis
  proof (cases "n = 0")
    case True
    with ok show ?thesis by (simp add: round_to_def fmt)
  next
    case False
    with ok obtain m e m' e' where r: "round_to fmt neg n d = (if emax < e' then Inf neg else Fin neg m' e')"
      and "emin \<le> e" and "e' = e \<and> m' = m \<or> e' = e + 1 \<and> m' = 2 ^ (p - 1) \<and> m = 2 ^ p" and "m' < 2 ^ p"
      using round_to_spec [OF fmt _ _ d, where neg = neg] by (metis format_ok.simps fmt neq0_conv)
    then show ?thesis by (auto simp: fmt)
  qed
qed

lemma round_rep:
  assumes ok: "format_ok fmt" and d: "0 < d" and rep: "f_ok fmt (Fin s M E)"
  shows "real n / real d \<le> real M * 2 powi E \<Longrightarrow>
      \<exists>m e. round_to fmt neg n d = Fin neg m e \<and> real m * 2 powi e \<le> real M * 2 powi E"
    and "real M * 2 powi E \<le> real n / real d \<Longrightarrow>
      round_to fmt neg n d = Inf neg \<or> (\<exists>m e. round_to fmt neg n d = Fin neg m e \<and> real M * 2 powi E \<le> real m * 2 powi e)"
proof -
  obtain p emin emax where fmt: "fmt = (p, emin, emax)" by (cases fmt) auto
  from ok have p: "0 < p" by (simp add: fmt)
  from rep have E: "emin \<le> E" "E \<le> emax" and M: "M < 2 ^ p" by (auto simp: fmt)
  have "(real n / real d \<le> real M * 2 powi E \<longrightarrow>
      (\<exists>m e. round_to fmt neg n d = Fin neg m e \<and> real m * 2 powi e \<le> real M * 2 powi E)) \<and>
    (real M * 2 powi E \<le> real n / real d \<longrightarrow>
      round_to fmt neg n d = Inf neg \<or> (\<exists>m e. round_to fmt neg n d = Fin neg m e \<and> real M * 2 powi E \<le> real m * 2 powi e))"
  proof (cases "n = 0")
    case True
    have "0 \<le> real M * 2 powi E" by simp
    with True show ?thesis by (simp add: round_to_def fmt)
  next
    case False
    then have n: "0 < n" by simp
    obtain m e m' e' where r: "round_to fmt neg n d = (if emax < e' then Inf neg else Fin neg m' e')"
      and e: "emin \<le> e" and me: "e' = e \<and> m' = m \<or> e' = e + 1 \<and> m' = 2 ^ (p - 1) \<and> m = 2 ^ p"
      and m': "m' < 2 ^ p" and normal: "e = emin \<or> 2 powi (int p - 1 + e) \<le> real n / real d"
      and le: "\<And>j. real n / real d \<le> real j * 2 powi e \<Longrightarrow> m \<le> j"
      and ge: "\<And>j. real j * 2 powi e \<le> real n / real d \<Longrightarrow> j \<le> m"
      by (rule round_to_spec [OF fmt p n d, where neg = neg]) (rule that)
    have "(2 :: real) ^ p = 2 ^ (p - 1) * 2" using p by (cases p) simp_all
    then have same: "real m' * 2 powi e' = real m * 2 powi e" using me by (auto simp: power_int_add_1')
    have big: "real M * 2 powi E < 2 powi (int p - 1 + e)" if "E < e"
    proof -
      have "real M * 2 powi E < 2 powi (int p + E)" using M by (rule pow2_lt)
      also have "\<dots> \<le> 2 powi (int p - 1 + e)" using that by (intro power_int_increasing) simp_all
      finally show ?thesis .
    qed
    show ?thesis
    proof (intro conjI impI)
      assume q: "real n / real d \<le> real M * 2 powi E"
      have eE: "e \<le> E" using big normal q e E(1) by fastforce
      then have "m \<le> M * 2 ^ nat (E - e)" using q by (intro le) (simp add: shift_le)
      then have v: "real m * 2 powi e \<le> real M * 2 powi E" using eE by (simp add: shift_le flip: of_nat_mult of_nat_power)
      have "e' \<le> emax"
      proof (cases "e' = e")
        case True
        with eE E show ?thesis by simp
      next
        case False
        with me have "e' = e + 1" "m = 2 ^ p" by auto
        have "2 powi (int p + e) = real m * 2 powi e" using \<open>m = 2 ^ p\<close> by (simp add: power_int_add)
        also have "\<dots> < (2 :: real) powi (int p + E)" using v pow2_lt [OF M, of E] by linarith
        finally have "(2 :: real) powi (int p + e) < 2 powi (int p + E)" .
        then have "e < E" using power_int_increasing [of "int p + E" "int p + e" "2 :: real"] by fastforce
        with \<open>e' = e + 1\<close> E show ?thesis by simp
      qed
      then show "\<exists>m e. round_to fmt neg n d = Fin neg m e \<and> real m * 2 powi e \<le> real M * 2 powi E"
        using r same v by auto
    next
      assume q: "real M * 2 powi E \<le> real n / real d"
      have "real M * 2 powi E \<le> real m * 2 powi e"
      proof (cases "e \<le> E")
        case True
        then have "M * 2 ^ nat (E - e) \<le> m" using q by (intro ge) (simp add: shift_le)
        then show ?thesis using True by (simp add: shift_le flip: of_nat_mult of_nat_power)
      next
        case False
        then have "2 powi (int p - 1 + e) \<le> real n / real d" using normal e E(1) by auto
        moreover have "2 powi (int p - 1 + e) = real (2 ^ (p - 1)) * 2 powi e" using p
          by (simp add: power_int_add of_nat_diff flip: power_int_of_nat)
        ultimately have "2 ^ (p - 1) \<le> m" by (intro ge) simp
        then have "real (2 ^ (p - 1)) * 2 powi e \<le> real m * 2 powi e" by (intro mult_right_mono) (simp_all only: of_nat_le_iff, simp)
        then show ?thesis using big False \<open>2 powi (int p - 1 + e) = real (2 ^ (p - 1)) * 2 powi e\<close> by linarith
      qed
      then show "round_to fmt neg n d = Inf neg \<or> (\<exists>m e. round_to fmt neg n d = Fin neg m e \<and> real M * 2 powi E \<le> real m * 2 powi e)"
        using r same by auto
    qed
  qed
  then show "real n / real d \<le> real M * 2 powi E \<Longrightarrow>
      \<exists>m e. round_to fmt neg n d = Fin neg m e \<and> real m * 2 powi e \<le> real M * 2 powi E"
    and "real M * 2 powi E \<le> real n / real d \<Longrightarrow>
      round_to fmt neg n d = Inf neg \<or> (\<exists>m e. round_to fmt neg n d = Fin neg m e \<and> real M * 2 powi E \<le> real m * 2 powi e)"
    by blast+
qed


lemma scaled_ratio_round:
  assumes "0 < d"
  obtains n' d' where "scaled_ratio fmt neg n e d = round_to fmt neg n' d'" and "0 < d'"
    and "real n' / real d' = real n * 2 powi e / real d"
  using assms by (cases "0 \<le> e") (auto simp: scaled_ratio_def powi_nat)

lemma scaled_rep:
  assumes ok: "format_ok fmt" and d: "0 < d" and rep: "f_ok fmt (Fin s M E)"
  shows "real n * 2 powi e / real d \<le> real M * 2 powi E \<Longrightarrow>
      \<exists>m' e'. scaled_ratio fmt neg n e d = Fin neg m' e' \<and> real m' * 2 powi e' \<le> real M * 2 powi E"
    and "real M * 2 powi E \<le> real n * 2 powi e / real d \<Longrightarrow> scaled_ratio fmt neg n e d = Inf neg \<or>
      (\<exists>m' e'. scaled_ratio fmt neg n e d = Fin neg m' e' \<and> real M * 2 powi E \<le> real m' * 2 powi e')"
proof -
  obtain n' d' where "scaled_ratio fmt neg n e d = round_to fmt neg n' d'" "0 < d'"
    "real n' / real d' = real n * 2 powi e / real d" by (rule scaled_ratio_round [OF d])
  then show "real n * 2 powi e / real d \<le> real M * 2 powi E \<Longrightarrow>
      \<exists>m' e'. scaled_ratio fmt neg n e d = Fin neg m' e' \<and> real m' * 2 powi e' \<le> real M * 2 powi E"
    and "real M * 2 powi E \<le> real n * 2 powi e / real d \<Longrightarrow> scaled_ratio fmt neg n e d = Inf neg \<or>
      (\<exists>m' e'. scaled_ratio fmt neg n e d = Fin neg m' e' \<and> real M * 2 powi E \<le> real m' * 2 powi e')"
    using round_rep [OF ok _ rep] by metis+
qed

lemma scaled_ratio_ok: "format_ok fmt \<Longrightarrow> 0 < d \<Longrightarrow> f_ok fmt (scaled_ratio fmt neg n e d)"
  by (simp add: scaled_ratio_def round_to_ok)

lemma f_zero_ok: "format_ok fmt \<Longrightarrow> f_ok fmt (f_zero fmt s)"
  by (simp add: f_zero_def round_to_ok)

lemma f_ok_nan_inf [simp]: "f_ok fmt NaN" "f_ok fmt (Inf s)"
  by (cases fmt; simp)+

lemma f_add_ok: "format_ok fmt \<Longrightarrow> f_ok fmt (f_add fmt x y)"
  by (cases x; cases y) (simp_all add: Let_def scaled_ratio_ok f_zero_ok)

lemma f_sub_ok: "format_ok fmt \<Longrightarrow> f_ok fmt (f_sub fmt x y)"
  by (simp add: f_sub_def f_add_ok)

lemma f_mul_ok: "format_ok fmt \<Longrightarrow> f_ok fmt (f_mul fmt x y)"
  by (cases x; cases y) (simp_all add: scaled_ratio_ok)

lemma f_div_ok: "format_ok fmt \<Longrightarrow> f_ok fmt (f_div fmt x y)"
  by (cases x; cases y) (simp_all add: scaled_ratio_ok f_zero_ok)

text \<open>A finite value that is not negative.\<close>

fun nonneg :: "dbl \<Rightarrow> bool" where
  "nonneg NaN = False"
| "nonneg (Inf s) = False"
| "nonneg (Fin s m e) \<longleftrightarrow> \<not> s \<or> m = 0"

lemma nonneg_val: "nonneg x \<Longrightarrow> 0 \<le> val x"
  by (cases x) (auto simp: signed_def)

lemma nonneg_abs: "nonneg (Fin s m e) \<Longrightarrow> val (Fin s m e) = real m * 2 powi e"
  by (auto simp: signed_def)

lemma val_abs: "\<bar>val (Fin s m e)\<bar> = real m * 2 powi e"
  by (simp add: signed_def abs_mult)

lemma f_add_fin:
  "\<exists>z g. f_add fmt (Fin s m e) (Fin t n f) = (if z = 0 then f_zero fmt (s \<and> t) else scaled_ratio fmt (z < 0) (nat \<bar>z\<bar>) g 1) \<and>
    of_int z * 2 powi g = val (Fin s m e) + val (Fin t n f)"
  by (rule exI [of _ "align (min e f) s m e + align (min e f) t n f"], rule exI [of _ "min e f"])
    (simp add: align_val [of "min e f"] distrib_right Let_def del: val.simps)

lemma f_zero_fin: "\<exists>e. f_zero fmt s = Fin s 0 e"
  by (cases fmt) (simp add: f_zero_def round_to_def)

lemma abs_fin_le: "\<bar>val x\<bar> \<le> val y \<Longrightarrow> is_finite_f x \<Longrightarrow> is_finite_f y \<Longrightarrow> dbl_le (dbl_abs x) y"
proof -
  assume le: "\<bar>val x\<bar> \<le> val y" and fin: "is_finite_f x" "is_finite_f y"
  then obtain s m e t n f where xy: "x = Fin s m e" "y = Fin t n f" by (cases x; cases y) auto
  with le show ?thesis
    by (simp only: xy dbl_abs.simps dbl_le_val) (cases s; cases t; simp add: signed_def abs_mult)
qed

lemma nat_pow_sum:
  assumes "of_int z * 2 powi g = (v :: real)" and "0 \<le> v"
  shows "0 \<le> z" and "real (nat \<bar>z\<bar>) * 2 powi g = v"
proof -
  from assms show "0 \<le> z" by (auto simp: zero_le_mult_iff)
  with assms(1) show "real (nat \<bar>z\<bar>) * 2 powi g = v" by simp
qed

text \<open>A sum of values that are not negative is at least each of them.\<close>

lemma f_add_nonneg:
  assumes ok: "format_ok fmt" and x: "f_ok fmt x" "nonneg x" and y: "nonneg y"
  shows "f_add fmt x y = Inf False \<or> nonneg (f_add fmt x y) \<and> val x \<le> val (f_add fmt x y)"
proof -
  obtain s m e t n f where xy: "x = Fin s m e" "y = Fin t n f" using x y by (cases x; cases y) auto
  obtain z g where add: "f_add fmt x y = (if z = 0 then f_zero fmt (s \<and> t) else scaled_ratio fmt (z < 0) (nat \<bar>z\<bar>) g 1)"
    and z: "of_int z * 2 powi g = val x + val y" using f_add_fin [of fmt s m e t n f] xy by blast
  have nn: "0 \<le> val x" "0 \<le> val y" using x y by (simp_all add: nonneg_val)
  have vx: "val x = real m * 2 powi e" using x(2) unfolding xy by (rule nonneg_abs)
  note zz = nat_pow_sum [OF z add_nonneg_nonneg [OF nn]]
  show ?thesis
  proof (cases "z = 0")
    case True
    then have "val x = 0" using nn z by auto
    then show ?thesis unfolding add using True f_zero_fin [of fmt "s \<and> t"] by (auto simp: signed_def)
  next
    case False
    have "real m * 2 powi e \<le> real (nat \<bar>z\<bar>) * 2 powi g / real 1" using nn zz(2) vx by simp
    with scaled_rep(2) [OF ok _ x(1) [unfolded xy], of 1 "nat \<bar>z\<bar>" g False]
    show ?thesis unfolding add vx using False zz(1) by (auto simp: signed_def)
  qed
qed

text \<open>A difference \<open>x - y\<close> with \<open>0 \<le> y \<le> x\<close> lies between 0 and \<open>x\<close>.\<close>

lemma f_sub_nonneg:
  assumes ok: "format_ok fmt" and x: "f_ok fmt x" "nonneg x" and y: "nonneg y" and le: "val y \<le> val x"
  shows "nonneg (f_sub fmt x y) \<and> val (f_sub fmt x y) \<le> val x"
proof -
  obtain s m e t n f where xy: "x = Fin s m e" "y = Fin t n f" using x y by (cases x; cases y) auto
  obtain z g where sub: "f_sub fmt x y = (if z = 0 then f_zero fmt (s \<and> \<not> t) else scaled_ratio fmt (z < 0) (nat \<bar>z\<bar>) g 1)"
    and z: "of_int z * 2 powi g = val x - val y"
    using f_add_fin [of fmt s m e "\<not> t" n f] by (auto simp: xy f_sub_def signed_def simp del: f_add.simps)
  have nn: "0 \<le> val x" "0 \<le> val y" using x y by (simp_all add: nonneg_val)
  have vx: "val x = real m * 2 powi e" using x(2) unfolding xy by (rule nonneg_abs)
  have "0 \<le> val x - val y" using le by simp
  note zz = nat_pow_sum [OF z this]
  show ?thesis
  proof (cases "z = 0")
    case True
    then show ?thesis unfolding sub using nn f_zero_fin [of fmt "s \<and> \<not> t"] by (auto simp: signed_def)
  next
    case False
    have "real (nat \<bar>z\<bar>) * 2 powi g / real 1 \<le> real m * 2 powi e" using nn zz(2) vx by simp
    with scaled_rep(1) [OF ok _ x(1) [unfolded xy], of 1 "nat \<bar>z\<bar>" g False]
    show ?thesis unfolding sub vx using False zz(1) by (auto simp: signed_def)
  qed
qed

lemma f_add_commute: "f_add fmt x y = f_add fmt y x"
  by (cases x; cases y) (auto simp: Let_def min.commute add.commute conj_commute)

lemma round_to_abs: "dbl_abs (round_to fmt neg n d) = round_to fmt False n d"
  by (simp add: round_to_def Let_def split: prod.split)

lemma f_sub_abs: "dbl_abs (f_sub fmt x y) = dbl_abs (f_sub fmt y x)"
proof (cases x; cases y)
  fix s m e t n f assume xy: "x = Fin s m e" "y = Fin t n f"
  have a: "align g (\<not> s) m e = - align g s m e" for g s m e by (simp add: align_def signed_def)
  let ?z = "align (min e f) s m e - align (min e f) t n f"
  have "dbl_abs (scaled_ratio fmt neg (nat \<bar>?z\<bar>) g 1) = dbl_abs (scaled_ratio fmt neg' (nat \<bar>- ?z\<bar>) g 1)" for neg neg' g
    by (simp only: abs_minus_cancel) (simp add: scaled_ratio_def round_to_abs)
  moreover have "- ?z = align (min e f) t n f - align (min e f) s m e" by simp
  ultimately show ?thesis
    by (simp add: xy f_sub_def a Let_def min.commute f_zero_def round_to_abs)
qed (auto simp: f_sub_def)


text \<open>The difference of two values that are not negative is at most their sum.\<close>

lemma f_sub_le_add:
  assumes ok: "format_ok fmt" and x: "f_ok fmt x" "nonneg x" and y: "f_ok fmt y" "nonneg y"
  shows "dbl_le (dbl_abs (f_sub fmt x y)) (f_add fmt x y)"
proof -
  have main: "dbl_le (dbl_abs (f_sub fmt a b)) (f_add fmt a b)"
    if a: "f_ok fmt a" "nonneg a" and b: "nonneg b" and le: "val b \<le> val a" for a b
  proof -
    have sub: "nonneg (f_sub fmt a b)" "val (f_sub fmt a b) \<le> val a" using f_sub_nonneg [OF ok a b le] by simp_all
    have fin: "is_finite_f z" if "nonneg z" for z using that by (cases z) simp_all
    consider "f_add fmt a b = Inf False" | "nonneg (f_add fmt a b)" "val a \<le> val (f_add fmt a b)"
      using f_add_nonneg [OF ok a b] by blast
    then show ?thesis
    proof cases
      case 1
      then show ?thesis using fin [OF sub(1)] by (cases "f_sub fmt a b") simp_all
    next
      case 2
      then show ?thesis using sub fin nonneg_val by (intro abs_fin_le) simp_all
    qed
  qed
  show ?thesis
  proof (cases "val y \<le> val x")
    case True
    with x y show ?thesis by (intro main) simp_all
  next
    case False
    with main [OF y x(2)] show ?thesis by (simp add: f_sub_abs [of fmt x y] f_add_commute [of fmt x y])
  qed
qed

text \<open>A quotient of a smaller by a larger value is at most 1.\<close>

lemma f_div_le_1:
  assumes ok: "format_ok fmt" and le: "dbl_le (dbl_abs x) y" and pos: "\<not> dbl_le y (f_zero fmt False)"
    and fin: "is_finite_f y"
  shows "mag_le (f_div fmt x y) 1" and "nonneg x \<Longrightarrow> dbl_ge_int (f_div fmt x y) 0"
proof -
  obtain t n f where y: "y = Fin t n f" using fin by (cases y) auto
  obtain z where zero: "f_zero fmt False = Fin False 0 z" using f_zero_fin by blast
  have vy: "0 < val y" using pos unfolding y zero dbl_le_val by (simp add: signed_def)
  have t: "\<not> t" "0 < n" using vy by (auto simp: y signed_def mult_less_0_iff zero_less_mult_iff not_less split: if_splits)
  obtain s m e where x: "x = Fin s m e" using le fin y by (cases x) auto
  have le': "real m * 2 powi e \<le> real n * 2 powi f"
    using le t unfolding x y dbl_abs.simps dbl_le_val by (simp add: signed_def)
  have div: "f_div fmt x y = scaled_ratio fmt (s \<noteq> t) m (e - f) n" using t by (simp add: x y)
  obtain n' d' where r: "scaled_ratio fmt (s \<noteq> t) m (e - f) n = round_to fmt (s \<noteq> t) n' d'" "0 < d'"
    "real n' / real d' = real m * 2 powi (e - f) / real n" by (rule scaled_ratio_round [OF t(2)])
  have "real m * 2 powi (e - f) / real n \<le> 1" using le' t(2) by (simp add: power_int_diff field_simps)
  then have "real n' / real d' \<le> 1" by (simp only: r(3))
  then have "real n' \<le> real d'" using r(2) by simp
  then have nd: "n' \<le> 1 * d'" by simp
  obtain p emin emax where fmt: "fmt = (p, emin, emax)" by (cases fmt) auto
  have p: "(1 :: nat) \<le> 2 ^ p" by simp
  show "mag_le (f_div fmt x y) 1"
    unfolding div r(1) by (rule round_to_mag(1) [OF fmt ok r(2) p nd])
  show "dbl_ge_int (f_div fmt x y) 0" if "nonneg x"
  proof (cases "s")
    case False
    have "0 * int d' \<le> signed (s \<noteq> t) n'" using False t by (simp add: signed_def)
    then show ?thesis unfolding div r(1) by (intro round_to_bounds(2) [OF fmt ok r(2)]) simp_all
  next
    case True
    with that x have "m = 0" by simp
    with r(2,3) have "n' = 0" by simp
    then show ?thesis unfolding div r(1) by (intro round_to_bounds(2) [OF fmt ok r(2)]) (simp_all add: signed_def)
  qed
qed

end
