(* ===== verification/CJsonPrint.thy ===== *)
theory CJsonPrint
  imports CJsonText CJsonTree FloatOps
begin

text \<open>
  Printing in cJSON.c: the print buffer that grows (\<^verbatim>\<open>ensure\<close>, \<^verbatim>\<open>update_offset\<close>), the printers of
  numbers, strings, arrays and objects, and the four entry points. A printer returns \<^term>\<open>None\<close> when
  the C code would read or write outside a block. The bytes of a new block are those of a
  parameter, so that nothing depends on them. \<^verbatim>\<open>sprintf\<close> with \<^verbatim>\<open>%g\<close> is given exactly, from the
  value of the number as a fraction. The locale's decimal point is the point.
\<close>

subsection \<open>Decimal texts of numbers\<close>

fun declen :: "nat \<Rightarrow> nat" where
  "declen n = (if n = 0 then 0 else Suc (declen (n div 10)))"

declare declen.simps [simp del]

text \<open>The integral part of the decimal logarithm of \<open>n / d\<close>.\<close>

definition ilog10 :: "nat \<Rightarrow> nat \<Rightarrow> int" where
  "ilog10 n d = (if d \<le> n then int (declen (n div d)) - 1 else - int (declen ((d + n - 1) div n - 1)))"

text \<open>\<open>P\<close> significant digits of \<open>n / d\<close>, as a number, and the exponent of the first.\<close>

definition significant :: "nat \<Rightarrow> nat \<Rightarrow> nat \<Rightarrow> nat \<times> int" where
  "significant P n d = (let
     x = ilog10 n d; s = int P - 1 - x;
     q = (if 0 \<le> s then half_even (n * 10 ^ nat s) d else half_even n (d * 10 ^ nat (- s)))
   in if q = 10 ^ P then (10 ^ (P - 1), x + 1) else (q, x))"

definition strip_zeros :: "u8 list \<Rightarrow> u8 list" where
  "strip_zeros ds = rev (dropWhile (\<lambda>c. c = 0x30) (rev ds))"

definition fraction :: "u8 list \<Rightarrow> u8 list" where
  "fraction ds = (case strip_zeros ds of [] \<Rightarrow> [] | r \<Rightarrow> 0x2e # r)"

definition exponent_text :: "int \<Rightarrow> u8 list" where
  "exponent_text x = [0x65, if x < 0 then 0x2d else 0x2b] @
     (if \<bar>x\<bar> < 10 then [0x30] else []) @ decimal (nat \<bar>x\<bar>)"

text \<open>\<^verbatim>\<open>%1.Pg\<close> of a finite number.\<close>

definition g_text :: "nat \<Rightarrow> bool \<Rightarrow> nat \<Rightarrow> nat \<Rightarrow> u8 list" where
  "g_text P neg n d = (if neg then [0x2d] else []) @ (if n = 0 then [0x30] else
     (case significant P n d of (q, x) \<Rightarrow> let ds = decimal q in
        if x < - 4 \<or> int P \<le> x then take 1 ds @ fraction (drop 1 ds) @ exponent_text x
        else if 0 \<le> x then take (nat x + 1) ds @ fraction (drop (nat x + 1) ds)
        else 0x30 # fraction (replicate (nat (- x) - 1) 0x30 @ ds)))"

fun format_g :: "nat \<Rightarrow> dbl \<Rightarrow> u8 list" where
  "format_g P NaN = [0x6e, 0x61, 0x6e]"
| "format_g P (Inf s) = (if s then [0x2d] else []) @ [0x69, 0x6e, 0x66]"
| "format_g P (Fin s m e) = (if 0 \<le> e then g_text P s (m * 2 ^ nat e) 1 else g_text P s m (2 ^ nat (- e)))"

definition number_text :: "dbl \<Rightarrow> int \<Rightarrow> u8 list" where
  "number_text d i = (if \<not> is_finite_f d then lit_null
     else if f_eq d (int_to_dbl i) then int_text i
     else let t = format_g 15 d; (test, used) = strtod t in
       if used = 0 \<or> \<not> compare_double test d then format_g 17 d else t)"

subsection \<open>The print buffer\<close>

record allocator =
  grants :: "nat \<Rightarrow> bool"
  has_realloc :: bool
  junk :: "nat \<Rightarrow> nat \<Rightarrow> u8"

record printbuffer =
  pb_buffer :: "u8 list option"
  pb_length :: nat
  pb_offset :: nat
  pb_depth :: nat
  pb_noalloc :: bool
  pb_format :: bool
  pb_heap :: heap

type_synonym printer = "printbuffer \<Rightarrow> (bool \<times> printbuffer) option"

definition fresh_block :: "allocator \<Rightarrow> heap \<Rightarrow> nat \<Rightarrow> u8 list" where
  "fresh_block A h n = map (junk A (requests h)) [0..<n]"

abbreviation int_max :: nat where "int_max \<equiv> 2147483647"

text \<open>The buffer \<open>b\<close> moves to a block of \<open>n\<close> bytes. Without \<^verbatim>\<open>realloc\<close> the bytes up to the offset,
  inclusive, are copied.\<close>

definition regrow :: "allocator \<Rightarrow> nat \<Rightarrow> u8 list \<Rightarrow> printer" where
  "regrow A n b p = (case allocate (grants A) (pb_heap p) of (ok, h) \<Rightarrow>
     if \<not> ok then Some (False, p\<lparr>pb_buffer := None, pb_length := 0, pb_heap := deallocate h\<rparr>)
     else let
       new = fresh_block A (pb_heap p) n;
       k = (if has_realloc A then min (length b) n else pb_offset p + 1)
     in if length b < k \<or> n < k then None
        else Some (True, p\<lparr>pb_buffer := Some (take k b @ drop k new), pb_length := n, pb_heap := deallocate h\<rparr>))"

definition ensure :: "allocator \<Rightarrow> nat \<Rightarrow> printer" where
  "ensure A needed p = (case pb_buffer p of
     None \<Rightarrow> Some (False, p)
   | Some b \<Rightarrow>
       if 0 < pb_length p \<and> pb_length p \<le> pb_offset p then Some (False, p)
       else if int_max < needed then Some (False, p)
       else let needed = needed + pb_offset p + 1 in
         if needed \<le> pb_length p then Some (True, p)
         else if pb_noalloc p then Some (False, p)
         else if int_max div 2 < needed then
           (if needed \<le> int_max then regrow A int_max b p else Some (False, p))
         else regrow A (needed * 2) b p)"

text \<open>Bytes written at an index from the offset.\<close>

definition put_bytes :: "nat \<Rightarrow> u8 list \<Rightarrow> printbuffer \<Rightarrow> printbuffer option" where
  "put_bytes i bs p = (case pb_buffer p of None \<Rightarrow> None
     | Some b \<Rightarrow> map_option (\<lambda>b'. p\<lparr>pb_buffer := Some b'\<rparr>) (wr b (pb_offset p + i) bs))"

text \<open>\<^verbatim>\<open>strlen\<close> reads up to a terminator, which must be inside the block.\<close>

definition update_offset :: printer where
  "update_offset p = (case pb_buffer p of None \<Rightarrow> Some (True, p)
     | Some b \<Rightarrow> let s = drop (pb_offset p) b in
         if 0 \<in> set s then Some (True, p\<lparr>pb_offset := pb_offset p + length (cstr s)\<rparr>) else None)"

definition then_print :: "printer \<Rightarrow> printer \<Rightarrow> printer" where
  "then_print f g p = Option.bind (f p) (\<lambda>(ok, p1). if ok then g p1 else Some (False, p1))"

definition deeper :: printer where
  "deeper p = Some (True, p\<lparr>pb_depth := pb_depth p + 1\<rparr>)"

definition shallower :: printer where
  "shallower p = Some (True, p\<lparr>pb_depth := pb_depth p - 1\<rparr>)"

text \<open>Room for \<open>needed\<close> bytes, the bytes, and a step of the offset.\<close>

definition emit_bytes :: "allocator \<Rightarrow> nat \<Rightarrow> u8 list \<Rightarrow> nat \<Rightarrow> printer" where
  "emit_bytes A needed bs step = then_print (ensure A needed)
     (\<lambda>p. map_option (\<lambda>p'. (True, p'\<lparr>pb_offset := pb_offset p' + step\<rparr>)) (put_bytes 0 bs p))"

subsection \<open>The printers\<close>

text \<open>The buffer for the number has 26 bytes.\<close>

definition print_number :: "allocator \<Rightarrow> dbl \<Rightarrow> int \<Rightarrow> printer" where
  "print_number A d i p = (let t = number_text d i in
     if 25 < length t then None else emit_bytes A (length t + 1) (t @ [0]) (length t) p)"

definition escape_characters :: "u8 list \<Rightarrow> nat" where
  "escape_characters s = sum_list (map (\<lambda>c.
     if c \<in> {0x22, 0x5c, 0x08, 0x0c, 0x0a, 0x0d, 0x09} then 1 else if c < 32 then 5 else 0) s)"

definition print_string_ptr :: "allocator \<Rightarrow> u8 list option \<Rightarrow> printer" where
  "print_string_ptr A input = (case input of
     None \<Rightarrow> emit_bytes A 3 [0x22, 0x22, 0] 0
   | Some s \<Rightarrow> let s = cstr s; output_length = length s + escape_characters s in
       then_print (ensure A (output_length + 3)) (\<lambda>p.
         let body = (if escape_characters s = 0 then s else concat (map escape s)) in
         map_option (Pair True) (Option.bind (put_bytes 0 (0x22 # body) p) (put_bytes (output_length + 1) [0x22, 0]))))"

definition tabs :: "nat \<Rightarrow> u8 list" where
  "tabs n = replicate n 0x09"

text \<open>The separators of an array and an object, the closing of an object.\<close>

definition comma_array :: "allocator \<Rightarrow> printer" where
  "comma_array A p = (let s = (if pb_format p then [0x2c, 0x20] else [0x2c]) in
     emit_bytes A (length s + 1) (s @ [0]) (length s) p)"

definition open_object :: "allocator \<Rightarrow> printer" where
  "open_object A p = (let s = (if pb_format p then [0x7b, 0x0a] else [0x7b]) in
     emit_bytes A (length s + 1) s (length s) p)"

definition indent :: "allocator \<Rightarrow> printer" where
  "indent A p = (if pb_format p then emit_bytes A (pb_depth p) (tabs (pb_depth p)) (pb_depth p) p else Some (True, p))"

definition colon :: "allocator \<Rightarrow> printer" where
  "colon A p = (let s = (if pb_format p then [0x3a, 0x09] else [0x3a]) in emit_bytes A (length s) s (length s) p)"

definition member_end :: "allocator \<Rightarrow> bool \<Rightarrow> printer" where
  "member_end A further p = (let s = (if further then [0x2c] else []) @ (if pb_format p then [0x0a] else []) in
     emit_bytes A (length s + 1) (s @ [0]) (length s) p)"

definition close_object :: "allocator \<Rightarrow> printer" where
  "close_object A p = emit_bytes A (if pb_format p then pb_depth p + 1 else 2)
     ((if pb_format p then tabs (pb_depth p - 1) else []) @ [0x7d, 0]) 0 p"

text \<open>\<^verbatim>\<open>print_value\<close>, and the loops of \<^verbatim>\<open>print_array\<close> and \<^verbatim>\<open>print_object\<close> over the children.\<close>

fun print_value :: "allocator \<Rightarrow> cjson \<Rightarrow> printer"
  and print_elements :: "allocator \<Rightarrow> cjson list \<Rightarrow> printer"
  and print_members :: "allocator \<Rightarrow> cjson list \<Rightarrow> printer" where
  "print_value A (CJ t vs vi vd nm ch) = (let k = t AND 0xFF in
     if k = cJSON_NULL then emit_bytes A 5 (lit_null @ [0]) 0
     else if k = cJSON_False then emit_bytes A 6 (lit_false @ [0]) 0
     else if k = cJSON_True then emit_bytes A 5 (lit_true @ [0]) 0
     else if k = cJSON_Number then print_number A vd vi
     else if k = cJSON_Raw then (case vs of None \<Rightarrow> (\<lambda>p. Some (False, p))
       | Some s \<Rightarrow> emit_bytes A (length (cstr s) + 1) (cstr s @ [0]) 0)
     else if k = cJSON_String then print_string_ptr A vs
     else if k = cJSON_Array then then_print (emit_bytes A 1 [0x5b] 1) (then_print deeper
       (then_print (print_elements A ch) (then_print (emit_bytes A 2 [0x5d, 0] 0) shallower)))
     else if k = cJSON_Object then then_print (open_object A) (then_print deeper
       (then_print (print_members A ch) (then_print (close_object A) shallower)))
     else (\<lambda>p. Some (False, p)))"
| "print_elements A [] = (\<lambda>p. Some (True, p))"
| "print_elements A (c # next) = then_print (print_value A c) (then_print update_offset (then_print
     (if next \<noteq> [] then comma_array A else (\<lambda>p. Some (True, p))) (print_elements A next)))"
| "print_members A [] = (\<lambda>p. Some (True, p))"
| "print_members A (c # next) = then_print (indent A) (then_print (print_string_ptr A (jstring c))
     (then_print update_offset (then_print (colon A) (then_print (print_value A c)
     (then_print update_offset (then_print (member_end A (next \<noteq> [])) (print_members A next)))))))"

definition print_item :: "allocator \<Rightarrow> cjson option \<Rightarrow> printer" where
  "print_item A item = (case item of None \<Rightarrow> (\<lambda>p. Some (False, p)) | Some it \<Rightarrow> print_value A it)"

subsection \<open>Entry points\<close>

text \<open>The buffer is freed when it is still there.\<close>

definition drop_buffer :: "printbuffer \<Rightarrow> heap" where
  "drop_buffer p = (if pb_buffer p = None then pb_heap p else deallocate (pb_heap p))"

definition print :: "allocator \<Rightarrow> cjson option \<Rightarrow> bool \<Rightarrow> heap \<Rightarrow> (u8 list option \<times> heap) option" where
  "print A item format h = (case allocate (grants A) h of (ok, h1) \<Rightarrow>
     if \<not> ok then Some (None, h1)
     else do {
       (ok, p) \<leftarrow> print_item A item \<lparr>pb_buffer = Some (fresh_block A h 256), pb_length = 256, pb_offset = 0,
         pb_depth = 0, pb_noalloc = False, pb_format = format, pb_heap = h1\<rparr>;
       if \<not> ok then Some (None, drop_buffer p)
       else do {
         (_, p) \<leftarrow> update_offset p;
         b \<leftarrow> pb_buffer p;
         let n = pb_offset p + 1;
         (case allocate (grants A) (pb_heap p) of (ok, h2) \<Rightarrow>
            if \<not> ok then Some (None, deallocate h2)
            else if has_realloc A then Some (Some (take n (b @ fresh_block A (pb_heap p) n)), deallocate h2)
            else do {
              printed \<leftarrow> wr (fresh_block A (pb_heap p) n) 0 (take (min (pb_length p) n) b);
              printed \<leftarrow> wr printed (pb_offset p) [0];
              Some (Some printed, deallocate h2) }) } })"

definition cJSON_Print :: "allocator \<Rightarrow> cjson option \<Rightarrow> heap \<Rightarrow> (u8 list option \<times> heap) option" where
  "cJSON_Print A item h = print A item True h"

definition cJSON_PrintUnformatted :: "allocator \<Rightarrow> cjson option \<Rightarrow> heap \<Rightarrow> (u8 list option \<times> heap) option" where
  "cJSON_PrintUnformatted A item h = print A item False h"

definition cJSON_PrintBuffered :: "allocator \<Rightarrow> cjson option \<Rightarrow> int \<Rightarrow> bool \<Rightarrow> heap \<Rightarrow> (u8 list option \<times> heap) option" where
  "cJSON_PrintBuffered A item prebuffer fmt h = (if prebuffer < 0 then Some (None, h)
     else case allocate (grants A) h of (ok, h1) \<Rightarrow>
       if \<not> ok then Some (None, h1)
       else do {
         (ok, p) \<leftarrow> print_item A item \<lparr>pb_buffer = Some (fresh_block A h (nat prebuffer)), pb_length = nat prebuffer,
           pb_offset = 0, pb_depth = 0, pb_noalloc = False, pb_format = fmt, pb_heap = h1\<rparr>;
         if \<not> ok then Some (None, drop_buffer p) else Some (pb_buffer p, pb_heap p) })"

text \<open>The caller's buffer is the list \<open>buf\<close> of \<open>length buf\<close> bytes.\<close>

definition cJSON_PrintPreallocated :: "allocator \<Rightarrow> cjson option \<Rightarrow> u8 list \<Rightarrow> bool \<Rightarrow> heap \<Rightarrow> (bool \<times> printbuffer) option" where
  "cJSON_PrintPreallocated A item buf format h =
     print_item A item \<lparr>pb_buffer = Some buf, pb_length = length buf, pb_offset = 0, pb_depth = 0,
       pb_noalloc = True, pb_format = format, pb_heap = h\<rparr>"

subsection \<open>Texts of numbers fit their buffer\<close>

lemma declen_bounds: "n < 10 ^ declen n" "0 < n \<Longrightarrow> 10 ^ (declen n - 1) \<le> n \<and> 0 < declen n"
proof -
  have "n < 10 ^ declen n \<and> (0 < n \<longrightarrow> 10 ^ (declen n - 1) \<le> n \<and> 0 < declen n)"
  proof (induction n rule: declen.induct)
    case (1 n)
    show ?case
    proof (cases "n = 0")
      case False
      let ?L = "declen (n div 10)"
      have step: "declen n = Suc ?L" using False by (subst declen.simps) simp
      have IH: "n div 10 < 10 ^ ?L" "n div 10 \<noteq> 0 \<Longrightarrow> 10 ^ (?L - 1) \<le> n div 10 \<and> 0 < ?L" using 1 False by auto
      have up: "n < 10 * 10 ^ ?L" using IH(1) by (simp add: div_less_iff_less_mult mult.commute)
      have low: "10 ^ ?L \<le> n"
      proof (cases "n div 10 = 0")
        case True
        then have "declen (n div 10) = 0" by (simp add: declen.simps)
        then show ?thesis using False by simp
      next
        case nz: False
        then have "10 * 10 ^ (?L - 1) \<le> 10 * (n div 10)" "?L = Suc (?L - 1)" using IH(2) by auto
        then have "10 ^ ?L \<le> 10 * (n div 10)" by (metis power_Suc)
        then show ?thesis by linarith
      qed
      show ?thesis using up low step by simp
    qed (simp add: declen.simps)
  qed
  then show "n < 10 ^ declen n" "0 < n \<Longrightarrow> 10 ^ (declen n - 1) \<le> n \<and> 0 < declen n" by blast+
qed

lemma declen_le: "n < 10 ^ k \<Longrightarrow> declen n \<le> k"
proof (cases "n = 0")
  case False
  assume "n < 10 ^ k"
  then have "(10 :: nat) ^ (declen n - 1) < 10 ^ k" using declen_bounds(2) [of n] False by linarith
  then have "declen n - 1 < k" by simp
  then show ?thesis using declen_bounds(2) [of n] False by linarith
qed (simp add: declen.simps)

lemma decimal_length_le: "n < 10 ^ Suc k \<Longrightarrow> length (decimal n) \<le> Suc k"
proof (induction n arbitrary: k rule: decimal.induct)
  case (1 n)
  show ?case
  proof (cases "n < 10")
    case False
    then obtain j where j: "k = Suc j" using 1(2) by (cases k) auto
    have "n div 10 < 10 ^ Suc j" using 1(2) j by (simp add: div_less_iff_less_mult mult.commute)
    then show ?thesis using 1(1) [of j] False j by (subst decimal.simps) simp
  qed (subst decimal.simps, simp)
qed

lemma ilog10_upper:
  assumes "0 < n" and "0 < d"
  shows "n * 10 ^ nat (- (ilog10 n d + 1)) < d * 10 ^ nat (ilog10 n d + 1)"
proof (cases "d \<le> n")
  case True
  have "n div d < 10 ^ declen (n div d)" by (rule declen_bounds)
  then have "n < d * 10 ^ declen (n div d)" using assms(2) by (simp add: div_less_iff_less_mult mult.commute)
  then show ?thesis using True by (simp add: ilog10_def)
next
  case False
  define c where "c = (d + n - 1) div n - 1"
  have "d + n - 1 = (d - 1) + n" using assms by simp
  then have c: "c = (d - 1) div n" using assms unfolding c_def by (metis add_diff_cancel_right' div_add_self2 neq0_conv)
  have "0 < c" unfolding c using False assms by (simp add: div_greater_zero_iff)
  then have low: "10 ^ (declen c - 1) \<le> (d - 1) div n" "0 < declen c" using declen_bounds(2) [of c] c by auto
  then have "n * 10 ^ (declen c - 1) \<le> d - 1" by (metis div_times_less_eq_dividend mult.commute mult_le_mono2 order_trans)
  moreover have y: "ilog10 n d = - int (declen c)" unfolding ilog10_def c_def using False by simp
  have "nat (- (ilog10 n d + 1)) = declen c - 1" "nat (ilog10 n d + 1) = 0"
    unfolding y using low(2) by simp_all
  ultimately show ?thesis using assms by simp
qed

lemma significant_bound:
  assumes "0 < n" and "0 < d" and "0 < P" and "significant P n d = (q, x)"
  shows "q < 10 ^ P" and "x = ilog10 n d \<or> x = ilog10 n d + 1"
proof -
  define y where "y = ilog10 n d"
  define s where "s = int P - 1 - y"
  define k where "k = (if 0 \<le> s then half_even (n * 10 ^ nat s) d else half_even n (d * 10 ^ nat (- s)))"
  have up: "n * 10 ^ nat (- (y + 1)) < d * 10 ^ nat (y + 1)" unfolding y_def by (rule ilog10_upper) (use assms in simp_all)
  have "k \<le> 10 ^ P"
  proof (cases "0 \<le> s")
    case True
    have "n * 10 ^ nat s \<le> 10 ^ P * d"
    proof (cases "0 \<le> y + 1")
      case True
      have "n * 10 ^ nat s \<le> d * 10 ^ nat (y + 1) * 10 ^ nat s" using up True by simp
      also have "\<dots> = 10 ^ P * d" using True \<open>0 \<le> s\<close> assms(3) by (simp add: s_def mult.assoc nat_add_distrib [symmetric] flip: power_add)
      finally show ?thesis .
    next
      case False
      then have e: "nat s = nat (- (y + 1)) + P" by (simp add: s_def nat_add_distrib [symmetric])
      have "n * 10 ^ nat s = n * 10 ^ nat (- (y + 1)) * 10 ^ P" unfolding e power_add by simp
      also have "\<dots> \<le> d * 10 ^ P" using up False by simp
      finally show ?thesis by (simp add: mult.commute)
    qed
    then show ?thesis unfolding k_def using True assms(2) by (auto intro: half_even_le)
  next
    case False
    then have e: "nat (y + 1) = P + nat (- s)" using assms(3) by (simp add: s_def nat_add_distrib [symmetric])
    have "n \<le> d * 10 ^ nat (y + 1)" using up False assms(3) by (simp add: s_def)
    then have "n \<le> 10 ^ P * (d * 10 ^ nat (- s))" unfolding e by (simp add: power_add ac_simps)
    then show ?thesis unfolding k_def using False assms(2) by (auto intro: half_even_le)
  qed
  moreover have "(q, x) = (if k = 10 ^ P then (10 ^ (P - 1), y + 1) else (k, y))"
    using assms(4) unfolding significant_def Let_def k_def s_def y_def by (rule sym)
  moreover have "(10 :: nat) ^ (P - 1) < 10 ^ P" using assms(3) by simp
  ultimately show "q < 10 ^ P" and "x = ilog10 n d \<or> x = ilog10 n d + 1"
    by (auto simp: y_def split: if_splits)
qed

lemma strip_length: "length (strip_zeros ds) \<le> length ds"
  using length_dropWhile_le [of _ "rev ds"] by (simp add: strip_zeros_def)

lemma fraction_length: "length (fraction ds) \<le> length ds + 1"
  using strip_length [of ds] by (cases "strip_zeros ds") (simp_all add: fraction_def)

lemma exponent_length: "\<bar>x\<bar> < 1000 \<Longrightarrow> length (exponent_text x) \<le> 5"
proof -
  assume "\<bar>x\<bar> < 1000"
  then have "length (decimal (nat \<bar>x\<bar>)) \<le> Suc 2" by (intro decimal_length_le) simp
  moreover have "\<bar>x\<bar> < 10 \<Longrightarrow> length (decimal (nat \<bar>x\<bar>)) \<le> 1" using decimal_length_le [of "nat \<bar>x\<bar>" 0] by simp
  ultimately show ?thesis by (cases "\<bar>x\<bar> < 10") (auto simp: exponent_text_def)
qed

lemma g_text_length:
  assumes "n < d * 10 ^ k" and "d \<le> 10 ^ k" and "0 < d" and P: "0 < P" and k: "k \<in> {1..900}"
  shows "length (g_text P neg n d) \<le> P + 7"
proof (cases "n = 0")
  case False
  obtain q x where qx: "significant P n d = (q, x)" by (cases "significant P n d") auto
  have n: "0 < n" using False by simp
  note sb = significant_bound [OF n assms(3) P qx]
  have "ilog10 n d + 1 \<le> int k \<and> - int k \<le> ilog10 n d"
  proof (cases "d \<le> n")
    case True
    have "n div d < 10 ^ k" using assms(1,3) by (simp add: div_less_iff_less_mult mult.commute)
    from declen_le [OF this] show ?thesis
      using True declen_bounds(2) [of "n div d"] assms(3) by (simp add: ilog10_def div_greater_zero_iff)
  next
    case False
    have "(d + n - 1) div n - 1 < 10 ^ k"
    proof -
      have "(d + n - 1) div n = (d - 1) div n + 1"
        using n assms(3) div_add_self2 [of n "d - 1"] by (simp add: add.commute)
      then have "(d + n - 1) div n - 1 \<le> d - 1" by (simp add: div_le_dividend)
      then show ?thesis using assms(2,3) by linarith
    qed
    from declen_le [OF this] show ?thesis using False k by (simp add: ilog10_def)
  qed
  then have x: "\<bar>x\<bar> < 1000" using sb(2) k by auto
  obtain j where j: "P = Suc j" using P by (cases P) auto
  have len: "length (decimal q) \<le> P" using decimal_length_le [of q j] sb(1) j by simp
  consider "x < - 4 \<or> int P \<le> x" | "0 \<le> x" "x < int P" | "- 4 \<le> x" "x < 0" by linarith
  then show ?thesis
  proof cases
    case 1
    have "length (fraction (drop 1 (decimal q))) \<le> P" using fraction_length [of "drop 1 (decimal q)"] len P by simp
    then show ?thesis using 1 exponent_length [OF x] n by (auto simp: g_text_def qx Let_def)
  next
    case 2
    then show ?thesis using fraction_length [of "drop (nat x + 1) (decimal q)"] len n by (auto simp: g_text_def qx Let_def)
  next
    case 3
    then have "nat (- x) - 1 \<le> 3" by linarith
    then show ?thesis using 3 fraction_length [of "replicate (nat (- x) - 1) 0x30 @ decimal q"] len n
      by (auto simp: g_text_def qx Let_def)
  qed
qed (use P in \<open>simp add: g_text_def\<close>)

lemma powers_below: "(2 :: nat) ^ 1074 \<le> 10 ^ 400"
  by simp

lemma format_g_length:
  assumes "f_ok binary64 d" and "0 < P"
  shows "length (format_g P d) \<le> P + 7"
proof (cases d)
  case (Fin s m e)
  have m: "m < 2 ^ 53" "- 1074 \<le> e" "e \<le> 971" using assms(1) by (simp_all add: Fin binary64_def)
  show ?thesis
  proof (cases "0 \<le> e")
    case True
    have "(2 :: nat) ^ nat e \<le> 2 ^ 971" using m(3) by (intro power_increasing) auto
    with m(1) have "m * 2 ^ nat e < 2 ^ 53 * 2 ^ 971"
      by (meson less_le_trans mult_le_mono2 mult_strict_right_mono order_le_less_trans zero_less_numeral zero_less_power)
    also have "\<dots> = (2 :: nat) ^ 1024" by (simp only: power_add [symmetric]) simp
    also have "\<dots> \<le> 2 ^ 1074" by (intro power_increasing) auto
    finally have "m * 2 ^ nat e < 1 * 10 ^ 400" using powers_below by linarith
    then show ?thesis using True g_text_length [of "m * 2 ^ nat e" 1 400 P s] assms(2) by (simp add: Fin del: power_numeral)
  next
    case False
    have "(2 :: nat) ^ nat (- e) \<le> 2 ^ 1074" using m(2) by (intro power_increasing) auto
    then have d: "(2 :: nat) ^ nat (- e) \<le> 10 ^ 400" using powers_below by (rule order_trans)
    have "(2 :: nat) ^ 53 \<le> 2 ^ 1074" by (intro power_increasing) auto
    then have "m < 10 ^ 400" using m(1) powers_below by linarith
    moreover have "(1 :: nat) * 10 ^ 400 \<le> 2 ^ nat (- e) * 10 ^ 400" by (intro mult_le_mono1) simp
    ultimately have "m < 2 ^ nat (- e) * 10 ^ 400" by linarith
    then show ?thesis using False g_text_length [OF _ d, of m P s] assms(2) by (simp add: Fin del: power_numeral)
  qed
qed (use assms(2) in auto)

lemma int_text_length_le: "INT_MIN \<le> i \<Longrightarrow> i \<le> INT_MAX \<Longrightarrow> length (int_text i) \<le> 11"
proof -
  assume "INT_MIN \<le> i" "i \<le> INT_MAX"
  then have "nat \<bar>i\<bar> < 10 ^ Suc 9" by (simp add: INT_MIN_def INT_MAX_def)
  from decimal_length_le [OF this] show ?thesis by (cases "i < 0") (simp_all add: int_text_def)
qed

lemma number_text_length: "f_ok binary64 d \<Longrightarrow> INT_MIN \<le> i \<Longrightarrow> i \<le> INT_MAX \<Longrightarrow> length (number_text d i) \<le> 24"
  using format_g_length [of d 15] format_g_length [of d 17] int_text_length_le [of i]
  by (auto simp: number_text_def lit_null_def Let_def split: prod.splits)

end
