(* ===== verification/CJsonPrinted.thy ===== *)
theory CJsonPrinted
  imports CJsonPrint
begin

text \<open>
  What printing in cJSON.c does: \<open>text_value\<close> is the text of a tree as a function, and the printers of
  \<^verbatim>\<open>CJsonPrint\<close> write exactly that text into their buffer or report why they could not. The
  statement about one printer, \<open>outcome\<close>, composes along \<open>then_print\<close>, so that a printer of the code
  is proved from its pieces. At the end: the entry points, the exact size a preallocated
  buffer needs, and the round trip through the parser.
\<close>

subsection \<open>What is printed\<close>

text \<open>The text of a value at a nesting depth; none when a node has no type that can be printed.\<close>

definition quoted :: "u8 list option \<Rightarrow> u8 list" where
  "quoted s = (case s of None \<Rightarrow> [0x22, 0x22] | Some s \<Rightarrow> string_text (cstr s))"

definition join :: "u8 list option \<Rightarrow> u8 list option \<Rightarrow> u8 list option" where
  "join s t = Option.bind s (\<lambda>x. map_option ((@) x) t)"

fun text_value :: "bool \<Rightarrow> nat \<Rightarrow> cjson \<Rightarrow> u8 list option"
  and text_elements :: "bool \<Rightarrow> nat \<Rightarrow> cjson list \<Rightarrow> u8 list option"
  and text_members :: "bool \<Rightarrow> nat \<Rightarrow> cjson list \<Rightarrow> u8 list option" where
  "text_value fmt n (CJ t vs vi vd nm ch) = (let k = t AND 0xFF in
     if k = cJSON_NULL then Some lit_null
     else if k = cJSON_False then Some lit_false
     else if k = cJSON_True then Some lit_true
     else if k = cJSON_Number then Some (number_text vd vi)
     else if k = cJSON_Raw then map_option cstr vs
     else if k = cJSON_String then Some (quoted vs)
     else if k = cJSON_Array then join (Some [0x5b]) (join (text_elements fmt (n + 1) ch) (Some [0x5d]))
     else if k = cJSON_Object then join (Some (if fmt then [0x7b, 0x0a] else [0x7b]))
       (join (text_members fmt (n + 1) ch) (Some ((if fmt then tabs n else []) @ [0x7d])))
     else None)"
| "text_elements fmt n [] = Some []"
| "text_elements fmt n (c # next) = join (text_value fmt n c)
     (join (Some (if next \<noteq> [] then if fmt then [0x2c, 0x20] else [0x2c] else [])) (text_elements fmt n next))"
| "text_members fmt n [] = Some []"
| "text_members fmt n (c # next) = join (Some (if fmt then tabs n else [])) (join (Some (quoted (jstring c)))
     (join (Some (if fmt then [0x3a, 0x09] else [0x3a])) (join (text_value fmt n c)
     (join (Some ((if next \<noteq> [] then [0x2c] else []) @ (if fmt then [0x0a] else []))) (text_members fmt n next)))))"

text \<open>Numbers as the fields of the C structure hold them.\<close>

fun machine_tree :: "cjson \<Rightarrow> bool" where
  "machine_tree (CJ t vs vi vd nm ch) \<longleftrightarrow> INT_MIN \<le> vi \<and> vi \<le> INT_MAX \<and> f_ok binary64 vd \<and> (\<forall>c \<in> set ch. machine_tree c)"

subsection \<open>State of the buffer\<close>

definition pb_ok :: "printbuffer \<Rightarrow> bool" where
  "pb_ok p \<longleftrightarrow> (\<exists>b. pb_buffer p = Some b \<and> length b = pb_length p) \<and> pb_offset p < pb_length p \<and> pb_length p \<le> int_max"

definition front_bytes :: "nat \<Rightarrow> printbuffer \<Rightarrow> u8 list" where
  "front_bytes k p = (case pb_buffer p of None \<Rightarrow> [] | Some b \<Rightarrow> take k b)"

text \<open>The live blocks besides the buffer.\<close>

definition account :: "printbuffer \<Rightarrow> int" where
  "account p = live (pb_heap p) - (if pb_buffer p = None then 0 else 1)"

definition agrees :: "printbuffer \<Rightarrow> printbuffer \<Rightarrow> bool" where
  "agrees p p' \<longleftrightarrow> pb_noalloc p' = pb_noalloc p \<and> pb_format p' = pb_format p \<and> account p' = account p \<and>
     (pb_noalloc p \<longrightarrow> pb_length p' = pb_length p \<and> pb_heap p' = pb_heap p \<and> pb_buffer p' \<noteq> None)"

lemma agrees_trans: "agrees p q \<Longrightarrow> agrees q r \<Longrightarrow> agrees p r"
  by (simp add: agrees_def)

text \<open>Why there may be no room for \<open>k\<close> bytes from the offset: the caller's buffer is too short, or an
  allocation failed, or the buffer would be too long.\<close>

definition lacks :: "allocator \<Rightarrow> printbuffer \<Rightarrow> nat \<Rightarrow> bool" where
  "lacks A p k \<longleftrightarrow> (if pb_noalloc p then pb_length p < pb_offset p + k
     else (\<exists>n. \<not> grants A n) \<or> int_max div 2 < pb_offset p + k)"

lemma lacks_mono: "lacks A p j \<Longrightarrow> j \<le> k \<Longrightarrow> lacks A p k"
  by (auto simp: lacks_def split: if_splits)

text \<open>The text \<open>s\<close> is in the buffer, with the offset behind it (\<open>advanced\<close>) or still before some of it
  and a terminator behind it.\<close>

definition reached :: "bool \<Rightarrow> printbuffer \<Rightarrow> u8 list \<Rightarrow> printbuffer \<Rightarrow> bool" where
  "reached advanced p s p' \<longleftrightarrow> pb_ok p' \<and> (if advanced
     then pb_offset p' = pb_offset p + length s \<and> front_bytes (pb_offset p') p' = front_bytes (pb_offset p) p @ s
     else pb_offset p \<le> pb_offset p' \<and> pb_offset p' \<le> pb_offset p + length s \<and> pb_offset p + length s + 2 \<le> pb_length p' \<and>
       front_bytes (pb_offset p + length s + 1) p' = front_bytes (pb_offset p) p @ s @ [0])"

definition outcome ::
  "allocator \<Rightarrow> bool \<Rightarrow> printbuffer \<Rightarrow> u8 list option \<Rightarrow> nat \<Rightarrow> (bool \<times> printbuffer) option \<Rightarrow> bool" where
  "outcome A advanced p so d r \<longleftrightarrow> (\<exists>ok p'. r = Some (ok, p') \<and> agrees p p' \<and>
     (if ok then \<exists>s. so = Some s \<and> pb_depth p' = d \<and> reached advanced p s p'
      else \<forall>s. so = Some s \<longrightarrow> lacks A p (length s + 2)))"

lemma join_simps [simp]: "join (Some s) (Some t) = Some (s @ t)" "join None v = None" "join u None = None"
  by (simp_all add: join_def split: Option.bind_split)

lemma join_Nil [simp]: "join (Some []) v = v" "join u (Some []) = u"
  by (cases v; simp) (cases u; simp)

lemma join_assoc: "join (join s t) u = join s (join t u)"
  by (cases s; cases t; cases u) simp_all

lemma front_bytes_length: "pb_ok p \<Longrightarrow> length (front_bytes (pb_offset p) p) = pb_offset p"
  by (auto simp: pb_ok_def front_bytes_def)

lemma reached_trans: "reached True p s q \<Longrightarrow> reached adv q t r \<Longrightarrow> reached adv p (s @ t) r"
  by (auto simp: reached_def add.assoc split: if_splits)

lemma lacks_later:
  "reached True p s q \<Longrightarrow> agrees p q \<Longrightarrow> lacks A q k \<Longrightarrow> lacks A p (length s + k)"
  by (auto simp: reached_def agrees_def lacks_def add.assoc split: if_splits)

text \<open>Two printers in a row.\<close>

lemma outcome_then:
  assumes f: "outcome A True p so1 d1 (f p)"
    and g: "\<And>s q. so1 = Some s \<Longrightarrow> reached True p s q \<Longrightarrow> agrees p q \<Longrightarrow> pb_depth q = d1 \<Longrightarrow> outcome A adv q so2 d2 (g q)"
  shows "outcome A adv p (join so1 so2) d2 (then_print f g p)"
proof -
  obtain ok q where q: "f p = Some (ok, q)" "agrees p q"
    and r: "if ok then \<exists>s. so1 = Some s \<and> pb_depth q = d1 \<and> reached True p s q
       else \<forall>s. so1 = Some s \<longrightarrow> lacks A p (length s + 2)"
    using f unfolding outcome_def by blast
  show ?thesis
  proof (cases ok)
    case False
    then have "lacks A p (length s + 2)" if "join so1 so2 = Some s" for s
      using that r by (auto simp: join_def split: Option.bind_splits intro: lacks_mono)
    then show ?thesis using False q by (auto simp: outcome_def then_print_def)
  next
    case True
    then obtain s where s: "so1 = Some s" "pb_depth q = d1" "reached True p s q" using r by auto
    obtain ok2 r2 where r2: "g q = Some (ok2, r2)" "agrees q r2"
      and t: "if ok2 then \<exists>t. so2 = Some t \<and> pb_depth r2 = d2 \<and> reached adv q t r2
         else \<forall>t. so2 = Some t \<longrightarrow> lacks A q (length t + 2)"
      using g [OF s(1,3) q(2) s(2)] unfolding outcome_def by blast
    have "lacks A p (length u + 2)" if nok: "\<not> ok2" and j: "join so1 so2 = Some u" for u
    proof -
      obtain t' where t': "so2 = Some t'" "u = s @ t'" using j s(1) by (cases so2) auto
      show ?thesis using lacks_later [OF s(3) q(2), of A "length t' + 2"] t nok t' by (simp add: add.assoc)
    qed
    moreover have "\<exists>u. join so1 so2 = Some u \<and> pb_depth r2 = d2 \<and> reached adv p u r2" if "ok2"
      using t that s(1) reached_trans [OF s(3)] by auto
    ultimately show ?thesis
      using q r2 True agrees_trans [OF q(2) r2(2)] by (auto simp: outcome_def then_print_def)
  qed
qed

lemma then_assoc: "then_print f (then_print g h) = then_print (then_print f g) h"
  by (rule ext) (auto simp: then_print_def split: Option.bind_splits)

lemma cstr_upto: "0 \<notin> set s \<Longrightarrow> cstr (s @ 0 # t) = s"
  unfolding cstr_def by (induction s) auto

lemma outcome_update:
  assumes f: "outcome A False p so d (f p)" and nz: "\<And>s. so = Some s \<Longrightarrow> 0 \<notin> set s" and p: "pb_ok p"
  shows "outcome A True p so d (then_print f update_offset p)"
proof -
  obtain ok q where q: "f p = Some (ok, q)" "agrees p q"
    and r: "if ok then \<exists>s. so = Some s \<and> pb_depth q = d \<and> reached False p s q
       else \<forall>s. so = Some s \<longrightarrow> lacks A p (length s + 2)"
    using f unfolding outcome_def by blast
  show ?thesis
  proof (cases ok)
    case True
    then obtain s where s: "so = Some s" "pb_depth q = d" "reached False p s q" using r by auto
    then obtain b where b: "pb_buffer q = Some b" "length b = pb_length q" by (auto simp: reached_def pb_ok_def)
    define i where "i = pb_offset q - pb_offset p"
    have i: "pb_offset q = pb_offset p + i" "i \<le> length s" using s(3) by (auto simp: reached_def i_def)
    have tk: "take (pb_offset p + length s + 1) b = front_bytes (pb_offset p) p @ s @ [0]"
      "pb_offset p + length s + 2 \<le> length b" using s(3) b by (auto simp: reached_def front_bytes_def)
    have fl: "length (front_bytes (pb_offset p) p) = pb_offset p" using p by (rule front_bytes_length)
    define rest where "rest = drop (pb_offset p + length s + 1) b"
    have whole: "b = front_bytes (pb_offset p) p @ s @ 0 # rest"
      using append_take_drop_id [of "pb_offset p + length s + 1" b] unfolding tk(1) rest_def by simp
    have "drop (pb_offset q) b = drop i s @ 0 # rest" unfolding whole i(1) using fl i(2) by simp
    then have c: "cstr (drop (pb_offset q) b) = drop i s" "0 \<in> set (drop (pb_offset q) b)"
      using nz [OF s(1)] set_drop_subset [of i s] cstr_upto [of "drop i s" rest] by auto
    define q' where "q' = q\<lparr>pb_offset := pb_offset p + length s\<rparr>"
    have run: "update_offset q = Some (True, q')"
      using b c i by (simp add: update_offset_def q'_def)
    have "take (pb_offset p + length s) b = front_bytes (pb_offset p) p @ s"
      using arg_cong [OF tk(1), of "take (pb_offset p + length s)"] fl by (simp add: take_append)
    then have "reached True p s q'"
      using s(3) b tk(2) by (auto simp: reached_def pb_ok_def q'_def front_bytes_def)
    moreover have "agrees p q'" using q(2) b by (simp add: agrees_def account_def q'_def)
    ultimately show ?thesis
      using True q(1) run s by (auto simp: outcome_def then_print_def q'_def)
  next
    case False
    then show ?thesis using q r by (auto simp: outcome_def then_print_def)
  qed
qed

subsection \<open>Room\<close>

definition roomy :: "allocator \<Rightarrow> printbuffer \<Rightarrow> nat \<Rightarrow> (bool \<times> printbuffer) option \<Rightarrow> bool" where
  "roomy A p needed r \<longleftrightarrow> (\<exists>ok q. r = Some (ok, q) \<and> agrees p q \<and>
     (if ok then pb_ok q \<and> pb_offset q = pb_offset p \<and> pb_depth q = pb_depth p \<and>
        front_bytes (pb_offset p) q = front_bytes (pb_offset p) p \<and> pb_offset p + needed + 1 \<le> pb_length q
      else lacks A p (needed + 1)))"

lemma regrow_roomy:
  assumes p: "pb_ok p" and b: "pb_buffer p = Some b" and n: "pb_length p \<le> n" "n \<le> int_max" "pb_offset p + needed + 1 \<le> n"
    and "\<not> pb_noalloc p"
  shows "roomy A p needed (regrow A n b p)"
proof (cases "grants A (requests (pb_heap p))")
  case False
  then show ?thesis using assms by (auto simp: roomy_def regrow_def allocate_def agrees_def account_def deallocate_def lacks_def)
next
  case True
  have len: "length b = pb_length p" "pb_offset p < length b" using p b by (auto simp: pb_ok_def)
  define k where "k = (if has_realloc A then min (length b) n else pb_offset p + 1)"
  have k: "k \<le> length b" "k \<le> n" "pb_offset p < k" using len n by (auto simp: k_def)
  define q where "q = p\<lparr>pb_buffer := Some (take k b @ drop k (fresh_block A (pb_heap p) n)), pb_length := n,
    pb_heap := deallocate (snd (allocate (grants A) (pb_heap p)))\<rparr>"
  have "regrow A n b p = Some (True, q)"
    using True k by (simp add: regrow_def allocate_def k_def [symmetric] q_def Let_def)
  moreover have "pb_ok q" using n len k by (auto simp: pb_ok_def q_def fresh_block_def)
  moreover have "agrees p q" using True b assms(6) by (simp add: agrees_def account_def q_def allocate_def deallocate_def)
  moreover have "front_bytes (pb_offset p) q = front_bytes (pb_offset p) p"
    using k by (simp add: front_bytes_def q_def b min_def)
  ultimately show ?thesis using n(3) by (auto simp: roomy_def q_def)
qed

lemma ensure_roomy:
  assumes p: "pb_ok p"
  shows "roomy A p needed (ensure A needed p)"
proof -
  obtain b where b: "pb_buffer p = Some b" "length b = pb_length p" using p by (auto simp: pb_ok_def)
  have off: "pb_offset p < pb_length p" "pb_length p \<le> int_max" using p by (auto simp: pb_ok_def)
  let ?n = "needed + pb_offset p + 1"
  have refl: "agrees p p" using b by (simp add: agrees_def)
  consider "int_max < needed" | "needed \<le> int_max" "?n \<le> pb_length p" | "needed \<le> int_max" "pb_length p < ?n" "pb_noalloc p"
    | "needed \<le> int_max" "pb_length p < ?n" "\<not> pb_noalloc p" by linarith
  then show ?thesis
  proof cases
    case 1
    then show ?thesis using b off refl by (auto simp: roomy_def ensure_def lacks_def)
  next
    case 2
    then show ?thesis using b off refl p by (auto simp: roomy_def ensure_def)
  next
    case 3
    then show ?thesis using b off refl by (auto simp: roomy_def ensure_def lacks_def)
  next
    case 4
    have run: "ensure A needed p = (if int_max div 2 < ?n then if ?n \<le> int_max then regrow A int_max b p else Some (False, p)
        else regrow A (?n * 2) b p)"
      using 4 b off by (simp add: ensure_def Let_def)
    consider "int_max div 2 < ?n" "?n \<le> int_max" | "int_max < ?n" | "?n \<le> int_max div 2" by linarith
    then show ?thesis
    proof cases
      case 1
      then show ?thesis unfolding run using regrow_roomy [OF p b(1) off(2), of needed A] 4 by simp
    next
      case 2
      then show ?thesis unfolding run using 4 refl by (auto simp: roomy_def lacks_def)
    next
      case 3
      then have "?n * 2 \<le> int_max" by simp
      then show ?thesis unfolding run using regrow_roomy [OF p b(1), of "?n * 2" needed A] 3 4 by simp
    qed
  qed
qed

text \<open>Bytes that fit the room.\<close>

lemma put_reached:
  assumes q: "pb_ok q" "pb_offset q = pb_offset p" "front_bytes (pb_offset p) q = front_bytes (pb_offset p) p"
    and p: "pb_ok p" and room: "pb_offset p + needed + 1 \<le> pb_length q" "length bs \<le> needed" "length s \<le> needed"
    and bs: "bs = s \<or> bs = s @ [0]"
    and adv: "if advanced then step = length s else step \<le> length s \<and> bs = s @ [0] \<and> length s < needed"
  shows "\<exists>q'. put_bytes 0 bs q = Some q' \<and> pb_depth q' = pb_depth q \<and>
    reached advanced p s (q'\<lparr>pb_offset := pb_offset q' + step\<rparr>) \<and> agrees q (q'\<lparr>pb_offset := pb_offset q' + step\<rparr>)"
proof -
  obtain b where b: "pb_buffer q = Some b" "length b = pb_length q" using q(1) by (auto simp: pb_ok_def)
  let ?k = "pb_offset p"
  have fl: "take ?k b = front_bytes ?k p" "length (front_bytes ?k p) = ?k"
    using q(3) b front_bytes_length [OF p] by (simp_all add: front_bytes_def)
  define b' where "b' = take ?k b @ bs @ drop (?k + length bs) b"
  have w: "wr b ?k bs = Some b'" using room b by (simp add: wr_def b'_def)
  have len: "length b' = pb_length q" using w b by (simp add: wr_length)
  define q' where "q' = q\<lparr>pb_buffer := Some b'\<rparr>"
  have "put_bytes 0 bs q = Some q'" using b q(2) w by (simp add: put_bytes_def q'_def)
  moreover have "take (?k + length s) b' = front_bytes ?k p @ s" using bs by (auto simp: b'_def fl)
  moreover have "bs = s @ [0] \<Longrightarrow> take (?k + length s + 1) b' = front_bytes ?k p @ s @ [0]" by (simp add: b'_def fl)
  ultimately show ?thesis
    using q len room adv by (intro exI [where x = q'])
      (auto simp: reached_def q'_def pb_ok_def front_bytes_def agrees_def account_def b split: if_splits)
qed

lemma emit_outcome:
  assumes p: "pb_ok p" and "length bs \<le> needed" and "length s \<le> needed" and "needed \<le> length s + 1"
    and bs: "bs = s \<or> bs = s @ [0]"
    and adv: "if advanced then step = length s else step \<le> length s \<and> bs = s @ [0] \<and> length s < needed"
  shows "outcome A advanced p (Some s) (pb_depth p) (emit_bytes A needed bs step p)"
proof -
  obtain ok q where q: "ensure A needed p = Some (ok, q)" "agrees p q"
    and r: "if ok then pb_ok q \<and> pb_offset q = pb_offset p \<and> pb_depth q = pb_depth p \<and>
        front_bytes (pb_offset p) q = front_bytes (pb_offset p) p \<and> pb_offset p + needed + 1 \<le> pb_length q
      else lacks A p (needed + 1)"
    using ensure_roomy [OF p, of A needed] unfolding roomy_def by blast
  show ?thesis
  proof (cases ok)
    case True
    then obtain q' where "put_bytes 0 bs q = Some q'" "pb_depth q' = pb_depth q"
      "reached advanced p s (q'\<lparr>pb_offset := pb_offset q' + step\<rparr>)" "agrees q (q'\<lparr>pb_offset := pb_offset q' + step\<rparr>)"
      using put_reached [OF _ _ _ p _ assms(2,3) bs adv, of q] r by auto
    then show ?thesis
      using True q r agrees_trans [OF q(2)] by (auto simp: outcome_def emit_bytes_def then_print_def)
  next
    case False
    then show ?thesis
      using q r lacks_mono [of A p "needed + 1" "length s + 2"] assms(4) by (auto simp: outcome_def emit_bytes_def then_print_def)
  qed
qed

lemmas emit_value = emit_outcome [where advanced = False] and emit_advance = emit_outcome [where advanced = True]

subsection \<open>Strings\<close>

lemma escape_length: "length (escape c) = 1 + (if c \<in> {0x22, 0x5c, 0x08, 0x0c, 0x0a, 0x0d, 0x09} then 1 else if c < 32 then 5 else 0)"
  by (simp add: escape_def)

lemma escaped_length: "length (concat (map escape s)) = length s + escape_characters s"
  by (induction s) (simp_all add: escape_characters_def escape_length)

lemma escape_none: "escape_characters s = 0 \<Longrightarrow> concat (map escape s) = s"
  by (induction s) (auto simp: escape_characters_def escape_def split: if_splits)

lemma wr_twice: "wr b i xs = Some b' \<Longrightarrow> i + length xs + length ys \<le> length b \<Longrightarrow> Option.bind (wr b i xs) (\<lambda>b'. wr b' (i + length xs) ys) = wr b i (xs @ ys)"
  by (simp add: wr_split)

lemma put_twice: "Option.bind (put_bytes 0 xs p) (put_bytes (length xs) ys) = put_bytes 0 (xs @ ys) p"
  by (cases "pb_buffer p") (auto simp: put_bytes_def wr_split split: Option.bind_split)

lemma print_string_emit:
  "print_string_ptr A input = (let s = quoted input in emit_bytes A (length s + 1) (s @ [0]) 0)"
proof (cases input)
  case None
  then show ?thesis by (simp add: print_string_ptr_def quoted_def eval_nat_numeral)
next
  case (Some s)
  let ?s = "cstr s"
  have body: "(if escape_characters ?s = 0 then ?s else concat (map escape ?s)) = concat (map escape ?s)"
    using escape_none by auto
  have "Option.bind (put_bytes 0 (0x22 # concat (map escape ?s)) p) (put_bytes (length ?s + escape_characters ?s + 1) [0x22, 0]) =
      put_bytes 0 (string_text ?s @ [0]) p" for p
    using put_twice [of "0x22 # concat (map escape ?s)" p "[0x22, 0]"]
    by (simp add: escaped_length string_text_def del: length_concat)
  moreover have "length (string_text ?s) = length ?s + escape_characters ?s + 2"
    by (simp add: string_text_def escaped_length del: length_concat)
  ultimately show ?thesis
    unfolding print_string_ptr_def Some option.case Let_def body emit_bytes_def quoted_def
    by (simp add: map_option_case option.map_comp numeral_3_eq_3)
qed

subsection \<open>Values\<close>

lemma nonzero_digits: "0 \<notin> set (decimal n)"
  using decimal_digits [of n] by (auto simp: list_all_iff is_digit_def)

lemma nonzero_fraction: "0 \<notin> set ds \<Longrightarrow> 0 \<notin> set (fraction ds)"
proof -
  assume "0 \<notin> set ds"
  then have "0 \<notin> set (strip_zeros ds)" using set_dropWhileD [of 0 _ "rev ds"] by (auto simp: strip_zeros_def)
  then show ?thesis by (cases "strip_zeros ds") (auto simp: fraction_def)
qed

lemma number_nonzero: "0 \<notin> set (number_text d i)"
proof -
  have t: "0 \<notin> set (take k (decimal n))" "0 \<notin> set (drop k (decimal n))" for k n
    using nonzero_digits [of n] set_take_subset [of k "decimal n"] set_drop_subset [of k "decimal n"] by auto
  have f: "0 \<notin> set (fraction (drop k (decimal n)))" "0 \<notin> set (fraction (replicate j 0x30 @ decimal n))" for k j n
    using t nonzero_digits by (auto intro!: nonzero_fraction)
  have "0 \<notin> set (exponent_text x)" for x using nonzero_digits by (auto simp: exponent_text_def)
  then have "0 \<notin> set (g_text P neg n k)" for P neg n k
    using t f by (auto simp: g_text_def Let_def split: prod.split)
  then have "0 \<notin> set (format_g P d)" for P by (cases d) auto
  then show ?thesis using nonzero_digits
    by (auto simp: number_text_def lit_null_def int_text_def Let_def split: prod.split)
qed

lemma cstr_nonzero: "0 \<notin> set (cstr s)"
  by (auto simp: cstr_def dest: set_takeWhileD)

lemma quoted_nonzero: "0 \<notin> set (quoted s)"
proof -
  have "0 \<notin> set (escape c)" if "c \<noteq> 0" for c using escape_nonzero [of c] by (auto simp: list_all_iff)
  moreover have "c \<noteq> 0" if "c \<in> set (cstr t)" for c t using that cstr_nonzero [of t] by auto
  ultimately show ?thesis by (auto simp: quoted_def string_text_def split: option.split)
qed

lemma join_eq: "join s t = Some u \<longleftrightarrow> (\<exists>x y. s = Some x \<and> t = Some y \<and> u = x @ y)"
  by (auto simp: join_def split: Option.bind_splits)

lemma text_nonzero:
  "text_value fmt n it = Some s \<Longrightarrow> 0 \<notin> set s"
  "text_elements fmt n cs = Some s \<Longrightarrow> 0 \<notin> set s"
  "text_members fmt n cs = Some s \<Longrightarrow> 0 \<notin> set s"
proof (induction fmt n it and fmt n cs and fmt n cs arbitrary: s and s and s rule: text_value_text_elements_text_members.induct)
  case (1 fmt n t vs vi vd nm ch)
  have ih: "t AND 0xFF = cJSON_Array \<Longrightarrow> text_elements fmt (n + 1) ch = Some u \<Longrightarrow> 0 \<notin> set u"
    "t AND 0xFF = cJSON_Object \<Longrightarrow> text_members fmt (n + 1) ch = Some u \<Longrightarrow> 0 \<notin> set u" for u
    by (rule 1(1); simp add: type_codes) (rule 1(2); simp add: type_codes)
  have lits: "0 \<notin> set lit_null" "0 \<notin> set lit_false" "0 \<notin> set lit_true" "0 \<notin> set (tabs k)" for k
    by (simp_all add: lit_null_def lit_false_def lit_true_def tabs_def)
  from 1(3) consider "s \<in> {lit_null, lit_false, lit_true, number_text vd vi, quoted vs}" | v where "s = cstr v"
    | u where "t AND 0xFF = cJSON_Array" "text_elements fmt (n + 1) ch = Some u" "s = [0x5b] @ u @ [0x5d]"
    | u where "t AND 0xFF = cJSON_Object" "text_members fmt (n + 1) ch = Some u"
        "s = (if fmt then [0x7b, 0x0a] else [0x7b]) @ u @ (if fmt then tabs n else []) @ [0x7d]"
    by (simp add: Let_def split: if_splits) (auto simp: join_eq)
  then show ?case
    using ih lits number_nonzero cstr_nonzero quoted_nonzero by cases (auto split: if_splits)
next
  case (3 fmt n c cs)
  then show ?case by (auto simp: join_eq split: if_splits)
next
  case (5 fmt n c cs)
  from 5(3) obtain v r where vr: "text_value fmt n c = Some v" "text_members fmt n cs = Some r"
    and s: "s = (if fmt then tabs n else []) @ quoted (jstring c) @ (if fmt then [0x3a, 0x09] else [0x3a]) @ v @
      ((if cs \<noteq> [] then [0x2c] else []) @ (if fmt then [0x0a] else [])) @ r"
    unfolding text_members.simps join_eq by blast
  have "0 \<notin> set v" "0 \<notin> set r" using 5(1) [OF vr(1)] 5(2) [OF vr(2)] .
  then show ?case unfolding s using quoted_nonzero by (simp add: tabs_def)
qed simp_all

lemma deeper_outcome: "pb_ok p \<Longrightarrow> outcome A True p (Some []) (pb_depth p + 1) (deeper p)"
  by (auto simp: outcome_def deeper_def reached_def agrees_def account_def pb_ok_def front_bytes_def)

lemma nothing_outcome: "pb_ok p \<Longrightarrow> outcome A True p (Some []) (pb_depth p) (Some (True, p))"
  by (auto simp: outcome_def reached_def agrees_def account_def pb_ok_def)

text \<open>The depth is set back after the last piece, which leaves the offset.\<close>

lemma outcome_shallower:
  "outcome A False p so (Suc d) (f p) \<Longrightarrow> outcome A False p so d (then_print f shallower p)"
proof -
  have "agrees p q \<Longrightarrow> agrees p (q\<lparr>pb_depth := k\<rparr>)" "reached adv p s q \<Longrightarrow> reached adv p s (q\<lparr>pb_depth := k\<rparr>)" for q k adv s
    by (auto simp: agrees_def account_def reached_def pb_ok_def front_bytes_def split: if_splits)
  moreover assume "outcome A False p so (Suc d) (f p)"
  ultimately show ?thesis
    unfolding outcome_def by (fastforce simp: then_print_def shallower_def)
qed

text \<open>Every printer of the tree produces the text, or fails for lack of room or of a text.\<close>

definition prints_text :: "printer \<Rightarrow> allocator \<Rightarrow> bool \<Rightarrow> (bool \<Rightarrow> nat \<Rightarrow> u8 list option) \<Rightarrow> bool" where
  "prints_text f A advanced txt \<longleftrightarrow> (\<forall>p. pb_ok p \<longrightarrow> outcome A advanced p (txt (pb_format p) (pb_depth p)) (pb_depth p) (f p))"

lemma prints_then:
  "prints_text f A True t \<Longrightarrow> prints_text g A adv u \<Longrightarrow> prints_text (then_print f g) A adv (\<lambda>fmt n. join (t fmt n) (u fmt n))"
proof -
  assume f: "prints_text f A True t" and g: "prints_text g A adv u"
  show ?thesis
    unfolding prints_text_def
  proof (intro allI impI)
    fix p assume p: "pb_ok p"
    show "outcome A adv p (join (t (pb_format p) (pb_depth p)) (u (pb_format p) (pb_depth p))) (pb_depth p) (then_print f g p)"
    proof (rule outcome_then)
      show "outcome A True p (t (pb_format p) (pb_depth p)) (pb_depth p) (f p)" using f p by (simp add: prints_text_def)
      fix s q assume "reached True p s q" "agrees p q" "pb_depth q = pb_depth p"
      then have "pb_ok q" "pb_format q = pb_format p" "pb_depth q = pb_depth p" by (simp_all add: reached_def agrees_def)
      moreover have "outcome A adv q (u (pb_format q) (pb_depth q)) (pb_depth q) (g q)"
        using g \<open>pb_ok q\<close> by (simp add: prints_text_def)
      ultimately show "outcome A adv q (u (pb_format p) (pb_depth p)) (pb_depth p) (g q)" by simp
    qed
  qed
qed

lemma prints_update:
  "prints_text f A False t \<Longrightarrow> (\<And>fmt n s. t fmt n = Some s \<Longrightarrow> 0 \<notin> set s) \<Longrightarrow> prints_text (then_print f update_offset) A True t"
  unfolding prints_text_def by (auto intro: outcome_update)

lemma prints_nested:
  assumes "prints_text f A True t" and "prints_text g A True u"
    and h: "\<And>p. pb_ok p \<Longrightarrow> 0 < pb_depth p \<Longrightarrow> outcome A False p (v (pb_format p) (pb_depth p)) (pb_depth p) (h p)"
  shows "prints_text (then_print f (then_print deeper (then_print g (then_print h shallower)))) A False
    (\<lambda>fmt n. join (t fmt n) (join (u fmt (n + 1)) (v fmt (n + 1))))"
  unfolding prints_text_def
proof (intro allI impI)
  fix p assume p: "pb_ok p"
  let ?fmt = "pb_format p" and ?n = "pb_depth p"
  have inner: "outcome A False q (join (u ?fmt (?n + 1)) (v ?fmt (?n + 1))) ?n (then_print g (then_print h shallower) q)"
    if q: "pb_ok q" "pb_format q = ?fmt" "pb_depth q = ?n + 1" for q
  proof -
    have "outcome A False q (join (u ?fmt (?n + 1)) (v ?fmt (?n + 1))) (Suc ?n) (then_print g h q)"
    proof (rule outcome_then)
      show "outcome A True q (u ?fmt (?n + 1)) (Suc ?n) (g q)" using assms(2) q by (auto simp: prints_text_def)
      fix s r assume "reached True q s r" "agrees q r" "pb_depth r = Suc ?n"
      then have "pb_ok r" "pb_format r = ?fmt" "pb_depth r = Suc ?n" using q by (simp_all add: reached_def agrees_def)
      then show "outcome A False r (v ?fmt (?n + 1)) (Suc ?n) (h r)" using h [of r] by simp
    qed
    then show ?thesis unfolding then_assoc [of g h shallower] by (rule outcome_shallower)
  qed
  have "outcome A False q (join (Some []) (join (u ?fmt (?n + 1)) (v ?fmt (?n + 1)))) ?n
      (then_print deeper (then_print g (then_print h shallower)) q)" if q: "pb_ok q" "pb_format q = ?fmt" "pb_depth q = ?n" for q
  proof (rule outcome_then)
    show "outcome A True q (Some []) (?n + 1) (deeper q)" using deeper_outcome [OF q(1)] q(3) by simp
    fix s r assume "reached True q s r" "agrees q r" "pb_depth r = ?n + 1"
    then show "outcome A False r (join (u ?fmt (?n + 1)) (v ?fmt (?n + 1))) ?n (then_print g (then_print h shallower) r)"
      using q by (intro inner) (auto simp: reached_def agrees_def)
  qed
  then have rest: "outcome A False q (join (u ?fmt (?n + 1)) (v ?fmt (?n + 1))) ?n
      (then_print deeper (then_print g (then_print h shallower)) q)" if "pb_ok q" "pb_format q = ?fmt" "pb_depth q = ?n" for q
    using that by simp
  show "outcome A False p (join (t ?fmt ?n) (join (u ?fmt (?n + 1)) (v ?fmt (?n + 1)))) ?n
      (then_print f (then_print deeper (then_print g (then_print h shallower))) p)"
  proof (rule outcome_then)
    show "outcome A True p (t ?fmt ?n) ?n (f p)" using assms(1) p by (simp add: prints_text_def)
    fix s q assume "reached True p s q" "agrees p q" "pb_depth q = ?n"
    then show "outcome A False q (join (u ?fmt (?n + 1)) (v ?fmt (?n + 1))) ?n
      (then_print deeper (then_print g (then_print h shallower)) q)" by (intro rest) (auto simp: reached_def agrees_def)
  qed
qed

text \<open>The pieces between the values.\<close>

lemma prints_pieces:
  "prints_text (emit_bytes A 1 [0x5b] 1) A True (\<lambda>_ _. Some [0x5b])"
  "prints_text (emit_bytes A 2 [0x5d, 0] 0) A False (\<lambda>_ _. Some [0x5d])"
  "prints_text (comma_array A) A True (\<lambda>fmt _. Some (if fmt then [0x2c, 0x20] else [0x2c]))"
  "prints_text (open_object A) A True (\<lambda>fmt _. Some (if fmt then [0x7b, 0x0a] else [0x7b]))"
  "prints_text (indent A) A True (\<lambda>fmt n. Some (if fmt then tabs n else []))"
  "prints_text (colon A) A True (\<lambda>fmt _. Some (if fmt then [0x3a, 0x09] else [0x3a]))"
  "prints_text (member_end A further) A True (\<lambda>fmt _. Some ((if further then [0x2c] else []) @ (if fmt then [0x0a] else [])))"
  "prints_text (\<lambda>p. Some (True, p)) A True (\<lambda>_ _. Some [])"
  by (auto simp: prints_text_def comma_array_def open_object_def indent_def colon_def member_end_def tabs_def Let_def
      intro!: emit_value emit_advance nothing_outcome)

lemma prints_string: "prints_text (print_string_ptr A s) A False (\<lambda>_ _. Some (quoted s))"
  by (simp add: prints_text_def print_string_emit Let_def emit_value)

lemma prints_number: "length (number_text d i) \<le> 25 \<Longrightarrow> prints_text (print_number A d i) A False (\<lambda>_ _. Some (number_text d i))"
  by (simp add: prints_text_def print_number_def Let_def emit_value)

lemma prints_close:
  "pb_ok p \<Longrightarrow> 0 < pb_depth p \<Longrightarrow>
    outcome A False p (Some ((if pb_format p then tabs (pb_depth p - 1) else []) @ [0x7d])) (pb_depth p) (close_object A p)"
  unfolding close_object_def by (rule emit_value) (auto simp: tabs_def)

lemma prints_lits:
  "prints_text (emit_bytes A 5 (lit_null @ [0]) 0) A False (\<lambda>_ _. Some lit_null)"
  "prints_text (emit_bytes A 6 (lit_false @ [0]) 0) A False (\<lambda>_ _. Some lit_false)"
  "prints_text (emit_bytes A 5 (lit_true @ [0]) 0) A False (\<lambda>_ _. Some lit_true)"
  "prints_text (emit_bytes A (length s + 1) (s @ [0]) 0) A False (\<lambda>_ _. Some s)"
  by (auto simp: prints_text_def lit_null_def lit_false_def lit_true_def intro!: emit_value)

lemma prints_nothing: "prints_text (\<lambda>p. Some (False, p)) A adv (\<lambda>_ _. None)"
  by (auto simp: prints_text_def outcome_def agrees_def pb_ok_def)

lemma prints_all:
  "machine_tree it \<Longrightarrow> prints_text (print_value A it) A False (\<lambda>fmt n. text_value fmt n it)"
  "\<forall>c \<in> set cs. machine_tree c \<Longrightarrow> prints_text (print_elements A cs) A True (\<lambda>fmt n. text_elements fmt n cs)"
  "\<forall>c \<in> set cs. machine_tree c \<Longrightarrow> prints_text (print_members A cs) A True (\<lambda>fmt n. text_members fmt n cs)"
proof (induction A it and A cs and A cs rule: print_value_print_elements_print_members.induct)
  case (1 A t vs vi vd nm ch)
  let ?k = "t AND 0xFF"
  have arr: "?k = cJSON_Array \<Longrightarrow> prints_text (print_elements A ch) A True (\<lambda>fmt n. text_elements fmt n ch)"
    using 1(1,3) by (simp add: type_codes)
  have obj: "?k = cJSON_Object \<Longrightarrow> prints_text (print_members A ch) A True (\<lambda>fmt n. text_members fmt n ch)"
    using 1(2,3) by (simp add: type_codes)
  have num: "length (number_text vd vi) \<le> 25" using number_text_length [of vd vi] 1(3) by simp
  consider "?k \<in> {cJSON_NULL, cJSON_False, cJSON_True}" | "?k = cJSON_Number" | "?k = cJSON_Raw" | "?k = cJSON_String"
    | "?k = cJSON_Array" | "?k = cJSON_Object"
    | "?k \<notin> {cJSON_NULL, cJSON_False, cJSON_True, cJSON_Number, cJSON_Raw, cJSON_String, cJSON_Array, cJSON_Object}"
    by blast
  then show ?case
  proof cases
    case 1
    then show ?thesis using prints_lits(1-3) [of A] by (auto simp: type_codes)
  next
    case 2
    then show ?thesis using prints_number [OF num] by (simp add: type_codes)
  next
    case 3
    then show ?thesis using prints_lits(4) [of A] prints_nothing [of A] by (cases vs) (auto simp: type_codes)
  next
    case 4
    then show ?thesis using prints_string [of A vs] by (simp add: type_codes)
  next
    case 5
    have close: "outcome A False p (Some [0x5d]) (pb_depth p) (emit_bytes A 2 [0x5d, 0] 0 p)" if "pb_ok p" for p
      using prints_pieces(2) [of A] that by (simp add: prints_text_def)
    show ?thesis
      using 5 prints_nested [OF prints_pieces(1) arr [OF 5], of "\<lambda>_ _. Some [0x5d]", OF close]
      by (simp add: type_codes)
  next
    case 6
    note nest = prints_nested [OF prints_pieces(4) obj [OF 6],
        of "\<lambda>fmt n. Some ((if fmt then tabs (n - 1) else []) @ [0x7d])", OF prints_close]
    show ?thesis using 6 nest [unfolded add_diff_cancel_right'] by (simp add: type_codes)
  next
    case 7
    then show ?thesis using prints_nothing [of A] by simp
  qed
next
  case (2 A)
  then show ?case using prints_pieces(8) by simp
next
  case (3 A c cs)
  have a: "prints_text (then_print (print_value A c) update_offset) A True (\<lambda>fmt n. text_value fmt n c)"
    using 3 text_nonzero(1) by (intro prints_update) auto
  have b: "prints_text (if cs \<noteq> [] then comma_array A else (\<lambda>p. Some (True, p))) A True
      (\<lambda>fmt _. Some (if cs \<noteq> [] then if fmt then [0x2c, 0x20] else [0x2c] else []))"
    using prints_pieces(3) [of A] prints_pieces(8) [of A] by simp
  have "print_elements A (c # cs) = then_print (then_print (print_value A c) update_offset)
      (then_print (if cs \<noteq> [] then comma_array A else (\<lambda>p. Some (True, p))) (print_elements A cs))"
    by (simp only: print_elements.simps then_assoc)
  moreover have "prints_text (print_elements A cs) A True (\<lambda>fmt n. text_elements fmt n cs)" using 3 by simp
  ultimately show ?case using prints_then [OF a prints_then [OF b]] by (simp only: text_elements.simps)
next
  case (4 A)
  then show ?case using prints_pieces(8) by simp
next
  case (5 A c cs)
  have v: "prints_text (then_print (print_value A c) update_offset) A True (\<lambda>fmt n. text_value fmt n c)"
    using 5 text_nonzero(1) by (intro prints_update) auto
  have s: "prints_text (then_print (print_string_ptr A (jstring c)) update_offset) A True (\<lambda>_ _. Some (quoted (jstring c)))"
    using quoted_nonzero by (intro prints_update prints_string) auto
  have "print_members A (c # cs) = then_print (indent A)
      (then_print (then_print (print_string_ptr A (jstring c)) update_offset) (then_print (colon A)
      (then_print (then_print (print_value A c) update_offset) (then_print (member_end A (cs \<noteq> [])) (print_members A cs)))))"
    by (simp only: print_members.simps then_assoc)
  moreover have "prints_text (print_members A cs) A True (\<lambda>fmt n. text_members fmt n cs)" using 5 by simp
  ultimately show ?case
    using prints_then [OF prints_pieces(5) prints_then [OF s prints_then [OF prints_pieces(6)
        prints_then [OF v prints_then [OF prints_pieces(7)]]]]] by (simp only: text_members.simps)
qed


lemma print_item_text:
  assumes "case item of None \<Rightarrow> True | Some it \<Rightarrow> machine_tree it"
  shows "prints_text (print_item A item) A False (\<lambda>fmt n. Option.bind item (text_value fmt n))"
  using assms prints_nothing prints_all(1) by (cases item) (auto simp: print_item_def)

subsection \<open>Entry points\<close>

definition start_buffer :: "u8 list \<Rightarrow> bool \<Rightarrow> bool \<Rightarrow> heap \<Rightarrow> printbuffer" where
  "start_buffer b noalloc fmt h = \<lparr>pb_buffer = Some b, pb_length = length b, pb_offset = 0, pb_depth = 0,
     pb_noalloc = noalloc, pb_format = fmt, pb_heap = h\<rparr>"

lemma start_run:
  assumes "case item of None \<Rightarrow> True | Some it \<Rightarrow> machine_tree it" and "0 < length b" and "length b \<le> int_max"
  obtains ok p where "print_item A item (start_buffer b noalloc fmt h) = Some (ok, p)" and "agrees (start_buffer b noalloc fmt h) p"
    and "if ok then \<exists>s. Option.bind item (text_value fmt 0) = Some s \<and> reached False (start_buffer b noalloc fmt h) s p
      else \<forall>s. Option.bind item (text_value fmt 0) = Some s \<longrightarrow> lacks A (start_buffer b noalloc fmt h) (length s + 2)"
proof -
  define p where "p = start_buffer b noalloc fmt h"
  have ok: "pb_ok p" "pb_format p = fmt" "pb_depth p = 0" using assms(2,3) by (simp_all add: p_def pb_ok_def start_buffer_def)
  have "outcome A False p (Option.bind item (text_value fmt 0)) 0 (print_item A item p)"
    using print_item_text [OF assms(1), of A] ok by (auto simp: prints_text_def)
  then obtain r q where "print_item A item p = Some (r, q)" "agrees p q"
    "if r then \<exists>s. Option.bind item (text_value fmt 0) = Some s \<and> pb_depth q = 0 \<and> reached False p s q
      else \<forall>s. Option.bind item (text_value fmt 0) = Some s \<longrightarrow> lacks A p (length s + 2)"
    unfolding outcome_def by blast
  then show ?thesis using that [of r q] unfolding p_def [symmetric] by (cases r) auto
qed

lemma reached_start:
  assumes "reached False (start_buffer b noalloc fmt h) s p"
  obtains b' where "pb_buffer p = Some b'" and "take (length s + 1) b' = s @ [0]" and "length b' = pb_length p"
    and "length s + 2 \<le> length b'" and "pb_offset p \<le> length s" and "pb_ok p"
  using assms by (auto simp: reached_def pb_ok_def front_bytes_def start_buffer_def)

lemma wr_from_start: "length xs \<le> length m \<Longrightarrow> wr m 0 xs = Some (xs @ drop (length xs) m)"
  by (simp add: wr_def)

lemma account_start: "account (start_buffer b noalloc fmt h) = live h - 1"
  by (simp add: account_def start_buffer_def)

text \<open>What a caller of \<^verbatim>\<open>cJSON_Print\<close> may rely on.\<close>

definition printed :: "allocator \<Rightarrow> u8 list option \<Rightarrow> heap \<Rightarrow> (u8 list option \<times> heap) option \<Rightarrow> bool" where
  "printed A txt h r \<longleftrightarrow> (case r of
     Some (Some s, h') \<Rightarrow> (\<exists>t. txt = Some t \<and> s = t @ [0]) \<and> live h' = live h + 1
   | Some (None, h') \<Rightarrow> live h' = live h \<and>
       (\<forall>t. txt = Some t \<longrightarrow> (\<exists>n. \<not> grants A n) \<or> int_max div 2 < length t + 2)
   | None \<Rightarrow> False)"

lemma print_printed:
  assumes m: "case item of None \<Rightarrow> True | Some it \<Rightarrow> machine_tree it"
  shows "printed A (Option.bind item (text_value fmt 0)) h (print A item fmt h)"
proof (cases "grants A (requests h)")
  case False
  then show ?thesis by (auto simp: print_def allocate_def printed_def)
next
  case True
  define h1 where "h1 = snd (allocate (grants A) h)"
  define b where "b = fresh_block A h 256"
  let ?p = "start_buffer b False fmt h1"
  let ?txt = "Option.bind item (text_value fmt 0)"
  have len: "length b = 256" by (simp add: b_def fresh_block_def)
  have al: "allocate (grants A) h = (True, h1)" "live h1 = live h + 1" using True by (simp_all add: allocate_def h1_def)
  obtain ok p where p: "print_item A item ?p = Some (ok, p)" "agrees ?p p"
    and r: "if ok then \<exists>s. ?txt = Some s \<and> reached False ?p s p
      else \<forall>s. ?txt = Some s \<longrightarrow> lacks A ?p (length s + 2)"
    using start_run [OF m, of b A False fmt h1] len by auto
  have acc: "account p = live h" using p(2) al(2) by (simp add: agrees_def account_start)
  have start: "\<lparr>pb_buffer = Some b, pb_length = 256, pb_offset = 0, pb_depth = 0, pb_noalloc = False,
      pb_format = fmt, pb_heap = h1\<rparr> = ?p" by (simp add: start_buffer_def len)
  show ?thesis
  proof (cases ok)
    case False
    have "live (drop_buffer p) = live h" using acc by (simp add: drop_buffer_def account_def deallocate_def split: if_splits)
    moreover have "print A item fmt h = Some (None, drop_buffer p)"
      using p(1) False by (simp add: print_def al(1) start b_def [symmetric])
    ultimately show ?thesis
      using r False by (auto simp: printed_def lacks_def start_buffer_def)
  next
    case ok: True
    then obtain s where s: "?txt = Some s" "reached False ?p s p" using r by auto
    obtain b' where b': "pb_buffer p = Some b'" "take (length s + 1) b' = s @ [0]" "length b' = pb_length p"
      "length s + 2 \<le> length b'" "pb_offset p \<le> length s" using s(2) by (rule reached_start)
    have nz: "0 \<notin> set s" using s(1) text_nonzero(1) by (cases item) auto
    have "b' = s @ 0 # drop (length s + 1) b'" using append_take_drop_id [of "length s + 1" b'] unfolding b'(2) by simp
    then have "drop (pb_offset p) b' = drop (pb_offset p) s @ 0 # drop (length s + 1) b'"
      using b'(5) by (metis (no_types) diff_is_0_eq drop0 drop_append)
    then have c: "cstr (drop (pb_offset p) b') = drop (pb_offset p) s" "0 \<in> set (drop (pb_offset p) b')"
      using nz set_drop_subset [of "pb_offset p" s] cstr_upto [of "drop (pb_offset p) s"] by auto
    define q where "q = p\<lparr>pb_offset := length s\<rparr>"
    have upd: "update_offset p = Some (True, q)" using b' c by (simp add: update_offset_def q_def)
    have q: "pb_buffer q = Some b'" "pb_offset q = length s" "pb_heap q = pb_heap p" "pb_length q = length b'"
      using b' by (simp_all add: q_def)
    have live: "live (pb_heap p) = live h + 1" using acc b'(1) by (simp add: account_def)
    have run: "print A item fmt h = (case allocate (grants A) (pb_heap p) of (ok, h2) \<Rightarrow>
        if \<not> ok then Some (None, deallocate h2)
        else if has_realloc A then Some (Some (take (length s + 1) (b' @ fresh_block A (pb_heap p) (length s + 1))), deallocate h2)
        else Option.bind (wr (fresh_block A (pb_heap p) (length s + 1)) 0 (take (min (length b') (length s + 1)) b'))
          (\<lambda>printed. Option.bind (wr printed (length s) [0]) (\<lambda>printed. Some (Some printed, deallocate h2))))"
      using p(1) ok upd q by (simp add: print_def al(1) start b_def [symmetric] case_prod_beta Let_def)
    show ?thesis
    proof (cases "grants A (requests (pb_heap p))")
      case False
      then show ?thesis using live unfolding run by (auto simp: printed_def allocate_def deallocate_def)
    next
      case True
      have "min (length b') (length s + 1) = length s + 1" using b'(4) by simp
      then have tk: "take (min (length b') (length s + 1)) b' = s @ [0]" "take (length s + 1) (b' @ x) = s @ [0]" for x
        using b'(2,4) by simp_all
      have w: "wr (fresh_block A (pb_heap p) (Suc (length s))) 0 (s @ [0]) = Some (s @ [0])" "wr (s @ [0]) (length s) [0] = Some (s @ [0])"
        by (simp_all add: wr_def fresh_block_def)
      show ?thesis using True live s(1) unfolding run tk by (simp add: w printed_def allocate_def deallocate_def)
    qed
  qed
qed

subsection \<open>Printing and parsing\<close>

text \<open>Values whose numbers an \<^verbatim>\<open>int\<close> holds and whose strings C can hold.\<close>

fun printable :: "json \<Rightarrow> bool" where
  "printable (JInt i) \<longleftrightarrow> INT_MIN \<le> i \<and> i \<le> INT_MAX"
| "printable (JString s) \<longleftrightarrow> 0 \<notin> set s"
| "printable (JArray js) \<longleftrightarrow> (\<forall>j \<in> set js. printable j)"
| "printable (JObject ms) \<longleftrightarrow> (\<forall>m \<in> set ms. 0 \<notin> set (fst m) \<and> printable (snd m))"
| "printable (JNum l) \<longleftrightarrow> False"
| "printable _ \<longleftrightarrow> True"

lemma cstr_id: "0 \<notin> set s \<Longrightarrow> cstr s = s"
  unfolding cstr_def by (induction s) auto

lemma saturate_small: "INT_MIN \<le> i \<Longrightarrow> i \<le> INT_MAX \<Longrightarrow> saturate i = i"
  by (auto simp: saturate_def)

lemma f_eq_refl: "is_finite_f d \<Longrightarrow> f_eq d d"
  by (cases d) (simp_all add: f_eq_def)

lemma int_to_dbl_finite: "INT_MIN \<le> i \<Longrightarrow> i \<le> INT_MAX \<Longrightarrow> is_finite_f (int_to_dbl i)"
proof -
  assume "INT_MIN \<le> i" "i \<le> INT_MAX"
  then have "\<bar>i\<bar> < 2 ^ 53" by (simp add: INT_MIN_def INT_MAX_def)
  then have "dbl_ge_int (int_to_dbl i) i \<and> dbl_le_int (int_to_dbl i) i" by (simp add: int_to_dbl_cmp)
  then show ?thesis by (cases "int_to_dbl i") auto
qed

lemma int_number_text: "INT_MIN \<le> i \<Longrightarrow> i \<le> INT_MAX \<Longrightarrow> number_text (int_to_dbl i) (saturate i) = int_text i"
  by (simp add: number_text_def saturate_small int_to_dbl_finite f_eq_refl)

lemma elements_commas:
  "(\<And>j. j \<in> set js \<Longrightarrow> text_value False k (tree None j) = Some (json_text j)) \<Longrightarrow>
    text_elements False k (map (tree None) js) = Some (commas (map json_text js))"
proof (induction js)
  case (Cons j js)
  then show ?case by (cases js) simp_all
qed simp

lemma jstring_of_tree [simp]: "jstring (tree nm j) = nm"
  by (cases j) simp_all

lemma members_commas:
  "(\<And>m. m \<in> set ms \<Longrightarrow> 0 \<notin> set (fst m) \<and> text_value False k (tree (Some (fst m)) (snd m)) = Some (json_text (snd m))) \<Longrightarrow>
    text_members False k (map (\<lambda>m. tree (Some (fst m)) (snd m)) ms) =
      Some (commas (map (\<lambda>m. string_text (fst m) @ 0x3a # json_text (snd m)) ms))"
proof (induction ms)
  case (Cons m ms)
  then show ?case by (cases ms) (simp_all add: quoted_def cstr_id)
qed simp

lemma text_of_tree: "printable j \<Longrightarrow> text_value False n (tree nm j) = Some (json_text j)"
proof (induction j arbitrary: n nm rule: json_text.induct)
  case (5 js)
  then have "text_elements False k (map (tree None) js) = Some (commas (map json_text js))" for k
    by (intro elements_commas) auto
  then show ?case by (simp add: type_codes)
next
  case (6 ms)
  then have "text_members False k (map (\<lambda>m. tree (Some (fst m)) (snd m)) ms) =
      Some (commas (map (\<lambda>m. string_text (fst m) @ 0x3a # json_text (snd m)) ms))" for k
    by (intro members_commas) auto
  then show ?case by (simp add: type_codes)
qed (auto simp: type_codes quoted_def int_number_text cstr_id)

lemma machine_of_tree: "machine_tree (tree nm j)"
proof (induction nm j rule: tree.induct)
  case (3 nm i)
  have "f_ok binary64 (int_to_dbl i)" unfolding int_to_dbl_def by (rule round_to_ok) simp_all
  then show ?case by (auto simp: saturate_def INT_MIN_def INT_MAX_def)
next
  case (7 nm l)
  have "f_ok binary64 (number_value l)" unfolding number_value_def by (rule round_to_ok) simp_all
  moreover obtain i where i: "num_to_int (number_value l) = Some i"
    using num_to_int_total [of "number_value l"] by (auto simp: number_value_def)
  then have "INT_MIN \<le> i \<and> i \<le> INT_MAX"
    by (cases "number_value l") (auto simp: num_to_int_def INT_MIN_def INT_MAX_def Let_def split: if_splits)
  ultimately show ?case using i by simp
qed (auto simp: dbl_zero_def binary64_def INT_MIN_def INT_MAX_def)


subsection \<open>Properties\<close>

text \<open>
  C25: printing computes the text of the tree, inside its buffer, whatever the allocator does and
  whatever is in new memory: \<^verbatim>\<open>cJSON_Print\<close> and \<^verbatim>\<open>cJSON_PrintUnformatted\<close> return the text with its
  terminator in a block of exactly that length, the only one that stays, or nothing, and then no
  block stays and either the tree holds a node that has no text, or an allocation failed, or
  the text would not fit into a gigabyte.
\<close>

theorem cJSON_print_correct:
  assumes "case item of None \<Rightarrow> True | Some it \<Rightarrow> machine_tree it"
  shows "printed A (Option.bind item (text_value True 0)) h (cJSON_Print A item h) \<and>
    printed A (Option.bind item (text_value False 0)) h (cJSON_PrintUnformatted A item h)"
  using print_printed [OF assms] by (simp add: cJSON_Print_def cJSON_PrintUnformatted_def)

definition willing :: allocator where
  "willing = \<lparr>grants = (\<lambda>_. True), has_realloc = False, junk = (\<lambda>_ _. 0x7f)\<rparr>"

lemma printed_willing:
  assumes "printed A txt h r" and "txt = Some t" and "\<And>n. grants A n" and "length t + 2 \<le> int_max div 2"
  obtains h' where "r = Some (Some (t @ [0]), h')" and "live h' = live h + 1"
proof (cases r)
  case None
  then show ?thesis using assms(1) by (simp add: printed_def)
next
  case (Some x)
  obtain y h' where x: "x = (y, h')" by (cases x)
  show ?thesis
    using assms that unfolding Some x by (cases y) (auto simp: printed_def)
qed

theorem cJSON_print_correct_witness:
  "\<exists>h. cJSON_Print willing (Some (tree None (JArray [JInt 1, JObject [([0x61], JBool False)]]))) \<lparr>requests = 0, live = 0\<rparr> =
    Some (Some (ascii ''[1, {'' @ [0x0a, 0x09, 0x09, 0x22, 0x61, 0x22, 0x3a, 0x09] @ ascii ''false'' @ [0x0a, 0x09] @ ascii ''}]'' @ [0]), h)"
proof -
  let ?it = "tree None (JArray [JInt 1, JObject [([0x61], JBool False)]])"
  have m: "case Some ?it of None \<Rightarrow> True | Some it \<Rightarrow> machine_tree it"
    by (simp add: machine_of_tree del: tree.simps)
  have "number_text (int_to_dbl 1) 1 = int_text 1"
    using int_number_text [of 1] saturate_small [of 1] by (simp add: INT_MIN_def INT_MAX_def)
  then have t: "text_value True 0 ?it = Some (ascii ''[1, {'' @ [0x0a, 0x09, 0x09, 0x22, 0x61, 0x22, 0x3a, 0x09] @
      ascii ''false'' @ [0x0a, 0x09] @ ascii ''}]'')"
    using saturate_small [of 1]
    by (simp add: type_codes quoted_def string_text_def escape_def cstr_def tabs_def lit_false_def ascii_def int_text_def
        decimal.simps INT_MIN_def INT_MAX_def)
  define expected where "expected = ascii ''[1, {'' @ [0x0a, 0x09, 0x09, 0x22, 0x61, 0x22, 0x3a, 0x09] @ ascii ''false'' @ [0x0a, 0x09] @ ascii ''}]''"
  have bind: "Option.bind (Some ?it) (text_value True 0) = Some expected" using t by (simp add: expected_def)
  have room: "length expected + 2 \<le> int_max div 2" by (simp add: expected_def ascii_def)
  have grants: "grants willing n" for n by (simp add: willing_def)
  obtain h' where "cJSON_Print willing (Some ?it) \<lparr>requests = 0, live = 0\<rparr> = Some (Some (expected @ [0]), h')"
    using printed_willing [OF conjunct1 [OF cJSON_print_correct [OF m]] bind grants room] by blast
  then show ?thesis unfolding expected_def append.assoc by blast
qed

text \<open>
  C27: \<^verbatim>\<open>cJSON_PrintPreallocated\<close> never leaves the buffer it is given, needs no memory, and succeeds
  exactly if the buffer has room for the text, its terminator and one byte more; the text is
  then at its start.
\<close>

theorem print_preallocated_exact:
  assumes "machine_tree it" and "0 < length buf" and "length buf \<le> 2147483647"
  shows "\<exists>ok p buf'. cJSON_PrintPreallocated A (Some it) buf format h = Some (ok, p) \<and> pb_heap p = h \<and>
    pb_buffer p = Some buf' \<and> (ok \<longleftrightarrow> (\<exists>t. text_value format 0 it = Some t \<and> length t + 2 \<le> length buf)) \<and>
    (\<forall>t. ok \<and> text_value format 0 it = Some t \<longrightarrow> length buf' = length buf \<and> take (length t + 1) buf' = t @ [0])"
proof -
  let ?p = "start_buffer buf True format h"
  have m: "case Some it of None \<Rightarrow> True | Some it \<Rightarrow> machine_tree it" using assms(1) by simp
  obtain ok p where p: "print_item A (Some it) ?p = Some (ok, p)" "agrees ?p p"
    and r: "if ok then \<exists>s. Option.bind (Some it) (text_value format 0) = Some s \<and> reached False ?p s p
      else \<forall>s. Option.bind (Some it) (text_value format 0) = Some s \<longrightarrow> lacks A ?p (length s + 2)"
    using start_run [OF m assms(2,3), of A True format h] by auto
  have keep: "pb_heap p = h" "pb_length p = length buf" "pb_buffer p \<noteq> None" using p(2) by (auto simp: agrees_def start_buffer_def)
  have run: "cJSON_PrintPreallocated A (Some it) buf format h = Some (ok, p)"
    using p(1) by (simp add: cJSON_PrintPreallocated_def start_buffer_def)
  show ?thesis
  proof (cases ok)
    case True
    then obtain s b' where "text_value format 0 it = Some s" "pb_buffer p = Some b'" "take (length s + 1) b' = s @ [0]"
      "length b' = pb_length p" "length s + 2 \<le> length b'" using r by (auto elim: reached_start)
    then show ?thesis using run keep True by auto
  next
    case False
    then show ?thesis using run keep r by (auto simp: lacks_def start_buffer_def)
  qed
qed

theorem print_preallocated_exact_witness:
  "\<exists>p. cJSON_PrintPreallocated willing (Some (tree None (JBool True))) (replicate 6 1) False \<lparr>requests = 0, live = 0\<rparr> = Some (True, p) \<and>
    (\<exists>q. cJSON_PrintPreallocated willing (Some (tree None (JBool True))) (replicate 5 1) False \<lparr>requests = 0, live = 0\<rparr> = Some (False, q))"
proof -
  have t: "text_value False 0 (tree None (JBool True)) = Some lit_true" by (simp add: type_codes)
  show ?thesis
    using print_preallocated_exact [OF machine_of_tree, of "replicate 6 1" willing None "JBool True" False "\<lparr>requests = 0, live = 0\<rparr>"]
      print_preallocated_exact [OF machine_of_tree, of "replicate 5 1" willing None "JBool True" False "\<lparr>requests = 0, live = 0\<rparr>"]
    by (auto simp: t lit_true_def simp del: tree.simps text_value.simps)
qed

text \<open>
  C26: what is printed is parsed back, for trees whose numbers are integers: for any value in which every
  number is an integer that an \<^verbatim>\<open>int\<close> holds, with strings that C can hold, at most 1000 levels and a text
  of less than a gigabyte, \<^verbatim>\<open>cJSON_Parse\<close> of the result of \<^verbatim>\<open>cJSON_PrintUnformatted\<close> is the tree that was
  printed. (Other doubles are outside of this claim: one that 15 digits render within the tolerance of
  \<^verbatim>\<open>compare_double\<close> is printed with 15 digits and need not come back.)
\<close>

theorem print_then_parse:
  assumes "printable j" and "plain_json CJSON_NESTING_LIMIT j" and "\<And>n. grants A n" and "length (json_text j) < 1000000000"
  shows "\<exists>s h1 r. cJSON_PrintUnformatted A (Some (tree None j)) h = Some (Some (s @ [0]), h1) \<and>
    cJSON_Parse always (Some s) h1 = Some (Done r) \<and> res_item r = Some (tree None j)"
proof -
  have "printed A (Some (json_text j)) h (cJSON_PrintUnformatted A (Some (tree None j)) h)"
    using print_printed [of "Some (tree None j)" A False h] machine_of_tree text_of_tree [OF assms(1)]
    by (simp add: cJSON_PrintUnformatted_def)
  from printed_willing [OF this refl assms(3)] assms(4) obtain h1
    where "cJSON_PrintUnformatted A (Some (tree None j)) h = Some (Some (json_text j @ [0]), h1)" by auto
  then show ?thesis using parse_text_document [OF assms(2)] by (simp add: cJSON_Parse_def)
qed

theorem print_then_parse_witness:
  "\<exists>s h1 r. cJSON_PrintUnformatted willing (Some (tree None json_example)) \<lparr>requests = 0, live = 0\<rparr> = Some (Some (s @ [0]), h1) \<and>
    cJSON_Parse always (Some s) h1 = Some (Done r) \<and> res_item r = Some (tree None json_example)"
proof (rule print_then_parse)
  show "length (json_text json_example) < 1000000000"
    by (simp add: json_example_def string_text_def escape_def int_text_def decimal.simps lit_true_def)
qed (simp_all add: json_example_def willing_def CJSON_NESTING_LIMIT_def INT_MIN_def INT_MAX_def)

text \<open>
  C0: \<^verbatim>\<open>cJSON_PrintBuffered\<close> with an initial size of 0 and an allocator of the user's own, for which there
  is no \<^verbatim>\<open>realloc\<close>, copies a byte out of a block of 0 bytes.
\<close>

theorem print_buffered_zero:
  assumes "\<And>n. grants A n" and "\<not> has_realloc A"
    and "jtype it AND 0xFF \<in> {cJSON_NULL, cJSON_True, cJSON_False, cJSON_Array, cJSON_Object}"
  shows "cJSON_PrintBuffered A (Some it) 0 fmt h = None"
proof -
  have grow: "emit_bytes A k bs step \<lparr>pb_buffer = Some [], pb_length = 0, pb_offset = 0, pb_depth = 0, pb_noalloc = False,
      pb_format = fmt, pb_heap = h1\<rparr> = None" if "k < 1000" for k bs step h1
    using assms(1,2) that by (simp add: emit_bytes_def then_print_def ensure_def regrow_def allocate_def)
  obtain t vs vi vd nm ch where it: "it = CJ t vs vi vd nm ch" by (cases it)
  have "print_value A it \<lparr>pb_buffer = Some [], pb_length = 0, pb_offset = 0, pb_depth = 0, pb_noalloc = False,
      pb_format = fmt, pb_heap = h1\<rparr> = None" for h1
    using assms(3) grow unfolding it by (auto simp: type_codes open_object_def then_print_def Let_def)
  then show ?thesis
    using assms(1) by (simp add: cJSON_PrintBuffered_def allocate_def print_item_def fresh_block_def)
qed

theorem print_buffered_zero_witness:
  "cJSON_PrintBuffered willing (Some (tree None JNull)) 0 False \<lparr>requests = 0, live = 0\<rparr> = None"
  by (rule print_buffered_zero) (simp_all add: willing_def type_codes)

end
