(* ===== verification/CJsonLinks.thy ===== *)
theory CJsonLinks
  imports CJsonTree
begin

text \<open>
  The lists of children of cJSON.c as they are in memory: doubly linked nodes in a store, where
  the \<^verbatim>\<open>prev\<close> of the first child points to the last one. The operations that add, insert, replace
  and detach children are translated pointer by pointer; \<^term>\<open>None\<close> is an access through a null
  pointer or to a node that is not live, or a loop that does not end. What they do to the list
  of children is the relational abstraction \<open>children\<close>. Strings are values here, so a name that is
  shared by two nodes is not seen.
\<close>

subsection \<open>The store\<close>

type_synonym ptr = nat

record cnode =
  n_next :: "ptr option"
  n_prev :: "ptr option"
  n_child :: "ptr option"
  n_type :: int
  n_text :: "u8 list option"
  n_int :: int
  n_num :: dbl
  n_name :: "u8 list option"

type_synonym cnodes = "ptr \<rightharpoonup> cnode"

record cstore =
  nodes :: cnodes
  acct :: heap

text \<open>The block of the n-th request has the address n.\<close>

definition new_node :: "cjson \<Rightarrow> cnode" where
  "new_node it = \<lparr>n_next = None, n_prev = None, n_child = None, n_type = jtype it, n_text = valuestring it,
     n_int = valueint it, n_num = valuedouble it, n_name = jstring it\<rparr>"

definition place :: "heap \<Rightarrow> created \<Rightarrow> cstore \<Rightarrow> ptr option \<times> cstore" where
  "place h r m = (case r of (None, h') \<Rightarrow> (None, m\<lparr>acct := h'\<rparr>)
     | (Some it, h') \<Rightarrow> (Some (requests h), m\<lparr>nodes := (nodes m)(requests h \<mapsto> new_node it), acct := h'\<rparr>))"

definition deref :: "cstore \<Rightarrow> ptr option \<Rightarrow> cnode option" where
  "deref m p = Option.bind p (nodes m)"

definition update_node :: "ptr option \<Rightarrow> (cnode \<Rightarrow> cnode) \<Rightarrow> cstore \<Rightarrow> cstore option" where
  "update_node p f m = Option.bind p (\<lambda>a. map_option (\<lambda>n. m\<lparr>nodes := (nodes m)(a \<mapsto> f n)\<rparr>) (nodes m a))"

abbreviation set_next :: "ptr option \<Rightarrow> ptr option \<Rightarrow> cstore \<Rightarrow> cstore option" where
  "set_next p q \<equiv> update_node p (\<lambda>n. n\<lparr>n_next := q\<rparr>)"

abbreviation set_prev :: "ptr option \<Rightarrow> ptr option \<Rightarrow> cstore \<Rightarrow> cstore option" where
  "set_prev p q \<equiv> update_node p (\<lambda>n. n\<lparr>n_prev := q\<rparr>)"

abbreviation set_first :: "ptr option \<Rightarrow> ptr option \<Rightarrow> cstore \<Rightarrow> cstore option" where
  "set_first p q \<equiv> update_node p (\<lambda>n. n\<lparr>n_child := q\<rparr>)"

definition release :: "cstore \<Rightarrow> cstore" where
  "release m = m\<lparr>acct := deallocate (acct m)\<rparr>"

subsection \<open>Deleting\<close>

text \<open>\<^verbatim>\<open>cJSON_Delete\<close>: the children, the strings and the node, then the next one.\<close>

definition free_strings :: "cnode \<Rightarrow> cstore \<Rightarrow> cstore" where
  "free_strings n m = (let
     m1 = (if n_type n AND cJSON_IsReference = 0 \<and> n_text n \<noteq> None then release m else m)
   in if n_type n AND cJSON_StringIsConst = 0 \<and> n_name n \<noteq> None then release m1 else m1)"

definition free_node :: "ptr \<Rightarrow> cstore \<Rightarrow> cstore" where
  "free_node a m = release (m\<lparr>nodes := (nodes m)(a := None)\<rparr>)"

partial_function (option) delete_nodes :: "ptr option \<Rightarrow> cstore \<Rightarrow> cstore option" where
  "delete_nodes p m = (case p of None \<Rightarrow> Some m
     | Some a \<Rightarrow> do {
         n \<leftarrow> nodes m a;
         m1 \<leftarrow> (if n_type n AND cJSON_IsReference = 0 \<and> n_child n \<noteq> None then delete_nodes (n_child n) m else Some m);
         delete_nodes (n_next n) (free_node a (free_strings n m1)) })"

subsection \<open>Searching\<close>

fun walk :: "cstore \<Rightarrow> ptr option \<Rightarrow> nat \<Rightarrow> ptr option option" where
  "walk m None k = Some None"
| "walk m (Some a) 0 = Some (Some a)"
| "walk m (Some a) (Suc k) = Option.bind (nodes m a) (\<lambda>n. walk m (n_next n) k)"

definition find_index :: "cstore \<Rightarrow> ptr option \<Rightarrow> nat \<Rightarrow> ptr option option" where
  "find_index m array index = (case array of None \<Rightarrow> Some None
     | Some a \<Rightarrow> Option.bind (nodes m a) (\<lambda>n. walk m (n_child n) index))"

definition differs :: "bool \<Rightarrow> u8 list \<Rightarrow> u8 list option \<Rightarrow> bool" where
  "differs case_sensitive nm s = (if case_sensitive then (case s of None \<Rightarrow> False | Some t \<Rightarrow> strcmp nm t \<noteq> 0)
     else case_insensitive_strcmp (Some nm) s \<noteq> 0)"

partial_function (option) search :: "cstore \<Rightarrow> ptr option \<Rightarrow> bool \<Rightarrow> u8 list \<Rightarrow> ptr option option" where
  "search m p cs nm = (case p of None \<Rightarrow> Some None
     | Some a \<Rightarrow> do {
         n \<leftarrow> nodes m a;
         if differs cs nm (n_name n) then search m (n_next n) cs nm
         else Some (if n_name n = None then None else Some a) })"

definition find_member :: "cstore \<Rightarrow> ptr option \<Rightarrow> u8 list option \<Rightarrow> bool \<Rightarrow> ptr option option" where
  "find_member m object nm cs = (case (object, nm) of
     (Some a, Some s) \<Rightarrow> Option.bind (nodes m a) (\<lambda>n. search m (n_child n) cs s)
   | _ \<Rightarrow> Some None)"

subsection \<open>Adding\<close>

definition suffix_object :: "ptr option \<Rightarrow> ptr option \<Rightarrow> cstore \<Rightarrow> cstore option" where
  "suffix_object pv item m = do { m \<leftarrow> set_next pv item m; set_prev item pv m }"

definition create_reference :: "(nat \<Rightarrow> bool) \<Rightarrow> ptr option \<Rightarrow> cstore \<Rightarrow> (ptr option \<times> cstore) option" where
  "create_reference mem item m = (case item of None \<Rightarrow> Some (None, m)
     | Some a \<Rightarrow> (case allocate mem (acct m) of (ok, h) \<Rightarrow>
         if \<not> ok then Some (None, m\<lparr>acct := h\<rparr>)
         else do {
           n \<leftarrow> nodes m a;
           Some (Some (requests (acct m)), m\<lparr>nodes := (nodes m)(requests (acct m) \<mapsto>
             n\<lparr>n_name := None, n_type := n_type n OR cJSON_IsReference, n_next := None, n_prev := None\<rparr>), acct := h\<rparr>) }))"

definition add_item_to_array :: "ptr option \<Rightarrow> ptr option \<Rightarrow> cstore \<Rightarrow> (bool \<times> cstore) option" where
  "add_item_to_array array item m = (if item = None \<or> array = None \<or> array = item then Some (False, m)
     else do {
       a \<leftarrow> deref m array;
       (case n_child a of
          None \<Rightarrow> do {
            m \<leftarrow> set_first array item m;
            m \<leftarrow> set_prev item item m;
            m \<leftarrow> set_next item None m;
            Some (True, m) }
        | Some c \<Rightarrow> do {
            first \<leftarrow> nodes m c;
            (case n_prev first of None \<Rightarrow> Some (True, m)
             | Some l \<Rightarrow> do {
                 m \<leftarrow> suffix_object (Some l) item m;
                 a \<leftarrow> deref m array;
                 m \<leftarrow> set_prev (n_child a) item m;
                 Some (True, m) }) }) })"

definition cJSON_AddItemToArray :: "ptr option \<Rightarrow> ptr option \<Rightarrow> cstore \<Rightarrow> (bool \<times> cstore) option" where
  "cJSON_AddItemToArray array item m = add_item_to_array array item m"

definition add_item_to_object ::
  "(nat \<Rightarrow> bool) \<Rightarrow> ptr option \<Rightarrow> u8 list option \<Rightarrow> ptr option \<Rightarrow> bool \<Rightarrow> cstore \<Rightarrow> (bool \<times> cstore) option" where
  "add_item_to_object mem object nm item constant_key m =
     (if object = None \<or> nm = None \<or> item = None \<or> object = item then Some (False, m)
      else do {
        n \<leftarrow> deref m item;
        let (new_key, h) = (if constant_key then (nm, acct m) else cJSON_strdup mem nm (acct m));
        let new_type = (if constant_key then n_type n OR cJSON_StringIsConst else n_type n AND NOT cJSON_StringIsConst);
        if new_key = None then Some (False, m\<lparr>acct := h\<rparr>)
        else do {
          let m1 = m\<lparr>acct := h\<rparr>;
          let m2 = (if n_type n AND cJSON_StringIsConst = 0 \<and> n_name n \<noteq> None then release m1 else m1);
          m3 \<leftarrow> update_node item (\<lambda>n. n\<lparr>n_name := new_key, n_type := new_type\<rparr>) m2;
          add_item_to_array object item m3 } })"

definition cJSON_AddItemToObject where
  "cJSON_AddItemToObject mem object nm item = add_item_to_object mem object nm item False"

definition cJSON_AddItemToObjectCS where
  "cJSON_AddItemToObjectCS mem object nm item = add_item_to_object mem object nm item True"

definition cJSON_AddItemReferenceToArray :: "(nat \<Rightarrow> bool) \<Rightarrow> ptr option \<Rightarrow> ptr option \<Rightarrow> cstore \<Rightarrow> (bool \<times> cstore) option" where
  "cJSON_AddItemReferenceToArray mem array item m = (if array = None then Some (False, m)
     else do { (ref, m) \<leftarrow> create_reference mem item m; add_item_to_array array ref m })"

definition cJSON_AddItemReferenceToObject ::
  "(nat \<Rightarrow> bool) \<Rightarrow> ptr option \<Rightarrow> u8 list option \<Rightarrow> ptr option \<Rightarrow> cstore \<Rightarrow> (bool \<times> cstore) option" where
  "cJSON_AddItemReferenceToObject mem object nm item m = (if object = None \<or> nm = None then Some (False, m)
     else do { (ref, m) \<leftarrow> create_reference mem item m; add_item_to_object mem object nm ref False m })"

text \<open>The nine functions that create a node and add it, or delete it again.\<close>

definition add_new :: "(nat \<Rightarrow> bool) \<Rightarrow> (heap \<Rightarrow> created option) \<Rightarrow> ptr option \<Rightarrow> u8 list option \<Rightarrow> cstore \<Rightarrow> (ptr option \<times> cstore) option" where
  "add_new mem create object nm m = do {
     r \<leftarrow> create (acct m);
     let (item, m1) = place (acct m) r m;
     (ok, m2) \<leftarrow> add_item_to_object mem object nm item False m1;
     if ok then Some (item, m2) else do { m3 \<leftarrow> delete_nodes item m2; Some (None, m3) } }"

definition cJSON_AddNullToObject where "cJSON_AddNullToObject mem = add_new mem (\<lambda>h. Some (cJSON_CreateNull mem h))"
definition cJSON_AddTrueToObject where "cJSON_AddTrueToObject mem = add_new mem (\<lambda>h. Some (cJSON_CreateTrue mem h))"
definition cJSON_AddFalseToObject where "cJSON_AddFalseToObject mem = add_new mem (\<lambda>h. Some (cJSON_CreateFalse mem h))"
definition cJSON_AddBoolToObject where "cJSON_AddBoolToObject mem b = add_new mem (\<lambda>h. Some (cJSON_CreateBool mem b h))"
definition cJSON_AddNumberToObject where "cJSON_AddNumberToObject mem x = add_new mem (cJSON_CreateNumber mem x)"
definition cJSON_AddStringToObject where "cJSON_AddStringToObject mem s = add_new mem (\<lambda>h. Some (cJSON_CreateString mem s h))"
definition cJSON_AddRawToObject where "cJSON_AddRawToObject mem s = add_new mem (\<lambda>h. Some (cJSON_CreateRaw mem s h))"
definition cJSON_AddObjectToObject where "cJSON_AddObjectToObject mem = add_new mem (\<lambda>h. Some (cJSON_CreateObject mem h))"
definition cJSON_AddArrayToObject where "cJSON_AddArrayToObject mem = add_new mem (\<lambda>h. Some (cJSON_CreateArray mem h))"

subsection \<open>Detaching\<close>

definition cJSON_DetachItemViaPointer :: "ptr option \<Rightarrow> ptr option \<Rightarrow> cstore \<Rightarrow> (ptr option \<times> cstore) option" where
  "cJSON_DetachItemViaPointer parent item m = (if parent = None \<or> item = None then Some (None, m)
     else do {
       p \<leftarrow> deref m parent;
       n \<leftarrow> deref m item;
       m \<leftarrow> (if item \<noteq> n_child p then set_next (n_prev n) (n_next n) m else Some m);
       n \<leftarrow> deref m item;
       m \<leftarrow> (if n_next n \<noteq> None then set_prev (n_next n) (n_prev n) m else Some m);
       p \<leftarrow> deref m parent;
       n \<leftarrow> deref m item;
       m \<leftarrow> (if item = n_child p then set_first parent (n_next n) m
            else if n_next n = None then set_prev (n_child p) (n_prev n) m else Some m);
       m \<leftarrow> set_prev item None m;
       m \<leftarrow> set_next item None m;
       Some (item, m) })"

definition cJSON_DetachItemFromArray :: "ptr option \<Rightarrow> int \<Rightarrow> cstore \<Rightarrow> (ptr option \<times> cstore) option" where
  "cJSON_DetachItemFromArray array which m = (if which < 0 then Some (None, m)
     else do { item \<leftarrow> find_index m array (nat which); cJSON_DetachItemViaPointer array item m })"

definition detach_member :: "bool \<Rightarrow> ptr option \<Rightarrow> u8 list option \<Rightarrow> cstore \<Rightarrow> (ptr option \<times> cstore) option" where
  "detach_member cs object nm m = do { item \<leftarrow> find_member m object nm cs; cJSON_DetachItemViaPointer object item m }"

definition cJSON_DetachItemFromObject where "cJSON_DetachItemFromObject = detach_member False"
definition cJSON_DetachItemFromObjectCaseSensitive where "cJSON_DetachItemFromObjectCaseSensitive = detach_member True"

definition cJSON_DeleteItemFromArray :: "ptr option \<Rightarrow> int \<Rightarrow> cstore \<Rightarrow> cstore option" where
  "cJSON_DeleteItemFromArray array which m = do { (item, m) \<leftarrow> cJSON_DetachItemFromArray array which m; delete_nodes item m }"

definition cJSON_DeleteItemFromObject :: "ptr option \<Rightarrow> u8 list option \<Rightarrow> cstore \<Rightarrow> cstore option" where
  "cJSON_DeleteItemFromObject object nm m = do { (item, m) \<leftarrow> cJSON_DetachItemFromObject object nm m; delete_nodes item m }"

definition cJSON_DeleteItemFromObjectCaseSensitive :: "ptr option \<Rightarrow> u8 list option \<Rightarrow> cstore \<Rightarrow> cstore option" where
  "cJSON_DeleteItemFromObjectCaseSensitive object nm m =
     do { (item, m) \<leftarrow> cJSON_DetachItemFromObjectCaseSensitive object nm m; delete_nodes item m }"

subsection \<open>Inserting and replacing\<close>

definition cJSON_InsertItemInArray :: "ptr option \<Rightarrow> int \<Rightarrow> ptr option \<Rightarrow> cstore \<Rightarrow> (bool \<times> cstore) option" where
  "cJSON_InsertItemInArray array which newitem m = (if which < 0 then Some (False, m)
     else do {
       after \<leftarrow> find_index m array (nat which);
       if after = None then add_item_to_array array newitem m
       else do {
         m \<leftarrow> set_next newitem after m;
         af \<leftarrow> deref m after;
         m \<leftarrow> set_prev newitem (n_prev af) m;
         m \<leftarrow> set_prev after newitem m;
         a \<leftarrow> deref m array;
         m \<leftarrow> (if after = n_child a then set_first array newitem m
              else do { n \<leftarrow> deref m newitem; set_next (n_prev n) newitem m });
         Some (True, m) } })"

text \<open>The links around the item lead to the replacement, and the item stands alone.\<close>

definition replace_links :: "ptr option \<Rightarrow> ptr option \<Rightarrow> ptr option \<Rightarrow> cstore \<Rightarrow> cstore option" where
  "replace_links parent item replacement m = do {
     n \<leftarrow> deref m item;
     m \<leftarrow> set_next replacement (n_next n) m;
     n \<leftarrow> deref m item;
     m \<leftarrow> set_prev replacement (n_prev n) m;
     r \<leftarrow> deref m replacement;
     m \<leftarrow> (if n_next r \<noteq> None then set_prev (n_next r) replacement m else Some m);
     p \<leftarrow> deref m parent;
     m \<leftarrow> (if n_child p = item then do {
            c \<leftarrow> deref m (n_child p);
            m \<leftarrow> (if n_prev c = n_child p then set_prev replacement replacement m else Some m);
            set_first parent replacement m }
          else do {
            r \<leftarrow> deref m replacement;
            m \<leftarrow> (if n_prev r \<noteq> None then set_next (n_prev r) replacement m else Some m);
            r \<leftarrow> deref m replacement;
            p \<leftarrow> deref m parent;
            if n_next r = None then set_prev (n_child p) replacement m else Some m });
     m \<leftarrow> set_next item None m;
     set_prev item None m }"

definition cJSON_ReplaceItemViaPointer :: "ptr option \<Rightarrow> ptr option \<Rightarrow> ptr option \<Rightarrow> cstore \<Rightarrow> (bool \<times> cstore) option" where
  "cJSON_ReplaceItemViaPointer parent item replacement m = (if parent = None then Some (False, m)
     else do {
       p \<leftarrow> deref m parent;
       if n_child p = None \<or> replacement = None \<or> item = None then Some (False, m)
       else if replacement = item then Some (True, m)
       else do {
         m \<leftarrow> replace_links parent item replacement m;
         m \<leftarrow> delete_nodes item m;
         Some (True, m) } })"

definition cJSON_ReplaceItemInArray :: "ptr option \<Rightarrow> int \<Rightarrow> ptr option \<Rightarrow> cstore \<Rightarrow> (bool \<times> cstore) option" where
  "cJSON_ReplaceItemInArray array which newitem m = (if which < 0 then Some (False, m)
     else do { item \<leftarrow> find_index m array (nat which); cJSON_ReplaceItemViaPointer array item newitem m })"

definition replace_item_in_object ::
  "(nat \<Rightarrow> bool) \<Rightarrow> bool \<Rightarrow> ptr option \<Rightarrow> u8 list option \<Rightarrow> ptr option \<Rightarrow> cstore \<Rightarrow> (bool \<times> cstore) option" where
  "replace_item_in_object mem cs object nm replacement m = (if replacement = None \<or> nm = None then Some (False, m)
     else do {
       n \<leftarrow> deref m replacement;
       let m1 = (if n_type n AND cJSON_StringIsConst = 0 \<and> n_name n \<noteq> None then release m else m);
       let (key, h) = cJSON_strdup mem nm (acct m1);
       m2 \<leftarrow> update_node replacement (\<lambda>n. n\<lparr>n_name := key\<rparr>) (m1\<lparr>acct := h\<rparr>);
       if key = None then Some (False, m2)
       else do {
         m3 \<leftarrow> update_node replacement (\<lambda>n. n\<lparr>n_type := n_type n AND NOT cJSON_StringIsConst\<rparr>) m2;
         item \<leftarrow> find_member m3 object nm cs;
         cJSON_ReplaceItemViaPointer object item replacement m3 } })"

definition cJSON_ReplaceItemInObject where "cJSON_ReplaceItemInObject mem = replace_item_in_object mem False"
definition cJSON_ReplaceItemInObjectCaseSensitive where "cJSON_ReplaceItemInObjectCaseSensitive mem = replace_item_in_object mem True"

end
