(* ===== verification/CJsonLists.thy ===== *)
theory CJsonLists
  imports CJsonLinks
begin

text \<open>
  What the operations of \<^verbatim>\<open>CJsonLinks\<close> do: \<open>seg\<close> is a doubly linked segment of the store, with laws for
  appending and for updates elsewhere, \<open>children\<close> the list of members of a node, \<open>owned\<close> the nodes that
  deleting frees. Each operation is proved against lists, one call at a time and then for
  sequences of calls.
\<close>

subsection \<open>Lists in the store\<close>

definition first :: "ptr list \<Rightarrow> ptr option \<Rightarrow> ptr option" where
  "first ps q = (case ps of [] \<Rightarrow> q | p # _ \<Rightarrow> Some p)"

definition final :: "ptr option \<Rightarrow> ptr list \<Rightarrow> ptr option" where
  "final p ps = (if ps = [] then p else Some (last ps))"

lemma first_simps [simp]: "first [] q = q" "first (p # ps) q = Some p" "first (xs @ ys) q = first xs (first ys q)"
  by (simp_all add: first_def split: list.split)

lemma final_simps [simp]: "final p [] = p" "final p (a # ps) = final (Some a) ps" "final p (xs @ ys) = final (final p xs) ys"
  by (simp_all add: final_def)

text \<open>A doubly linked segment: what is before the first node, and what follows the last.\<close>

fun seg :: "cnodes \<Rightarrow> ptr option \<Rightarrow> ptr list \<Rightarrow> ptr option \<Rightarrow> bool" where
  "seg N p [] q \<longleftrightarrow> True"
| "seg N p (a # ps) q \<longleftrightarrow> (\<exists>n. N a = Some n \<and> n_prev n = p \<and> n_next n = first ps q) \<and> seg N (Some a) ps q"

lemma seg_append [simp]: "seg N p (xs @ ys) q \<longleftrightarrow> seg N p xs (first ys q) \<and> seg N (final p xs) ys q"
  by (induction xs arbitrary: p) auto

lemma seg_upd [simp]: "a \<notin> set ps \<Longrightarrow> seg (N(a := v)) p ps q = seg N p ps q"
  by (induction ps arbitrary: p) auto

lemma seg_live: "seg N p ps q \<Longrightarrow> a \<in> set ps \<Longrightarrow> \<exists>n. N a = Some n"
  by (induction ps arbitrary: p) auto

definition children :: "cnodes \<Rightarrow> ptr \<Rightarrow> ptr list \<Rightarrow> bool" where
  "children N a ps \<longleftrightarrow> (\<exists>n. N a = Some n \<and> n_child n = first ps None) \<and> seg N (final None ps) ps None \<and> distinct (a # ps)"

text \<open>Only links change: the \<^verbatim>\<open>child\<close> of the parent \<open>a\<close>, and \<^verbatim>\<open>next\<close> and \<^verbatim>\<open>prev\<close> of the nodes in \<open>S\<close>.\<close>

definition unlink :: "cnode \<Rightarrow> cnode" where
  "unlink n = n\<lparr>n_next := None, n_prev := None\<rparr>"

definition relinks :: "cnodes \<Rightarrow> cnodes \<Rightarrow> ptr \<Rightarrow> ptr set \<Rightarrow> bool" where
  "relinks N N' a S \<longleftrightarrow> (\<forall>b. b \<notin> S \<longrightarrow> b \<noteq> a \<longrightarrow> N' b = N b) \<and>
     (\<forall>b. b \<noteq> a \<longrightarrow> map_option unlink (N' b) = map_option unlink (N b)) \<and>
     map_option (\<lambda>n. n\<lparr>n_child := None\<rparr>) (N' a) = map_option (\<lambda>n. n\<lparr>n_child := None\<rparr>) (N a)"

lemma update_nodes: "nodes m a = Some n \<Longrightarrow> update_node (Some a) f m = Some (m\<lparr>nodes := (nodes m)(a \<mapsto> f n)\<rparr>)"
  by (simp add: update_node_def)

lemma deref_nodes [simp]: "deref m (Some a) = nodes m a" "deref m None = None"
  by (simp_all add: deref_def)

lemma snoc_cases: "ps = [] \<or> (\<exists>xs x. ps = xs @ [x])"
  by (cases ps rule: rev_cases) auto

lemma add_item_list:
  assumes ch: "children (nodes m) a ps" and i: "nodes m i = Some ni" "n_next ni = None" and new: "i \<notin> set ps" "i \<noteq> a"
  shows "\<exists>m'. add_item_to_array (Some a) (Some i) m = Some (True, m') \<and> children (nodes m') a (ps @ [i]) \<and>
    relinks (nodes m) (nodes m') a (insert i (set ps)) \<and> acct m' = acct m"
proof -
  obtain na where na: "nodes m a = Some na" "n_child na = first ps None" using ch by (auto simp: children_def)
  from snoc_cases [of ps] consider "ps = []" | x where "ps = [x]" | p xs x where "ps = p # xs @ [x]"
    by (metis append_Cons append_Nil list.exhaust)
  then show ?thesis
  proof cases
    case 1
    then show ?thesis
      using na i new by (auto simp: add_item_to_array_def update_node_def children_def relinks_def unlink_def)
  next
    case (2 x)
    then obtain nx where nx: "nodes m x = Some nx" "n_prev nx = Some x" using ch by (auto simp: children_def)
    have "x \<noteq> a" using ch 2 by (auto simp: children_def)
    then show ?thesis
      using na i new 2 nx
      by (auto simp: add_item_to_array_def suffix_object_def update_node_def children_def relinks_def unlink_def)
  next
    case (3 p xs x)
    obtain np nx where n: "nodes m p = Some np" "n_prev np = Some x" "nodes m x = Some nx"
      using ch 3 by (auto simp: children_def)
    have d: "x \<noteq> a" "p \<noteq> a" "p \<noteq> x" "a \<notin> set xs" "p \<notin> set xs" "x \<notin> set xs" "distinct xs" using ch 3 by (auto simp: children_def)
    have s: "seg (nodes m) (Some p) xs (Some x)" "n_next np = first xs (Some x)" "n_prev nx = final (Some p) xs"
      using ch 3 n by (auto simp: children_def)
    have "add_item_to_array (Some a) (Some i) m = Some (True, m\<lparr>nodes := (nodes m)
        (x \<mapsto> nx\<lparr>n_next := Some i\<rparr>, i \<mapsto> ni\<lparr>n_prev := Some x\<rparr>, p \<mapsto> np\<lparr>n_prev := Some i\<rparr>)\<rparr>)"
      using na i new 3 n d by (simp add: add_item_to_array_def suffix_object_def update_node_def fun_upd_twist)
    then show ?thesis using na i new 3 n d s
      by (auto simp: children_def relinks_def unlink_def fun_upd_twist)
  qed
qed

lemma detach_list:
  assumes ch: "children (nodes m) a (xs @ i # ys)"
  shows "\<exists>m' ni. cJSON_DetachItemViaPointer (Some a) (Some i) m = Some (Some i, m') \<and> children (nodes m') a (xs @ ys) \<and>
    nodes m' i = Some ni \<and> n_next ni = None \<and> n_prev ni = None \<and>
    relinks (nodes m) (nodes m') a (set (xs @ i # ys)) \<and> acct m' = acct m"
proof -
  obtain na where na: "nodes m a = Some na" "n_child na = first xs (Some i)" using ch by (auto simp: children_def)
  obtain ni where ni: "nodes m i = Some ni" "n_next ni = first ys None" "n_prev ni = final (final None (xs @ i # ys)) xs"
    using ch by (auto simp: children_def)
  have seg: "seg (nodes m) (final None (xs @ i # ys)) xs (Some i)" "seg (nodes m) (Some i) ys None" "distinct (a # xs @ i # ys)"
    using ch by (auto simp: children_def)
  note eval = cJSON_DetachItemViaPointer_def update_node_def fun_upd_twist
  from snoc_cases [of xs] consider "xs = []" "ys = []" | y zs where "xs = []" "ys = y # zs"
    | x ws where "xs = ws @ [x]" "ys = []" | x ws y zs where "xs = ws @ [x]" "ys = y # zs"
    by (metis list.exhaust)
  then show ?thesis
  proof cases
    case 1
    then show ?thesis using na ni seg by (auto simp: eval children_def relinks_def unlink_def)
  next
    case (2 y zs)
    then obtain ny where "nodes m y = Some ny" "n_prev ny = Some i" "n_next ny = first zs None" using seg by auto
    then show ?thesis using na ni seg 2 by (auto simp: eval children_def relinks_def unlink_def final_def)
  next
    case (3 x ws)
    obtain nx where nx: "nodes m x = Some nx" "n_next nx = Some i" using seg 3 by auto
    show ?thesis
    proof (cases ws)
      case Nil
      then show ?thesis using na ni seg 3 nx by (auto simp: eval children_def relinks_def unlink_def final_def)
    next
      case (Cons p vs)
      obtain np where "nodes m p = Some np" "n_prev np = Some i" "n_next np = first vs (Some x)" using seg 3 Cons by auto
      then show ?thesis using na ni seg 3 nx Cons by (auto simp: eval children_def relinks_def unlink_def final_def)
    qed
  next
    case (4 x ws y zs)
    obtain nx ny where n: "nodes m x = Some nx" "n_next nx = Some i" "nodes m y = Some ny" "n_prev ny = Some i" "n_next ny = first zs None"
      using seg 4 by auto
    then show ?thesis using na ni seg 4 by (cases ws) (auto simp: eval children_def relinks_def unlink_def final_def)
  qed
qed


lemma walk_list: "seg N p ps None \<Longrightarrow> nodes m = N \<Longrightarrow> walk m (first ps None) k = Some (if k < length ps then Some (ps ! k) else None)"
proof (induction ps arbitrary: p k)
  case (Cons a ps)
  then show ?case by (cases k) auto
qed simp

lemma find_index_list:
  "children (nodes m) a ps \<Longrightarrow> find_index m (Some a) k = Some (if k < length ps then Some (ps ! k) else None)"
  using walk_list [of "nodes m" "final None ps" ps m k] by (auto simp: find_index_def children_def)

lemma insert_list:
  assumes ch: "children (nodes m) a (xs @ y # ys)" and i: "nodes m i = Some ni" and new: "i \<notin> set (xs @ y # ys)" "i \<noteq> a"
    and k: "k = int (length xs)"
  shows "\<exists>m'. cJSON_InsertItemInArray (Some a) k (Some i) m = Some (True, m') \<and> children (nodes m') a (xs @ i # y # ys) \<and>
    relinks (nodes m) (nodes m') a (insert i (set (xs @ y # ys))) \<and> acct m' = acct m"
proof -
  obtain na where na: "nodes m a = Some na" "n_child na = first xs (Some y)" using ch by (auto simp: children_def)
  obtain ny where ny: "nodes m y = Some ny" "n_next ny = first ys None" "n_prev ny = final (final None (xs @ y # ys)) xs"
    using ch by (auto simp: children_def)
  have seg: "seg (nodes m) (final None (xs @ y # ys)) xs (Some y)" "seg (nodes m) (Some y) ys None" "distinct (a # xs @ y # ys)"
    using ch by (auto simp: children_def)
  have find: "find_index m (Some a) (nat k) = Some (Some y)" using find_index_list [OF ch, of "length xs"] k by simp
  note eval = cJSON_InsertItemInArray_def update_node_def fun_upd_twist
  from snoc_cases [of xs] show ?thesis
  proof (elim disjE exE)
    assume "xs = []"
    then show ?thesis using na ny seg i new find k by (auto simp: eval children_def relinks_def unlink_def final_def)
  next
    fix ws x assume xs: "xs = ws @ [x]"
    obtain nx where nx: "nodes m x = Some nx" "n_next nx = Some y" using seg xs by auto
    then show ?thesis using na ny seg i new find k xs by (cases ws) (auto simp: eval children_def relinks_def unlink_def final_def)
  qed
qed

subsection \<open>Trees in the store\<close>

text \<open>The nodes that deleting a list frees: its nodes and, unless a node is a reference, those below it.
  No node is reached twice.\<close>

definition inner :: "cnode \<Rightarrow> ptr option" where
  "inner n = (if n_type n AND cJSON_IsReference = 0 then n_child n else None)"

inductive owned :: "cnodes \<Rightarrow> ptr option \<Rightarrow> ptr set \<Rightarrow> bool" where
  none: "owned N None {}"
| some: "N a = Some n \<Longrightarrow> owned N (inner n) C \<Longrightarrow> owned N (n_next n) B \<Longrightarrow> a \<notin> B \<union> C \<Longrightarrow> B \<inter> C = {} \<Longrightarrow>
    owned N (Some a) (insert a (B \<union> C))"

lemma owned_finite: "owned N p A \<Longrightarrow> finite A"
  by (induction rule: owned.induct) auto

lemma owned_frame: "owned N p A \<Longrightarrow> (\<And>b. b \<in> A \<Longrightarrow> N' b = N b) \<Longrightarrow> owned N' p A"
proof (induction rule: owned.induct)
  case (some N a n C B)
  then show ?case by (intro owned.some [where n = n]) auto
qed (rule owned.none)

text \<open>The blocks of a node: itself and the strings it owns.\<close>

definition node_blocks :: "cnode \<Rightarrow> int" where
  "node_blocks n = 1 + (if n_type n AND cJSON_IsReference = 0 \<and> n_text n \<noteq> None then 1 else 0) +
     (if n_type n AND cJSON_StringIsConst = 0 \<and> n_name n \<noteq> None then 1 else 0)"

lemma free_strings_facts: "nodes (free_strings n m) = nodes m" "requests (acct (free_strings n m)) = requests (acct m)"
  "live (acct (free_strings n m)) + node_blocks n = live (acct m) + 1"
  by (simp_all add: free_strings_def release_def deallocate_def node_blocks_def Let_def)

lemma free_node_facts: "nodes (free_node a m) = (nodes m)(a := None)" "requests (acct (free_node a m)) = requests (acct m)"
  "live (acct (free_node a m)) = live (acct m) - 1"
  by (simp_all add: free_node_def release_def deallocate_def)

text \<open>Deleting ends, frees exactly the owned nodes, each once, and gives back their blocks.\<close>

lemma delete_owned:
  assumes "owned N p A" and "\<And>b. b \<in> A \<Longrightarrow> nodes m b = N b"
  shows "\<exists>m'. delete_nodes p m = Some m' \<and> nodes m' = nodes m |` (- A) \<and> requests (acct m') = requests (acct m) \<and>
    live (acct m') = live (acct m) - (\<Sum>a \<in> A. node_blocks (the (N a)))"
  using assms
proof (induction arbitrary: m rule: owned.induct)
  case (none N)
  have "nodes m |` (- {}) = nodes m" by (simp add: restrict_map_def)
  then show ?case by (subst delete_nodes.simps) simp
next
  case (some N a n C B)
  have "\<exists>m1. (if n_type n AND cJSON_IsReference = 0 \<and> n_child n \<noteq> None then delete_nodes (n_child n) m else Some m) = Some m1 \<and>
      nodes m1 = nodes m |` (- C) \<and> requests (acct m1) = requests (acct m) \<and>
      live (acct m1) = live (acct m) - (\<Sum>a \<in> C. node_blocks (the (N a)))"
  proof (cases "n_type n AND cJSON_IsReference = 0 \<and> n_child n \<noteq> None")
    case True
    then show ?thesis using some.IH(1) [of m] some.prems by (simp add: inner_def)
  next
    case False
    then have "inner n = None" by (auto simp: inner_def)
    then have C: "C = {}" using some.hyps(2) by (auto elim: owned.cases)
    have "nodes m |` (- {}) = nodes m" by (simp add: restrict_map_def)
    then show ?thesis unfolding C using False by auto
  qed
  then obtain m1 where m1: "(if n_type n AND cJSON_IsReference = 0 \<and> n_child n \<noteq> None then delete_nodes (n_child n) m else Some m) = Some m1"
    "nodes m1 = nodes m |` (- C)" "requests (acct m1) = requests (acct m)"
    "live (acct m1) = live (acct m) - (\<Sum>a \<in> C. node_blocks (the (N a)))" by blast
  define m2 where "m2 = free_node a (free_strings n m1)"
  have m2: "nodes m2 = (nodes m |` (- C))(a := None)" "requests (acct m2) = requests (acct m)"
    "live (acct m2) = live (acct m) - (\<Sum>a \<in> C. node_blocks (the (N a))) - node_blocks n"
    using m1 free_strings_facts [of n m1] by (simp_all add: m2_def free_node_facts)
  have run: "delete_nodes (Some a) m = delete_nodes (n_next n) m2"
    using some.hyps(1) some.prems [of a] m1(1) by (subst delete_nodes.simps) (simp add: m2_def)
  have fin: "finite B" "finite C" using some.hyps owned_finite by blast+
  have "nodes m2 b = N b" if "b \<in> B" for b
    using that some.hyps some.prems [of b] by (auto simp: m2 restrict_map_def)
  from some.IH(2) [OF this] obtain m3 where m3: "delete_nodes (n_next n) m2 = Some m3" "nodes m3 = nodes m2 |` (- B)"
    "requests (acct m3) = requests (acct m2)" "live (acct m3) = live (acct m2) - (\<Sum>a \<in> B. node_blocks (the (N a)))" by blast
  have "nodes m3 = nodes m |` (- insert a (B \<union> C))" by (auto simp: m3 m2 restrict_map_def)
  moreover have "(\<Sum>a \<in> insert a (B \<union> C). node_blocks (the (N a))) =
      node_blocks n + (\<Sum>a \<in> B. node_blocks (the (N a))) + (\<Sum>a \<in> C. node_blocks (the (N a)))"
    using some.hyps fin by (simp add: sum.union_disjoint)
  ultimately show ?case using run m3 m2 by auto
qed

lemma replace_links_list:
  assumes ch: "children (nodes m) a (xs @ i # ys)" and r: "nodes m r = Some nr" and new: "r \<notin> set (xs @ i # ys)" "r \<noteq> a"
    and ni: "nodes m i = Some ni"
  shows "\<exists>m'. replace_links (Some a) (Some i) (Some r) m = Some m' \<and> children (nodes m') a (xs @ r # ys) \<and>
    nodes m' i = Some (unlink ni) \<and> relinks (nodes m) (nodes m') a (insert r (set (xs @ i # ys))) \<and> acct m' = acct m"
proof -
  obtain na where na: "nodes m a = Some na" "n_child na = first xs (Some i)" using ch by (auto simp: children_def)
  have ni: "nodes m i = Some ni" "n_next ni = first ys None" "n_prev ni = final (final None (xs @ i # ys)) xs"
    using ch ni by (auto simp: children_def)
  have seg: "seg (nodes m) (final None (xs @ i # ys)) xs (Some i)" "seg (nodes m) (Some i) ys None" "distinct (a # xs @ i # ys)"
    using ch by (auto simp: children_def)
  note eval = replace_links_def update_node_def fun_upd_twist
  from snoc_cases [of xs] consider "xs = []" "ys = []" | y zs where "xs = []" "ys = y # zs"
    | x ws where "xs = ws @ [x]" "ys = []" | x ws y zs where "xs = ws @ [x]" "ys = y # zs"
    by (metis list.exhaust)
  then show ?thesis
  proof cases
    case 1
    then show ?thesis using na ni seg r new by (auto simp: eval children_def relinks_def unlink_def)
  next
    case (2 y zs)
    then obtain ny where "nodes m y = Some ny" "n_prev ny = Some i" "n_next ny = first zs None" using seg by auto
    then show ?thesis using na ni seg r new 2 by (auto simp: eval children_def relinks_def unlink_def final_def)
  next
    case (3 x ws)
    obtain nx where nx: "nodes m x = Some nx" "n_next nx = Some i" using seg 3 by auto
    show ?thesis
    proof (cases ws)
      case Nil
      then show ?thesis using na ni seg r new 3 nx by (auto simp: eval children_def relinks_def unlink_def final_def)
    next
      case (Cons p vs)
      obtain np where "nodes m p = Some np" "n_prev np = Some i" "n_next np = first vs (Some x)" using seg 3 Cons by auto
      then show ?thesis using na ni seg r new 3 nx Cons by (auto simp: eval children_def relinks_def unlink_def final_def)
    qed
  next
    case (4 x ws y zs)
    obtain nx ny where n: "nodes m x = Some nx" "n_next nx = Some i" "nodes m y = Some ny" "n_prev ny = Some i" "n_next ny = first zs None"
      using seg 4 by auto
    then show ?thesis using na ni seg r new 4 by (cases ws) (auto simp: eval children_def relinks_def unlink_def final_def)
  qed
qed

lemma seg_cong: "(\<And>b. b \<in> set ps \<Longrightarrow> N' b = N b) \<Longrightarrow> seg N' p ps q = seg N p ps q"
  by (induction ps arbitrary: p) auto

lemma children_cong: "(\<And>b. b \<in> insert a (set ps) \<Longrightarrow> N' b = N b) \<Longrightarrow> children N' a ps = children N a ps"
  using seg_cong [of ps N' N] by (auto simp: children_def)

lemma relinks_outside: "relinks N N' a S \<Longrightarrow> b \<notin> S \<Longrightarrow> b \<noteq> a \<Longrightarrow> N' b = N b"
  by (simp add: relinks_def)

lemma relinks_fields:
  assumes "relinks N N' a S" and "b \<noteq> a" and "N b = Some n"
  obtains n' where "N' b = Some n'" and "unlink n' = unlink n"
  using assms by (auto simp: relinks_def dest!: spec [of _ b])

lemma unlink_eq: "unlink n' = unlink n \<Longrightarrow> inner n' = inner n \<and> node_blocks n' = node_blocks n \<and> n_name n' = n_name n \<and> n_type n' = n_type n"
  by (cases n; cases n') (simp add: unlink_def inner_def node_blocks_def)

lemma unlink_same [simp]: "inner (unlink n) = inner n" "node_blocks (unlink n) = node_blocks n" "n_next (unlink n) = None" "n_prev (unlink n) = None"
  by (simp_all add: unlink_def inner_def node_blocks_def)

lemma replace_list:
  assumes ch: "children (nodes m) a (xs @ i # ys)" and r: "nodes m r = Some nr" and new: "r \<notin> set (xs @ i # ys)" "r \<noteq> a"
    and ni: "nodes m i = Some ni" and own: "owned (nodes m) (inner ni) A" "A \<inter> insert a (insert r (set (xs @ i # ys))) = {}"
  shows "\<exists>m'. cJSON_ReplaceItemViaPointer (Some a) (Some i) (Some r) m = Some (True, m') \<and> children (nodes m') a (xs @ r # ys) \<and>
    (\<forall>b \<in> insert i A. nodes m' b = None) \<and> (\<forall>b. b \<notin> insert i A \<union> insert a (insert r (set (xs @ ys))) \<longrightarrow> nodes m' b = nodes m b) \<and>
    (\<forall>b. b \<notin> insert i A \<longrightarrow> b \<noteq> a \<longrightarrow> map_option unlink (nodes m' b) = map_option unlink (nodes m b)) \<and>
    live (acct m') = live (acct m) - (node_blocks ni + (\<Sum>b \<in> A. node_blocks (the (nodes m b))))"
proof -
  obtain na where na: "nodes m a = Some na" "n_child na = first xs (Some i)" using ch by (auto simp: children_def)
  have d: "i \<noteq> a" "i \<notin> set (xs @ ys)" "i \<noteq> r" "i \<notin> A" using ch new own(2) by (auto simp: children_def)
  obtain m1 where m1: "replace_links (Some a) (Some i) (Some r) m = Some m1" "children (nodes m1) a (xs @ r # ys)"
    "nodes m1 i = Some (unlink ni)" "relinks (nodes m) (nodes m1) a (insert r (set (xs @ i # ys)))" "acct m1 = acct m"
    using replace_links_list [OF ch r new ni] by blast
  have A: "nodes m1 b = nodes m b" if "b \<in> A" for b
    using that own(2) by (intro relinks_outside [OF m1(4)]) auto
  have "owned (nodes m1) (Some i) (insert i ({} \<union> A))"
    using m1(3) owned_frame [OF own(1) A] d(4) by (intro owned.some [where n = "unlink ni"]) (auto intro: owned.none)
  from delete_owned [OF this, of m1] obtain m' where m': "delete_nodes (Some i) m1 = Some m'"
    "nodes m' = nodes m1 |` (- insert i A)" "live (acct m') = live (acct m1) - (\<Sum>b \<in> insert i A. node_blocks (the (nodes m1 b)))"
    by auto
  have fin: "finite A" using own(1) by (rule owned_finite)
  have "(\<Sum>b \<in> A. node_blocks (the (nodes m1 b))) = (\<Sum>b \<in> A. node_blocks (the (nodes m b)))" using A by (intro sum.cong) auto
  then have live: "live (acct m') = live (acct m) - (node_blocks ni + (\<Sum>b \<in> A. node_blocks (the (nodes m b))))"
    using fin d(4) m1(3,5) m'(3) by simp
  have run: "cJSON_ReplaceItemViaPointer (Some a) (Some i) (Some r) m = Some (True, m')"
    using na d(3) m1(1) m'(1) by (auto simp: cJSON_ReplaceItemViaPointer_def first_def split: list.split)
  have "children (nodes m') a (xs @ r # ys) = children (nodes m1) a (xs @ r # ys)"
    using d own(2) by (intro children_cong) (auto simp: m'(2) restrict_map_def)
  then have "children (nodes m') a (xs @ r # ys)" using m1(2) by simp
  moreover have "\<forall>b. b \<notin> insert i A \<union> insert a (insert r (set (xs @ ys))) \<longrightarrow> nodes m' b = nodes m b"
    using relinks_outside [OF m1(4)] by (auto simp: m'(2) restrict_map_def)
  moreover have "\<forall>b. b \<notin> insert i A \<longrightarrow> b \<noteq> a \<longrightarrow> map_option unlink (nodes m' b) = map_option unlink (nodes m b)"
    using m1(4) by (auto simp: m'(2) restrict_map_def relinks_def)
  moreover have "\<forall>b \<in> insert i A. nodes m' b = None" by (simp add: m'(2) restrict_map_def)
  ultimately show ?thesis using run live by blast
qed

subsection \<open>Sequences of operations\<close>

text \<open>Operations on one array whose members are single nodes, as calls and as list functions.\<close>

datatype list_op = Op_add ptr | Op_insert nat ptr | Op_detach nat | Op_replace nat ptr

fun run_op :: "ptr \<Rightarrow> list_op \<Rightarrow> cstore \<Rightarrow> (bool \<times> cstore) option" where
  "run_op a (Op_add i) m = cJSON_AddItemToArray (Some a) (Some i) m"
| "run_op a (Op_insert k i) m = cJSON_InsertItemInArray (Some a) (int k) (Some i) m"
| "run_op a (Op_detach k) m = map_option (\<lambda>(p, m'). (p \<noteq> None, m')) (cJSON_DetachItemFromArray (Some a) (int k) m)"
| "run_op a (Op_replace k i) m = cJSON_ReplaceItemInArray (Some a) (int k) (Some i) m"

fun run_ops :: "ptr \<Rightarrow> list_op list \<Rightarrow> cstore \<Rightarrow> (bool list \<times> cstore) option" where
  "run_ops a [] m = Some ([], m)"
| "run_ops a (x # xs) m = do { (r, m) \<leftarrow> run_op a x m; (rs, m) \<leftarrow> run_ops a xs m; Some (r # rs, m) }"

text \<open>The list of members, and the nodes that the caller holds; what an operation reports.\<close>

fun spec_op :: "list_op \<Rightarrow> ptr list \<times> ptr set \<Rightarrow> bool \<times> ptr list \<times> ptr set" where
  "spec_op (Op_add i) (ps, F) = (True, ps @ [i], F - {i})"
| "spec_op (Op_insert k i) (ps, F) = (True, take k ps @ i # drop k ps, F - {i})"
| "spec_op (Op_detach k) (ps, F) = (if k < length ps then (True, take k ps @ drop (k + 1) ps, insert (ps ! k) F) else (False, ps, F))"
| "spec_op (Op_replace k i) (ps, F) = (if k < length ps then (True, ps[k := i], F - {i}) else (False, ps, F))"

fun op_ok :: "list_op \<Rightarrow> ptr set \<Rightarrow> bool" where
  "op_ok (Op_add i) F \<longleftrightarrow> i \<in> F"
| "op_ok (Op_insert k i) F \<longleftrightarrow> i \<in> F"
| "op_ok (Op_detach k) F \<longleftrightarrow> True"
| "op_ok (Op_replace k i) F \<longleftrightarrow> i \<in> F"

fun spec_ops :: "list_op list \<Rightarrow> ptr list \<times> ptr set \<Rightarrow> bool list \<times> ptr list \<times> ptr set" where
  "spec_ops [] s = ([], s)"
| "spec_ops (x # xs) s = (case spec_op x s of (r, s1) \<Rightarrow> case spec_ops xs s1 of (rs, s2) \<Rightarrow> (r # rs, s2))"

fun ops_ok :: "list_op list \<Rightarrow> ptr list \<times> ptr set \<Rightarrow> bool" where
  "ops_ok [] s \<longleftrightarrow> True"
| "ops_ok (x # xs) s \<longleftrightarrow> op_ok x (snd s) \<and> ops_ok xs (snd (spec_op x s))"

text \<open>The store holds the list, and the caller's nodes stand alone; no node has children of its own.\<close>

definition holds_list :: "cstore \<Rightarrow> ptr \<Rightarrow> ptr list \<times> ptr set \<Rightarrow> bool" where
  "holds_list m a s \<longleftrightarrow> children (nodes m) a (fst s) \<and> snd s \<inter> insert a (set (fst s)) = {} \<and>
     (\<forall>i \<in> snd s. \<exists>n. nodes m i = Some n \<and> n_next n = None \<and> inner n = None) \<and>
     (\<forall>i \<in> set (fst s). \<exists>n. nodes m i = Some n \<and> inner n = None)"

lemma holds_leaf: "holds_list m a (ps, F) \<Longrightarrow> b \<in> set ps \<union> F \<Longrightarrow> \<exists>n. nodes m b = Some n \<and> inner n = None"
  unfolding holds_list_def fst_conv snd_conv by blast

lemma holds_relinks:
  assumes h: "holds_list m a (ps, F)" and ch: "children (nodes m') a qs" and re: "relinks (nodes m) (nodes m') a S"
    and S: "S \<inter> G = {}" and G: "G \<subseteq> F" and qs: "set qs \<subseteq> set ps \<union> F" "set qs \<inter> G = {}"
  shows "holds_list m' a (qs, G)"
proof -
  have "\<exists>n. nodes m' i = Some n \<and> inner n = None" if q: "i \<in> set qs" for i
  proof -
    have "i \<noteq> a" using ch q by (auto simp: children_def)
    moreover obtain n where "nodes m i = Some n" "inner n = None" using holds_leaf [OF h, of i] qs(1) q by blast
    ultimately show ?thesis using relinks_fields [OF re] unlink_eq by metis
  qed
  moreover have "nodes m' i = nodes m i" if "i \<in> G" for i
    using that S G h by (intro relinks_outside [OF re]) (auto simp: holds_list_def)
  ultimately have "\<forall>i \<in> set qs. \<exists>n. nodes m' i = Some n \<and> inner n = None"
    "\<forall>i \<in> G. \<exists>n. nodes m' i = Some n \<and> n_next n = None \<and> inner n = None"
    using h G by (simp_all add: holds_list_def subset_iff)
  moreover have "G \<inter> insert a (set qs) = {}" using h G qs(2) by (auto simp: holds_list_def)
  ultimately show ?thesis using ch by (simp add: holds_list_def)
qed

lemma run_op_holds:
  assumes h: "holds_list m a (ps, F)" and ok: "op_ok x F"
  shows "\<exists>m'. run_op a x m = Some (fst (spec_op x (ps, F)), m') \<and> holds_list m' a (snd (spec_op x (ps, F)))"
proof -
  have ch: "children (nodes m) a ps" and dis: "F \<inter> insert a (set ps) = {}" using h by (auto simp: holds_list_def)
  have free: "\<exists>n. nodes m i = Some n \<and> n_next n = None \<and> inner n = None" "i \<notin> set ps" "i \<noteq> a" if "i \<in> F" for i
    using h that by (auto simp: holds_list_def)
  have split: "\<exists>xs y ys. ps = xs @ y # ys \<and> k = length xs" if "k < length ps" for k
    using id_take_nth_drop [OF that] that by (metis length_take min.absorb4)
  have parts: "set (take k ps) \<union> set (drop j ps) \<subseteq> set ps" for k j by (auto dest: in_set_takeD in_set_dropD)
  show ?thesis
  proof (cases x)
    case (Op_add i)
    then have i: "i \<in> F" using ok by simp
    obtain n where n: "nodes m i = Some n" "n_next n = None" using free(1) [OF i] by auto
    obtain m' where m': "add_item_to_array (Some a) (Some i) m = Some (True, m')" "children (nodes m') a (ps @ [i])"
      "relinks (nodes m) (nodes m') a (insert i (set ps))" using add_item_list [OF ch n free(2,3) [OF i]] by blast
    have "holds_list m' a (ps @ [i], F - {i})"
      using dis i by (intro holds_relinks [OF h m'(2,3)]) auto
    then show ?thesis using m'(1) Op_add by (simp add: cJSON_AddItemToArray_def)
  next
    case (Op_insert k i)
    then have i: "i \<in> F" using ok by simp
    obtain n where n: "nodes m i = Some n" "n_next n = None" using free(1) [OF i] by auto
    have "\<exists>m'. cJSON_InsertItemInArray (Some a) (int k) (Some i) m = Some (True, m') \<and>
      children (nodes m') a (take k ps @ i # drop k ps) \<and> relinks (nodes m) (nodes m') a (insert i (set ps))"
    proof (cases "k < length ps")
      case True
      then obtain xs y ys where ps: "ps = xs @ y # ys" "k = length xs" using split by blast
      then show ?thesis using insert_list [of m a xs y ys i n "int k"] ch free(2,3) [OF i] n by auto
    next
      case False
      then have "cJSON_InsertItemInArray (Some a) (int k) (Some i) m = add_item_to_array (Some a) (Some i) m"
        using find_index_list [OF ch, of k] by (simp add: cJSON_InsertItemInArray_def)
      then show ?thesis using add_item_list [OF ch n free(2,3) [OF i]] False by auto
    qed
    then obtain m' where m': "cJSON_InsertItemInArray (Some a) (int k) (Some i) m = Some (True, m')"
      "children (nodes m') a (take k ps @ i # drop k ps)" "relinks (nodes m) (nodes m') a (insert i (set ps))" by blast
    have "holds_list m' a (take k ps @ i # drop k ps, F - {i})"
      using dis i parts [of k k] by (intro holds_relinks [OF h m'(2,3)]) auto
    then show ?thesis using m'(1) Op_insert by simp
  next
    case (Op_detach k)
    show ?thesis
    proof (cases "k < length ps")
      case True
      then obtain xs i ys where ps: "ps = xs @ i # ys" "k = length xs" using split by blast
      obtain m' ni where m': "cJSON_DetachItemViaPointer (Some a) (Some i) m = Some (Some i, m')" "children (nodes m') a (xs @ ys)"
        "nodes m' i = Some ni" "n_next ni = None" "relinks (nodes m) (nodes m') a (set (xs @ i # ys))"
        using detach_list [of m a xs i ys] ch ps by blast
      have "i \<noteq> a" "i \<notin> set (xs @ ys)" using ch ps by (auto simp: children_def)
      moreover obtain n where n: "nodes m i = Some n" "inner n = None" using h ps by (auto simp: holds_list_def)
      ultimately have "inner ni = None" using relinks_fields [OF m'(5) _ n(1)] m'(3) unlink_eq by (metis option.inject)
      moreover have "holds_list m' a (xs @ ys, F)"
        using dis ps by (intro holds_relinks [OF h m'(2,5)]) auto
      ultimately have "holds_list m' a (xs @ ys, insert i F)"
        using m'(3,4) \<open>i \<noteq> a\<close> \<open>i \<notin> set (xs @ ys)\<close> by (auto simp: holds_list_def)
      then show ?thesis
        using m'(1) find_index_list [OF ch, of k] ps by (simp add: Op_detach cJSON_DetachItemFromArray_def)
    next
      case False
      then show ?thesis
        using find_index_list [OF ch, of k] h by (simp add: Op_detach cJSON_DetachItemFromArray_def cJSON_DetachItemViaPointer_def)
    qed
  next
    case (Op_replace k r)
    then have r: "r \<in> F" using ok by simp
    obtain nr where nr: "nodes m r = Some nr" using free(1) [OF r] by auto
    obtain na where na: "nodes m a = Some na" using ch by (auto simp: children_def)
    show ?thesis
    proof (cases "k < length ps")
      case True
      then obtain xs i ys where ps: "ps = xs @ i # ys" "k = length xs" using split by blast
      obtain ni where ni: "nodes m i = Some ni" "inner ni = None" using h ps by (auto simp: holds_list_def)
      have "owned (nodes m) (inner ni) {}" using ni(2) by (simp add: owned.none)
      from replace_list [of m a xs i ys r nr ni, OF _ nr _ _ ni(1) this] ch free(2,3) [OF r] ps
      obtain m' where m': "cJSON_ReplaceItemViaPointer (Some a) (Some i) (Some r) m = Some (True, m')" "children (nodes m') a (xs @ r # ys)"
        "\<forall>b. b \<notin> insert i (insert a (insert r (set (xs @ ys)))) \<longrightarrow> nodes m' b = nodes m b"
        "\<forall>b. b \<noteq> i \<longrightarrow> b \<noteq> a \<longrightarrow> map_option unlink (nodes m' b) = map_option unlink (nodes m b)" by auto
      have d: "i \<notin> set (xs @ r # ys)" "a \<notin> set (xs @ r # ys)" "i \<noteq> a" "r \<notin> set (xs @ ys)"
        using ch ps m'(2) free(2) [OF r] by (auto simp: children_def)
      have "\<exists>n. nodes m' b = Some n \<and> inner n = None" if b: "b \<in> set (xs @ r # ys)" for b
      proof -
        have "b \<noteq> i" "b \<noteq> a" using d b by auto
        moreover obtain n where "nodes m b = Some n" "inner n = None" using holds_leaf [OF h, of b] b ps r by auto
        ultimately show ?thesis using m'(4) unlink_eq by (metis map_option_eq_Some)
      qed
      moreover have "nodes m' b = nodes m b" if "b \<in> F - {r}" for b using m'(3) dis ps that by auto
      ultimately have "holds_list m' a (xs @ r # ys, F - {r})"
        using m'(2) h dis ps by (auto simp: holds_list_def)
      then show ?thesis
        using m'(1) find_index_list [OF ch, of k] ps by (simp add: Op_replace cJSON_ReplaceItemInArray_def)
    next
      case False
      then show ?thesis
        using find_index_list [OF ch, of k] h na by (simp add: Op_replace cJSON_ReplaceItemInArray_def cJSON_ReplaceItemViaPointer_def)
    qed
  qed
qed

lemma run_ops_holds:
  "holds_list m a s \<Longrightarrow> ops_ok xs s \<Longrightarrow> \<exists>m'. run_ops a xs m = Some (fst (spec_ops xs s), m') \<and> holds_list m' a (snd (spec_ops xs s))"
proof (induction xs arbitrary: m s)
  case (Cons x xs)
  obtain ps F where s: "s = (ps, F)" by (cases s)
  obtain m1 where m1: "run_op a x m = Some (fst (spec_op x s), m1)" "holds_list m1 a (snd (spec_op x s))"
    using run_op_holds [of m a ps F x] Cons.prems s by auto
  from Cons.IH [OF m1(2)] Cons.prems(2) obtain m2 where
    "run_ops a xs m1 = Some (fst (spec_ops xs (snd (spec_op x s))), m2)" "holds_list m2 a (snd (spec_ops xs (snd (spec_op x s))))" by auto
  then show ?case using m1(1) by (simp add: case_prod_beta)
qed simp

subsection \<open>Members\<close>

lemma add_member_list:
  assumes ch: "children (nodes m) a ps" and i: "nodes m i = Some n" "n_next n = None" "n_name n = None"
    and new: "i \<notin> set ps" "i \<noteq> a"
  shows "(mem (requests (acct m)) \<longrightarrow> (\<exists>m' n'. add_item_to_object mem (Some a) (Some nm) (Some i) False m = Some (True, m') \<and>
      children (nodes m') a (ps @ [i]) \<and> nodes m' i = Some n' \<and> n_name n' = Some (cstr nm) \<and>
      n_type n' = n_type n AND NOT cJSON_StringIsConst \<and> live (acct m') = live (acct m) + 1)) \<and>
    (\<not> mem (requests (acct m)) \<longrightarrow> (\<exists>h. add_item_to_object mem (Some a) (Some nm) (Some i) False m = Some (False, m\<lparr>acct := h\<rparr>) \<and>
      live h = live (acct m)))"
proof (intro conjI impI)
  assume no: "\<not> mem (requests (acct m))"
  then show "\<exists>h. add_item_to_object mem (Some a) (Some nm) (Some i) False m = Some (False, m\<lparr>acct := h\<rparr>) \<and> live h = live (acct m)"
    using i new
    by (intro exI [where x = "(acct m)\<lparr>requests := Suc (requests (acct m))\<rparr>"]) (simp add: add_item_to_object_def cJSON_strdup_def allocate_def)
next
  assume yes: "mem (requests (acct m))"
  define h where "h = snd (allocate mem (acct m))"
  have al: "cJSON_strdup mem (Some nm) (acct m) = (Some (cstr nm), h)" "live h = live (acct m) + 1"
    using yes by (simp_all add: cJSON_strdup_def allocate_def h_def)
  define n2 where "n2 = n\<lparr>n_name := Some (cstr nm), n_type := n_type n AND NOT cJSON_StringIsConst\<rparr>"
  define m2 where "m2 = m\<lparr>acct := h, nodes := (nodes m)(i \<mapsto> n2)\<rparr>"
  have "children (nodes m2) a ps = children (nodes m) a ps"
    using new by (intro children_cong) (auto simp: m2_def)
  then obtain m' where m': "add_item_to_array (Some a) (Some i) m2 = Some (True, m')" "children (nodes m') a (ps @ [i])"
    "relinks (nodes m2) (nodes m') a (insert i (set ps))" "acct m' = acct m2"
    using add_item_list [of m2 a ps i n2] ch i new by (auto simp: m2_def n2_def)
  have "nodes m2 i = Some n2" by (simp add: m2_def)
  from relinks_fields [OF m'(3) new(2) this] obtain n' where n': "nodes m' i = Some n'" "unlink n' = unlink n2" by blast
  have "add_item_to_object mem (Some a) (Some nm) (Some i) False m = Some (True, m')"
    using i new al m'(1) by (simp add: add_item_to_object_def update_node_def m2_def n2_def)
  then show "\<exists>m' n'. add_item_to_object mem (Some a) (Some nm) (Some i) False m = Some (True, m') \<and>
      children (nodes m') a (ps @ [i]) \<and> nodes m' i = Some n' \<and> n_name n' = Some (cstr nm) \<and>
      n_type n' = n_type n AND NOT cJSON_StringIsConst \<and> live (acct m') = live (acct m) + 1"
    using m' n' unlink_eq [OF n'(2)] al(2) by (simp add: n2_def m2_def)
qed

lemma add_new_typed:
  assumes ch: "children (nodes m) a ps" and fresh: "nodes m (requests (acct m)) = None" and t: "t AND NOT cJSON_StringIsConst = t"
    and ref: "t AND cJSON_IsReference = 0"
  shows "\<exists>r m'. add_new mem (\<lambda>h. Some (create_typed mem t h)) (Some a) (Some nm) m = Some (r, m') \<and>
    (case r of Some p \<Rightarrow> children (nodes m') a (ps @ [p]) \<and> live (acct m') = live (acct m) + 2 \<and>
         (\<exists>n. nodes m' p = Some n \<and> n_type n = t \<and> n_name n = Some (cstr nm))
     | None \<Rightarrow> nodes m' = nodes m \<and> live (acct m') = live (acct m) \<and> (\<exists>k. \<not> mem k))"
proof -
  let ?k = "requests (acct m)"
  define h1 where "h1 = snd (allocate mem (acct m))"
  have h1: "requests h1 = ?k + 1" by (simp add: h1_def allocate_def)
  show ?thesis
  proof (cases "mem ?k")
    case False
    then show ?thesis
      by (auto simp: add_new_def create_typed_def cJSON_New_Item_def allocate_def place_def add_item_to_object_def delete_nodes.simps)
  next
    case True
    define n where "n = new_node (set_type t zero_item)"
    define m1 where "m1 = m\<lparr>nodes := (nodes m)(?k \<mapsto> n), acct := h1\<rparr>"
    have r: "create_typed mem t (acct m) = (Some (set_type t zero_item), h1)" "live h1 = live (acct m) + 1"
      using True by (simp_all add: create_typed_def cJSON_New_Item_def allocate_def h1_def)
    have pl: "place (acct m) (Some (set_type t zero_item), h1) m = (Some ?k, m1)" by (simp add: place_def m1_def n_def)
    have n: "n_next n = None" "n_name n = None" "n_type n = t" "n_text n = None" "n_child n = None"
      by (simp_all add: n_def new_node_def zero_item_def)
    have notin: "?k \<notin> set ps" "?k \<noteq> a"
      using ch fresh seg_live by (fastforce simp: children_def)+
    have ch1: "children (nodes m1) a ps"
    proof -
      have "children (nodes m1) a ps = children (nodes m) a ps" using notin by (intro children_cong) (auto simp: m1_def)
      then show ?thesis using ch by simp
    qed
    have n1: "nodes m1 ?k = Some n" by (simp add: m1_def)
    note add = add_member_list [OF ch1 n1 n(1,2) notin, of mem nm]
    show ?thesis
    proof (cases "mem (requests h1)")
      case True
      then obtain m' n' where "add_item_to_object mem (Some a) (Some nm) (Some ?k) False m1 = Some (True, m')"
        "children (nodes m') a (ps @ [?k])" "nodes m' ?k = Some n'" "n_name n' = Some (cstr nm)" "n_type n' = t"
        "live (acct m') = live (acct m1) + 1" using add n(3) t by (auto simp: m1_def)
      then show ?thesis using r pl by (auto simp: add_new_def m1_def)
    next
      case False
      then obtain h where h: "add_item_to_object mem (Some a) (Some nm) (Some ?k) False m1 = Some (False, m1\<lparr>acct := h\<rparr>)"
        "live h = live (acct m) + 1" using add r(2) by (auto simp: m1_def)
      have "inner n = None" "node_blocks n = 1" using n by (simp_all add: inner_def node_blocks_def)
      then have "owned (nodes (m1\<lparr>acct := h\<rparr>)) (Some ?k) {?k}"
        using owned.some [of "nodes m1" ?k n "{}" "{}"] n1 n(1) by (simp add: owned.none)
      from delete_owned [OF this, of "m1\<lparr>acct := h\<rparr>"] obtain m' where m': "delete_nodes (Some ?k) (m1\<lparr>acct := h\<rparr>) = Some m'"
        "nodes m' = nodes m1 |` (- {?k})" "live (acct m') = live (acct m)"
        using n1 h(2) \<open>node_blocks n = 1\<close> by auto
      have "nodes m' = nodes m" using fresh by (auto simp: m'(2) m1_def restrict_map_def)
      then show ?thesis using r pl h m' False by (auto simp: add_new_def)
    qed
  qed
qed

subsection \<open>Properties\<close>

text \<open>
  C28: the doubly linked lists of cJSON are lists: any sequence of \<^verbatim>\<open>cJSON_AddItemToArray\<close>,
  \<^verbatim>\<open>cJSON_InsertItemInArray\<close>, \<^verbatim>\<open>cJSON_DetachItemFromArray\<close> and \<^verbatim>\<open>cJSON_ReplaceItemInArray\<close> on an
  array, with nodes that are in no list, reports and does what the same operations do to the
  list of members, without an access through a null or dangling pointer, and the links
  (\<^verbatim>\<open>next\<close>, \<^verbatim>\<open>prev\<close>, the \<^verbatim>\<open>prev\<close> of the first to the last) stand for that list again.
\<close>

theorem list_operations_refine:
  assumes "holds_list m a s" and "ops_ok xs s"
  shows "\<exists>m'. run_ops a xs m = Some (fst (spec_ops xs s), m') \<and> holds_list m' a (snd (spec_ops xs s))"
  by (rule run_ops_holds [OF assms])

definition loose :: cnode where "loose = new_node (set_type cJSON_True zero_item)"

definition store_example :: cstore where
  "store_example = \<lparr>nodes = [0 \<mapsto> new_node (set_type cJSON_Array zero_item), 1 \<mapsto> loose, 2 \<mapsto> loose, 3 \<mapsto> loose],
     acct = \<lparr>requests = 4, live = 4\<rparr>\<rparr>"

lemma store_example_holds: "holds_list store_example 0 ([], {1, 2, 3})"
  by (simp add: holds_list_def children_def store_example_def loose_def new_node_def zero_item_def inner_def)

theorem list_operations_refine_witness:
  "\<exists>m'. run_ops 0 [Op_add 1, Op_insert 0 2, Op_detach 1, Op_insert 7 1, Op_replace 0 3, Op_detach 5] store_example =
      Some ([True, True, True, True, True, False], m') \<and> children (nodes m') 0 [3, 1]"
  using list_operations_refine [OF store_example_holds,
      of "[Op_add 1, Op_insert 0 2, Op_detach 1, Op_insert 7 1, Op_replace 0 3, Op_detach 5]"]
  by (auto simp: holds_list_def)

text \<open>
  C29: deleting a tree ends, frees every node that the tree owns, each exactly once, and no other
  (in particular not what a reference points to), and gives back the blocks of the nodes and of
  the strings they own.
\<close>

theorem delete_frees_owned:
  assumes "owned (nodes m) p A"
  shows "\<exists>m'. delete_nodes p m = Some m' \<and> nodes m' = nodes m |` (- A) \<and>
    live (acct m') = live (acct m) - (\<Sum>a \<in> A. node_blocks (the (nodes m a)))"
  using delete_owned [OF assms] by blast

theorem delete_frees_owned_witness:
  "\<exists>m'. delete_nodes (Some 1) store_example = Some m' \<and> nodes m' 1 = None \<and> live (acct m') = 3"
proof -
  have "nodes store_example 1 = Some loose" by (simp add: store_example_def)
  moreover have "inner loose = None" "n_next loose = None" "node_blocks loose = 1"
    by (simp_all add: loose_def new_node_def zero_item_def inner_def node_blocks_def)
  ultimately have "owned (nodes store_example) (Some 1) (insert 1 ({} \<union> {}))"
    by (intro owned.some [where n = loose]) (simp_all add: owned.none)
  from delete_frees_owned [OF this] show ?thesis
    using \<open>node_blocks loose = 1\<close> by (auto simp: store_example_def)
qed

text \<open>
  Replacing a member puts the replacement in its place and frees the old member with all that
  it owns; no other node changes but for its links.
\<close>

theorem replace_frees_old:
  assumes "children (nodes m) a (xs @ i # ys)" and "nodes m r = Some nr" and "r \<notin> set (xs @ i # ys)" and "r \<noteq> a"
    and "nodes m i = Some ni" and "owned (nodes m) (inner ni) A" and "A \<inter> insert a (insert r (set (xs @ i # ys))) = {}"
  shows "\<exists>m'. cJSON_ReplaceItemViaPointer (Some a) (Some i) (Some r) m = Some (True, m') \<and> children (nodes m') a (xs @ r # ys) \<and>
    (\<forall>b \<in> insert i A. nodes m' b = None) \<and>
    (\<forall>b. b \<notin> insert i A \<longrightarrow> b \<noteq> a \<longrightarrow> map_option unlink (nodes m' b) = map_option unlink (nodes m b)) \<and>
    live (acct m') = live (acct m) - (node_blocks ni + (\<Sum>b \<in> A. node_blocks (the (nodes m b))))"
  using replace_list [OF assms] by blast

definition pair_store :: cstore where
  "pair_store = \<lparr>nodes = [0 \<mapsto> (new_node (set_type cJSON_Array zero_item))\<lparr>n_child := Some 1\<rparr>,
     1 \<mapsto> loose\<lparr>n_prev := Some 1\<rparr>, 2 \<mapsto> loose], acct = \<lparr>requests = 3, live = 3\<rparr>\<rparr>"

theorem replace_frees_old_witness:
  "\<exists>m'. cJSON_ReplaceItemViaPointer (Some 0) (Some 1) (Some 2) pair_store = Some (True, m') \<and> children (nodes m') 0 [2] \<and> nodes m' 1 = None"
proof -
  have ch: "children (nodes pair_store) 0 ([] @ 1 # [])" by (simp add: children_def pair_store_def loose_def new_node_def)
  have n: "nodes pair_store 2 = Some loose" "nodes pair_store 1 = Some (loose\<lparr>n_prev := Some 1\<rparr>)" by (simp_all add: pair_store_def)
  have "owned (nodes pair_store) (inner (loose\<lparr>n_prev := Some 1\<rparr>)) {}"
    by (simp add: owned.none inner_def loose_def new_node_def zero_item_def)
  from replace_frees_old [OF ch n(1) _ _ n(2) this] show ?thesis by auto
qed

text \<open>
  C30: adding a new member to an object either appends a node of the type with a copy of the name,
  which costs two blocks, or fails because an allocation did, and then nothing has changed and
  nothing is leaked.
\<close>

theorem add_member_all_or_nothing:
  assumes "children (nodes m) a ps" and "nodes m (requests (acct m)) = None"
    and "(t, add) \<in> {(cJSON_NULL, cJSON_AddNullToObject mem), (cJSON_True, cJSON_AddTrueToObject mem),
      (cJSON_False, cJSON_AddFalseToObject mem), (cJSON_Object, cJSON_AddObjectToObject mem), (cJSON_Array, cJSON_AddArrayToObject mem)}"
  shows "\<exists>r m'. add (Some a) (Some nm) m = Some (r, m') \<and>
    (case r of Some p \<Rightarrow> children (nodes m') a (ps @ [p]) \<and> live (acct m') = live (acct m) + 2 \<and>
         (\<exists>n. nodes m' p = Some n \<and> n_type n = t \<and> n_name n = Some (cstr nm))
     | None \<Rightarrow> nodes m' = nodes m \<and> live (acct m') = live (acct m) \<and> (\<exists>k. \<not> mem k))"
proof -
  have t: "t AND NOT cJSON_StringIsConst = t" "t AND cJSON_IsReference = 0" using assms(3) by (auto simp: type_codes)
  have "add = add_new mem (\<lambda>h. Some (create_typed mem t h))"
    using assms(3) by (auto simp: cJSON_AddNullToObject_def cJSON_AddTrueToObject_def cJSON_AddFalseToObject_def
        cJSON_AddObjectToObject_def cJSON_AddArrayToObject_def cJSON_CreateNull_def cJSON_CreateTrue_def cJSON_CreateFalse_def
        cJSON_CreateObject_def cJSON_CreateArray_def)
  then show ?thesis using add_new_typed [OF assms(1,2) t] by simp
qed

theorem add_member_all_or_nothing_witness:
  "\<exists>p m'. cJSON_AddNullToObject (\<lambda>_. True) (Some 0) (Some [0x61]) store_example = Some (Some p, m') \<and> children (nodes m') 0 [p]"
proof -
  have "children (nodes store_example) 0 []" using store_example_holds by (simp add: holds_list_def)
  moreover have "nodes store_example (requests (acct store_example)) = None" by (simp add: store_example_def)
  ultimately show ?thesis
    using add_member_all_or_nothing [of store_example 0 "[]" cJSON_NULL "cJSON_AddNullToObject (\<lambda>_. True)" "\<lambda>_. True" "[0x61]"]
    by (auto split: option.splits)
qed

text \<open>
  Inserting a null pointer before an existing member dereferences it: unlike the other
  functions, \<^verbatim>\<open>cJSON_InsertItemInArray\<close> does not test its item.
\<close>

theorem insert_null_item:
  assumes "children (nodes m) a ps" and "k < length ps"
  shows "cJSON_InsertItemInArray (Some a) (int k) None m = None"
  using find_index_list [OF assms(1), of k] assms(2) by (simp add: cJSON_InsertItemInArray_def update_node_def)

theorem insert_null_item_witness: "cJSON_InsertItemInArray (Some 0) 0 None pair_store = None"
proof -
  have "children (nodes pair_store) 0 [1]" by (simp add: children_def pair_store_def loose_def new_node_def)
  from insert_null_item [OF this, of 0] show ?thesis by simp
qed

end
