(* ===== verification/CJsonPointer.thy ===== *)
theory CJsonPointer
  imports CJsonText CJsonTree
begin

text \<open>
  JSON pointers, cJSON_Utils.c: the escape codes of their tokens, the way from the root to a node
  along a pointer, and the search for the pointer of a node. A pointer to a node, compared by
  identity in C, is its address in the tree, the list of the positions on the way to it. A pointer text is
  a string in the sense of \<^verbatim>\<open>CJson\<close>; \<open>at0\<close> reads its next byte or the terminator.
\<close>

subsection \<open>Strings\<close>

definition at0 :: "u8 list \<Rightarrow> u8" where
  "at0 s = (case s of [] \<Rightarrow> 0 | c # _ \<Rightarrow> c)"

definition cJSONUtils_strdup :: "(nat \<Rightarrow> bool) \<Rightarrow> u8 list \<Rightarrow> heap \<Rightarrow> u8 list option \<times> heap" where
  "cJSONUtils_strdup mem s h = (case allocate mem h of (ok, h') \<Rightarrow> (if ok then Some (cstr s) else None, h'))"

definition compare_strings :: "u8 list option \<Rightarrow> u8 list option \<Rightarrow> bool \<Rightarrow> int" where
  "compare_strings string1 string2 case_sensitive = (case (string1, string2) of
     (Some s, Some t) \<Rightarrow> if case_sensitive then strcmp s t else ci_cmp s t
   | _ \<Rightarrow> 1)"

text \<open>The loop over a name and a token of a pointer, to the end of either.\<close>

function compare_tokens :: "u8 list \<Rightarrow> u8 list \<Rightarrow> bool \<Rightarrow> bool" where
  "compare_tokens nm pointer case_sensitive =
     (if at0 nm \<noteq> 0 \<and> at0 pointer \<noteq> 0 \<and> at0 pointer \<noteq> 0x2f
      then if at0 pointer = 0x7e
        then if (at0 (tl pointer) \<noteq> 0x30 \<or> at0 nm \<noteq> 0x7e) \<and> (at0 (tl pointer) \<noteq> 0x31 \<or> at0 nm \<noteq> 0x2f) then False
          else compare_tokens (tl nm) (tl (tl pointer)) case_sensitive
        else if \<not> case_sensitive \<and> tolower (at0 nm) \<noteq> tolower (at0 pointer) \<or> case_sensitive \<and> at0 nm \<noteq> at0 pointer then False
        else compare_tokens (tl nm) (tl pointer) case_sensitive
      else (at0 pointer \<noteq> 0 \<and> at0 pointer \<noteq> 0x2f) = (at0 nm \<noteq> 0))"
  by pat_completeness auto
termination
  by (relation "measure (\<lambda>(nm, _). length nm)") (auto simp: at0_def split: list.splits)

declare compare_tokens.simps [simp del]

definition compare_pointers :: "u8 list option \<Rightarrow> u8 list option \<Rightarrow> bool \<Rightarrow> bool" where
  "compare_pointers nm pointer case_sensitive = (case (nm, pointer) of
     (Some n, Some p) \<Rightarrow> compare_tokens n p case_sensitive | _ \<Rightarrow> False)"

fun pointer_encoded_length :: "u8 list \<Rightarrow> nat" where
  "pointer_encoded_length [] = 0"
| "pointer_encoded_length (c # cs) = (if c = 0 then 0
     else (if c = 0x7e \<or> c = 0x2f then 2 else 1) + pointer_encoded_length cs)"

text \<open>The destination is a block and a position in it.\<close>

fun encode_string_as_pointer :: "u8 list \<Rightarrow> nat \<Rightarrow> u8 list \<Rightarrow> u8 list option" where
  "encode_string_as_pointer destination d [] = wr destination d [0]"
| "encode_string_as_pointer destination d (c # cs) =
     (if c = 0 then wr destination d [0]
      else if c = 0x2f then do {
        m \<leftarrow> wr destination d [0x7e];
        m \<leftarrow> wr m (d + 1) [0x31];
        encode_string_as_pointer m (d + 2) cs }
      else if c = 0x7e then do {
        m \<leftarrow> wr destination d [0x7e];
        m \<leftarrow> wr m (d + 1) [0x30];
        encode_string_as_pointer m (d + 2) cs }
      else do {
        m \<leftarrow> wr destination d [c];
        encode_string_as_pointer m (d + 1) cs })"

text \<open>In place on a block with its terminator: \<open>d\<close> and \<open>s\<close> are \<^verbatim>\<open>decoded_string\<close> and \<^verbatim>\<open>string\<close>.\<close>

function decode_loop :: "u8 list \<Rightarrow> nat \<Rightarrow> nat \<Rightarrow> u8 list option" where
  "decode_loop m d s = (if s < length m then
     if m ! s = 0 then wr m d [0]
     else if m ! s = 0x7e then do {
       c \<leftarrow> rd m (s + 1);
       if c = 0x30 then do { m' \<leftarrow> wr m d [0x7e]; decode_loop m' (d + 1) (s + 2) }
       else if c = 0x31 then do { m' \<leftarrow> wr m (d + 1) [0x2f]; decode_loop m' (d + 1) (s + 2) }
       else Some m }
     else decode_loop m (d + 1) (s + 1) else None)"
  by pat_completeness auto
termination
  by (relation "measure (\<lambda>(m, _, s). length m - s)") (auto dest: wr_length)

declare decode_loop.simps [simp del]

definition decode_pointer_inplace :: "u8 list option \<Rightarrow> u8 list option option" where
  "decode_pointer_inplace string = (case string of None \<Rightarrow> Some None | Some m \<Rightarrow> map_option Some (decode_loop m 0 0))"

subsection \<open>Indices\<close>

text \<open>The loop tests the upper bound of a digit on the first byte of the pointer.\<close>

fun index_loop :: "u8 \<Rightarrow> u32 \<Rightarrow> u8 list \<Rightarrow> u32 \<times> u8 list" where
  "index_loop pointer0 parsed_index [] = (parsed_index, [])"
| "index_loop pointer0 parsed_index (c # cs) =
     (if 0x30 \<le> c \<and> pointer0 \<le> 0x39 then index_loop pointer0 (10 * parsed_index + ucast (c - 0x30)) cs
      else (parsed_index, c # cs))"

definition decode_array_index_from_pointer :: "u8 list \<Rightarrow> u32 option" where
  "decode_array_index_from_pointer pointer =
     (if at0 pointer = 0x30 \<and> at0 (tl pointer) \<noteq> 0 \<and> at0 (tl pointer) \<noteq> 0x2f then None
      else case index_loop (at0 pointer) 0 pointer of (parsed_index, rest) \<Rightarrow>
        if at0 rest \<noteq> 0 \<and> at0 rest \<noteq> 0x2f then None else Some parsed_index)"

subsection \<open>From a pointer to a node\<close>

fun next_token :: "u8 list \<Rightarrow> u8 list" where
  "next_token [] = []"
| "next_token (c # cs) = (if c \<noteq> 0 \<and> c \<noteq> 0x2f then next_token cs else c # cs)"

fun find_token :: "u8 list \<Rightarrow> bool \<Rightarrow> nat \<Rightarrow> cjson list \<Rightarrow> nat option" where
  "find_token pointer case_sensitive i [] = None"
| "find_token pointer case_sensitive i (c # cs) =
     (if \<not> compare_pointers (jstring c) (Some pointer) case_sensitive then find_token pointer case_sensitive (i + 1) cs else Some i)"

definition step_into :: "cjson \<Rightarrow> u8 list \<Rightarrow> bool \<Rightarrow> nat option" where
  "step_into el pointer case_sensitive =
     (if cJSON_IsArray (Some el)
      then Option.bind (decode_array_index_from_pointer pointer)
        (\<lambda>i. if unat i < length (child el) then Some (unat i) else None)
      else if cJSON_IsObject (Some el) then find_token pointer case_sensitive 0 (child el)
      else None)"

lemma next_token_length: "length (next_token p) \<le> length p"
  by (induction p) auto

text \<open>The address of the node, relative to the root; \<^term>\<open>None\<close> is the null pointer.\<close>

function follow :: "cjson \<Rightarrow> u8 list \<Rightarrow> bool \<Rightarrow> nat list option" where
  "follow el pointer case_sensitive = (if at0 pointer = 0x2f
     then case step_into el (tl pointer) case_sensitive of None \<Rightarrow> None
       | Some i \<Rightarrow> if i < length (child el)
           then map_option ((#) i) (follow (child el ! i) (next_token (tl pointer)) case_sensitive) else None
     else Some [])"
  by pat_completeness auto
termination
proof (relation "measure (\<lambda>(_, p, _). length p)")
  fix el :: cjson and pointer :: "u8 list" and cs :: bool and i :: nat
  assume "at0 pointer = 0x2f"
  then have "pointer \<noteq> []" by (auto simp: at0_def)
  then show "((child el ! i, next_token (tl pointer), cs), el, pointer, cs) \<in> measure (\<lambda>(_, p, _). length p)"
    using next_token_length [of "tl pointer"] by (cases pointer) auto
qed simp

declare follow.simps [simp del]

definition get_item_from_pointer :: "cjson option \<Rightarrow> u8 list option \<Rightarrow> bool \<Rightarrow> nat list option" where
  "get_item_from_pointer object pointer case_sensitive = (case (object, pointer) of
     (Some el, Some p) \<Rightarrow> follow el p case_sensitive | _ \<Rightarrow> None)"

definition cJSONUtils_GetPointer where
  "cJSONUtils_GetPointer object pointer = get_item_from_pointer object pointer False"

definition cJSONUtils_GetPointerCaseSensitive where
  "cJSONUtils_GetPointerCaseSensitive object pointer = get_item_from_pointer object pointer True"

subsection \<open>From a node to its pointer\<close>

definition below :: "nat \<Rightarrow> nat list option \<Rightarrow> nat list option" where
  "below i target = (case target of Some (j # rest) \<Rightarrow> if i = j then Some rest else None | _ \<Rightarrow> None)"

text \<open>\<open>target\<close> is the address of the target relative to the node, if it is in its tree. A block that is
  written through a null pointer, and a missing name, are faults.\<close>

definition array_pointer :: "(nat \<Rightarrow> bool) \<Rightarrow> nat \<Rightarrow> u8 list \<Rightarrow> heap \<Rightarrow> (u8 list option \<times> heap) option" where
  "array_pointer mem child_index target_pointer h = (case allocate mem h of (ok, h') \<Rightarrow>
     if \<not> ok then None else do {
       full \<leftarrow> wr (replicate (length (cstr target_pointer) + 20 + 2) 0) 0
         (0x2f # decimal child_index @ cstr target_pointer @ [0]);
       Some (Some (butlast full), deallocate h') })"

definition object_pointer :: "(nat \<Rightarrow> bool) \<Rightarrow> u8 list option \<Rightarrow> u8 list \<Rightarrow> heap \<Rightarrow> (u8 list option \<times> heap) option" where
  "object_pointer mem nm target_pointer h = do {
     n \<leftarrow> nm;
     case allocate mem h of (ok, h') \<Rightarrow>
       if \<not> ok then None else do {
         full \<leftarrow> wr (replicate (length (cstr target_pointer) + pointer_encoded_length n + 2) 0) 0 [0x2f];
         full \<leftarrow> encode_string_as_pointer full 1 n;
         full \<leftarrow> wr full (length (cstr full)) (cstr target_pointer @ [0]);
         Some (Some (butlast full), deallocate h') } }"

fun find_pointer :: "(nat \<Rightarrow> bool) \<Rightarrow> cjson \<Rightarrow> nat list option \<Rightarrow> heap \<Rightarrow> (u8 list option \<times> heap) option"
and find_in_children :: "(nat \<Rightarrow> bool) \<Rightarrow> int \<Rightarrow> nat \<Rightarrow> cjson list \<Rightarrow> nat list option \<Rightarrow> heap \<Rightarrow> (u8 list option \<times> heap) option" where
  "find_pointer mem (CJ t vs vi vd nm ch) target h =
     (if target = Some [] then Some (cJSONUtils_strdup mem [] h) else find_in_children mem t 0 ch target h)"
| "find_in_children mem t i [] target h = Some (None, h)"
| "find_in_children mem t i (c # cs) target h = do {
     r \<leftarrow> find_pointer mem c (below i target) h;
     case r of
       (None, h1) \<Rightarrow> find_in_children mem t (i + 1) cs target h1
     | (Some target_pointer, h1) \<Rightarrow>
         if t AND 0xFF = cJSON_Array then array_pointer mem i target_pointer h1
         else if t AND 0xFF = cJSON_Object then object_pointer mem (jstring c) target_pointer h1
         else Some (None, deallocate h1) }"

definition cJSONUtils_FindPointerFromObjectTo ::
  "(nat \<Rightarrow> bool) \<Rightarrow> cjson option \<Rightarrow> nat list option \<Rightarrow> heap \<Rightarrow> (u8 list option \<times> heap) option" where
  "cJSONUtils_FindPointerFromObjectTo mem object target h = (case object of
     None \<Rightarrow> Some (None, h) | Some ob \<Rightarrow> find_pointer mem ob target h)"


subsection \<open>Escapes\<close>

definition token_byte :: "u8 \<Rightarrow> u8 list" where
  "token_byte c = (if c = 0x2f then [0x7e, 0x31] else if c = 0x7e then [0x7e, 0x30] else [c])"

definition token :: "u8 list \<Rightarrow> u8 list" where
  "token s = concat (map token_byte (cstr s))"

text \<open>A text that ends, or goes on with the next token.\<close>

definition ends_token :: "u8 list \<Rightarrow> bool" where
  "ends_token rest \<longleftrightarrow> at0 rest = 0 \<or> at0 rest = 0x2f"

lemma at0_simps [simp]: "at0 [] = 0" "at0 (c # cs) = c"
  by (simp_all add: at0_def)

lemma token_simps: "token [] = []" "token (c # cs) = (if c = 0 then [] else token_byte c @ token cs)"
  by (simp_all add: token_def cstr_def)

lemma pointer_encoded_length_token: "pointer_encoded_length s = length (token s)"
  by (induction s) (auto simp: token_simps token_byte_def)

lemma wr_Cons: "wr m d (x # zs) = Option.bind (wr m d [x]) (\<lambda>m. wr m (d + 1) zs)"
  using wr_split [of m d "[x]" zs] by simp

lemma wr_pair: "wr m d (x # y # zs) = Option.bind (wr m d [x]) (\<lambda>m. Option.bind (wr m (d + 1) [y]) (\<lambda>m. wr m (d + 2) zs))"
proof -
  have "(\<lambda>m. wr m (d + 1) (y # zs)) = (\<lambda>m. Option.bind (wr m (d + 1) [y]) (\<lambda>m. wr m (d + 2) zs))"
    by (rule ext) (subst wr_Cons, simp)
  then show ?thesis by (subst wr_Cons) simp
qed

lemma encode_token: "encode_string_as_pointer m d s = wr m d (token s @ [0])"
proof (induction s arbitrary: m d)
  case (Cons c s)
  show ?case
    using wr_pair [of m d "0x7e" "0x31" "token s @ [0]"] wr_pair [of m d "0x7e" "0x30" "token s @ [0]"] wr_Cons [of m d c "token s @ [0]"]
    by (simp add: token_simps token_byte_def Cons.IH)
qed (simp add: token_simps)

lemma token_first: "c \<noteq> 0 \<Longrightarrow> at0 (token_byte c @ r) = (if c = 0x2f \<or> c = 0x7e then 0x7e else c)"
  by (simp add: token_byte_def)

lemma tolower_fix: "tolower c = 0x7e \<longleftrightarrow> c = 0x7e" "tolower c = 0x2f \<longleftrightarrow> c = 0x2f" "tolower c = 0 \<longleftrightarrow> c = 0"
proof -
  have "tolower c = (if 65 \<le> c \<and> c \<le> 90 then c + 32 else c)" by (simp add: tolower_def)
  moreover have "c + 32 \<noteq> 0x7e \<and> c + 32 \<noteq> 0x2f \<and> c + 32 \<noteq> 0" if "65 \<le> c" "c \<le> 90" for c :: u8
  proof -
    have c: "65 \<le> unat c" "unat c \<le> 90" using that by (simp_all add: word_le_nat_alt)
    then have "unat (c + 32) = unat c + 32" by (simp add: unat_word_ariths)
    then have "97 \<le> unat (c + 32) \<and> unat (c + 32) \<le> 122" using c by simp
    then show ?thesis by auto
  qed
  ultimately show "tolower c = 0x7e \<longleftrightarrow> c = 0x7e" "tolower c = 0x2f \<longleftrightarrow> c = 0x2f" "tolower c = 0 \<longleftrightarrow> c = 0"
    by (auto split: if_splits)
qed

lemma tolower_special: "tolower c = tolower 0x7e \<longleftrightarrow> c = 0x7e" "tolower c = tolower 0x2f \<longleftrightarrow> c = 0x2f"
  "tolower 0x7e \<noteq> tolower 0x2f"
proof -
  have e: "tolower 0x7e = 0x7e" "tolower 0x2f = 0x2f" by (simp_all add: tolower_def)
  show "tolower c = tolower 0x7e \<longleftrightarrow> c = 0x7e" "tolower c = tolower 0x2f \<longleftrightarrow> c = 0x2f" "tolower 0x7e \<noteq> tolower 0x2f"
    unfolding e tolower_fix by simp_all
qed

text \<open>A token is compared with a name as the names are, upper and lower case folded or not.\<close>

lemma compare_tokens_token:
  "ends_token rest \<Longrightarrow> compare_tokens nm (token s @ rest) cs \<longleftrightarrow> fold_key cs nm = fold_key cs s"
proof (induction s arbitrary: nm)
  case Nil
  then have "compare_tokens nm rest cs \<longleftrightarrow> at0 nm = 0"
    by (subst compare_tokens.simps) (auto simp: ends_token_def)
  then show ?case by (cases nm) (auto simp: token_simps fold_key_def cstr_def)
next
  case (Cons c s)
  show ?case
  proof (cases "c = 0")
    case True
    have "compare_tokens nm rest cs \<longleftrightarrow> at0 nm = 0"
      using Cons.prems by (subst compare_tokens.simps) (auto simp: ends_token_def)
    then show ?thesis using True by (cases nm) (auto simp: token_simps fold_key_def cstr_def)
  next
    case False
    note IH = Cons.IH [OF Cons.prems]
    show ?thesis
    proof (cases nm)
      case Nil
      then show ?thesis using False
        by (subst compare_tokens.simps) (auto simp: token_simps token_byte_def fold_key_def cstr_def)
    next
      case (Cons x xs)
      have "compare_tokens (x # xs) (token (c # s) @ rest) cs \<longleftrightarrow> x \<noteq> 0 \<and> (if cs then x = c else tolower x = tolower c) \<and>
          compare_tokens xs (token s @ rest) cs"
        using False by (subst compare_tokens.simps) (auto simp: token_simps token_byte_def tolower_special)
      then show ?thesis using False Cons IH [of xs] tolower_fix
        by (auto simp: fold_key_def cstr_def)
    qed
  qed
qed

lemma next_token_token: "ends_token rest \<Longrightarrow> next_token (token s @ rest) = rest"
proof (induction s)
  case Nil
  then show ?case by (cases rest) (auto simp: token_simps ends_token_def)
next
  case (Cons c s)
  have "next_token rest = rest" using Cons.prems by (cases rest) (auto simp: ends_token_def)
  then show ?case using Cons by (simp add: token_simps token_byte_def)
qed

subsection \<open>Indices in pointers\<close>

lemma index_loop_digits:
  "list_all is_digit ds \<Longrightarrow> c0 \<le> 0x39 \<Longrightarrow> \<not> 0x30 \<le> at0 rest \<Longrightarrow>
    index_loop c0 acc (ds @ rest) = (foldl (\<lambda>v c. 10 * v + ucast (c - 0x30)) acc ds, rest)"
proof (induction ds arbitrary: acc)
  case Nil
  then show ?case by (cases rest) auto
qed (simp add: is_digit_def)

lemma digits_word:
  assumes "list_all is_digit ds"
  shows "foldl (\<lambda>v c. 10 * v + ucast (c - 0x30 :: u8)) (word_of_nat n :: u32) ds =
    word_of_nat (foldl (\<lambda>v c. 10 * v + (unat c - 48)) n ds)"
  using assms
proof (induction ds arbitrary: n)
  case (Cons c ds)
  have "unat (c - 0x30) = unat c - 48" using Cons.prems by (simp add: is_digit_def) unat_arith
  then have "(ucast (c - 0x30) :: u32) = word_of_nat (unat c - 48)" by (metis of_nat_unat)
  then have "10 * (word_of_nat n :: u32) + ucast (c - 0x30) = word_of_nat (10 * n + (unat c - 48))" by simp
  then show ?case using Cons.IH [of "10 * n + (unat c - 48)"] Cons.prems by simp
qed simp

lemma decimal_head: "decimal n = c # cs \<Longrightarrow> c = 0x30 \<Longrightarrow> cs = []"
proof (induction n arbitrary: c cs rule: decimal.induct)
  case (1 n)
  show ?case
  proof (cases "n < 10")
    case True
    then show ?thesis using 1(2) by (subst (asm) decimal.simps) simp
  next
    case False
    then obtain d ds where d: "decimal (n div 10) = d # ds" using decimal_digits [of "n div 10"] by (cases "decimal (n div 10)") auto
    then have "c = d" using 1(2) False by (subst (asm) decimal.simps) simp
    then have "decimal (n div 10) = [0x30]" using 1(1) [OF False d] 1(3) d by simp
    then have "digits_val (decimal (n div 10)) = 0" by (simp add: digits_val_def)
    then show ?thesis using decimal_digits [of "n div 10"] False by simp
  qed
qed

lemma decode_index_decimal:
  assumes "n < 2 ^ 32" and "ends_token rest"
  shows "decode_array_index_from_pointer (decimal n @ rest) = Some (word_of_nat n)"
proof -
  obtain c cs where c: "decimal n = c # cs" using decimal_digits [of n] by (cases "decimal n") auto
  have d: "list_all is_digit (c # cs)" using decimal_digits [of n] c by simp
  have r: "\<not> 0x30 \<le> at0 rest" using assms(2) by (auto simp: ends_token_def)
  have "index_loop c 0 (c # cs @ rest) = (word_of_nat n, rest)"
    using index_loop_digits [OF d, of c rest 0] digits_word [OF d, of 0] d r decimal_digits [of n] c
    by (simp add: is_digit_def digits_val_def)
  moreover have "\<not> (c = 0x30 \<and> at0 (cs @ rest) \<noteq> 0 \<and> at0 (cs @ rest) \<noteq> 0x2f)"
    using decimal_head [OF c] assms(2) by (auto simp: ends_token_def)
  ultimately show ?thesis using assms(2) c by (simp add: decode_array_index_from_pointer_def ends_token_def)
qed


subsection \<open>There and back\<close>

text \<open>The pointer of an address, and the addresses that a pointer can name: on the way every node is an
  array, or an object whose members have names, and no earlier one has the name of the one that is entered.\<close>

fun pointer_text :: "cjson \<Rightarrow> nat list \<Rightarrow> u8 list" where
  "pointer_text el [] = []"
| "pointer_text el (i # path) = 0x2f # (if cJSON_IsArray (Some el) then decimal i else token (the (jstring (child el ! i)))) @
     pointer_text (child el ! i) path"

fun addressable :: "bool \<Rightarrow> cjson \<Rightarrow> nat list \<Rightarrow> bool" where
  "addressable cs el [] \<longleftrightarrow> True"
| "addressable cs el (i # path) \<longleftrightarrow> i < length (child el) \<and> i < 2 ^ 32 \<and>
     (cJSON_IsArray (Some el) \<or> cJSON_IsObject (Some el) \<and> (\<forall>c \<in> set (child el). jstring c \<noteq> None) \<and>
        (\<forall>j < i. key_of cs (child el ! j) \<noteq> key_of cs (child el ! i))) \<and>
     addressable cs (child el ! i) path"

lemma ends_pointer_text: "at0 rest = 0 \<Longrightarrow> ends_token (pointer_text el path @ rest)"
  by (cases path) (simp_all add: ends_token_def)

lemma find_token_first:
  assumes "\<forall>c \<in> set xs. jstring c \<noteq> None" and "i < length xs" and "ends_token rest"
    and "\<forall>j < i. key_of cs (xs ! j) \<noteq> key_of cs (xs ! i)"
  shows "find_token (token (the (jstring (xs ! i))) @ rest) cs k xs = Some (k + i)"
  using assms
proof (induction xs arbitrary: i k)
  case (Cons x xs)
  have x: "compare_pointers (jstring x) (Some (token s @ rest)) cs \<longleftrightarrow> key_of cs x = fold_key cs s" for s
    using Cons.prems(1,3) compare_tokens_token by (auto simp: compare_pointers_def key_of_def)
  show ?case
  proof (cases i)
    case 0
    then show ?thesis by (simp add: x) (simp add: key_of_def)
  next
    case (Suc i')
    have "key_of cs x \<noteq> fold_key cs (the (jstring (xs ! i')))" using Cons.prems(4) Suc by (force simp: key_of_def)
    moreover have "\<forall>j < i'. key_of cs (xs ! j) \<noteq> key_of cs (xs ! i')" using Cons.prems(4) Suc by force
    ultimately show ?thesis using Cons.IH [of i' "k + 1"] Cons.prems Suc by (simp add: x)
  qed
qed simp

lemma decimal_nonzero: "0 \<notin> set (decimal n)"
  using decimal_digits [of n] by (auto simp: list_all_iff is_digit_def)

lemma decimal_stops: "list_all is_digit ds \<Longrightarrow> ends_token rest \<Longrightarrow> next_token (ds @ rest) = rest"
proof (induction ds)
  case Nil
  then show ?case by (cases rest) (auto simp: ends_token_def)
qed (auto simp: is_digit_def)

lemma follow_pointer_text: "addressable cs el path \<Longrightarrow> at0 rest = 0 \<Longrightarrow> follow el (pointer_text el path @ rest) cs = Some path"
proof (induction path arbitrary: el)
  case Nil
  then show ?case by (simp add: follow.simps)
next
  case (Cons i path)
  let ?rest = "pointer_text (child el ! i) path @ rest"
  have i: "i < length (child el)" "i < 2 ^ 32" using Cons.prems by auto
  have e: "ends_token ?rest" using Cons.prems(2) by (rule ends_pointer_text)
  show ?case
  proof (cases "cJSON_IsArray (Some el)")
    case True
    have "step_into el (decimal i @ ?rest) cs = Some i"
      using True i decode_index_decimal [OF i(2) e] by (simp add: step_into_def unat_of_nat)
    moreover have "next_token (decimal i @ ?rest) = ?rest" using decimal_stops decimal_digits e by blast
    ultimately show ?thesis using Cons True i by (subst follow.simps) simp
  next
    case False
    let ?t = "token (the (jstring (child el ! i)))"
    have "step_into el (?t @ ?rest) cs = Some i"
      using False Cons.prems find_token_first [of "child el" i ?rest cs 0] e by (auto simp: step_into_def)
    moreover have "next_token (?t @ ?rest) = ?rest" using next_token_token e by blast
    ultimately show ?thesis using Cons False i by (subst follow.simps) simp
  qed
qed

lemma wr_fill: "length bs \<le> k \<Longrightarrow> wr (pre @ replicate k 0) (length pre) bs = Some (pre @ bs @ replicate (k - length bs) 0)"
  by (simp add: wr_def)

lemma cstr_pad: "0 \<notin> set bs \<Longrightarrow> cstr (bs @ replicate k 0) = bs"
  unfolding cstr_def by (subst takeWhile_append2) auto

lemma cstr_ended: "0 \<notin> set bs \<Longrightarrow> cstr (butlast (bs @ 0 # replicate k 0)) = bs"
proof -
  assume "0 \<notin> set bs"
  then have "cstr (bs @ zs) = bs @ cstr zs" for zs unfolding cstr_def by (subst takeWhile_append2) auto
  moreover have "cstr (butlast (0 # replicate k 0)) = []" by (cases k) (simp_all add: cstr_def)
  ultimately show ?thesis by (simp add: butlast_append)
qed

lemma token_nonzero: "0 \<notin> set (token s)"
  by (induction s) (auto simp: token_simps token_byte_def)

lemma pointer_text_nonzero: "0 \<notin> set (pointer_text el path)"
  by (induction el path rule: pointer_text.induct) (auto simp: decimal_nonzero token_nonzero)

lemma array_pointer_text:
  assumes "mem (requests h)" and "i < 2 ^ 32" and "0 \<notin> set (cstr tp)"
  shows "\<exists>r. array_pointer mem i tp h = Some (Some r, h\<lparr>requests := requests h + 1\<rparr>) \<and> cstr r = 0x2f # decimal i @ cstr tp"
proof -
  have "i < 10 ^ 20" using assms(2) by simp
  then have "length (decimal i) \<le> 20" by (rule decimal_length) simp
  then have "wr (replicate (length (cstr tp) + 20 + 2) 0) 0 (0x2f # decimal i @ cstr tp @ [0]) =
      Some ((0x2f # decimal i @ cstr tp) @ 0 # replicate (20 - length (decimal i)) 0)"
    using wr_fill [of "0x2f # decimal i @ cstr tp @ [0]" "length (cstr tp) + 20 + 2" "[]"] by simp
  moreover have "0 \<notin> set (0x2f # decimal i @ cstr tp)" using assms(3) decimal_nonzero by simp
  ultimately show ?thesis
    using assms(1) cstr_ended [of "0x2f # decimal i @ cstr tp" "20 - length (decimal i)"]
    by (simp add: array_pointer_def allocate_def deallocate_def)
qed


lemma object_pointer_text:
  assumes "mem (requests h)" and "0 \<notin> set (cstr tp)"
  shows "\<exists>r. object_pointer mem (Some nm) tp h = Some (Some r, h\<lparr>requests := requests h + 1\<rparr>) \<and> cstr r = 0x2f # token nm @ cstr tp"
proof -
  let ?n = "length (cstr tp)" and ?k = "length (token nm)"
  have 1: "wr (replicate (?n + ?k + 2) 0) 0 [0x2f] = Some ([0x2f] @ replicate (?n + ?k + 1) (0 :: u8))"
    using wr_fill [of "[0x2f :: u8]" "?n + ?k + 2" "[]"] by simp
  have 2: "wr ([0x2f] @ replicate (?n + ?k + 1) 0) 1 (token nm @ [0]) = Some ((0x2f # token nm) @ replicate (?n + 1) 0)"
    using wr_fill [of "token nm @ [0]" "?n + ?k + 1" "[0x2f]"] by (simp add: replicate_append_same flip: replicate_Suc)
  have 3: "cstr ((0x2f # token nm) @ replicate (?n + 1) 0) = 0x2f # token nm"
    using cstr_pad [of "0x2f # token nm" "?n + 1"] token_nonzero by simp
  have 4: "wr ((0x2f # token nm) @ replicate (?n + 1) 0) (length (0x2f # token nm)) (cstr tp @ [0]) =
      Some ((0x2f # token nm @ cstr tp) @ [0])"
    using wr_fill [of "cstr tp @ [0]" "?n + 1" "0x2f # token nm"] by simp
  have "cstr (0x2f # token nm @ cstr tp) = 0x2f # token nm @ cstr tp"
    using cstr_pad [of "0x2f # token nm @ cstr tp" 0] assms(2) token_nonzero by simp
  moreover have "object_pointer mem (Some nm) tp h = Some (Some (0x2f # token nm @ cstr tp), h\<lparr>requests := requests h + 1\<rparr>)"
    unfolding object_pointer_def using assms(1)
    by (simp only: pointer_encoded_length_token encode_token 1 2 3 4 Option.bind.simps allocate_def prod.case if_True) (simp add: deallocate_def butlast_append)
  ultimately show ?thesis by simp
qed

lemma find_nothing: "find_pointer mem it None h = Some (None, h)" "find_in_children mem t i cs None h = Some (None, h)"
  by (induction mem it "None :: nat list option" h and mem t i cs "None :: nat list option" h rule: find_pointer_find_in_children.induct)
    (simp_all add: below_def)

lemma find_in_children_reaches:
  assumes "i < length ch"
  shows "find_in_children mem t k ch (Some ((k + i) # path)) h =
    find_in_children mem t (k + i) (drop i ch) (Some ((k + i) # path)) h"
  using assms
proof (induction i arbitrary: ch k)
  case (Suc i)
  then obtain c cs where ch: "ch = c # cs" by (cases ch) auto
  show ?case using Suc.IH [of cs "k + 1"] Suc.prems by (simp add: ch below_def find_nothing)
qed simp

lemma find_pointer_text:
  assumes "addressable cs el path"
  shows "\<exists>r h'. find_pointer always el (Some path) h = Some (Some r, h') \<and> live h' = live h + 1 \<and> cstr r = pointer_text el path"
  using assms
proof (induction path arbitrary: el h)
  case Nil
  then show ?case by (cases el) (simp add: cJSONUtils_strdup_def allocate_def cstr_def)
next
  case (Cons i path)
  obtain t vs vi vd nm ch where el: "el = CJ t vs vi vd nm ch" by (cases el)
  have i: "i < length ch" "i < 2 ^ 32" "addressable cs (ch ! i) path" using Cons.prems el by auto
  obtain r h1 where r: "find_pointer always (ch ! i) (Some path) h = Some (Some r, h1)" "live h1 = live h + 1"
    "cstr r = pointer_text (ch ! i) path" using Cons.IH i(3) by blast
  have nz: "0 \<notin> set (cstr r)" using r(3) pointer_text_nonzero by simp
  have f: "find_pointer always el (Some (i # path)) h =
      find_in_children always t i (ch ! i # drop (Suc i) ch) (Some (i # path)) h"
    using find_in_children_reaches [OF i(1), of always t 0 path h] by (simp add: el Cons_nth_drop_Suc i(1))
  show ?case
  proof (cases "cJSON_IsArray (Some el)")
    case True
    then have t: "t AND 0xFF = cJSON_Array" by (simp add: el is_type_defs)
    show ?thesis
      using f t r array_pointer_text [of always h1 i r, OF _ i(2) nz] True
      by (auto simp: below_def el)
  next
    case False
    then have o: "cJSON_IsObject (Some el)" "jstring (ch ! i) \<noteq> None" using Cons.prems i(1) by (auto simp: el)
    then obtain name where name: "jstring (ch ! i) = Some name" by blast
    have t: "t AND 0xFF = cJSON_Object" "t AND 0xFF \<noteq> cJSON_Array" using o False by (simp_all add: el is_type_defs)
    show ?thesis
      using f t r object_pointer_text [of always h1 r name, OF _ nz] False name
      by (auto simp: below_def el)
  qed
qed


text \<open>
  A pointer leads back to the node it was made for. For every node that a pointer can name,
  \<^verbatim>\<open>cJSONUtils_FindPointerFromObjectTo\<close> stays inside its blocks and returns one block with a pointer, and
  \<^verbatim>\<open>cJSONUtils_GetPointer\<close> with that pointer returns the same node, whatever bytes the names on the way have.
\<close>

theorem pointer_round_trip:
  assumes "addressable case_sensitive object path"
  shows "\<exists>pointer h'. cJSONUtils_FindPointerFromObjectTo always (Some object) (Some path) h = Some (Some pointer, h') \<and>
    live h' = live h + 1 \<and> get_item_from_pointer (Some object) (Some pointer) case_sensitive = Some path"
proof -
  obtain r h' where r: "find_pointer always object (Some path) h = Some (Some r, h')" "live h' = live h + 1"
    "cstr r = pointer_text object path" using find_pointer_text [OF assms] by blast
  have "r = pointer_text object path @ dropWhile (\<lambda>c. c \<noteq> 0) r"
    unfolding r(3) [symmetric] cstr_def by simp
  moreover have "at0 (dropWhile (\<lambda>c. c \<noteq> 0) r) = 0"
    by (auto simp: at0_def dropWhile_eq_Cons_conv split: list.splits)
  ultimately have "follow object r case_sensitive = Some path" using follow_pointer_text [OF assms] by metis
  then show ?thesis using r by (simp add: cJSONUtils_FindPointerFromObjectTo_def get_item_from_pointer_def)
qed

text \<open>An object with the members \<open>a/b\<close> and \<open>A/b\<close>, the second an array.\<close>

definition slash_tree :: cjson where
  "slash_tree = CJ cJSON_Object None 0 dbl_zero None
     [CJ cJSON_True None 1 dbl_zero (Some [0x61, 0x2f, 0x62]) [],
      CJ cJSON_Array None 0 dbl_zero (Some [0x41, 0x2f, 0x7e]) [CJ cJSON_NULL None 0 dbl_zero None [], CJ cJSON_True None 1 dbl_zero None []]]"

theorem pointer_round_trip_witness:
  "\<exists>pointer h'. cJSONUtils_FindPointerFromObjectTo always (Some slash_tree) (Some [1, 1]) \<lparr>requests = 0, live = 5\<rparr> = Some (Some pointer, h') \<and>
     live h' = 6 \<and> get_item_from_pointer (Some slash_tree) (Some pointer) False = Some [1, 1]"
  using pointer_round_trip [of False slash_tree "[1, 1]" "\<lparr>requests = 0, live = 5\<rparr>"]
  by (simp add: slash_tree_def is_type_defs type_codes key_of_def fold_key_def cstr_def tolower_def)


subsection \<open>Decoding\<close>

text \<open>Decoding writes a slash behind its place and moves no byte, so no slash comes out where one went in.\<close>

definition slash_from :: "u8 list \<Rightarrow> u8 list \<Rightarrow> nat \<Rightarrow> u8 list \<Rightarrow> bool" where
  "slash_from m' m d n \<longleftrightarrow> (\<forall>j. j < length m \<longrightarrow> m' ! j = 0x2f \<longrightarrow>
     m ! j = 0x2f \<or> (\<exists>i < length n. n ! i = 0x2f \<and> j = d + i + 1))"

lemma slash_from_later: "slash_from m' m (d + 1) n \<Longrightarrow> slash_from m' m d (c # n)"
  unfolding slash_from_def by (elim all_forward imp_forward disj_forward asm_rl) (force intro: exI [where x = "Suc _"])

lemma slash_from_write:
  assumes "slash_from m' (m[k := b]) (d + 1) n" and "b = 0x2f \<Longrightarrow> k = d + 1 \<and> c = 0x2f"
  shows "slash_from m' m d (c # n)"
  unfolding slash_from_def
proof (intro allI impI)
  fix j
  assume j: "j < length m" "m' ! j = 0x2f"
  consider "m[k := b] ! j = 0x2f" | i where "i < length n" "n ! i = 0x2f" "j = d + 1 + i + 1"
    using assms(1) j unfolding slash_from_def by auto
  then show "m ! j = 0x2f \<or> (\<exists>i < length (c # n). (c # n) ! i = 0x2f \<and> j = d + i + 1)"
  proof cases
    case 1
    then show ?thesis using assms(2) j(1) by (cases "j = k") auto
  next
    case (2 i)
    then show ?thesis by (intro disjI2 exI [of _ "Suc i"]) simp
  qed
qed

lemma wr_one: "d < length m \<Longrightarrow> wr m d [b] = Some (m[d := b])"
  by (simp add: wr_def upd_conv_take_nth_drop)

lemma decode_loop_writes:
  "drop s m = token n @ [0] \<Longrightarrow> s < length m \<Longrightarrow> d \<le> s \<Longrightarrow>
    \<exists>m'. decode_loop m d s = Some m' \<and> length m' = length m \<and> m' ! (d + length (cstr n)) = 0 \<and> slash_from m' m d (cstr n)"
proof (induction n arbitrary: m d s)
  case Nil
  then have "m ! s = 0" by (metis append_Nil hd_drop_conv_nth list.sel(1) token_simps(1))
  with Nil show ?case
    by (subst decode_loop.simps) (auto simp: wr_one slash_from_def cstr_def nth_list_update)
next
  case (Cons c n)
  show ?case
  proof (cases "c = 0")
    case True
    then have "m ! s = 0" using Cons.prems(1,2) by (metis append_Nil hd_drop_conv_nth list.sel(1) token_simps(2))
    with Cons.prems True show ?thesis
      by (subst decode_loop.simps) (auto simp: wr_one slash_from_def cstr_def nth_list_update)
  next
    case False
    then have k: "cstr (c # n) = c # cstr n" by (simp add: cstr_def)
    define pre where "pre = take s m"
    have m: "m = pre @ token_byte c @ token n @ [0]" "length pre = s"
      using Cons.prems(1,2) append_take_drop_id [of s m] False by (simp_all add: pre_def token_simps)
    show ?thesis
    proof (cases "c = 0x2f \<or> c = 0x7e")
      case special: True
      define code :: u8 where "code = (if c = 0x2f then 0x31 else 0x30)"
      have t: "token_byte c = [0x7e, code]" using special by (auto simp: token_byte_def code_def)
      have r: "m ! s = 0x7e" "rd m (s + 1) = Some code" "s + 1 < length m" "drop (s + 2) m = token n @ [0]" "s + 2 < length m"
        unfolding m(1) t using m(2) by (simp_all add: rd_def nth_append)
      define w where "w = (if c = 0x2f then m[d + 1 := 0x2f] else m[d := 0x7e])"
      have w: "drop (s + 2) w = token n @ [0]" "length w = length m" using r(4) Cons.prems(3) by (simp_all add: w_def)
      have step: "decode_loop m d s = decode_loop w (d + 1) (s + 2)"
        using r Cons.prems special by (subst decode_loop.simps) (auto simp: code_def w_def wr_one)
      obtain m' where m': "decode_loop w (d + 1) (s + 2) = Some m'" "length m' = length m"
        "m' ! (d + 1 + length (cstr n)) = 0" "slash_from m' w (d + 1) (cstr n)"
        using Cons.IH [OF w(1), of "d + 1"] r(5) Cons.prems(3) w(2) by auto
      have "slash_from m' m d (c # cstr n)"
      proof (cases "c = 0x2f")
        case True
        then show ?thesis using slash_from_write [of m' m "d + 1" "0x2f" d "cstr n" c] m'(4) by (simp add: w_def)
      next
        case False
        then show ?thesis using slash_from_write [of m' m d "0x7e" d "cstr n" c] m'(4) by (simp add: w_def)
      qed
      then show ?thesis using step m' k by auto
    next
      case plain: False
      then have t: "token_byte c = [c]" by (simp add: token_byte_def)
      have r: "m ! s = c" "drop (s + 1) m = token n @ [0]" "s + 1 < length m"
        unfolding m(1) t using m(2) by (simp_all add: nth_append)
      have step: "decode_loop m d s = decode_loop m (d + 1) (s + 1)"
        using r(1) Cons.prems(2) plain False by (subst decode_loop.simps) simp
      obtain m' where m': "decode_loop m (d + 1) (s + 1) = Some m'" "length m' = length m"
        "m' ! (d + 1 + length (cstr n)) = 0" "slash_from m' m (d + 1) (cstr n)"
        using Cons.IH [OF r(2,3), of "d + 1"] Cons.prems(3) by auto
      then show ?thesis using step k slash_from_later by auto
    qed
  qed
qed

lemma token_no_slash: "0x2f \<notin> set (token s)"
  by (induction s) (auto simp: token_simps token_byte_def)

lemma token_length: "length (cstr s) \<le> length (token s)"
  by (induction s) (auto simp: token_simps token_byte_def cstr_def)

text \<open>
  C0: \<^verbatim>\<open>decode_pointer_inplace\<close> does not undo the escapes of a pointer: whenever a name holds a slash, the
  token that \<^verbatim>\<open>encode_string_as_pointer\<close> makes of it is decoded, without a fault, to another name.
\<close>

theorem decode_never_restores_slash:
  assumes "0x2f \<in> set (cstr name)"
  shows "\<exists>m'. decode_pointer_inplace (Some (token name @ [0])) = Some (Some m') \<and> cstr m' \<noteq> cstr name"
proof -
  obtain m' where m': "decode_loop (token name @ [0]) 0 0 = Some m'" "length m' = length (token name) + 1"
    "slash_from m' (token name @ [0]) 0 (cstr name)"
    using decode_loop_writes [of 0 "token name @ [0]" name 0] by auto
  obtain ys zs where split: "cstr name = ys @ 0x2f # zs" "0x2f \<notin> set ys" using split_list_first [OF assms] by blast
  define j where "j = length ys"
  have j: "j < length (cstr name)" "cstr name ! j = 0x2f" "\<forall>i < j. cstr name ! i \<noteq> 0x2f"
    using split(2) by (auto simp: split(1) j_def nth_append in_set_conv_nth)
  have "j < length (token name)" using j(1) token_length [of name] by simp
  have "m' ! j \<noteq> 0x2f"
  proof
    assume "m' ! j = 0x2f"
    then have "(token name @ [0]) ! j = 0x2f \<or> (\<exists>i < length (cstr name). cstr name ! i = 0x2f \<and> j = 0 + i + 1)"
      using m'(3) \<open>j < length (token name)\<close> unfolding slash_from_def by auto
    then show False using token_no_slash [of name] \<open>j < length (token name)\<close> j(3) by (auto simp: nth_append) (metis nth_mem)
  qed
  moreover have "cstr m' ! j = m' ! j" if "cstr m' = cstr name"
    using that j(1) unfolding cstr_def by (metis takeWhile_nth)
  ultimately have "cstr m' \<noteq> cstr name" using j(2) by metis
  then show ?thesis using m'(1) by (simp add: decode_pointer_inplace_def)
qed

theorem decode_never_restores_slash_witness:
  "\<exists>m'. decode_pointer_inplace (Some [0x61, 0x7e, 0x31, 0x62, 0]) = Some (Some m') \<and> cstr m' \<noteq> [0x61, 0x2f, 0x62]"
  using decode_never_restores_slash [of "[0x61, 0x2f, 0x62]"] by (simp add: token_simps token_byte_def cstr_def)

text \<open>
  An index of an array is read with the upper bound of a digit tested on the first byte only: the decimal
  text of a number below 2 to the 32 is read as that number, but so is \<open>1a\<close>, as 59.
\<close>

theorem index_from_pointer:
  "(\<forall>n < 2 ^ 32. \<forall>rest. ends_token rest \<longrightarrow> decode_array_index_from_pointer (decimal n @ rest) = Some (word_of_nat n)) \<and>
   decode_array_index_from_pointer [0x31, 0x61] = Some 59"
  using decode_index_decimal by (simp add: decode_array_index_from_pointer_def)

theorem index_from_pointer_witness:
  "decode_array_index_from_pointer (decimal 12 @ [0x2f]) = Some 12"
  using conjunct1 [OF index_from_pointer, rule_format, of 12 "[0x2f]"] by (simp add: ends_token_def)

end
