(* ===== verification/CJsonSort.thy ===== *)
theory CJsonSort
  imports CJsonPointer "HOL-Library.List_Lexorder" "HOL-Library.Multiset"
begin

text \<open>
  Sorting the members of an object, cJSON_Utils.c. Nodes are trees, so the \<^verbatim>\<open>next\<close>
  pointers of a list of children are its order; what an operation does to a list of children (finding,
  detaching and adding a member) is what theory \<^verbatim>\<open>CJsonLists\<close> shows of the linked nodes.
\<close>

subsection \<open>Sorting\<close>

definition less_name :: "bool \<Rightarrow> cjson \<Rightarrow> cjson \<Rightarrow> bool" where
  "less_name case_sensitive a b \<longleftrightarrow> compare_strings (jstring a) (jstring b) case_sensitive < 0"

text \<open>The test for a list that is sorted already, and the walk of two pointers to the middle.\<close>

fun ascending :: "bool \<Rightarrow> cjson list \<Rightarrow> bool" where
  "ascending case_sensitive (a # b # xs) \<longleftrightarrow> less_name case_sensitive a b \<and> ascending case_sensitive (b # xs)"
| "ascending case_sensitive xs \<longleftrightarrow> True"

fun middle :: "nat \<Rightarrow> cjson list \<Rightarrow> nat" where
  "middle second [] = second"
| "middle second [a] = second + 1"
| "middle second (a # b # xs) = middle (second + 1) xs"

fun merge_lists :: "bool \<Rightarrow> cjson list \<Rightarrow> cjson list \<Rightarrow> cjson list" where
  "merge_lists case_sensitive (a # first) (b # second) =
     (if less_name case_sensitive a b then a # merge_lists case_sensitive first (b # second)
      else b # merge_lists case_sensitive (a # first) second)"
| "merge_lists case_sensitive first [] = first"
| "merge_lists case_sensitive [] second = second"

lemma middle_bounds: "2 \<le> length xs \<Longrightarrow> k < middle k xs \<and> middle k xs < k + length xs"
proof (induction k xs rule: middle.induct)
  case (3 k a b xs)
  show ?case
  proof (cases "2 \<le> length xs")
    case False
    then consider "xs = []" | c where "xs = [c]" by (cases xs; cases "tl xs") auto
    then show ?thesis by cases auto
  qed (use 3 in auto)
qed auto

function sort_list :: "bool \<Rightarrow> cjson list \<Rightarrow> cjson list" where
  "sort_list case_sensitive xs =
     (if length xs < 2 then xs
      else if ascending case_sensitive xs then xs
      else let k = middle 0 xs in
        merge_lists case_sensitive (sort_list case_sensitive (take k xs)) (sort_list case_sensitive (drop k xs)))"
  by pat_completeness auto
termination
proof (relation "measure (\<lambda>(_, xs). length xs)")
  fix cs :: bool and xs :: "cjson list" and k :: nat
  assume "\<not> length xs < 2" and "k = middle 0 xs"
  then have "0 < k" "k < length xs" using middle_bounds [of xs 0] by auto
  then show "((cs, take k xs), cs, xs) \<in> measure (\<lambda>(_, xs). length xs)" "((cs, drop k xs), cs, xs) \<in> measure (\<lambda>(_, xs). length xs)"
    by auto
qed simp

declare sort_list.simps [simp del]

definition sort_object :: "bool \<Rightarrow> cjson option \<Rightarrow> cjson option" where
  "sort_object case_sensitive object = map_option (\<lambda>ob. set_child (sort_list case_sensitive (child ob)) ob) object"

definition cJSONUtils_SortObject where "cJSONUtils_SortObject = sort_object False"
definition cJSONUtils_SortObjectCaseSensitive where "cJSONUtils_SortObjectCaseSensitive = sort_object True"

text \<open>The order of the names is that of their bytes, folded or not.\<close>

lemma byte_less: "uint x < uint y \<longleftrightarrow> x < (y :: u8)" "0 < uint y \<longleftrightarrow> y \<noteq> 0" "uint x < 0 \<longleftrightarrow> False"
  using word_less_def [of 0 y] word_gt_0 [of y] by (simp_all add: word_less_def)

lemma strcmp_less: "strcmp s t < 0 \<longleftrightarrow> cstr s < cstr t"
proof (induction s t rule: strcmp.induct)
  case (1 x xs y ys)
  then show ?case by (cases "x = 0"; cases "y = 0") (auto simp: cstr_def byte_less)
next
  case (3 y ys)
  then show ?case by (auto simp: cstr_def byte_less)
qed (auto simp: cstr_def byte_less)

lemma tolower_nul: "tolower 0 = 0"
  by (simp add: tolower_def)

lemma ci_cmp_less: "ci_cmp s t < 0 \<longleftrightarrow> map tolower (cstr s) < map tolower (cstr t)"
proof (induction s t rule: ci_cmp.induct)
  case (1 x xs y ys)
  then show ?case
    using tolower_fix(3) [of x] tolower_fix(3) [of y]
    by (cases "x = 0"; cases "y = 0"; cases "tolower x = tolower y") (auto simp: cstr_def byte_less tolower_nul)
next
  case (3 y ys)
  then show ?case using tolower_fix(3) [of y] by (cases "y = 0") (auto simp: cstr_def byte_less tolower_nul)
qed (auto simp: cstr_def byte_less)

lemma less_name_key:
  "jstring a \<noteq> None \<Longrightarrow> jstring b \<noteq> None \<Longrightarrow> less_name cs a b \<longleftrightarrow> key_of cs a < key_of cs b"
  by (auto simp: less_name_def compare_strings_def key_of_def fold_key_def strcmp_less ci_cmp_less)

definition all_named :: "cjson list \<Rightarrow> bool" where
  "all_named xs \<longleftrightarrow> (\<forall>c \<in> set xs. jstring c \<noteq> None)"

lemma ascending_sorted: "ascending cs xs \<Longrightarrow> all_named xs \<Longrightarrow> sorted (map (key_of cs) xs)"
proof (induction cs xs rule: ascending.induct)
  case (1 cs a b xs)
  then have "key_of cs a < key_of cs b" "sorted (map (key_of cs) (b # xs))"
    using less_name_key [of a b cs] by (auto simp: all_named_def)
  then show ?case by (auto dest: order.strict_implies_order order_trans)
qed auto

lemma merge_lists_mset: "mset (merge_lists cs xs ys) = mset xs + mset ys"
  by (induction cs xs ys rule: merge_lists.induct) auto

lemma merge_lists_sorted:
  "all_named xs \<Longrightarrow> all_named ys \<Longrightarrow> sorted (map (key_of cs) xs) \<Longrightarrow> sorted (map (key_of cs) ys) \<Longrightarrow>
    sorted (map (key_of cs) (merge_lists cs xs ys))"
proof (induction cs xs ys rule: merge_lists.induct)
  case (1 cs a first b second)
  have set: "set (merge_lists cs u v) = set u \<union> set v" for u v
    using merge_lists_mset [of cs u v] by (metis set_mset_mset set_mset_union)
  have "less_name cs a b \<longleftrightarrow> key_of cs a < key_of cs b" using 1(3,4) less_name_key by (auto simp: all_named_def)
  then show ?case
    using 1 by (cases "less_name cs a b") (auto simp: set all_named_def not_less dest: order.strict_implies_order order_trans)
qed auto

text \<open>
  C0: \<^verbatim>\<open>sort_list\<close> sorts: the members of an object are put in the order of their names, byte by byte or
  with upper and lower case folded, and none is lost or doubled.
\<close>

theorem sort_list_sorts:
  assumes "all_named xs"
  shows "sorted (map (key_of case_sensitive) (sort_list case_sensitive xs)) \<and> mset (sort_list case_sensitive xs) = mset xs"
  using assms
proof (induction case_sensitive xs rule: sort_list.induct)
  case (1 cs xs)
  show ?case
  proof (cases "length xs < 2")
    case True
    then have "xs = [] \<or> (\<exists>x. xs = [x])" by (cases xs; cases "tl xs") auto
    then show ?thesis by (subst (1 2) sort_list.simps) auto
  next
    case long: False
    show ?thesis
    proof (cases "ascending cs xs")
      case True
      then show ?thesis using ascending_sorted 1(3) long by (subst (1 2) sort_list.simps) auto
    next
      case False
      define k where "k = middle 0 xs"
      have n: "all_named (take k xs)" "all_named (drop k xs)" using 1(3) by (auto simp: all_named_def dest: in_set_takeD in_set_dropD)
      note IH = 1(1) [OF long False k_def n(1)] 1(2) [OF long False k_def n(2)]
      have e: "sort_list cs xs = merge_lists cs (sort_list cs (take k xs)) (sort_list cs (drop k xs))"
        using long False by (subst sort_list.simps) (simp add: k_def Let_def)
      have "all_named (sort_list cs (take k xs))" "all_named (sort_list cs (drop k xs))"
        using n IH by (metis all_named_def set_mset_mset)+
      moreover have "mset (take k xs) + mset (drop k xs) = mset xs" by (metis append_take_drop_id mset_append)
      ultimately show ?thesis using IH by (simp add: e merge_lists_mset merge_lists_sorted)
    qed
  qed
qed

theorem sort_list_sorts_witness:
  "mset (sort_list False (child slash_tree)) = mset (child slash_tree)"
  using sort_list_sorts [of "child slash_tree" False] by (simp add: all_named_def slash_tree_def)

end
