(* ===== verification/Config.thy ===== *)
theory Config
  imports CJsonTree
begin

text \<open>
  The configuration reader, json_read_DH_cfg.c: \<^verbatim>\<open>check_and_dump_cfg\<close> copies the members of a
  parsed configuration into a \<^verbatim>\<open>struct DH_config\<close> and stops with an error code at the first
  member that is missing or of the wrong type. A character array is a list of bytes of the
  array's length, \<^verbatim>\<open>strcpy\<close> into it is a bounded write, a \<^verbatim>\<open>char\<close> is a byte and a \<^verbatim>\<open>float\<close> a
  rounded double. A step returns the error code (0 to go on) and the structure as it is then.
\<close>

subsection \<open>The structure\<close>

record WIFI =
  ssid :: "u8 list"
  passphrase :: "u8 list"
  auth :: "u8 list"

record Vector3 =
  v_x :: dbl
  v_y :: dbl
  v_z :: dbl

record DH_config =
  base_config_file :: "u8 list"
  base_config_file_backup :: "u8 list"
  allow_deep_sleep :: u8
  critical_battery :: u8
  WIFI_AP :: WIFI
  WIFI_list :: "WIFI list"
  WIFI_count :: u32
  tb_token :: "u8 list"
  tb_main_server :: "u8 list"
  panel_dimensions :: Vector3
  ldr_location :: "Vector3 list"
  LDR_count :: u32
  servo_max_rotation :: "dbl list"
  servo_can_reverse_logic :: "u8 list"
  Servo_count :: u32

definition wifi_shape :: "WIFI \<Rightarrow> bool" where
  "wifi_shape w \<longleftrightarrow> length (ssid w) = 65 \<and> length (passphrase w) = 65 \<and> length (auth w) = 15"

text \<open>The sizes of the arrays.\<close>

definition cfg_shape :: "DH_config \<Rightarrow> bool" where
  "cfg_shape c \<longleftrightarrow> length (base_config_file c) = 128 \<and> length (base_config_file_backup c) = 128 \<and>
     wifi_shape (WIFI_AP c) \<and> length (WIFI_list c) = 5 \<and> list_all wifi_shape (WIFI_list c) \<and>
     length (tb_token c) = 65 \<and> length (tb_main_server c) = 65 \<and>
     length (ldr_location c) = 5 \<and> length (servo_max_rotation c) = 4 \<and>
     length (servo_can_reverse_logic c) = 4"

subsection \<open>Error codes\<close>

definition JSON_BAD_CFG_FILE_NAME :: int where "JSON_BAD_CFG_FILE_NAME = - 1"
definition JSON_BAD_CFG_BACKUP_FILE_NAME :: int where "JSON_BAD_CFG_BACKUP_FILE_NAME = - 2"
definition JSON_BAD_DEEP_SLEEP_BOOLEAN :: int where "JSON_BAD_DEEP_SLEEP_BOOLEAN = - 3"
definition JSON_BAD_CRITICAL_BATTERY_VALUE :: int where "JSON_BAD_CRITICAL_BATTERY_VALUE = - 4"
definition JSON_BAD_WIFI_AP_SSID :: int where "JSON_BAD_WIFI_AP_SSID = - 5"
definition JSON_BAD_WIFI_AP_PASSPHRASE :: int where "JSON_BAD_WIFI_AP_PASSPHRASE = - 6"
definition JSON_BAD_WIFI_AP_AUTH :: int where "JSON_BAD_WIFI_AP_AUTH = - 7"
definition JSON_BAD_WIFI_LIST :: int where "JSON_BAD_WIFI_LIST = - 8"
definition JSON_BAD_WIFI_LIST_MEMBER_SSID :: int where "JSON_BAD_WIFI_LIST_MEMBER_SSID = - 9"
definition JSON_BAD_WIFI_LIST_MEMBER_PASSPHRASE :: int where "JSON_BAD_WIFI_LIST_MEMBER_PASSPHRASE = - 10"
definition JSON_BAD_WIFI_LIST_MEMBER_AUTH :: int where "JSON_BAD_WIFI_LIST_MEMBER_AUTH = - 11"
definition JSON_BAD_THINGSBOARD_TOKEN :: int where "JSON_BAD_THINGSBOARD_TOKEN = - 12"
definition JSON_BAD_THINGSBOARD_MAIN_SERVER :: int where "JSON_BAD_THINGSBOARD_MAIN_SERVER = - 13"
definition JSON_BAD_SOLAR_PANEL_DIMENSION_LIST :: int where "JSON_BAD_SOLAR_PANEL_DIMENSION_LIST = - 14"
definition JSON_BAD_SOLAR_PANEL_DIMENSION_LIST_MEMBER_X :: int where "JSON_BAD_SOLAR_PANEL_DIMENSION_LIST_MEMBER_X = - 15"
definition JSON_BAD_SOLAR_PANEL_DIMENSION_LIST_MEMBER_Y :: int where "JSON_BAD_SOLAR_PANEL_DIMENSION_LIST_MEMBER_Y = - 16"
definition JSON_BAD_SOLAR_PANEL_DIMENSION_LIST_MEMBER_Z :: int where "JSON_BAD_SOLAR_PANEL_DIMENSION_LIST_MEMBER_Z = - 17"
definition JSON_BAD_LDR_LOCATION_LIST :: int where "JSON_BAD_LDR_LOCATION_LIST = - 18"
definition JSON_BAD_LDR_LOCATION_LIST_NO_LOCATION_TAG :: int where "JSON_BAD_LDR_LOCATION_LIST_NO_LOCATION_TAG = - 19"
definition JSON_BAD_LDR_LOCATION_LIST_MEMBER_X :: int where "JSON_BAD_LDR_LOCATION_LIST_MEMBER_X = - 20"
definition JSON_BAD_LDR_LOCATION_LIST_MEMBER_Y :: int where "JSON_BAD_LDR_LOCATION_LIST_MEMBER_Y = - 21"
definition JSON_BAD_LDR_LOCATION_LIST_MEMBER_Z :: int where "JSON_BAD_LDR_LOCATION_LIST_MEMBER_Z = - 22"
definition JSON_BAD_SERVO_LIST :: int where "JSON_BAD_SERVO_LIST = - 23"
definition JSON_BAD_SERVO_LIST_MEMBER_MAX_ROTATION :: int where "JSON_BAD_SERVO_LIST_MEMBER_MAX_ROTATION = - 24"
definition JSON_BAD_SERVO_LIST_MEMBER_CAN_REVERSE_LOGIC :: int where "JSON_BAD_SERVO_LIST_MEMBER_CAN_REVERSE_LOGIC = - 25"

lemmas cfg_codes = JSON_BAD_CFG_FILE_NAME_def JSON_BAD_CFG_BACKUP_FILE_NAME_def
  JSON_BAD_DEEP_SLEEP_BOOLEAN_def JSON_BAD_CRITICAL_BATTERY_VALUE_def JSON_BAD_WIFI_AP_SSID_def
  JSON_BAD_WIFI_AP_PASSPHRASE_def JSON_BAD_WIFI_AP_AUTH_def JSON_BAD_WIFI_LIST_def
  JSON_BAD_WIFI_LIST_MEMBER_SSID_def JSON_BAD_WIFI_LIST_MEMBER_PASSPHRASE_def
  JSON_BAD_WIFI_LIST_MEMBER_AUTH_def JSON_BAD_THINGSBOARD_TOKEN_def
  JSON_BAD_THINGSBOARD_MAIN_SERVER_def JSON_BAD_SOLAR_PANEL_DIMENSION_LIST_def
  JSON_BAD_SOLAR_PANEL_DIMENSION_LIST_MEMBER_X_def JSON_BAD_SOLAR_PANEL_DIMENSION_LIST_MEMBER_Y_def
  JSON_BAD_SOLAR_PANEL_DIMENSION_LIST_MEMBER_Z_def JSON_BAD_LDR_LOCATION_LIST_def
  JSON_BAD_LDR_LOCATION_LIST_NO_LOCATION_TAG_def JSON_BAD_LDR_LOCATION_LIST_MEMBER_X_def
  JSON_BAD_LDR_LOCATION_LIST_MEMBER_Y_def JSON_BAD_LDR_LOCATION_LIST_MEMBER_Z_def
  JSON_BAD_SERVO_LIST_def JSON_BAD_SERVO_LIST_MEMBER_MAX_ROTATION_def
  JSON_BAD_SERVO_LIST_MEMBER_CAN_REVERSE_LOGIC_def

subsection \<open>Members\<close>

text \<open>The member of an object with a given name; a null object has none.\<close>

definition item :: "cjson option \<Rightarrow> string \<Rightarrow> cjson option" where
  "item object nm = cJSON_GetObjectItemCaseSensitive object (Some (ascii nm))"

definition strcpy :: "u8 list \<Rightarrow> u8 list option \<Rightarrow> u8 list option" where
  "strcpy dst src = Option.bind src (\<lambda>s. wr dst 0 (cstr s @ [0]))"

type_synonym cfg_step = "DH_config \<Rightarrow> (int \<times> DH_config) option"

definition and_then :: "cfg_step \<Rightarrow> cfg_step \<Rightarrow> cfg_step" where
  "and_then f g save = Option.bind (f save) (\<lambda>(e, save'). if e \<noteq> 0 then Some (e, save') else g save')"

text \<open>\<^verbatim>\<open>if (cJSON_IsString(member)) strcpy(...) else return err\<close>, and so on for the other types. The place
  in the structure is read and written with \<open>get\<close> and \<open>put\<close>, which fault outside an array.\<close>

definition dump_string ::
  "cjson option \<Rightarrow> int \<Rightarrow> (DH_config \<Rightarrow> u8 list option) \<Rightarrow> (u8 list \<Rightarrow> DH_config \<Rightarrow> DH_config option) \<Rightarrow> cfg_step" where
  "dump_string member err get put save =
     (if cJSON_IsString member
      then do {
        dst \<leftarrow> get save;
        m \<leftarrow> strcpy dst (Option.bind member valuestring);
        save' \<leftarrow> put m save;
        Some (0, save') }
      else Some (err, save))"

definition dump_float :: "cjson option \<Rightarrow> int \<Rightarrow> (dbl \<Rightarrow> DH_config \<Rightarrow> DH_config option) \<Rightarrow> cfg_step" where
  "dump_float member err put save = (case member of
     Some m \<Rightarrow> if cJSON_IsNumber member then map_option (Pair 0) (put (dbl_to_float (valuedouble m)) save)
       else Some (err, save)
   | None \<Rightarrow> Some (err, save))"

definition dump_bool :: "cjson option \<Rightarrow> int \<Rightarrow> (u8 \<Rightarrow> DH_config \<Rightarrow> DH_config option) \<Rightarrow> cfg_step" where
  "dump_bool member err put save = (case member of
     Some m \<Rightarrow> if cJSON_IsTrue member \<or> cJSON_IsFalse member
       then map_option (Pair 0) (put (word_of_int (valueint m)) save) else Some (err, save)
   | None \<Rightarrow> Some (err, save))"

definition dump_char :: "cjson option \<Rightarrow> int \<Rightarrow> (u8 \<Rightarrow> DH_config \<Rightarrow> DH_config option) \<Rightarrow> cfg_step" where
  "dump_char member err put save = (case member of
     Some m \<Rightarrow> if cJSON_IsNumber member then map_option (Pair 0) (put (word_of_int (valueint m)) save)
       else Some (err, save)
   | None \<Rightarrow> Some (err, save))"

definition stop :: "int \<Rightarrow> cfg_step" where
  "stop e save = Some (e, save)"

subsection \<open>The lists\<close>

definition set_wifi :: "nat \<Rightarrow> (WIFI \<Rightarrow> WIFI) \<Rightarrow> DH_config \<Rightarrow> DH_config option" where
  "set_wifi i f c = (if i < length (WIFI_list c)
     then Some (c\<lparr>WIFI_list := (WIFI_list c)[i := f (WIFI_list c ! i)]\<rparr>) else None)"

definition set_ldr :: "nat \<Rightarrow> (Vector3 \<Rightarrow> Vector3) \<Rightarrow> DH_config \<Rightarrow> DH_config option" where
  "set_ldr i f c = (if i < length (ldr_location c)
     then Some (c\<lparr>ldr_location := (ldr_location c)[i := f (ldr_location c ! i)]\<rparr>) else None)"

definition set_max_rotation :: "nat \<Rightarrow> dbl \<Rightarrow> DH_config \<Rightarrow> DH_config option" where
  "set_max_rotation i v c = (if i < length (servo_max_rotation c)
     then Some (c\<lparr>servo_max_rotation := (servo_max_rotation c)[i := v]\<rparr>) else None)"

definition set_reverse_logic :: "nat \<Rightarrow> u8 \<Rightarrow> DH_config \<Rightarrow> DH_config option" where
  "set_reverse_logic i v c = (if i < length (servo_can_reverse_logic c)
     then Some (c\<lparr>servo_can_reverse_logic := (servo_can_reverse_logic c)[i := v]\<rparr>) else None)"

definition wifi_member :: "cjson \<Rightarrow> nat \<Rightarrow> cfg_step" where
  "wifi_member wifi i =
     and_then (dump_string (item (Some wifi) ''ssid'') JSON_BAD_WIFI_LIST_MEMBER_SSID
       (\<lambda>c. map_option ssid (rd (WIFI_list c) i)) (\<lambda>m. set_wifi i (\<lambda>w. w\<lparr>ssid := m\<rparr>)))
    (and_then (dump_string (item (Some wifi) ''passphrase'') JSON_BAD_WIFI_LIST_MEMBER_PASSPHRASE
       (\<lambda>c. map_option passphrase (rd (WIFI_list c) i)) (\<lambda>m. set_wifi i (\<lambda>w. w\<lparr>passphrase := m\<rparr>)))
     (dump_string (item (Some wifi) ''auth'') JSON_BAD_WIFI_LIST_MEMBER_AUTH
       (\<lambda>c. map_option auth (rd (WIFI_list c) i)) (\<lambda>m. set_wifi i (\<lambda>w. w\<lparr>auth := m\<rparr>))))"

definition ldr_member :: "cjson \<Rightarrow> nat \<Rightarrow> cfg_step" where
  "ldr_member ldr i = (let member = item (Some ldr) ''location'' in
     if \<not> cJSON_IsObject member then stop JSON_BAD_LDR_LOCATION_LIST_NO_LOCATION_TAG
     else and_then (dump_float (item member ''x'') JSON_BAD_LDR_LOCATION_LIST_MEMBER_X
         (\<lambda>v. set_ldr i (\<lambda>l. l\<lparr>v_x := v\<rparr>)))
      (and_then (dump_float (item member ''y'') JSON_BAD_LDR_LOCATION_LIST_MEMBER_Y
         (\<lambda>v. set_ldr i (\<lambda>l. l\<lparr>v_y := v\<rparr>)))
       (dump_float (item member ''z'') JSON_BAD_LDR_LOCATION_LIST_MEMBER_Z
         (\<lambda>v. set_ldr i (\<lambda>l. l\<lparr>v_z := v\<rparr>)))))"

definition servo_member :: "cjson \<Rightarrow> nat \<Rightarrow> cfg_step" where
  "servo_member servo i =
     and_then (dump_float (item (Some servo) ''max_rotation'') JSON_BAD_SERVO_LIST_MEMBER_MAX_ROTATION
       (set_max_rotation i))
     (dump_bool (item (Some servo) ''can_reverse_logic'') JSON_BAD_SERVO_LIST_MEMBER_CAN_REVERSE_LOGIC
       (set_reverse_logic i))"

text \<open>\<^verbatim>\<open>cJSON_ArrayForEach\<close> with the counter \<open>i\<close> and its limit: the counter at the end is kept.\<close>

fun for_each :: "(cjson \<Rightarrow> nat \<Rightarrow> cfg_step) \<Rightarrow> nat \<Rightarrow> cjson list \<Rightarrow> nat \<Rightarrow> (nat \<Rightarrow> DH_config \<Rightarrow> DH_config) \<Rightarrow> cfg_step" where
  "for_each f lim [] i fin save = Some (0, fin i save)"
| "for_each f lim (e # es) i fin save = (if i = lim then Some (0, fin i save)
     else and_then (f e i) (for_each f lim es (i + 1) fin) save)"

definition dump_list ::
  "cjson option \<Rightarrow> int \<Rightarrow> (cjson \<Rightarrow> nat \<Rightarrow> cfg_step) \<Rightarrow> nat \<Rightarrow> (nat \<Rightarrow> DH_config \<Rightarrow> DH_config) \<Rightarrow> cfg_step" where
  "dump_list array err f lim fin save = (case array of
     Some a \<Rightarrow> if cJSON_IsArray array then for_each f lim (child a) 0 fin save else Some (err, save)
   | None \<Rightarrow> Some (err, save))"

definition dump_panel :: "cjson option \<Rightarrow> cfg_step" where
  "dump_panel member = (if cJSON_IsObject member then
      and_then (dump_float (item member ''x'') JSON_BAD_SOLAR_PANEL_DIMENSION_LIST_MEMBER_X
        (\<lambda>v c. Some (c\<lparr>panel_dimensions := (panel_dimensions c)\<lparr>v_x := v\<rparr>\<rparr>)))
     (and_then (dump_float (item member ''y'') JSON_BAD_SOLAR_PANEL_DIMENSION_LIST_MEMBER_Y
        (\<lambda>v c. Some (c\<lparr>panel_dimensions := (panel_dimensions c)\<lparr>v_y := v\<rparr>\<rparr>)))
      (dump_float (item member ''z'') JSON_BAD_SOLAR_PANEL_DIMENSION_LIST_MEMBER_Z
        (\<lambda>v c. Some (c\<lparr>panel_dimensions := (panel_dimensions c)\<lparr>v_z := v\<rparr>\<rparr>))))
     else stop JSON_BAD_SOLAR_PANEL_DIMENSION_LIST)"

subsection \<open>The reader\<close>

definition dump_base :: "cjson option \<Rightarrow> cfg_step" where
  "dump_base Base =
     and_then (dump_string (item Base ''config_file'') JSON_BAD_CFG_FILE_NAME
       (\<lambda>c. Some (base_config_file c)) (\<lambda>m c. Some (c\<lparr>base_config_file := m\<rparr>)))
    (and_then (dump_string (item Base ''config_file_backup'') JSON_BAD_CFG_BACKUP_FILE_NAME
       (\<lambda>c. Some (base_config_file_backup c)) (\<lambda>m c. Some (c\<lparr>base_config_file_backup := m\<rparr>)))
    (and_then (dump_bool (item Base ''allow_deep_sleep'') JSON_BAD_DEEP_SLEEP_BOOLEAN
       (\<lambda>v c. Some (c\<lparr>allow_deep_sleep := v\<rparr>)))
     (dump_char (item Base ''critical_battery'') JSON_BAD_CRITICAL_BATTERY_VALUE
       (\<lambda>v c. Some (c\<lparr>critical_battery := v\<rparr>)))))"

definition dump_ap :: "cjson option \<Rightarrow> cfg_step" where
  "dump_ap AP =
     and_then (dump_string (item AP ''ssid'') JSON_BAD_WIFI_AP_SSID
       (\<lambda>c. Some (ssid (WIFI_AP c))) (\<lambda>m c. Some (c\<lparr>WIFI_AP := (WIFI_AP c)\<lparr>ssid := m\<rparr>\<rparr>)))
    (and_then (dump_string (item AP ''passphrase'') JSON_BAD_WIFI_AP_PASSPHRASE
       (\<lambda>c. Some (passphrase (WIFI_AP c))) (\<lambda>m c. Some (c\<lparr>WIFI_AP := (WIFI_AP c)\<lparr>passphrase := m\<rparr>\<rparr>)))
     (dump_string (item AP ''auth'') JSON_BAD_WIFI_AP_AUTH
       (\<lambda>c. Some (auth (WIFI_AP c))) (\<lambda>m c. Some (c\<lparr>WIFI_AP := (WIFI_AP c)\<lparr>auth := m\<rparr>\<rparr>))))"

definition dump_thingsboard :: "cjson option \<Rightarrow> cfg_step" where
  "dump_thingsboard TB =
     and_then (dump_string (item TB ''token'') JSON_BAD_THINGSBOARD_TOKEN
       (\<lambda>c. Some (tb_token c)) (\<lambda>m c. Some (c\<lparr>tb_token := m\<rparr>)))
     (dump_string (item TB ''main_server'') JSON_BAD_THINGSBOARD_MAIN_SERVER
       (\<lambda>c. Some (tb_main_server c)) (\<lambda>m c. Some (c\<lparr>tb_main_server := m\<rparr>)))"

definition check_and_dump_cfg :: "cjson option \<Rightarrow> cfg_step" where
  "check_and_dump_cfg json save = (if json = None then Some (1, save) else
     let System = item json ''System'';
         Base = item System ''Base'';
         Solar = item (item json ''Abstract'') ''Solar_sys''
     in if cJSON_IsObject Base then
          and_then (dump_base Base)
         (and_then (dump_ap (item System ''WIFI_AP''))
         (and_then (dump_list (item System ''WIFI'') JSON_BAD_WIFI_LIST wifi_member 5
            (\<lambda>n c. c\<lparr>WIFI_count := word_of_nat n\<rparr>))
         (and_then (dump_thingsboard (item System ''ThingsBoard''))
         (and_then (dump_panel (item (item Solar ''Panel'') ''dimensions''))
         (and_then (dump_list (item Solar ''LDR'') JSON_BAD_LDR_LOCATION_LIST ldr_member 5
            (\<lambda>n c. c\<lparr>LDR_count := word_of_nat n\<rparr>))
          (dump_list (item Solar ''Servo'') JSON_BAD_SERVO_LIST servo_member 4
            (\<lambda>n c. c\<lparr>Servo_count := word_of_nat n\<rparr>))))))) save
        else Some (0, save))"

subsection \<open>Every run of a step\<close>

text \<open>
  What the steps of the reader have in common: they return, with 0 or an error code, and keep
  the arrays of the structure at their sizes and the counts within them.
\<close>

definition cfg_inv :: "DH_config \<Rightarrow> bool" where
  "cfg_inv c \<longleftrightarrow> cfg_shape c \<and> WIFI_count c \<le> 5 \<and> LDR_count c \<le> 5 \<and> Servo_count c \<le> 4"

definition step_ok :: "cfg_step \<Rightarrow> bool" where
  "step_ok f \<longleftrightarrow> (\<forall>c. cfg_inv c \<longrightarrow> (\<exists>e c'. f c = Some (e, c') \<and> cfg_inv c' \<and> - 25 \<le> e \<and> e \<le> 0))"

named_theorems step_intros \<open>steps that return and keep the invariant\<close>

lemma step_okD: "step_ok f \<Longrightarrow> cfg_inv c \<Longrightarrow> \<exists>e c'. f c = Some (e, c') \<and> cfg_inv c' \<and> - 25 \<le> e \<and> e \<le> 0"
  by (simp add: step_ok_def)

lemma and_then_ok [step_intros]: "step_ok f \<Longrightarrow> step_ok g \<Longrightarrow> step_ok (and_then f g)"
  unfolding step_ok_def and_then_def by fastforce

lemma stop_ok [step_intros]: "- 25 \<le> e \<Longrightarrow> e \<le> 0 \<Longrightarrow> step_ok (stop e)"
  by (simp add: step_ok_def stop_def)

text \<open>A tree whose string values, if any, are present and shorter than \<open>n\<close> bytes.\<close>

fun short :: "nat \<Rightarrow> cjson \<Rightarrow> bool" where
  "short n (CJ t vs vi vd nm ch) \<longleftrightarrow>
     (t AND 0xFF = cJSON_String \<longrightarrow> (case vs of None \<Rightarrow> False | Some s \<Rightarrow> length (cstr s) < n)) \<and>
     list_all (short n) ch"

definition short_opt :: "nat \<Rightarrow> cjson option \<Rightarrow> bool" where
  "short_opt n it \<longleftrightarrow> (case it of None \<Rightarrow> True | Some i \<Rightarrow> short n i)"

lemma short_item [step_intros]: "short_opt n it \<Longrightarrow> short_opt n (item it nm)"
proof (cases "item it nm")
  case (Some c)
  assume s: "short_opt n it"
  with Some obtain ob where ob: "it = Some ob" "short n ob"
    by (cases it) (auto simp: item_def cJSON_GetObjectItemCaseSensitive_def get_object_item_def short_opt_def)
  then have "c \<in> set (child ob)"
    using Some get_object_item_mem by (auto simp: item_def cJSON_GetObjectItemCaseSensitive_def)
  moreover have "list_all (short n) (child ob)" using ob by (cases ob) simp
  ultimately show ?thesis using Some by (auto simp: short_opt_def list_all_iff)
qed (simp add: short_opt_def)

lemma short_some: "short n c \<Longrightarrow> short_opt n (Some c)"
  by (simp add: short_opt_def)

lemma dump_string_ok [step_intros]:
  assumes "short_opt 15 member" and "- 25 \<le> err" and "err \<le> 0"
    and "\<And>c. cfg_inv c \<Longrightarrow> \<exists>dst. get c = Some dst \<and> 15 \<le> length dst \<and>
      (\<forall>m. length m = length dst \<longrightarrow> (\<exists>c'. put m c = Some c' \<and> cfg_inv c'))"
  shows "step_ok (dump_string member err get put)"
  unfolding step_ok_def
proof (intro allI impI)
  fix c assume c: "cfg_inv c"
  show "\<exists>e c'. dump_string member err get put c = Some (e, c') \<and> cfg_inv c' \<and> - 25 \<le> e \<and> e \<le> 0"
  proof (cases "cJSON_IsString member")
    case True
    then obtain m where m: "member = Some m" "jtype m AND 0xFF = cJSON_String"
      by (cases member) (auto simp: cJSON_IsString_def is_kind_def)
    then obtain s where s: "valuestring m = Some s" "length (cstr s) < 15"
      using assms(1) by (cases m) (auto simp: short_opt_def split: option.splits)
    obtain dst where dst: "get c = Some dst" "15 \<le> length dst"
        "\<And>m. length m = length dst \<Longrightarrow> \<exists>c'. put m c = Some c' \<and> cfg_inv c'"
      using assms(4) [OF c] by blast
    obtain r where r: "wr dst 0 (cstr s @ [0]) = Some r"
      using wr_fits [of 0 "cstr s @ [0]" dst] s dst(2) by auto
    obtain c' where "put r c = Some c'" "cfg_inv c'" using dst(3) [OF wr_length [OF r]] by blast
    then show ?thesis using True m s r dst(1) by (simp add: dump_string_def strcpy_def)
  qed (use c assms in \<open>simp add: dump_string_def\<close>)
qed

lemma dump_scalar_ok [step_intros]:
  assumes "- 25 \<le> err" and "err \<le> 0" and "\<And>c v. cfg_inv c \<Longrightarrow> \<exists>c'. put v c = Some c' \<and> cfg_inv c'"
  shows "step_ok (dump_float member err put)"
  using assms unfolding step_ok_def dump_float_def by (auto split: option.split)

lemma dump_byte_ok [step_intros]:
  assumes "- 25 \<le> err" and "err \<le> 0" and "\<And>c v. cfg_inv c \<Longrightarrow> \<exists>c'. put v c = Some c' \<and> cfg_inv c'"
  shows "step_ok (dump_bool member err put)" and "step_ok (dump_char member err put)"
  using assms unfolding step_ok_def dump_bool_def dump_char_def by (auto split: option.split)

lemma for_each_ok:
  assumes "\<And>e i. e \<in> set es \<Longrightarrow> i < lim \<Longrightarrow> step_ok (f e i)"
    and "\<And>c n. n \<le> lim \<Longrightarrow> cfg_inv c \<Longrightarrow> cfg_inv (fin n c)" and "i \<le> lim"
  shows "step_ok (for_each f lim es i fin)"
  using assms
proof (induction es arbitrary: i)
  case Nil
  then show ?case by (simp add: step_ok_def)
next
  case (Cons e es)
  show ?case
  proof (cases "i = lim")
    case True
    with Cons.prems show ?thesis by (simp add: step_ok_def)
  next
    case False
    then have "i < lim" using Cons.prems by simp
    then have "step_ok (and_then (f e i) (for_each f lim es (i + 1) fin))"
      using Cons by (intro and_then_ok) auto
    with False show ?thesis by (simp add: step_ok_def)
  qed
qed

lemma dump_list_ok:
  assumes "short_opt 15 array" and "\<And>e i. short 15 e \<Longrightarrow> i < lim \<Longrightarrow> step_ok (f e i)"
    and "\<And>c n. n \<le> lim \<Longrightarrow> cfg_inv c \<Longrightarrow> cfg_inv (fin n c)" and "- 25 \<le> err" and "err \<le> 0"
  shows "step_ok (dump_list array err f lim fin)"
proof (cases array)
  case (Some a)
  then have "list_all (short 15) (child a)" using assms(1) by (cases a) (simp add: short_opt_def)
  then have "step_ok (for_each f lim (child a) 0 fin)"
    using assms(2,3) by (intro for_each_ok) (auto simp: list_all_iff)
  with Some assms show ?thesis by (simp add: step_ok_def dump_list_def)
qed (use assms in \<open>simp add: step_ok_def dump_list_def\<close>)

lemma wifi_nth: "cfg_inv c \<Longrightarrow> i < 5 \<Longrightarrow> wifi_shape (WIFI_list c ! i)"
  by (simp add: cfg_inv_def cfg_shape_def list_all_length)

lemma set_wifi_inv:
  "cfg_inv c \<Longrightarrow> i < 5 \<Longrightarrow> wifi_shape (f (WIFI_list c ! i)) \<Longrightarrow> \<exists>c'. set_wifi i f c = Some c' \<and> cfg_inv c'"
  by (auto simp: cfg_inv_def cfg_shape_def set_wifi_def list_all_iff dest: set_update_subset_insert [THEN subsetD])

lemma set_slot_inv:
  "cfg_inv c \<Longrightarrow> i < 5 \<Longrightarrow> \<exists>c'. set_ldr i f c = Some c' \<and> cfg_inv c'"
  "cfg_inv c \<Longrightarrow> j < 4 \<Longrightarrow> \<exists>c'. set_max_rotation j v c = Some c' \<and> cfg_inv c'"
  "cfg_inv c \<Longrightarrow> j < 4 \<Longrightarrow> \<exists>c'. set_reverse_logic j b c = Some c' \<and> cfg_inv c'"
  by (simp_all add: cfg_inv_def cfg_shape_def set_ldr_def set_max_rotation_def set_reverse_logic_def)

lemma wifi_text_inv:
  assumes "cfg_inv c" and "i < 5"
  shows "\<exists>dst. map_option ssid (rd (WIFI_list c) i) = Some dst \<and> 15 \<le> length dst \<and>
      (\<forall>m. length m = length dst \<longrightarrow> (\<exists>c'. set_wifi i (\<lambda>w. w\<lparr>ssid := m\<rparr>) c = Some c' \<and> cfg_inv c'))"
    and "\<exists>dst. map_option passphrase (rd (WIFI_list c) i) = Some dst \<and> 15 \<le> length dst \<and>
      (\<forall>m. length m = length dst \<longrightarrow> (\<exists>c'. set_wifi i (\<lambda>w. w\<lparr>passphrase := m\<rparr>) c = Some c' \<and> cfg_inv c'))"
    and "\<exists>dst. map_option auth (rd (WIFI_list c) i) = Some dst \<and> 15 \<le> length dst \<and>
      (\<forall>m. length m = length dst \<longrightarrow> (\<exists>c'. set_wifi i (\<lambda>w. w\<lparr>auth := m\<rparr>) c = Some c' \<and> cfg_inv c'))"
proof -
  have r: "rd (WIFI_list c) i = Some (WIFI_list c ! i)"
    using assms by (simp add: rd_def cfg_inv_def cfg_shape_def)
  note w = wifi_nth [OF assms]
  show "\<exists>dst. map_option ssid (rd (WIFI_list c) i) = Some dst \<and> 15 \<le> length dst \<and>
      (\<forall>m. length m = length dst \<longrightarrow> (\<exists>c'. set_wifi i (\<lambda>w. w\<lparr>ssid := m\<rparr>) c = Some c' \<and> cfg_inv c'))"
    using w set_wifi_inv [OF assms] by (auto simp: r wifi_shape_def)
  show "\<exists>dst. map_option passphrase (rd (WIFI_list c) i) = Some dst \<and> 15 \<le> length dst \<and>
      (\<forall>m. length m = length dst \<longrightarrow> (\<exists>c'. set_wifi i (\<lambda>w. w\<lparr>passphrase := m\<rparr>) c = Some c' \<and> cfg_inv c'))"
    using w set_wifi_inv [OF assms] by (auto simp: r wifi_shape_def)
  show "\<exists>dst. map_option auth (rd (WIFI_list c) i) = Some dst \<and> 15 \<le> length dst \<and>
      (\<forall>m. length m = length dst \<longrightarrow> (\<exists>c'. set_wifi i (\<lambda>w. w\<lparr>auth := m\<rparr>) c = Some c' \<and> cfg_inv c'))"
    using w set_wifi_inv [OF assms] by (auto simp: r wifi_shape_def)
qed

lemma wifi_member_ok: "short 15 wifi \<Longrightarrow> i < 5 \<Longrightarrow> step_ok (wifi_member wifi i)"
  unfolding wifi_member_def by (intro step_intros wifi_text_inv short_some) (simp_all add: cfg_codes)

lemma ldr_member_ok: "i < 5 \<Longrightarrow> step_ok (ldr_member ldr i)"
  unfolding ldr_member_def Let_def by (auto intro!: step_intros set_slot_inv simp: cfg_codes)

lemma servo_member_ok: "i < 4 \<Longrightarrow> step_ok (servo_member servo i)"
  unfolding servo_member_def by (intro step_intros set_slot_inv) (simp_all add: cfg_codes)

lemma dump_parts_ok:
  "short_opt 15 b \<Longrightarrow> step_ok (dump_base b)"
  "short_opt 15 b \<Longrightarrow> step_ok (dump_ap b)"
  "short_opt 15 b \<Longrightarrow> step_ok (dump_thingsboard b)"
  "step_ok (dump_panel b)"
  unfolding dump_base_def dump_ap_def dump_thingsboard_def dump_panel_def
  by (auto intro!: step_intros simp: cfg_codes cfg_inv_def cfg_shape_def wifi_shape_def)

lemma check_and_dump_ok:
  assumes "short 15 it"
  shows "step_ok (check_and_dump_cfg (Some it))"
proof -
  have s: "short_opt 15 (item (Some it) nm)" for nm using assms by (intro step_intros short_some)
  have count: "(word_of_nat n :: u32) \<le> 5" if "n \<le> 5" for n
    using that by (simp add: word_le_nat_alt unat_of_nat)
  have count4: "(word_of_nat n :: u32) \<le> 4" if "n \<le> 4" for n
    using that by (simp add: word_le_nat_alt unat_of_nat)
  have skip: "step_ok (\<lambda>c. Some (0, c))" by (simp add: step_ok_def)
  have "step_ok (and_then (dump_base (item (item (Some it) ''System'') ''Base''))
         (and_then (dump_ap (item (item (Some it) ''System'') ''WIFI_AP''))
         (and_then (dump_list (item (item (Some it) ''System'') ''WIFI'') JSON_BAD_WIFI_LIST wifi_member 5
            (\<lambda>n c. c\<lparr>WIFI_count := word_of_nat n\<rparr>))
         (and_then (dump_thingsboard (item (item (Some it) ''System'') ''ThingsBoard''))
         (and_then (dump_panel (item (item (item (item (Some it) ''Abstract'') ''Solar_sys'') ''Panel'') ''dimensions''))
         (and_then (dump_list (item (item (item (Some it) ''Abstract'') ''Solar_sys'') ''LDR'') JSON_BAD_LDR_LOCATION_LIST ldr_member 5
            (\<lambda>n c. c\<lparr>LDR_count := word_of_nat n\<rparr>))
          (dump_list (item (item (item (Some it) ''Abstract'') ''Solar_sys'') ''Servo'') JSON_BAD_SERVO_LIST servo_member 4
            (\<lambda>n c. c\<lparr>Servo_count := word_of_nat n\<rparr>))))))))"
    by (intro and_then_ok dump_parts_ok dump_list_ok short_item s wifi_member_ok ldr_member_ok servo_member_ok)
      (auto simp: cfg_codes cfg_inv_def cfg_shape_def count count4)
  then show ?thesis
    by (simp add: check_and_dump_cfg_def Let_def step_ok_def)
qed

text \<open>
  C17: the configuration reader is safe on documents with short strings: if no string of the
  parsed document has 15 or more bytes, \<^verbatim>\<open>check_and_dump_cfg\<close> writes nothing outside the arrays
  of the structure, whatever else the document holds, returns 0 or one of the 25 error codes,
  and keeps the three counts within the arrays they count.
\<close>

theorem check_and_dump_cfg_safe:
  assumes "short 15 it" and "cfg_inv save"
  shows "\<exists>e save'. check_and_dump_cfg (Some it) save = Some (e, save') \<and> cfg_inv save' \<and> - 25 \<le> e \<and> e \<le> 0"
  using step_okD [OF check_and_dump_ok [OF assms(1)] assms(2)] .

text \<open>A zeroed structure.\<close>

definition blank_wifi :: WIFI where
  "blank_wifi = \<lparr>ssid = replicate 65 0, passphrase = replicate 65 0, auth = replicate 15 0\<rparr>"

definition blank_vector :: Vector3 where
  "blank_vector = \<lparr>v_x = dbl_zero, v_y = dbl_zero, v_z = dbl_zero\<rparr>"

definition blank_config :: DH_config where
  "blank_config = \<lparr>base_config_file = replicate 128 0, base_config_file_backup = replicate 128 0,
     allow_deep_sleep = 0, critical_battery = 0, WIFI_AP = blank_wifi, WIFI_list = replicate 5 blank_wifi,
     WIFI_count = 0, tb_token = replicate 65 0, tb_main_server = replicate 65 0,
     panel_dimensions = blank_vector, ldr_location = replicate 5 blank_vector, LDR_count = 0,
     servo_max_rotation = replicate 4 dbl_zero, servo_can_reverse_logic = replicate 4 0, Servo_count = 0\<rparr>"

lemma blank_config_inv: "cfg_inv blank_config"
  by (simp add: cfg_inv_def cfg_shape_def blank_config_def wifi_shape_def blank_wifi_def list_all_iff)

theorem check_and_dump_cfg_safe_witness:
  "\<exists>e save'. check_and_dump_cfg (Some (CJ cJSON_String (Some [0x61]) 0 dbl_zero None [])) blank_config = Some (e, save') \<and>
     cfg_inv save' \<and> - 25 \<le> e \<and> e \<le> 0"
  by (rule check_and_dump_cfg_safe [OF _ blank_config_inv]) (simp add: cstr_def)


text \<open>
  A file name of 128 bytes or more overflows the structure: \<^verbatim>\<open>strcpy\<close> copies the whole
  string, and no length is checked before.
\<close>

theorem check_and_dump_cfg_overflow:
  assumes "cfg_shape save" and "cJSON_IsObject (item (item (Some json) ''System'') ''Base'')"
    and "item (item (item (Some json) ''System'') ''Base'') ''config_file'' = Some m"
    and "cJSON_IsString (Some m)" and "valuestring m = Some s" and "128 \<le> length (cstr s)"
  shows "check_and_dump_cfg (Some json) save = None"
  using assms
  by (simp add: check_and_dump_cfg_def Let_def and_then_def dump_base_def dump_string_def strcpy_def
      wr_def cfg_shape_def)

text \<open>A document with a file name of 128 bytes.\<close>

definition long_config :: cjson where
  "long_config = CJ 64 None 0 dbl_zero None [CJ 64 None 0 dbl_zero (Some (ascii ''System''))
     [CJ 64 None 0 dbl_zero (Some (ascii ''Base''))
       [CJ 16 (Some (replicate 128 0x41)) 0 dbl_zero (Some (ascii ''config_file'')) []]]]"

lemma long_config_items:
  "item (Some long_config) ''System'' = Some (CJ 64 None 0 dbl_zero (Some (ascii ''System''))
     [CJ 64 None 0 dbl_zero (Some (ascii ''Base''))
       [CJ 16 (Some (replicate 128 0x41)) 0 dbl_zero (Some (ascii ''config_file'')) []]])"
  "item (item (Some long_config) ''System'') ''Base'' = Some (CJ 64 None 0 dbl_zero (Some (ascii ''Base''))
       [CJ 16 (Some (replicate 128 0x41)) 0 dbl_zero (Some (ascii ''config_file'')) []])"
  "item (item (item (Some long_config) ''System'') ''Base'') ''config_file'' =
     Some (CJ 16 (Some (replicate 128 0x41)) 0 dbl_zero (Some (ascii ''config_file'')) [])"
  by (simp_all add: long_config_def item_def cJSON_GetObjectItemCaseSensitive_def get_object_item_def strcmp_eq)

theorem check_and_dump_cfg_overflow_witness: "check_and_dump_cfg (Some long_config) blank_config = None"
proof (rule check_and_dump_cfg_overflow)
  show "cfg_shape blank_config" using blank_config_inv by (simp add: cfg_inv_def)
  show "cJSON_IsObject (item (item (Some long_config) ''System'') ''Base'')"
    unfolding long_config_items(2) by (simp add: cJSON_IsObject_def is_kind_def type_codes)
  show "item (item (item (Some long_config) ''System'') ''Base'') ''config_file'' =
     Some (CJ 16 (Some (replicate 128 0x41)) 0 dbl_zero (Some (ascii ''config_file'')) [])"
    by (rule long_config_items(3))
  show "128 \<le> length (cstr (replicate 128 0x41 :: u8 list))"
    by (simp add: cstr_def takeWhile_replicate)
qed (simp_all add: cJSON_IsString_def is_kind_def type_codes)

text \<open>
  A document without an object \<^verbatim>\<open>System.Base\<close>, an empty one for instance, is accepted: the
  reader returns 0, the code for success, and leaves the structure as it was.
\<close>

theorem check_and_dump_cfg_no_base:
  assumes "\<not> cJSON_IsObject (item (item (Some json) ''System'') ''Base'')"
  shows "check_and_dump_cfg (Some json) save = Some (0, save)"
  using assms by (simp add: check_and_dump_cfg_def Let_def)

theorem check_and_dump_cfg_no_base_witness:
  "check_and_dump_cfg (Some (CJ 64 None 0 dbl_zero None [])) blank_config = Some (0, blank_config)"
  by (rule check_and_dump_cfg_no_base)
    (simp add: item_def cJSON_GetObjectItemCaseSensitive_def get_object_item_def cJSON_IsObject_def is_kind_def)

end
