(* ===== verification/ConfigText.thy ===== *)
theory ConfigText
  imports Config CJsonText
begin

text \<open>
  The way from a JSON text to the configuration of the firmware: a configuration as a value,
  the document that stands for it, and what \<^verbatim>\<open>cJSON_Parse\<close> and \<^verbatim>\<open>check_and_dump_cfg\<close> together
  leave in \<^verbatim>\<open>struct DH_config\<close>.
\<close>

subsection \<open>Writing and reading a configuration\<close>

text \<open>A configuration as a value, and the document that stands for it.\<close>

record net =
  net_ssid :: "u8 list"
  net_pass :: "u8 list"
  net_auth :: "u8 list"

record settings =
  s_file :: "u8 list"
  s_backup :: "u8 list"
  s_sleep :: bool
  s_battery :: int
  s_ap :: net
  s_wifi :: "net list"
  s_token :: "u8 list"
  s_server :: "u8 list"
  s_panel :: "int \<times> int \<times> int"
  s_ldr :: "(int \<times> int \<times> int) list"
  s_servo :: "(int \<times> bool) list"

definition obj :: "(string \<times> json) list \<Rightarrow> json" where
  "obj ms = JObject (map (\<lambda>(n, j). (ascii n, j)) ms)"

definition net_json :: "net \<Rightarrow> json" where
  "net_json n = obj [(''ssid'', JString (net_ssid n)), (''passphrase'', JString (net_pass n)),
     (''auth'', JString (net_auth n))]"

definition point_json :: "int \<times> int \<times> int \<Rightarrow> json" where
  "point_json p = (case p of (x, y, z) \<Rightarrow> obj [(''x'', JInt x), (''y'', JInt y), (''z'', JInt z)])"

definition servo_json :: "int \<times> bool \<Rightarrow> json" where
  "servo_json s = obj [(''max_rotation'', JInt (fst s)), (''can_reverse_logic'', JBool (snd s))]"

definition config_json :: "settings \<Rightarrow> json" where
  "config_json s = obj
    [(''System'', obj
       [(''Base'', obj [(''config_file'', JString (s_file s)), (''config_file_backup'', JString (s_backup s)),
          (''allow_deep_sleep'', JBool (s_sleep s)), (''critical_battery'', JInt (s_battery s))]),
        (''WIFI_AP'', net_json (s_ap s)),
        (''WIFI'', JArray (map net_json (s_wifi s))),
        (''ThingsBoard'', obj [(''token'', JString (s_token s)), (''main_server'', JString (s_server s))])]),
     (''Abstract'', obj
       [(''Solar_sys'', obj
         [(''Panel'', obj [(''dimensions'', point_json (s_panel s))]),
          (''LDR'', JArray (map (\<lambda>p. obj [(''location'', point_json p)]) (s_ldr s))),
          (''Servo'', JArray (map servo_json (s_servo s)))])])]"

definition text_fits :: "nat \<Rightarrow> u8 list \<Rightarrow> bool" where
  "text_fits n s \<longleftrightarrow> 0 \<notin> set s \<and> length s < n"

definition net_fits :: "net \<Rightarrow> bool" where
  "net_fits n \<longleftrightarrow> text_fits 65 (net_ssid n) \<and> text_fits 65 (net_pass n) \<and> text_fits 15 (net_auth n)"

definition settings_fit :: "settings \<Rightarrow> bool" where
  "settings_fit s \<longleftrightarrow> text_fits 128 (s_file s) \<and> text_fits 128 (s_backup s) \<and> net_fits (s_ap s) \<and>
     list_all net_fits (s_wifi s) \<and> text_fits 65 (s_token s) \<and> text_fits 65 (s_server s)"

text \<open>What is in the structure afterwards: an array keeps the bytes behind the terminator.\<close>

definition over :: "u8 list \<Rightarrow> u8 list \<Rightarrow> u8 list" where
  "over old s = s @ 0 # drop (length s + 1) old"

definition net_over :: "WIFI \<Rightarrow> net \<Rightarrow> WIFI" where
  "net_over w n = w\<lparr>ssid := over (ssid w) (net_ssid n), passphrase := over (passphrase w) (net_pass n),
     auth := over (auth w) (net_auth n)\<rparr>"

definition to_float :: "int \<Rightarrow> dbl" where
  "to_float i = dbl_to_float (int_to_dbl i)"

definition point_of :: "int \<times> int \<times> int \<Rightarrow> Vector3" where
  "point_of p = (case p of (x, y, z) \<Rightarrow> \<lparr>v_x = to_float x, v_y = to_float y, v_z = to_float z\<rparr>)"

definition flag :: "bool \<Rightarrow> u8" where
  "flag b = (if b then 1 else 0)"

text \<open>The first elements of a list replaced by those of another, as far as both go.\<close>

fun front :: "('a \<Rightarrow> 'b \<Rightarrow> 'b) \<Rightarrow> 'a list \<Rightarrow> 'b list \<Rightarrow> 'b list" where
  "front f (x # xs) (y # ys) = f x y # front f xs ys"
| "front f [] ys = ys"
| "front f xs [] = []"

definition config_of :: "settings \<Rightarrow> DH_config \<Rightarrow> DH_config" where
  "config_of s c =
    \<lparr>base_config_file = over (base_config_file c) (s_file s),
     base_config_file_backup = over (base_config_file_backup c) (s_backup s),
     allow_deep_sleep = flag (s_sleep s),
     critical_battery = word_of_int (saturate (s_battery s)),
     WIFI_AP = net_over (WIFI_AP c) (s_ap s),
     WIFI_list = front (\<lambda>n w. net_over w n) (s_wifi s) (WIFI_list c),
     WIFI_count = word_of_nat (min 5 (length (s_wifi s))),
     tb_token = over (tb_token c) (s_token s),
     tb_main_server = over (tb_main_server c) (s_server s),
     panel_dimensions = point_of (s_panel s),
     ldr_location = front (\<lambda>p _. point_of p) (s_ldr s) (ldr_location c),
     LDR_count = word_of_nat (min 5 (length (s_ldr s))),
     servo_max_rotation = front (\<lambda>p _. to_float (fst p)) (s_servo s) (servo_max_rotation c),
     servo_can_reverse_logic = front (\<lambda>p _. flag (snd p)) (s_servo s) (servo_can_reverse_logic c),
     Servo_count = word_of_nat (min 4 (length (s_servo s)))\<rparr>"

lemma of_char_word_inj: "(word_of_nat (of_char a) :: u8) = word_of_nat (of_char b) \<longleftrightarrow> a = b"
  by (simp add: word_of_nat_eq_iff take_bit_eq_mod)

lemma key_inj: "ascii a = ascii b \<longleftrightarrow> a = b"
  unfolding ascii_def using of_char_word_inj by (auto intro!: injI simp: inj_map_eq_map inj_def)

definition clean :: "string \<Rightarrow> bool" where
  "clean s \<longleftrightarrow> CHR 0x00 \<notin> set s"

lemma key_char_nonzero: "c \<noteq> CHR 0x00 \<Longrightarrow> (word_of_nat (of_char c) :: u8) \<noteq> 0"
  using of_char_word_inj [of c "CHR 0x00"] by (simp add: of_char_def)

lemma cstr_key:
  assumes "clean s"
  shows "cstr (ascii s) = ascii s"
proof -
  have "x \<noteq> 0" if x: "x \<in> set (ascii s)" for x
  proof -
    obtain c where "c \<in> set s" "x = word_of_nat (of_char c)" using x by (auto simp: ascii_def)
    moreover from this assms have "c \<noteq> CHR 0x00" by (metis clean_def)
    ultimately show ?thesis using key_char_nonzero by simp
  qed
  then show ?thesis unfolding cstr_def by (simp add: takeWhile_eq_all_conv)
qed

lemma jstring_tree: "jstring (tree nm j) = nm"
  by (cases j) auto

lemma item_obj:
  assumes "clean n" and "list_all (\<lambda>m. clean (fst m)) ms"
  shows "item (Some (tree nm (obj ms))) n = map_option (tree (Some (ascii n))) (map_of ms n)"
proof -
  have "scan_exact (ascii n) (map (\<lambda>m. tree (Some (fst m)) (snd m)) (map (\<lambda>(n, j). (ascii n, j)) ms)) =
      map_option (tree (Some (ascii n))) (map_of ms n)"
    using assms(2)
  proof (induction ms)
    case (Cons m ms)
    obtain a j where m: "m = (a, j)" by fastforce
    show ?case
      using Cons m assms(1) by (simp add: jstring_tree strcmp_eq cstr_key key_inj)
  qed simp
  then show ?thesis
    by (simp add: item_def cJSON_GetObjectItemCaseSensitive_def get_object_item_def obj_def jstring_tree
        split: option.split del: map_map)
qed

lemma kinds:
  "cJSON_IsString (Some (tree nm (JString s)))" "valuestring (tree nm (JString s)) = Some s"
  "cJSON_IsNumber (Some (tree nm (JInt i)))" "valuedouble (tree nm (JInt i)) = int_to_dbl i"
  "valueint (tree nm (JInt i)) = saturate i"
  "cJSON_IsTrue (Some (tree nm (JBool b))) \<or> cJSON_IsFalse (Some (tree nm (JBool b)))"
  "(word_of_int (valueint (tree nm (JBool b))) :: u8) = flag b"
  "cJSON_IsArray (Some (tree nm (JArray js)))" "child (tree nm (JArray js)) = map (tree None) js"
  "cJSON_IsObject (Some (tree nm (obj ms)))"
  by (auto simp: is_kind_def cJSON_IsString_def cJSON_IsNumber_def cJSON_IsTrue_def cJSON_IsFalse_def
      cJSON_IsArray_def cJSON_IsObject_def type_codes flag_def obj_def)

lemma strcpy_fits:
  assumes "text_fits n s" and "n \<le> length dst"
  shows "strcpy dst (Some s) = Some (over dst s)"
proof -
  have "cstr s = s" using assms(1) by (auto simp: cstr_def text_fits_def takeWhile_eq_all_conv)
  with assms show ?thesis by (simp add: strcpy_def wr_def over_def text_fits_def)
qed

named_theorems reads_back \<open>what a step reads from the document\<close>

lemma dump_string_text [reads_back]:
  "text_fits n s \<Longrightarrow> get c = Some dst \<Longrightarrow> n \<le> length dst \<Longrightarrow>
    dump_string (Some (tree nm (JString s))) err get put c = map_option (Pair 0) (put (over dst s) c)"
  by (simp add: dump_string_def kinds strcpy_fits map_option_case del: tree.simps split: option.split)

lemma dump_string_field:
  "text_fits n s \<Longrightarrow> n \<le> length (get c) \<Longrightarrow>
    dump_string (Some (tree nm (JString s))) err (\<lambda>c. Some (get c)) put c = map_option (Pair 0) (put (over (get c) s) c)"
  by (rule dump_string_text) simp_all

lemma dump_scalar_text [reads_back]:
  "dump_float (Some (tree nm (JInt i))) err fput c = map_option (Pair 0) (fput (to_float i) c)"
  "dump_bool (Some (tree nm (JBool b))) err bput c = map_option (Pair 0) (bput (flag b) c)"
  "dump_char (Some (tree nm (JInt i))) err bput c = map_option (Pair 0) (bput (word_of_int (saturate i)) c)"
  using kinds(6,7) [of nm b]
  by (simp_all add: dump_float_def dump_bool_def dump_char_def kinds to_float_def del: tree.simps)

lemma and_then_go [reads_back]: "f c = Some (0, c') \<Longrightarrow> and_then f g c = g c'"
  by (simp add: and_then_def)


subsection \<open>The parts of the document\<close>

lemma fold_front:
  "i \<le> length ys \<Longrightarrow> n = length ys \<Longrightarrow>
    fold (\<lambda>(i, x) ys. ys[i := f x (ys ! i)]) (zip [i..<n] xs) ys = take i ys @ front f xs (drop i ys)"
proof (induction xs arbitrary: i ys)
  case (Cons x xs)
  show ?case
  proof (cases "i = n")
    case True
    with Cons.prems show ?thesis by simp
  next
    case False
    then have i: "i < length ys" using Cons.prems by simp
    let ?ys = "ys[i := f x (ys ! i)]"
    have "fold (\<lambda>(i, x) ys. ys[i := f x (ys ! i)]) (zip [Suc i..<n] xs) ?ys =
        take (Suc i) ?ys @ front f xs (drop (Suc i) ?ys)"
      using i Cons.prems by (intro Cons.IH) auto
    moreover have "drop i ys = ys ! i # drop (Suc i) ys" using i by (simp add: Cons_nth_drop_Suc)
    moreover have "[i..<n] = i # [Suc i..<n]" using i Cons.prems by (simp add: upt_conv_Cons)
    ultimately show ?thesis using i by (simp add: take_Suc_conv_app_nth)
  qed
qed simp

text \<open>The loop over a list: each element is read into its own slot, up to the limit.\<close>

lemma for_each_front:
  assumes "\<And>x i c. x \<in> set xs \<Longrightarrow> i < lim \<Longrightarrow> ok c \<Longrightarrow> f (tree None (js x)) i c = Some (0, upd i x c) \<and> ok (upd i x c)"
    and "i \<le> lim" and "ok c"
  shows "for_each f lim (map (tree None \<circ> js) xs) i fin c =
     Some (0, fin (min lim (i + length xs)) (fold (\<lambda>(i, x). upd i x) (zip [i..<lim] xs) c))"
  using assms
proof (induction xs arbitrary: i c)
  case (Cons x xs)
  show ?case
  proof (cases "i = lim")
    case True
    then show ?thesis by simp
  next
    case False
    then have i: "i < lim" using Cons.prems by simp
    from Cons.prems(1) [OF _ i Cons.prems(3)] have x: "f (tree None (js x)) i c = Some (0, upd i x c)" "ok (upd i x c)"
      by simp_all
    have "for_each f lim (map (tree None \<circ> js) xs) (i + 1) fin (upd i x c) =
      Some (0, fin (min lim (i + 1 + length xs)) (fold (\<lambda>(i, x). upd i x) (zip [i + 1..<lim] xs) (upd i x c)))"
      using Cons.prems i x(2) by (intro Cons.IH) auto
    moreover have "[i..<lim] = i # [i + 1..<lim]" using i by (simp add: upt_conv_Cons)
    ultimately show ?thesis using False x(1) by (simp add: and_then_def comp_def)
  qed
qed simp

lemma net_items [reads_back]:
  "item (Some (tree nm (net_json n))) ''ssid'' = Some (tree (Some (ascii ''ssid'')) (JString (net_ssid n)))"
  "item (Some (tree nm (net_json n))) ''passphrase'' = Some (tree (Some (ascii ''passphrase'')) (JString (net_pass n)))"
  "item (Some (tree nm (net_json n))) ''auth'' = Some (tree (Some (ascii ''auth'')) (JString (net_auth n)))"
  by (simp_all add: net_json_def item_obj clean_def del: tree.simps)

lemma point_items [reads_back]:
  "item (Some (tree nm (point_json (x, y, z)))) ''x'' = Some (tree (Some (ascii ''x'')) (JInt x))"
  "item (Some (tree nm (point_json (x, y, z)))) ''y'' = Some (tree (Some (ascii ''y'')) (JInt y))"
  "item (Some (tree nm (point_json (x, y, z)))) ''z'' = Some (tree (Some (ascii ''z'')) (JInt z))"
  "cJSON_IsObject (Some (tree nm (point_json p)))"
  by (simp_all add: point_json_def item_obj clean_def kinds del: tree.simps split: prod.split)

lemma point_eq: "(v :: Vector3)\<lparr>v_x := a, v_y := b, v_z := d\<rparr> = \<lparr>v_x = a, v_y = b, v_z = d\<rparr>"
  by (cases v) simp

lemma net_over_shape: "wifi_shape w \<Longrightarrow> net_fits n \<Longrightarrow> wifi_shape (net_over w n)"
  by (auto simp: wifi_shape_def net_over_def over_def net_fits_def text_fits_def)

lemma front_length: "length (front f xs ys) = length ys"
  by (induction f xs ys rule: front.induct) simp_all

lemma front_all: "list_all P ys \<Longrightarrow> (\<And>x y. x \<in> set xs \<Longrightarrow> P y \<Longrightarrow> P (f x y)) \<Longrightarrow> list_all P (front f xs ys)"
  by (induction f xs ys rule: front.induct) auto

text \<open>The updates of a slot that exists.\<close>

definition put_wifi :: "nat \<Rightarrow> (WIFI \<Rightarrow> WIFI) \<Rightarrow> DH_config \<Rightarrow> DH_config" where
  "put_wifi i f c = c\<lparr>WIFI_list := (WIFI_list c)[i := f (WIFI_list c ! i)]\<rparr>"

definition put_ldr :: "nat \<Rightarrow> (Vector3 \<Rightarrow> Vector3) \<Rightarrow> DH_config \<Rightarrow> DH_config" where
  "put_ldr i f c = c\<lparr>ldr_location := (ldr_location c)[i := f (ldr_location c ! i)]\<rparr>"

lemma set_put: "i < length (WIFI_list c) \<Longrightarrow> set_wifi i f c = Some (put_wifi i f c)"
  "i < length (ldr_location c) \<Longrightarrow> set_ldr i g c = Some (put_ldr i g c)"
  by (simp_all add: set_wifi_def set_ldr_def put_wifi_def put_ldr_def)

lemma wifi_member_text:
  assumes "net_fits n" and "i < 5" and "cfg_shape c"
  shows "wifi_member (tree nm (net_json n)) i c = Some (0, put_wifi i (\<lambda>w. net_over w n) c) \<and>
    cfg_shape (put_wifi i (\<lambda>w. net_over w n) c)"
proof -
  have len: "length (WIFI_list c) = 5" "wifi_shape (WIFI_list c ! i)"
    using assms by (auto simp: cfg_shape_def list_all_length)
  have "wifi_member (tree nm (net_json n)) i c = Some (0, put_wifi i (\<lambda>w. net_over w n) c)"
    using assms len
    by (simp add: wifi_member_def and_then_def net_items dump_string_def kinds strcpy_fits [where n = 65]
        strcpy_fits [where n = 15] net_fits_def set_wifi_def put_wifi_def rd_def net_over_def wifi_shape_def del: tree.simps)
  moreover have "wifi_shape (net_over (WIFI_list c ! i) n)"
    using assms len by (auto simp: wifi_shape_def net_over_def over_def net_fits_def text_fits_def)
  then have "cfg_shape (put_wifi i (\<lambda>w. net_over w n) c)"
    using assms(3) by (auto simp: cfg_shape_def put_wifi_def list_all_iff dest: set_update_subset_insert [THEN subsetD])
  ultimately show ?thesis by blast
qed

lemma ldr_member_text:
  assumes "i < 5" and "cfg_shape c"
  shows "ldr_member (tree nm (obj [(''location'', point_json p)])) i c = Some (0, put_ldr i (\<lambda>_. point_of p) c) \<and>
    cfg_shape (put_ldr i (\<lambda>_. point_of p) c)"
proof -
  obtain x y z where p: "p = (x, y, z)" using prod_cases3 by blast
  have "length (ldr_location c) = 5" using assms by (simp add: cfg_shape_def)
  then show ?thesis
    using assms p
    by (simp add: ldr_member_def item_obj clean_def point_items and_then_def dump_scalar_text set_ldr_def put_ldr_def
        point_of_def cfg_shape_def point_eq del: tree.simps)
qed

lemma servo_member_text:
  "cfg_shape c \<Longrightarrow> i < 4 \<Longrightarrow> servo_member (tree nm (servo_json s)) i c =
     Some (0, c\<lparr>servo_max_rotation := (servo_max_rotation c)[i := to_float (fst s)],
       servo_can_reverse_logic := (servo_can_reverse_logic c)[i := flag (snd s)]\<rparr>)"
  by (simp add: servo_member_def servo_json_def item_obj clean_def and_then_def dump_scalar_text cfg_shape_def
      set_max_rotation_def set_reverse_logic_def del: tree.simps)

lemma fold_set_wifi:
  "fold (\<lambda>(i, x). put_wifi i (\<lambda>w. net_over w x)) zs c =
     c\<lparr>WIFI_list := fold (\<lambda>(i, x) ws. ws[i := net_over (ws ! i) x]) zs (WIFI_list c)\<rparr>"
  by (induction zs arbitrary: c) (auto simp: put_wifi_def)

lemma fold_set_ldr:
  "fold (\<lambda>(i, x). put_ldr i (\<lambda>_. point_of x)) zs c =
     c\<lparr>ldr_location := fold (\<lambda>(i, x) ls. ls[i := point_of x]) zs (ldr_location c)\<rparr>"
  by (induction zs arbitrary: c) (auto simp: put_ldr_def)

definition set_servo :: "nat \<Rightarrow> int \<times> bool \<Rightarrow> DH_config \<Rightarrow> DH_config" where
  "set_servo i s c = c\<lparr>servo_max_rotation := (servo_max_rotation c)[i := to_float (fst s)],
     servo_can_reverse_logic := (servo_can_reverse_logic c)[i := flag (snd s)]\<rparr>"

lemma fold_set_servo:
  "fold (\<lambda>(i, x). set_servo i x) zs c =
     c\<lparr>servo_max_rotation := fold (\<lambda>(i, x) ms. ms[i := to_float (fst x)]) zs (servo_max_rotation c),
       servo_can_reverse_logic := fold (\<lambda>(i, x) ms. ms[i := flag (snd x)]) zs (servo_can_reverse_logic c)\<rparr>"
  by (induction zs arbitrary: c) (auto simp: set_servo_def)

lemma dump_wifi_list:
  assumes "list_all net_fits ns" and "cfg_shape c"
  shows "dump_list (Some (tree nm (JArray (map net_json ns)))) err wifi_member 5 (\<lambda>n c. c\<lparr>WIFI_count := word_of_nat n\<rparr>) c =
    Some (0, c\<lparr>WIFI_list := front (\<lambda>n w. net_over w n) ns (WIFI_list c),
      WIFI_count := word_of_nat (min 5 (length ns))\<rparr>)"
proof -
  have each: "for_each wifi_member 5 (map (tree None \<circ> net_json) ns) 0 (\<lambda>n c. c\<lparr>WIFI_count := word_of_nat n\<rparr>) c =
      Some (0, (\<lambda>n c. c\<lparr>WIFI_count := word_of_nat n\<rparr>) (min 5 (0 + length ns))
        (fold (\<lambda>(i, x). put_wifi i (\<lambda>w. net_over w x)) (zip [0..<5] ns) c))"
    by (rule for_each_front [where ok = cfg_shape])
      (use assms wifi_member_text in \<open>auto simp: list_all_iff\<close>)
  have "5 = length (WIFI_list c)" using assms by (simp add: cfg_shape_def)
  from fold_front [OF le0 this, of "\<lambda>n w. net_over w n" ns] show ?thesis
    using each by (simp only: dump_list_def option.case kinds map_map if_True fold_set_wifi take_0 drop_0 append_Nil add_0)
qed

lemma dump_ldr_list:
  assumes "cfg_shape c"
  shows "dump_list (Some (tree nm (JArray (map (\<lambda>p. obj [(''location'', point_json p)]) ps)))) err ldr_member 5
      (\<lambda>n c. c\<lparr>LDR_count := word_of_nat n\<rparr>) c =
    Some (0, c\<lparr>ldr_location := front (\<lambda>p _. point_of p) ps (ldr_location c),
      LDR_count := word_of_nat (min 5 (length ps))\<rparr>)"
proof -
  have each: "for_each ldr_member 5 (map (tree None \<circ> (\<lambda>p. obj [(''location'', point_json p)])) ps) 0
        (\<lambda>n c. c\<lparr>LDR_count := word_of_nat n\<rparr>) c =
      Some (0, (\<lambda>n c. c\<lparr>LDR_count := word_of_nat n\<rparr>) (min 5 (0 + length ps))
        (fold (\<lambda>(i, x). put_ldr i (\<lambda>_. point_of x)) (zip [0..<5] ps) c))"
    by (rule for_each_front [where ok = cfg_shape])
      (use assms ldr_member_text in \<open>auto simp: list_all_iff\<close>)
  have "5 = length (ldr_location c)" using assms by (simp add: cfg_shape_def)
  from fold_front [OF le0 this, of "\<lambda>p _. point_of p" ps] show ?thesis
    using each by (simp only: dump_list_def option.case kinds map_map if_True fold_set_ldr take_0 drop_0 append_Nil add_0)
qed

lemma dump_servo_list:
  assumes "cfg_shape c"
  shows "dump_list (Some (tree nm (JArray (map servo_json ss)))) err servo_member 4
      (\<lambda>n c. c\<lparr>Servo_count := word_of_nat n\<rparr>) c =
    Some (0, c\<lparr>servo_max_rotation := front (\<lambda>p _. to_float (fst p)) ss (servo_max_rotation c),
      servo_can_reverse_logic := front (\<lambda>p _. flag (snd p)) ss (servo_can_reverse_logic c),
      Servo_count := word_of_nat (min 4 (length ss))\<rparr>)"
proof -
  have each: "for_each servo_member 4 (map (tree None \<circ> servo_json) ss) 0
        (\<lambda>n c. c\<lparr>Servo_count := word_of_nat n\<rparr>) c =
      Some (0, (\<lambda>n c. c\<lparr>Servo_count := word_of_nat n\<rparr>) (min 4 (0 + length ss))
        (fold (\<lambda>(i, x). set_servo i x) (zip [0..<4] ss) c))"
    by (rule for_each_front [where ok = cfg_shape])
      (use assms servo_member_text in \<open>auto simp: set_servo_def cfg_shape_def\<close>)
  have len: "4 = length (servo_max_rotation c)" "4 = length (servo_can_reverse_logic c)"
    using assms by (simp_all add: cfg_shape_def)
  from fold_front [OF le0 len(1), of "\<lambda>p _. to_float (fst p)" ss]
    fold_front [OF le0 len(2), of "\<lambda>p _. flag (snd p)" ss]
  show ?thesis
    using each by (simp only: dump_list_def option.case kinds map_map if_True fold_set_servo take_0 drop_0 append_Nil add_0)
qed

lemma config_items:
  "item (Some (tree nm (config_json s))) ''System'' = Some (tree (Some (ascii ''System'')) (obj
       [(''Base'', obj [(''config_file'', JString (s_file s)), (''config_file_backup'', JString (s_backup s)),
          (''allow_deep_sleep'', JBool (s_sleep s)), (''critical_battery'', JInt (s_battery s))]),
        (''WIFI_AP'', net_json (s_ap s)),
        (''WIFI'', JArray (map net_json (s_wifi s))),
        (''ThingsBoard'', obj [(''token'', JString (s_token s)), (''main_server'', JString (s_server s))])]))"
  "item (item (Some (tree nm (config_json s))) ''Abstract'') ''Solar_sys'' = Some (tree (Some (ascii ''Solar_sys'')) (obj
         [(''Panel'', obj [(''dimensions'', point_json (s_panel s))]),
          (''LDR'', JArray (map (\<lambda>p. obj [(''location'', point_json p)]) (s_ldr s))),
          (''Servo'', JArray (map servo_json (s_servo s)))]))"
  by (simp_all add: config_json_def item_obj clean_def del: tree.simps)

lemma config_read_back:
  assumes "settings_fit s" and "cfg_shape c"
  shows "check_and_dump_cfg (Some (tree nm (config_json s))) c = Some (0, config_of s c)"
proof -
  obtain x y z where p: "s_panel s = (x, y, z)" using prod_cases3 by blast
  note fit = assms(1) [unfolded settings_fit_def net_fits_def]
  have len: "length (base_config_file c) = 128" "length (base_config_file_backup c) = 128"
    "length (tb_token c) = 65" "length (tb_main_server c) = 65"
    "length (ssid (WIFI_AP c)) = 65" "length (passphrase (WIFI_AP c)) = 65" "length (auth (WIFI_AP c)) = 15"
    using assms(2) by (simp_all add: cfg_shape_def wifi_shape_def)
  define c1 where "c1 = c\<lparr>base_config_file := over (base_config_file c) (s_file s),
     base_config_file_backup := over (base_config_file_backup c) (s_backup s),
     allow_deep_sleep := flag (s_sleep s), critical_battery := word_of_int (saturate (s_battery s))\<rparr>"
  define c2 where "c2 = c1\<lparr>WIFI_AP := net_over (WIFI_AP c) (s_ap s)\<rparr>"
  define c3 where "c3 = c2\<lparr>WIFI_list := front (\<lambda>n w. net_over w n) (s_wifi s) (WIFI_list c),
     WIFI_count := word_of_nat (min 5 (length (s_wifi s)))\<rparr>"
  define c4 where "c4 = c3\<lparr>tb_token := over (tb_token c) (s_token s), tb_main_server := over (tb_main_server c) (s_server s)\<rparr>"
  define c5 where "c5 = c4\<lparr>panel_dimensions := point_of (s_panel s)\<rparr>"
  define c6 where "c6 = c5\<lparr>ldr_location := front (\<lambda>p _. point_of p) (s_ldr s) (ldr_location c),
     LDR_count := word_of_nat (min 5 (length (s_ldr s)))\<rparr>"
  let ?sys = "item (Some (tree nm (config_json s))) ''System''"
  let ?solar = "item (item (Some (tree nm (config_json s))) ''Abstract'') ''Solar_sys''"
  have s1: "dump_base (item ?sys ''Base'') c = Some (0, c1)"
    using fit len
    by (simp add: config_items item_obj clean_def dump_base_def and_then_def dump_string_field [where n = 128]
        dump_scalar_text c1_def del: tree.simps)
  have s2: "dump_ap (item ?sys ''WIFI_AP'') c1 = Some (0, c2)"
    using fit len
    by (simp add: config_items item_obj clean_def dump_ap_def and_then_def net_items
        dump_string_field [where n = 65] dump_string_field [where n = 15] c1_def c2_def net_over_def del: tree.simps)
  have nets: "list_all net_fits (s_wifi s)" "net_fits (s_ap s)" using assms(1) by (simp_all add: settings_fit_def)
  have wl: "list_all wifi_shape (front (\<lambda>n w. net_over w n) (s_wifi s) (WIFI_list c))"
    using assms(2) nets net_over_shape by (intro front_all) (auto simp: cfg_shape_def list_all_iff)
  have shape: "cfg_shape c2" "cfg_shape c5" "cfg_shape c6"
    using assms(2) fit nets wl net_over_shape [OF _ nets(2)]
    by (simp_all add: cfg_shape_def c1_def c2_def c3_def c4_def c5_def c6_def front_length over_def text_fits_def)
  have s3: "dump_list (item ?sys ''WIFI'') JSON_BAD_WIFI_LIST wifi_member 5
      (\<lambda>n c. c\<lparr>WIFI_count := word_of_nat n\<rparr>) c2 = Some (0, c3)"
    using dump_wifi_list [OF _ shape(1)] assms(1)
    by (simp add: config_items item_obj clean_def settings_fit_def c1_def c2_def c3_def del: tree.simps)
  have s4: "dump_thingsboard (item ?sys ''ThingsBoard'') c3 = Some (0, c4)"
    using fit len
    by (simp add: config_items item_obj clean_def dump_thingsboard_def and_then_def
        dump_string_field [where n = 65] c1_def c2_def c3_def c4_def del: tree.simps)
  have s5: "dump_panel (item (item ?solar ''Panel'') ''dimensions'') c4 = Some (0, c5)"
    using p by (simp add: config_items item_obj clean_def dump_panel_def and_then_def point_items
        dump_scalar_text c1_def c2_def c3_def c4_def c5_def point_of_def point_eq del: tree.simps)
  have s6: "dump_list (item ?solar ''LDR'') JSON_BAD_LDR_LOCATION_LIST ldr_member 5
      (\<lambda>n c. c\<lparr>LDR_count := word_of_nat n\<rparr>) c5 = Some (0, c6)"
    using dump_ldr_list [OF shape(2)]
    by (simp add: config_items item_obj clean_def c1_def c2_def c3_def c4_def c5_def c6_def del: tree.simps)
  have s7: "dump_list (item ?solar ''Servo'') JSON_BAD_SERVO_LIST servo_member 4
      (\<lambda>n c. c\<lparr>Servo_count := word_of_nat n\<rparr>) c6 = Some (0, config_of s c)"
  proof -
    have "config_of s c = c6\<lparr>servo_max_rotation := front (\<lambda>p _. to_float (fst p)) (s_servo s) (servo_max_rotation c6),
      servo_can_reverse_logic := front (\<lambda>p _. flag (snd p)) (s_servo s) (servo_can_reverse_logic c6),
      Servo_count := word_of_nat (min 4 (length (s_servo s)))\<rparr>"
      by (cases c) (simp add: config_of_def c1_def c2_def c3_def c4_def c5_def c6_def)
    then show ?thesis
      using dump_servo_list [OF shape(3)]
      by (simp add: config_items item_obj clean_def del: tree.simps)
  qed
  have base: "cJSON_IsObject (item ?sys ''Base'')"
    by (simp add: config_items item_obj clean_def kinds del: tree.simps)
  show ?thesis
    using base
    by (simp add: check_and_dump_cfg_def Let_def and_then_def s1 s2 s3 s4 s5 s6 s7 del: tree.simps)
qed


lemma plain_obj: "(\<forall>m \<in> set ms. plain_json (d - 1) (snd m)) \<Longrightarrow> 0 < d \<Longrightarrow> plain_json d (obj ms)"
  by (auto simp: obj_def)

definition points_fit :: "int \<times> int \<times> int \<Rightarrow> bool" where
  "points_fit p \<longleftrightarrow> (case p of (x, y, z) \<Rightarrow> \<bar>x\<bar> < 2 ^ 53 \<and> \<bar>y\<bar> < 2 ^ 53 \<and> \<bar>z\<bar> < 2 ^ 53)"

definition servo_fits :: "int \<times> bool \<Rightarrow> bool" where
  "servo_fits x \<longleftrightarrow> \<bar>fst x\<bar> < 2 ^ 53"

text \<open>Numbers that a double holds exactly.\<close>

definition numbers_fit :: "settings \<Rightarrow> bool" where
  "numbers_fit s \<longleftrightarrow> \<bar>s_battery s\<bar> < 2 ^ 53 \<and> points_fit (s_panel s) \<and> list_all points_fit (s_ldr s) \<and>
     list_all servo_fits (s_servo s)"

lemma plain_parts:
  "0 < d \<Longrightarrow> plain_json d (net_json n)"
  "0 < d \<Longrightarrow> points_fit p \<Longrightarrow> plain_json d (point_json p)"
  "0 < d \<Longrightarrow> servo_fits x \<Longrightarrow> plain_json d (servo_json x)"
  by (auto simp: net_json_def point_json_def servo_json_def servo_fits_def points_fit_def obj_def split: prod.splits)

lemma config_plain: "numbers_fit s \<Longrightarrow> plain_json CJSON_NESTING_LIMIT (config_json s)"
  by (auto simp: config_json_def numbers_fit_def CJSON_NESTING_LIMIT_def list_all_iff
      intro!: plain_obj plain_parts)

text \<open>
  C14: a configuration that is written as a JSON text is read back by the firmware: parsing the
  text and passing the tree to \<^verbatim>\<open>check_and_dump_cfg\<close> gives 0, and the structure then holds the
  configuration: every string with its terminator, the flags, the battery limit saturated to
  an \<^verbatim>\<open>int\<close> and cut to a byte, the coordinates rounded to \<^verbatim>\<open>float\<close>, and of each list the
  elements that have room (5 networks, 5 sensors, 4 servos) with their number.
\<close>

theorem config_text_read_back:
  assumes "settings_fit s" and "numbers_fit s" and "cfg_shape c"
  shows "\<exists>r it. cJSON_ParseWithOpts always (Some (json_text (config_json s))) rnt h = Some (Done r) \<and>
    res_item r = Some it \<and> check_and_dump_cfg (Some it) c = Some (0, config_of s c)"
  using parse_text_document [OF config_plain [OF assms(2)]] config_read_back [OF assms(1,3)] by simp

definition settings_example :: settings where
  "settings_example = \<lparr>s_file = [0x63], s_backup = [0x62], s_sleep = True, s_battery = 300,
     s_ap = \<lparr>net_ssid = [0x44], net_pass = [], net_auth = [0x57]\<rparr>,
     s_wifi = [\<lparr>net_ssid = [0x68], net_pass = [0x70], net_auth = [0x57]\<rparr>],
     s_token = [0x74], s_server = [0x73], s_panel = (10, 20, 1), s_ldr = [(0, 0, 1), (5, 5, 1)],
     s_servo = [(180, True), (90, False)]\<rparr>"

theorem config_text_read_back_witness:
  "\<exists>r it c. cJSON_ParseWithOpts always (Some (json_text (config_json settings_example))) True
      \<lparr>requests = 0, live = 0\<rparr> = Some (Done r) \<and> res_item r = Some it \<and>
    check_and_dump_cfg (Some it) blank_config = Some (0, c) \<and> critical_battery c = 44 \<and>
    WIFI_count c = 1 \<and> LDR_count c = 2 \<and> Servo_count c = 2 \<and> take 2 (tb_token c) = [0x74, 0]"
proof -
  have fits: "settings_fit settings_example"
    by (simp add: settings_fit_def settings_example_def net_fits_def text_fits_def)
  have nums: "numbers_fit settings_example"
    by (simp add: numbers_fit_def settings_example_def points_fit_def servo_fits_def)
  have shape: "cfg_shape blank_config" using blank_config_inv by (simp add: cfg_inv_def)
  have "critical_battery (config_of settings_example blank_config) = 44 \<and>
      WIFI_count (config_of settings_example blank_config) = 1 \<and>
      LDR_count (config_of settings_example blank_config) = 2 \<and>
      Servo_count (config_of settings_example blank_config) = 2 \<and>
      take 2 (tb_token (config_of settings_example blank_config)) = [0x74, 0]"
    by (simp add: config_of_def settings_example_def saturate_def INT_MAX_def INT_MIN_def over_def)
  then show ?thesis
    using config_text_read_back [OF fits nums shape, of True "\<lparr>requests = 0, live = 0\<rparr>"] by blast
qed

end
