(* ===== verification/FileServer.thy ===== *)
theory FileServer
  imports CJson
begin

text \<open>
  The HTTP file server, as_server_server.c. The file system and the HTTP server are outside
  the repository: a file system is a record of operations with a locale that states its laws,
  what the network and the storage do during one request is an environment, and what a
  handler hands to the HTTP server is a list of calls. A buffer overflow or a null \<^verbatim>\<open>FILE *\<close> is
  the fault \<^term>\<open>None\<close>; a handler that still waits for the peer is \<^term>\<open>Running\<close>.
\<close>

subsection \<open>The file system\<close>

record 's fsys =
  fs_read :: "'s \<Rightarrow> u8 list \<Rightarrow> u8 list option"
  fs_write :: "'s \<Rightarrow> u8 list \<Rightarrow> u8 list \<Rightarrow> 's"
  fs_unlink :: "'s \<Rightarrow> u8 list \<Rightarrow> 's"

text \<open>Files as a map from paths to contents; \<^verbatim>\<open>stat\<close> fails exactly on paths without a file.\<close>

definition map_fs :: "(u8 list \<rightharpoonup> u8 list) fsys" where
  "map_fs = \<lparr>fs_read = (\<lambda>s. s), fs_write = (\<lambda>s p c. s(p \<mapsto> c)), fs_unlink = (\<lambda>s p. s(p := None))\<rparr>"

subsection \<open>Requests and responses\<close>

datatype http = Set_status "u8 list" | Set_hdr "u8 list" "u8 list" | Set_type "u8 list"
  | Resp "u8 list" | Resp_err nat "u8 list" | Chunk "u8 list" | Last_chunk

datatype esp_err = ESP_OK | ESP_FAIL | ESP_ERR_NO_MEM | ESP_ERR_INVALID_STATE

text \<open>A call of \<^verbatim>\<open>httpd_req_recv\<close>: some bytes arrive, and the write of them to the file succeeds or
  not; it times out; or the connection breaks.\<close>

datatype arrival = Arrive nat bool | Timeout | Broken

record env =
  can_open :: bool
  can_create :: bool
  arrivals :: "arrival list"
  chunk_ok :: "nat \<Rightarrow> bool"
  dir_entries :: "u8 list \<Rightarrow> (u8 list \<times> bool) list option"
  favicon_ico :: "u8 list"
  upload_script :: "u8 list"

record request =
  req_uri :: "u8 list"
  content_len :: nat
  req_body :: "u8 list"

record 's server =
  disk :: 's
  calls :: "http list"
  restarted :: bool

type_synonym 's handled = "(esp_err \<times> 's server) run option"

definition emit :: "http list \<Rightarrow> 's server \<Rightarrow> 's server" where
  "emit hs sv = sv\<lparr>calls := calls sv @ hs\<rparr>"

definition answer :: "esp_err \<Rightarrow> http list \<Rightarrow> 's server \<Rightarrow> 's handled" where
  "answer e hs sv = Some (Done (e, emit hs sv))"

definition CONFIG_SPIFFS_OBJ_NAME_LEN :: nat where "CONFIG_SPIFFS_OBJ_NAME_LEN = 32"

definition FILE_PATH_MAX :: "nat \<Rightarrow> nat" where
  "FILE_PATH_MAX vfs_path_max = vfs_path_max + CONFIG_SPIFFS_OBJ_NAME_LEN"

definition MAX_FILE_SIZE :: nat where "MAX_FILE_SIZE = 200 * 1024"

definition SCRATCH_BUFSIZE :: nat where "SCRATCH_BUFSIZE = 8192"

subsection \<open>Paths and types\<close>

definition strchr :: "u8 list \<Rightarrow> u8 \<Rightarrow> nat option" where
  "strchr s c = (let i = length (takeWhile (\<lambda>x. x \<noteq> c) s) in if i < length s then Some i else None)"

definition get_path_from_uri :: "u8 list \<Rightarrow> u8 list \<Rightarrow> nat \<Rightarrow> u8 list option" where
  "get_path_from_uri base_path uri destsize = (let
     pathlen = length uri;
     pathlen = (case strchr uri 0x3f of Some quest \<Rightarrow> min pathlen quest | None \<Rightarrow> pathlen);
     pathlen = (case strchr uri 0x23 of Some hash \<Rightarrow> min pathlen hash | None \<Rightarrow> pathlen)
   in if destsize < length base_path + pathlen + 1 then None
      else Some (base_path @ take pathlen uri))"

text \<open>The macro reads the last bytes of the path, which may begin in front of the file name but
  not in front of the buffer.\<close>

definition IS_FILE_EXT :: "u8 list \<Rightarrow> u8 list \<Rightarrow> bool option" where
  "IS_FILE_EXT path ext = (if length ext \<le> length path
     then Some (ci_cmp (drop (length path - length ext) path) ext = 0) else None)"

definition set_content_type_from_file :: "u8 list \<Rightarrow> http option" where
  "set_content_type_from_file path = do {
     pdf \<leftarrow> IS_FILE_EXT path (ascii ''.pdf'');
     if pdf then Some (Set_type (ascii ''application/pdf'')) else do {
     html \<leftarrow> IS_FILE_EXT path (ascii ''.html'');
     if html then Some (Set_type (ascii ''text/html'')) else do {
     jpeg \<leftarrow> IS_FILE_EXT path (ascii ''.jpeg'');
     if jpeg then Some (Set_type (ascii ''image/jpeg'')) else do {
     ico \<leftarrow> IS_FILE_EXT path (ascii ''.ico'');
     if ico then Some (Set_type (ascii ''image/x-icon''))
     else Some (Set_type (ascii ''text/plain'')) } } } }"

definition index_html_get_handler :: "'s server \<Rightarrow> 's handled" where
  "index_html_get_handler sv = answer ESP_OK
     [Set_status (ascii ''307 Temporary Redirect''), Set_hdr (ascii ''Location'') (ascii ''/''), Resp []] sv"

definition favicon_get_handler :: "env \<Rightarrow> 's server \<Rightarrow> 's handled" where
  "favicon_get_handler env sv = answer ESP_OK [Set_type (ascii ''image/x-icon''), Resp (favicon_ico env)] sv"

subsection \<open>Directory listing\<close>

fun decimal_text :: "nat \<Rightarrow> u8 list" where
  "decimal_text n = (if n < 10 then [word_of_nat (48 + n)]
     else decimal_text (n div 10) @ [word_of_nat (48 + n mod 10)])"

declare decimal_text.simps [simp del]

text \<open>One round of the loop: \<^verbatim>\<open>strlcpy\<close> cuts a name that does not fit behind the path.\<close>

definition dir_entry ::
  "'s fsys \<Rightarrow> nat \<Rightarrow> u8 list \<Rightarrow> u8 list \<Rightarrow> 's \<Rightarrow> u8 list \<times> bool \<Rightarrow> http list" where
  "dir_entry F path_max dirpath ur d en = (case en of (d_name, is_dir) \<Rightarrow>
     let entrypath = dirpath @ take (path_max - length dirpath - 1) d_name;
         entrytype = (if is_dir then ascii ''directory'' else ascii ''file'')
     in case fs_read F d entrypath of None \<Rightarrow> []
     | Some c \<Rightarrow>
        map Chunk ([ascii ''<tr><td><a href='' @ [0x22], ur, d_name] @
          (if is_dir then [ascii ''/''] else []) @
          [[0x22] @ ascii ''>'', d_name, ascii ''</a></td><td>'', entrytype, ascii ''</td><td>'',
           decimal_text (length c), ascii ''</td><td>'',
           ascii ''<form method='' @ [0x22] @ ascii ''post'' @ [0x22] @ ascii '' action='' @ [0x22] @ ascii ''/delete'',
           ur, d_name,
           [0x22] @ ascii ''><button type='' @ [0x22] @ ascii ''submit'' @ [0x22] @ ascii ''>Delete</button></form>'',
           ascii ''</td></tr>'' @ [0x0a]]))"

definition table_head :: "u8 list" where
  "table_head = ascii ''<table class='' @ [0x22] @ ascii ''fixed'' @ [0x22] @ ascii '' border='' @ [0x22] @ ascii ''1'' @
     [0x22] @ ascii ''>'' @
     ascii ''<col width='' @ [0x22] @ ascii ''800px'' @ [0x22] @ ascii '' /><col width='' @ [0x22] @ ascii ''300px'' @
     [0x22] @ ascii '' /><col width='' @ [0x22] @ ascii ''300px'' @ [0x22] @ ascii '' /><col width='' @ [0x22] @
     ascii ''100px'' @ [0x22] @ ascii '' />'' @
     ascii ''<thead><tr><th>Name</th><th>Type</th><th>Size (Bytes)</th><th>Delete</th></tr></thead>'' @
     ascii ''<tbody>''"

definition http_resp_dir_html ::
  "'s fsys \<Rightarrow> env \<Rightarrow> nat \<Rightarrow> u8 list \<Rightarrow> u8 list \<Rightarrow> 's server \<Rightarrow> 's handled" where
  "http_resp_dir_html F env path_max ur dirpath sv = (case dir_entries env dirpath of
     None \<Rightarrow> answer ESP_FAIL [Resp_err 404 (ascii ''Directory does not exist'')] sv
   | Some es \<Rightarrow> answer ESP_OK
       ([Chunk (ascii ''<!DOCTYPE html><html><body>''), Chunk (upload_script env), Chunk table_head] @
        concat (map (dir_entry F path_max dirpath ur (disk sv)) es) @
        [Chunk (ascii ''</tbody></table>''), Chunk (ascii ''</body></html>''), Last_chunk]) sv)"

subsection \<open>Download\<close>

text \<open>The loop over the chunks of the file, the \<open>n\<close>-th call of \<^verbatim>\<open>httpd_resp_send_chunk\<close> next.\<close>

function send_chunks :: "(nat \<Rightarrow> bool) \<Rightarrow> nat \<Rightarrow> u8 list \<Rightarrow> http list \<times> bool" where
  "send_chunks sent_ok n rest = (let chunk = take SCRATCH_BUFSIZE rest in
     if chunk = [] then ([], True)
     else if \<not> sent_ok n then ([Chunk chunk], False)
     else (case send_chunks sent_ok (n + 1) (drop SCRATCH_BUFSIZE rest) of
       (hs, ok) \<Rightarrow> (Chunk chunk # hs, ok)))"
  by pat_completeness auto
termination by (relation "measure (\<lambda>(_, _, rest). length rest)") (auto simp: SCRATCH_BUFSIZE_def)

declare send_chunks.simps [simp del]

text \<open>\<^verbatim>\<open>filename[strlen(filename) - 1] == '/'\<close>: for an empty name it is the last byte of the base path.\<close>

definition trailing_slash :: "u8 list \<Rightarrow> bool option" where
  "trailing_slash path = (if path = [] then None else Some (last path = 0x2f))"

definition download_get_handler ::
  "'s fsys \<Rightarrow> env \<Rightarrow> nat \<Rightarrow> u8 list \<Rightarrow> request \<Rightarrow> 's server \<Rightarrow> 's handled" where
  "download_get_handler F env path_max base req sv =
    (case get_path_from_uri base (req_uri req) path_max of
       None \<Rightarrow> answer ESP_FAIL [Resp_err 500 (ascii ''Filename too long'')] sv
     | Some filepath \<Rightarrow> Option.bind (trailing_slash filepath) (\<lambda>slash.
         let filename = drop (length base) filepath in
         if slash then http_resp_dir_html F env path_max (req_uri req) filepath sv
         else (case fs_read F (disk sv) filepath of
           None \<Rightarrow>
             if strcmp filename (ascii ''/index.html'') = 0 then index_html_get_handler sv
             else if strcmp filename (ascii ''/favicon.ico'') = 0 then favicon_get_handler env sv
             else answer ESP_FAIL [Resp_err 404 (ascii ''File does not exist'')] sv
         | Some c \<Rightarrow>
             if \<not> can_open env
             then answer ESP_FAIL [Resp_err 500 (ascii ''Failed to read existing file'')] sv
             else Option.bind (set_content_type_from_file filepath) (\<lambda>ty.
               case send_chunks (chunk_ok env) 0 c of (hs, ok) \<Rightarrow>
                 if ok then answer ESP_OK (ty # hs @ [Last_chunk]) sv
                 else answer ESP_FAIL
                   (ty # hs @ [Last_chunk, Resp_err 500 (ascii ''Failed to send file'')]) sv))))"

subsection \<open>Upload\<close>

definition is_space :: "u8 \<Rightarrow> bool" where
  "is_space c \<longleftrightarrow> c = 0x20 \<or> 0x09 \<le> c \<and> c \<le> 0x0d"

text \<open>\<^verbatim>\<open>%s\<close> into an array of 128 bytes: the word and what follows it.\<close>

definition scan_word :: "u8 list \<Rightarrow> (u8 list \<times> u8 list) option" where
  "scan_word s = (let s = dropWhile is_space s; w = takeWhile (\<lambda>c. \<not> is_space c) s in
     if length w < 128 then Some (w, dropWhile (\<lambda>c. \<not> is_space c) s) else None)"

text \<open>\<^verbatim>\<open>fscanf(fd, "%s ,%s\n", a_buff, b_buff)\<close>: the number of words read, or -1 at the end of the file.\<close>

definition scan_pair :: "u8 list \<Rightarrow> int option" where
  "scan_pair s = do {
     (a, r) \<leftarrow> scan_word s;
     if a = [] then Some (- 1)
     else case dropWhile is_space r of
       c # r' \<Rightarrow> if c \<noteq> 0x2c then Some 1 else do {
         (b, _) \<leftarrow> scan_word r';
         Some (if b = [] then 1 else 2) }
     | [] \<Rightarrow> Some 1 }"

text \<open>The receiving loop; the file holds what has been written to it.\<close>

fun recv_loop ::
  "'s fsys \<Rightarrow> u8 list \<Rightarrow> arrival list \<Rightarrow> nat \<Rightarrow> u8 list \<Rightarrow> u8 list \<Rightarrow> 's server \<Rightarrow>
    (u8 list option \<times> 's server) run" where
  "recv_loop F path as remaining pending got sv = (if remaining = 0 then Done (Some got, sv)
     else case as of [] \<Rightarrow> Running
     | a # as' \<Rightarrow> (case a of
         Timeout \<Rightarrow> recv_loop F path as' remaining pending got sv
       | Broken \<Rightarrow> Done (None, emit [Resp_err 500 (ascii ''Failed to receive file'')]
           (sv\<lparr>disk := fs_unlink F (disk sv) path\<rparr>))
       | Arrive n wok \<Rightarrow>
           let data = take (min n (min remaining SCRATCH_BUFSIZE)) pending in
           if data = [] then Done (None, emit [Resp_err 500 (ascii ''Failed to receive file'')]
             (sv\<lparr>disk := fs_unlink F (disk sv) path\<rparr>))
           else if \<not> wok then Done (None, emit [Resp_err 500 (ascii ''Failed to write file to storage'')]
             (sv\<lparr>disk := fs_unlink F (disk sv) path\<rparr>))
           else recv_loop F path as' (remaining - length data) (drop (length data) pending) (got @ data)
             (sv\<lparr>disk := fs_write F (disk sv) path (got @ data)\<rparr>)))"

declare recv_loop.simps [simp del]

text \<open>What follows the transfer. \<^verbatim>\<open>fclose\<close> of a file that could not be opened is a fault.\<close>

definition finish_upload :: "'s fsys \<Rightarrow> env \<Rightarrow> u8 list \<Rightarrow> u8 list \<Rightarrow> 's server \<Rightarrow> 's handled" where
  "finish_upload F env filepath got sv = (if \<not> can_open env then None else do {
     parse_ret \<leftarrow> scan_pair got;
     let done_resp = [Set_status (ascii ''303 See Other''), Set_hdr (ascii ''Location'') (ascii ''/''),
           Resp (ascii ''File uploaded successfully'')];
     if strcmp filepath (ascii ''/data/wifi.csv'') = 0 then
       if parse_ret = 2 then
         Some (Done (ESP_OK, (emit [Resp (ascii ''Config File successfully updated REBOOTING!!!'')] sv)\<lparr>restarted := True\<rparr>))
       else answer ESP_OK
         (Resp (ascii ''WIFI Config file was OVERWRITTED but was INVALID!!!'') # done_resp) sv
     else if strcmp filepath (ascii ''/data/config.json'') = 0
     then answer ESP_OK (Resp (ascii ''JSON ok'') # done_resp) sv
     else answer ESP_OK done_resp sv })"

text \<open>\<^verbatim>\<open>if (stat(filepath, &file_stat) == 0) unlink(filepath)\<close>\<close>

definition remove_old :: "'s fsys \<Rightarrow> u8 list \<Rightarrow> 's server \<Rightarrow> 's server" where
  "remove_old F filepath sv = (if fs_read F (disk sv) filepath \<noteq> None
     then sv\<lparr>disk := fs_unlink F (disk sv) filepath\<rparr> else sv)"

definition upload_post_handler ::
  "'s fsys \<Rightarrow> env \<Rightarrow> nat \<Rightarrow> u8 list \<Rightarrow> request \<Rightarrow> 's server \<Rightarrow> 's handled" where
  "upload_post_handler F env path_max base req sv = (if length (req_uri req) < 7 then None else
     case get_path_from_uri base (drop 7 (req_uri req)) path_max of
       None \<Rightarrow> answer ESP_FAIL [Resp_err 500 (ascii ''Filename too long'')] sv
     | Some filepath \<Rightarrow> Option.bind (trailing_slash filepath) (\<lambda>slash.
         if slash then answer ESP_FAIL [Resp_err 500 (ascii ''Invalid filename'')] sv
         else let sv1 = remove_old F filepath sv in
           if MAX_FILE_SIZE < content_len req
           then answer ESP_FAIL [Resp_err 400 (ascii ''File size must be less than 200KB!'')] sv1
           else if \<not> can_create env
           then answer ESP_FAIL [Resp_err 500 (ascii ''Failed to create file'')] sv1
           else (case recv_loop F filepath (arrivals env) (content_len req) (req_body req) []
               (sv1\<lparr>disk := fs_write F (disk sv1) filepath []\<rparr>) of
             Running \<Rightarrow> Some Running
           | Done (None, sv2) \<Rightarrow> Some (Done (ESP_FAIL, sv2))
           | Done (Some got, sv2) \<Rightarrow> finish_upload F env filepath got sv2)))"

subsection \<open>Delete\<close>

definition delete_post_handler ::
  "'s fsys \<Rightarrow> nat \<Rightarrow> u8 list \<Rightarrow> request \<Rightarrow> 's server \<Rightarrow> 's handled" where
  "delete_post_handler F path_max base req sv = (if length (req_uri req) < 7 then None else
     case get_path_from_uri base (drop 7 (req_uri req)) path_max of
       None \<Rightarrow> answer ESP_FAIL [Resp_err 500 (ascii ''Filename too long'')] sv
     | Some filepath \<Rightarrow> Option.bind (trailing_slash filepath) (\<lambda>slash.
         if slash then answer ESP_FAIL [Resp_err 500 (ascii ''Invalid filename'')] sv
         else if fs_read F (disk sv) filepath = None
         then answer ESP_FAIL [Resp_err 400 (ascii ''File does not exist'')] sv
         else answer ESP_OK [Set_status (ascii ''303 See Other''), Set_hdr (ascii ''Location'') (ascii ''/''),
             Resp (ascii ''File deleted successfully'')]
           (sv\<lparr>disk := fs_unlink F (disk sv) filepath\<rparr>)))"

subsection \<open>Start\<close>

datatype http_method = HTTP_GET | HTTP_POST

datatype handler = Download | Upload | Delete

text \<open>The static pointer and the handlers that are registered. \<open>alloc_ok\<close> and \<open>httpd_ok\<close>: whether
  \<^verbatim>\<open>calloc\<close> and \<^verbatim>\<open>httpd_start\<close> succeed.\<close>

record start_state =
  server_data :: "u8 list option"
  routes :: "(u8 list \<times> http_method \<times> handler) list"

definition start_file_server :: "nat \<Rightarrow> bool \<Rightarrow> bool \<Rightarrow> u8 list \<Rightarrow> start_state \<Rightarrow> esp_err \<times> start_state" where
  "start_file_server vfs_path_max alloc_ok httpd_ok base_path s =
    (if server_data s \<noteq> None then (ESP_ERR_INVALID_STATE, s)
     else if \<not> alloc_ok then (ESP_ERR_NO_MEM, s)
     else let s1 = s\<lparr>server_data := Some (take vfs_path_max base_path)\<rparr> in
       if \<not> httpd_ok then (ESP_FAIL, s1)
       else (ESP_OK, s1\<lparr>routes := routes s1 @ [(ascii ''/*'', HTTP_GET, Download),
         (ascii ''/upload/*'', HTTP_POST, Upload), (ascii ''/delete/*'', HTTP_POST, Delete)]\<rparr>))"

subsection \<open>Paths\<close>

lemma takeWhile_min: "take (min (length (takeWhile P s)) (length (takeWhile Q s))) s = takeWhile (\<lambda>x. P x \<and> Q x) s"
  by (induction s) auto

lemma strchr_min:
  "n \<le> length s \<Longrightarrow> (case strchr s c of Some q \<Rightarrow> min n q | None \<Rightarrow> n) = min n (length (takeWhile (\<lambda>x. x \<noteq> c) s))"
  using length_takeWhile_le [of "\<lambda>x. x \<noteq> c" s] by (auto simp: strchr_def Let_def)

definition path_of :: "u8 list \<Rightarrow> u8 list" where
  "path_of ur = takeWhile (\<lambda>c. c \<noteq> 0x3f \<and> c \<noteq> 0x23) ur"

lemma get_path_path_of:
  "get_path_from_uri base ur n =
     (if n < length base + length (path_of ur) + 1 then None else Some (base @ path_of ur))"
proof -
  let ?q = "length (takeWhile (\<lambda>x. x \<noteq> 0x3f) ur)" and ?h = "length (takeWhile (\<lambda>x. x \<noteq> 0x23) ur)"
  have le: "?q \<le> length ur" by (rule length_takeWhile_le)
  have p: "take (min ?q ?h) ur = path_of ur" unfolding path_of_def by (rule takeWhile_min)
  from arg_cong [OF this, of length] le have len: "length (path_of ur) = min ?q ?h" by auto
  have n: "(case strchr ur 0x3f of Some q \<Rightarrow> min (length ur) q | None \<Rightarrow> length ur) = ?q"
    using strchr_min [OF order_refl, of ur "0x3f"] le by simp
  have "(case strchr ur 0x23 of Some q \<Rightarrow> min ?q q | None \<Rightarrow> ?q) = min ?q ?h"
    by (rule strchr_min [OF le])
  then show ?thesis unfolding get_path_from_uri_def Let_def n by (simp only: p len)
qed

lemma take_length_take: "take k xs = take (length (take k xs)) xs"
  by (cases "k \<le> length xs") simp_all

subsection \<open>Responses\<close>

text \<open>The body of a response sent in chunks.\<close>

definition sent_body :: "http list \<Rightarrow> u8 list" where
  "sent_body hs = concat (map (\<lambda>h. case h of Chunk c \<Rightarrow> c | Resp c \<Rightarrow> c | _ \<Rightarrow> []) hs)"

lemma send_chunks_all: "\<exists>hs. send_chunks (\<lambda>_. True) n rest = (hs, True) \<and> sent_body hs = rest"
proof (induction "length rest" arbitrary: n rest rule: less_induct)
  case less
  show ?case
  proof (cases "rest = []")
    case True
    then show ?thesis by (subst send_chunks.simps) (simp add: sent_body_def)
  next
    case False
    then have "length (drop SCRATCH_BUFSIZE rest) < length rest" by (simp add: SCRATCH_BUFSIZE_def)
    then obtain hs where hs: "send_chunks (\<lambda>_. True) (n + 1) (drop SCRATCH_BUFSIZE rest) = (hs, True)"
      "sent_body hs = drop SCRATCH_BUFSIZE rest" using less by blast
    have "sent_body (Chunk (take SCRATCH_BUFSIZE rest) # hs) = rest"
      using hs(2) by (simp add: sent_body_def)
    with hs(1) False show ?thesis
      by (subst send_chunks.simps) (simp add: Let_def SCRATCH_BUFSIZE_def)
  qed
qed

lemma content_type_total: "5 \<le> length path \<Longrightarrow> \<exists>t. set_content_type_from_file path = Some (Set_type t)"
  by (auto simp: set_content_type_from_file_def IS_FILE_EXT_def ascii_def)

subsection \<open>File systems\<close>

text \<open>What the handlers need of a file system.\<close>

locale file_store =
  fixes F :: "'s fsys"
  assumes read_write: "fs_read F (fs_write F s p c) q = (if q = p then Some c else fs_read F s q)"
    and read_unlink: "fs_read F (fs_unlink F s p) q = (if q = p then None else fs_read F s q)"
begin

text \<open>The receiving loop keeps the bytes received so far in the file and touches no other file.\<close>

lemma recv_loop_done:
  assumes "recv_loop F path as remaining pending got sv = Done (r, sv')"
    and "fs_read F (disk sv) path = Some got"
  shows "(case r of None \<Rightarrow> fs_read F (disk sv') path = None
      | Some res \<Rightarrow> fs_read F (disk sv') path = Some res \<and> res = got @ take remaining pending \<and> remaining \<le> length pending) \<and>
    (\<forall>q. q \<noteq> path \<longrightarrow> fs_read F (disk sv') q = fs_read F (disk sv) q) \<and> restarted sv' = restarted sv"
  using assms
proof (induction as arbitrary: remaining pending got sv)
  case Nil
  then have "remaining = 0" "r = Some got" "sv' = sv" by (auto simp: recv_loop.simps split: if_splits)
  with Nil show ?case by simp
next
  case (Cons a as)
  show ?case
  proof (cases "remaining = 0")
    case True
    with Cons.prems(1) have "r = Some got" "sv' = sv" by (auto simp: recv_loop.simps)
    with Cons.prems(2) True show ?thesis by simp
  next
    case False
    show ?thesis
    proof (cases a)
      case (Arrive n wok)
      define data where "data = take (min n (min remaining SCRATCH_BUFSIZE)) pending"
      show ?thesis
      proof (cases "data = [] \<or> \<not> wok")
        case True
        with Cons.prems False Arrive show ?thesis
          by (auto simp: recv_loop.simps data_def [symmetric] emit_def read_unlink Let_def split: if_splits)
      next
        case ok: False
        let ?sv = "sv\<lparr>disk := fs_write F (disk sv) path (got @ data)\<rparr>"
        have "recv_loop F path (a # as) remaining pending got sv =
            recv_loop F path as (remaining - length data) (drop (length data) pending) (got @ data) ?sv"
          using False Arrive ok by (subst recv_loop.simps) (simp add: data_def [symmetric] Let_def)
        with Cons.prems(1) have run: "recv_loop F path as (remaining - length data) (drop (length data) pending)
            (got @ data) ?sv = Done (r, sv')" by simp
        have "fs_read F (disk ?sv) path = Some (got @ data)" by (simp add: read_write)
        note IH = Cons.IH [OF run this]
        have len: "length data \<le> remaining" by (simp add: data_def)
        have pre: "data = take (length data) pending" unfolding data_def by (rule take_length_take)
        with len have all: "data @ take (remaining - length data) (drop (length data) pending) = take remaining pending"
          by (metis le_add_diff_inverse take_add)
        have enough: "remaining \<le> length pending" if "remaining - length data \<le> length (drop (length data) pending)"
          using that arg_cong [OF pre, of length] by simp
        have frame: "\<forall>q. q \<noteq> path \<longrightarrow> fs_read F (disk sv') q = fs_read F (disk sv) q" "restarted sv' = restarted sv"
          using IH by (simp_all add: read_write)
        show ?thesis
        proof (cases r)
          case None
          with IH frame show ?thesis by simp
        next
          case (Some res)
          from IH [unfolded Some option.case] have res: "fs_read F (disk sv') path = Some res"
            "res = (got @ data) @ take (remaining - length data) (drop (length data) pending)"
            and long: "remaining \<le> length pending" using enough by blast+
          have "res = got @ take remaining pending" using res(2) by (simp only: append_assoc all)
          then show ?thesis unfolding Some option.case using res(1) long frame by blast
        qed
      qed
    next
      case Timeout
      then have "recv_loop F path (a # as) remaining pending got sv = recv_loop F path as remaining pending got sv"
        using False by (subst recv_loop.simps) simp
      with Cons.prems(1) have "recv_loop F path as remaining pending got sv = Done (r, sv')" by simp
      from Cons.IH [OF this Cons.prems(2)] show ?thesis .
    next
      case Broken
      with Cons.prems False show ?thesis
        by (auto simp: recv_loop.simps emit_def read_unlink split: if_splits)
    qed
  qed
qed

lemma finish_upload_done:
  "finish_upload F env p got sv = Some (Done (e, sv')) \<Longrightarrow> disk sv' = disk sv \<and> e = ESP_OK"
  by (auto simp: finish_upload_def answer_def emit_def Let_def split: if_splits Option.bind_splits)

lemma upload_effect:
  assumes up: "upload_post_handler F env n base req sv = Some (Done (e, sv'))"
    and p: "p = base @ path_of (drop 7 (req_uri req))"
  shows "(\<forall>q. q \<noteq> p \<longrightarrow> fs_read F (disk sv') q = fs_read F (disk sv) q) \<and>
    (if e = ESP_OK then fs_read F (disk sv') p = Some (take (content_len req) (req_body req)) \<and>
         content_len req \<le> length (req_body req) \<and> content_len req \<le> MAX_FILE_SIZE
     else fs_read F (disk sv') p = fs_read F (disk sv) p \<or> fs_read F (disk sv') p = None)"
proof -
  have u7: "\<not> length (req_uri req) < 7" using up by (auto simp: upload_post_handler_def)
  show ?thesis
  proof (cases "n < length base + length (path_of (drop 7 (req_uri req))) + 1 \<or> trailing_slash p \<noteq> Some False")
    case True
    with up u7 show ?thesis
      by (auto simp: upload_post_handler_def get_path_path_of p answer_def emit_def Let_def
          split: if_splits Option.bind_splits)
  next
    case False
    then have path: "get_path_from_uri base (drop 7 (req_uri req)) n = Some p" and slash: "trailing_slash p = Some False"
      using p by (simp_all add: get_path_path_of)
    define sv1 where "sv1 = remove_old F p sv"
    have sv1: "fs_read F (disk sv1) q = (if q = p then None else fs_read F (disk sv) q)" for q
      by (auto simp: sv1_def remove_old_def read_unlink)
    show ?thesis
    proof (cases "MAX_FILE_SIZE < content_len req \<or> \<not> can_create env")
      case True
      with up u7 path slash have "disk sv' = disk sv1 \<and> e = ESP_FAIL"
        by (auto simp: upload_post_handler_def sv1_def answer_def emit_def Let_def split: if_splits)
      with sv1 show ?thesis by auto
    next
      case False
      let ?sv2 = "sv1\<lparr>disk := fs_write F (disk sv1) p []\<rparr>"
      obtain r sv3 where rl: "recv_loop F p (arrivals env) (content_len req) (req_body req) [] ?sv2 = Done (r, sv3)"
        and rest: "(case r of None \<Rightarrow> Some (Done (ESP_FAIL, sv3)) | Some got \<Rightarrow> finish_upload F env p got sv3) =
          Some (Done (e, sv'))"
        using up u7 path slash False
        by (auto simp: upload_post_handler_def sv1_def [symmetric] Let_def split: run.splits option.splits)
      have "fs_read F (disk ?sv2) p = Some []" by (simp add: read_write)
      note done_facts = recv_loop_done [OF rl this]
      show ?thesis
      proof (cases r)
        case None
        with done_facts rest sv1 show ?thesis by (auto simp: read_write)
      next
        case (Some got)
        with rest finish_upload_done have "disk sv' = disk sv3" "e = ESP_OK" by auto
        with Some done_facts sv1 False show ?thesis by (auto simp: read_write)
      qed
    qed
  qed
qed

lemma upload_finishes:
  assumes "upload_post_handler F env n base req sv = Some (Done (ESP_OK, sv'))"
  shows "\<exists>got sv3. finish_upload F env (base @ path_of (drop 7 (req_uri req))) got sv3 = Some (Done (ESP_OK, sv')) \<and>
    restarted sv3 = restarted sv"
proof -
  let ?p = "base @ path_of (drop 7 (req_uri req))"
  let ?sv = "(remove_old F ?p sv)\<lparr>disk := fs_write F (disk (remove_old F ?p sv)) ?p []\<rparr>"
  obtain got sv3 where "recv_loop F ?p (arrivals env) (content_len req) (req_body req) [] ?sv = Done (Some got, sv3)"
    and fin: "finish_upload F env ?p got sv3 = Some (Done (ESP_OK, sv'))"
    using assms
    by (auto simp: upload_post_handler_def get_path_path_of answer_def Let_def
        split: if_splits Option.bind_splits run.splits option.splits)
  from recv_loop_done [OF this(1)] have "restarted sv3 = restarted ?sv" by (simp add: read_write)
  also have "\<dots> = restarted sv" by (simp add: remove_old_def)
  finally show ?thesis using fin by blast
qed

lemma upload_ok_path:
  "upload_post_handler F env n base req sv = Some (Done (ESP_OK, sv')) \<Longrightarrow>
    length base + length (path_of (drop 7 (req_uri req))) < n \<and>
    trailing_slash (base @ path_of (drop 7 (req_uri req))) = Some False"
  by (auto simp: upload_post_handler_def get_path_path_of answer_def Let_def split: if_splits Option.bind_splits)

lemma delete_effect:
  assumes "delete_post_handler F n base req sv = Some (Done (e, sv'))"
    and "p = base @ path_of (drop 7 (req_uri req))"
  shows "(\<forall>q. q \<noteq> p \<longrightarrow> fs_read F (disk sv') q = fs_read F (disk sv) q) \<and>
    (if e = ESP_OK then fs_read F (disk sv) p \<noteq> None \<and> fs_read F (disk sv') p = None else disk sv' = disk sv)"
  using assms
  by (auto simp: delete_post_handler_def get_path_path_of answer_def emit_def Let_def read_unlink
      split: if_splits Option.bind_splits)

lemma download_file:
  assumes "fs_read F (disk sv) (base @ path_of (req_uri req)) = Some c"
    and "length base + length (path_of (req_uri req)) < n"
    and "trailing_slash (base @ path_of (req_uri req)) = Some False"
    and "can_open env" and "\<forall>k. chunk_ok env k" and "5 \<le> length base + length (path_of (req_uri req))"
  shows "\<exists>hs. download_get_handler F env n base req sv = Some (Done (ESP_OK, sv\<lparr>calls := calls sv @ hs\<rparr>)) \<and>
    sent_body hs = c \<and> last hs = Last_chunk"
proof -
  have eq: "chunk_ok env = (\<lambda>_. True)" using assms(5) by auto
  obtain hs where hs: "send_chunks (chunk_ok env) 0 c = (hs, True)" "sent_body hs = c"
    using send_chunks_all [of 0 c] unfolding eq by blast
  obtain t where "set_content_type_from_file (base @ path_of (req_uri req)) = Some (Set_type t)"
    using content_type_total [of "base @ path_of (req_uri req)"] assms(6) by auto
  with assms hs have "download_get_handler F env n base req sv =
      Some (Done (ESP_OK, sv\<lparr>calls := calls sv @ (Set_type t # hs @ [Last_chunk])\<rparr>))"
    by (simp add: download_get_handler_def get_path_path_of answer_def emit_def)
  moreover have "sent_body (Set_type t # hs @ [Last_chunk]) = c" using hs(2) by (simp add: sent_body_def)
  ultimately show ?thesis by (metis last_ConsR last_snoc snoc_eq_iff_butlast)
qed

end

interpretation ram: file_store map_fs
  by unfold_locales (simp_all add: map_fs_def)


subsection \<open>Properties\<close>

text \<open>
  C15: an upload is all or nothing. When the handler reports success, the file under the
  requested path holds exactly the announced number of bytes of the request body, which are
  at most 200 KB; when it reports an error the path holds what it held before or nothing.
  No other file is touched, whatever the network and the storage do in between.
\<close>

theorem upload_all_or_nothing:
  assumes "upload_post_handler map_fs env n base req sv = Some (Done (e, sv'))"
  shows "(\<forall>q. q \<noteq> base @ path_of (drop 7 (req_uri req)) \<longrightarrow> disk sv' q = disk sv q) \<and>
    (if e = ESP_OK then disk sv' (base @ path_of (drop 7 (req_uri req))) = Some (take (content_len req) (req_body req)) \<and>
         content_len req \<le> length (req_body req) \<and> content_len req \<le> MAX_FILE_SIZE
     else disk sv' (base @ path_of (drop 7 (req_uri req))) \<in> {disk sv (base @ path_of (drop 7 (req_uri req))), None})"
  using ram.upload_effect [OF assms refl] by (simp add: map_fs_def split: if_splits)

text \<open>An environment in which everything works, and the body arrives in two parts with a timeout between.\<close>

definition good_env :: env where
  "good_env = \<lparr>can_open = True, can_create = True, arrivals = [Arrive 2 True, Timeout, Arrive 9 True],
     chunk_ok = (\<lambda>_. True), dir_entries = (\<lambda>_. None), favicon_ico = [], upload_script = []\<rparr>"

definition upload_example :: request where
  "upload_example = \<lparr>req_uri = ascii ''/upload/a.txt?x'', content_len = 5, req_body = ascii ''hello''\<rparr>"

definition empty_server :: "(u8 list \<rightharpoonup> u8 list) server" where
  "empty_server = \<lparr>disk = Map.empty, calls = [], restarted = False\<rparr>"

lemma upload_example_run:
  "\<exists>sv'. upload_post_handler map_fs good_env 47 (ascii ''/data'') upload_example empty_server =
    Some (Done (ESP_OK, sv'))"
  by (simp add: upload_post_handler_def upload_example_def empty_server_def good_env_def get_path_path_of
      path_of_def ascii_def trailing_slash_def MAX_FILE_SIZE_def SCRATCH_BUFSIZE_def recv_loop.simps map_fs_def
      remove_old_def finish_upload_def scan_pair_def scan_word_def is_space_def answer_def emit_def Let_def)

theorem upload_all_or_nothing_witness:
  "\<exists>sv'. upload_post_handler map_fs good_env 47 (ascii ''/data'') upload_example empty_server =
      Some (Done (ESP_OK, sv')) \<and> disk sv' (ascii ''/data/a.txt'') = Some (ascii ''hello'')"
proof -
  obtain sv' where run: "upload_post_handler map_fs good_env 47 (ascii ''/data'') upload_example empty_server =
    Some (Done (ESP_OK, sv'))" using upload_example_run by blast
  have "ascii ''/data'' @ path_of (drop 7 (req_uri upload_example)) = ascii ''/data/a.txt''"
    by (simp add: upload_example_def path_of_def ascii_def)
  then have "disk sv' (ascii ''/data/a.txt'') = Some (take (content_len upload_example) (req_body upload_example))"
    using upload_all_or_nothing [OF run] by simp
  then show ?thesis using run by (simp add: upload_example_def ascii_def)
qed

text \<open>
  C16: what was uploaded is what a download gets: after a successful upload a GET request for
  the same path is answered with the uploaded bytes, in chunks that end with the empty one.
\<close>

theorem upload_then_download:
  assumes "upload_post_handler map_fs env n base req sv = Some (Done (ESP_OK, sv'))"
    and "path_of (req_uri get) = path_of (drop 7 (req_uri req))"
    and "can_open env'" and "\<forall>k. chunk_ok env' k" and "5 \<le> length base"
  shows "\<exists>hs. download_get_handler map_fs env' n base get sv' = Some (Done (ESP_OK, sv'\<lparr>calls := calls sv' @ hs\<rparr>)) \<and>
    sent_body hs = take (content_len req) (req_body req) \<and> last hs = Last_chunk"
proof -
  have "fs_read map_fs (disk sv') (base @ path_of (req_uri get)) = Some (take (content_len req) (req_body req))"
    using ram.upload_effect [OF assms(1) refl] assms(2) by simp
  moreover have "length base + length (path_of (req_uri get)) < n"
    "trailing_slash (base @ path_of (req_uri get)) = Some False"
    using ram.upload_ok_path [OF assms(1)] assms(2) by simp_all
  ultimately show ?thesis
    using assms(3-5) by (intro ram.download_file) simp_all
qed

theorem upload_then_download_witness:
  "\<exists>sv' hs. upload_post_handler map_fs good_env 47 (ascii ''/data'') upload_example empty_server =
      Some (Done (ESP_OK, sv')) \<and>
    download_get_handler map_fs good_env 47 (ascii ''/data'')
      \<lparr>req_uri = ascii ''/a.txt'', content_len = 0, req_body = []\<rparr> sv' =
      Some (Done (ESP_OK, sv'\<lparr>calls := calls sv' @ hs\<rparr>)) \<and> sent_body hs = ascii ''hello''"
proof -
  let ?get = "\<lparr>req_uri = ascii ''/a.txt'', content_len = 0, req_body = []\<rparr>"
  obtain sv' where run: "upload_post_handler map_fs good_env 47 (ascii ''/data'') upload_example empty_server =
    Some (Done (ESP_OK, sv'))" using upload_example_run by blast
  have "path_of (req_uri ?get) = path_of (drop 7 (req_uri upload_example))"
    by (simp add: upload_example_def path_of_def ascii_def)
  from upload_then_download [OF run this, of good_env] show ?thesis
    using run by (auto simp: good_env_def ascii_def upload_example_def)
qed

text \<open>
  An upload that is refused for its size has already deleted the file it was to replace.
\<close>

theorem oversized_upload_deletes:
  assumes "7 \<le> length (req_uri req)" and "length base + length (path_of (drop 7 (req_uri req))) < n"
    and "trailing_slash (base @ path_of (drop 7 (req_uri req))) = Some False"
    and "MAX_FILE_SIZE < content_len req"
  shows "upload_post_handler map_fs env n base req sv = Some (Done (ESP_FAIL,
    sv\<lparr>disk := (disk sv)(base @ path_of (drop 7 (req_uri req)) := None),
      calls := calls sv @ [Resp_err 400 (ascii ''File size must be less than 200KB!'')]\<rparr>))"
proof -
  have none: "d(p := None) = d" if "d p = None" for d :: "u8 list \<rightharpoonup> u8 list" and p
    using that by (rule fun_upd_idem)
  show ?thesis
    using assms
    by (auto simp: upload_post_handler_def get_path_path_of remove_old_def answer_def emit_def map_fs_def none)
qed

theorem oversized_upload_deletes_witness:
  "upload_post_handler map_fs good_env 47 (ascii ''/data'')
      \<lparr>req_uri = ascii ''/upload/a'', content_len = 300000, req_body = []\<rparr>
      (empty_server\<lparr>disk := [ascii ''/data/a'' \<mapsto> [1]]\<rparr>) =
    Some (Done (ESP_FAIL, empty_server\<lparr>disk := Map.empty,
      calls := [Resp_err 400 (ascii ''File size must be less than 200KB!'')]\<rparr>))"
  by (subst oversized_upload_deletes)
    (simp_all add: path_of_def ascii_def trailing_slash_def MAX_FILE_SIZE_def empty_server_def)

text \<open>
  An uploaded file, of whatever name, that starts with a word of 128 or more bytes
  overflows a buffer on the stack of the handler: after the transfer the file is read with
  \<^verbatim>\<open>fscanf\<close> and \<^verbatim>\<open>%s\<close> into 128 bytes. A shorter first word followed by the end of the file does not.
\<close>

theorem upload_word_overflow:
  assumes "7 \<le> length (req_uri req)" and "length base + length (path_of (drop 7 (req_uri req))) < n"
    and "trailing_slash (base @ path_of (drop 7 (req_uri req))) = Some False"
    and "can_open env" and "can_create env" and "arrivals env = [Arrive (length (req_body req)) True]"
    and "content_len req = length (req_body req)" and "length (req_body req) \<le> SCRATCH_BUFSIZE"
    and "req_body req \<noteq> []" and "\<forall>c \<in> set (req_body req). \<not> is_space c"
  shows "upload_post_handler map_fs env n base req sv = None \<longleftrightarrow> 128 \<le> length (req_body req)"
proof -
  let ?p = "base @ path_of (drop 7 (req_uri req))"
  have small: "\<not> MAX_FILE_SIZE < content_len req"
    using assms(7,8) by (simp add: MAX_FILE_SIZE_def SCRATCH_BUFSIZE_def)
  have rl: "\<exists>sv2. recv_loop map_fs ?p (arrivals env) (content_len req) (req_body req) [] sv1 = Done (Some (req_body req), sv2)" for sv1
    using assms(6-9) by (simp add: recv_loop.simps Let_def min.absorb1)
  have scan: "scan_pair (req_body req) = (if 128 \<le> length (req_body req) then None else Some 1)"
  proof -
    have d: "dropWhile is_space (req_body req) = req_body req"
      using assms(9,10) by (cases "req_body req") auto
    have t: "takeWhile (\<lambda>c. \<not> is_space c) (req_body req) = req_body req"
      "dropWhile (\<lambda>c. \<not> is_space c) (req_body req) = []"
      using assms(10) by (auto simp: takeWhile_eq_all_conv)
    show ?thesis using assms(9) by (simp add: scan_pair_def scan_word_def d t Let_def)
  qed
  obtain sv2 where "recv_loop map_fs ?p (arrivals env) (content_len req) (req_body req) []
      ((remove_old map_fs ?p sv)\<lparr>disk := fs_write map_fs (disk (remove_old map_fs ?p sv)) ?p []\<rparr>) =
      Done (Some (req_body req), sv2)" using rl by blast
  then show ?thesis
    using assms(1-5) small scan
    by (simp add: upload_post_handler_def get_path_path_of finish_upload_def answer_def Let_def)
qed

theorem upload_word_overflow_witness:
  "upload_post_handler map_fs (good_env\<lparr>arrivals := [Arrive 128 True]\<rparr>) 47 (ascii ''/data'')
     \<lparr>req_uri = ascii ''/upload/a'', content_len = 128, req_body = replicate 128 0x41\<rparr> empty_server = None"
  by (subst upload_word_overflow)
    (simp_all add: path_of_def ascii_def trailing_slash_def SCRATCH_BUFSIZE_def good_env_def is_space_def)

text \<open>
  A successful upload of the configuration file is answered twice: a first complete
  response, and then the status, the location and the body of a second one for the same
  request. The contents are never checked: the response is the same for any of them.
\<close>

theorem config_upload_answers_twice:
  assumes "upload_post_handler map_fs env n (ascii ''/data'') req sv = Some (Done (ESP_OK, sv'))"
    and "path_of (drop 7 (req_uri req)) = ascii ''/config.json''"
  shows "\<exists>before. calls sv' = before @ [Resp (ascii ''JSON ok''), Set_status (ascii ''303 See Other''),
    Set_hdr (ascii ''Location'') (ascii ''/''), Resp (ascii ''File uploaded successfully'')] \<and> restarted sv' = restarted sv"
proof -
  obtain got sv3 where fin: "finish_upload map_fs env (ascii ''/data'' @ ascii ''/config.json'') got sv3 = Some (Done (ESP_OK, sv'))"
    and r: "restarted sv3 = restarted sv"
    using ram.upload_finishes [OF assms(1)] assms(2) by auto
  have "strcmp (ascii ''/data'' @ ascii ''/config.json'') (ascii ''/data/wifi.csv'') \<noteq> 0"
    "strcmp (ascii ''/data'' @ ascii ''/config.json'') (ascii ''/data/config.json'') = 0"
    by (simp_all add: ascii_def)
  with fin r show ?thesis
    by (auto simp: finish_upload_def answer_def emit_def Let_def split: if_splits Option.bind_splits)
qed

theorem config_upload_answers_twice_witness:
  "\<exists>sv' before. upload_post_handler map_fs good_env 47 (ascii ''/data'')
      \<lparr>req_uri = ascii ''/upload/config.json'', content_len = 5, req_body = ascii ''hello''\<rparr> empty_server =
      Some (Done (ESP_OK, sv')) \<and>
    calls sv' = before @ [Resp (ascii ''JSON ok''), Set_status (ascii ''303 See Other''),
      Set_hdr (ascii ''Location'') (ascii ''/''), Resp (ascii ''File uploaded successfully'')]"
proof -
  let ?req = "\<lparr>req_uri = ascii ''/upload/config.json'', content_len = 5, req_body = ascii ''hello''\<rparr>"
  have "\<exists>sv'. upload_post_handler map_fs good_env 47 (ascii ''/data'') ?req empty_server = Some (Done (ESP_OK, sv'))"
    by (simp add: upload_post_handler_def empty_server_def good_env_def get_path_path_of
        path_of_def ascii_def trailing_slash_def MAX_FILE_SIZE_def SCRATCH_BUFSIZE_def recv_loop.simps map_fs_def
        remove_old_def finish_upload_def scan_pair_def scan_word_def is_space_def answer_def emit_def Let_def)
  moreover have "path_of (drop 7 (req_uri ?req)) = ascii ''/config.json''"
    by (simp add: path_of_def ascii_def)
  ultimately show ?thesis using config_upload_answers_twice by blast
qed

text \<open>
  Deleting works: a delete request that is answered with success removed a file that
  was there, and only that one; any other answer leaves all files alone.
\<close>

theorem delete_removes:
  assumes "delete_post_handler map_fs n base req sv = Some (Done (e, sv'))"
  shows "if e = ESP_OK
    then disk sv (base @ path_of (drop 7 (req_uri req))) \<noteq> None \<and>
      disk sv' = (disk sv)(base @ path_of (drop 7 (req_uri req)) := None)
    else disk sv' = disk sv"
  using ram.delete_effect [OF assms refl] by (auto simp: map_fs_def split: if_splits)

theorem delete_removes_witness:
  "\<exists>sv'. delete_post_handler map_fs 47 (ascii ''/data'') \<lparr>req_uri = ascii ''/delete/a'', content_len = 0, req_body = []\<rparr>
      (empty_server\<lparr>disk := [ascii ''/data/a'' \<mapsto> [1]]\<rparr>) = Some (Done (ESP_OK, sv')) \<and> disk sv' = Map.empty"
proof -
  let ?sv = "empty_server\<lparr>disk := [ascii ''/data/a'' \<mapsto> [1]]\<rparr>"
  let ?req = "\<lparr>req_uri = ascii ''/delete/a'', content_len = 0, req_body = []\<rparr>"
  have p: "ascii ''/data'' @ path_of (drop 7 (req_uri ?req)) = ascii ''/data/a''"
    by (simp add: path_of_def ascii_def)
  have "\<exists>sv'. delete_post_handler map_fs 47 (ascii ''/data'') ?req ?sv = Some (Done (ESP_OK, sv'))"
    by (simp add: delete_post_handler_def get_path_path_of path_of_def ascii_def trailing_slash_def map_fs_def
        answer_def emit_def)
  then obtain sv' where run: "delete_post_handler map_fs 47 (ascii ''/data'') ?req ?sv = Some (Done (ESP_OK, sv'))"
    by blast
  from delete_removes [OF this] have "disk sv' = (disk ?sv)(ascii ''/data/a'' := None)" using p by simp
  then show ?thesis using run by (simp add: empty_server_def)
qed

text \<open>
  A start of the server that fails because the HTTP server does not start cannot be
  repeated: every later call finds the pointer of the first one and returns an error.
\<close>

theorem start_file_server_no_retry:
  assumes "start_file_server n True False base s = (ESP_FAIL, s')"
  shows "start_file_server n a b base' s' = (ESP_ERR_INVALID_STATE, s')"
  using assms by (auto simp: start_file_server_def Let_def split: if_splits)

theorem start_file_server_no_retry_witness:
  "\<exists>s'. start_file_server 15 True False (ascii ''/data'') \<lparr>server_data = None, routes = []\<rparr> = (ESP_FAIL, s') \<and>
     start_file_server 15 True True (ascii ''/data'') s' = (ESP_ERR_INVALID_STATE, s')"
proof -
  obtain s' where s': "start_file_server 15 True False (ascii ''/data'') \<lparr>server_data = None, routes = []\<rparr> = (ESP_FAIL, s')"
    by (simp add: start_file_server_def)
  from start_file_server_no_retry [OF this] s' show ?thesis by blast
qed

end
