(* ===== verification/Solar.thy ===== *)
theory Solar
  imports FloatOps
begin

text \<open>
  The solar tracker, solar_sys.hpp and vec.hpp at \<^verbatim>\<open>T = float\<close>: sensors and servos refer to shared
  atomic variables, which are a store from addresses to values; a servo reads and writes its
  variables through the store. Every operation on numbers is the one of \<^verbatim>\<open>float\<close>. An \<^verbatim>\<open>at\<close> out of
  range throws: the value \<^term>\<open>None\<close>.
\<close>

type_synonym addr = nat
type_synonym store = "addr \<Rightarrow> dbl"

subsection \<open>Numbers\<close>

abbreviation "F32 \<equiv> binary32"
abbreviation "fadd \<equiv> f_add binary32"
abbreviation "fsub \<equiv> f_sub binary32"
abbreviation "fmul \<equiv> f_mul binary32"
abbreviation "fdiv \<equiv> f_div binary32"
abbreviation "fint \<equiv> of_integer binary32"

text \<open>\<^verbatim>\<open>x < k\<close> and \<^verbatim>\<open>x > k\<close> for a small integer.\<close>

definition lt_int :: "dbl \<Rightarrow> int \<Rightarrow> bool" where
  "lt_int x k \<longleftrightarrow> dbl_le_int x k \<and> \<not> dbl_ge_int x k"

definition gt_int :: "dbl \<Rightarrow> int \<Rightarrow> bool" where
  "gt_int x k \<longleftrightarrow> dbl_ge_int x k \<and> \<not> dbl_le_int x k"

subsection \<open>Vectors\<close>

datatype vec3 = Vec3 (vx: dbl) (vy: dbl) (vz: dbl)

definition vec_zero :: vec3 where
  "vec_zero = Vec3 (fint 0) (fint 0) (fint 0)"

definition vec_add_scalar :: "vec3 \<Rightarrow> dbl \<Rightarrow> vec3" where
  "vec_add_scalar w v = Vec3 (fadd (vx w) v) (fadd (vy w) v) (fadd (vz w) v)"

definition vec_mul_scalar :: "vec3 \<Rightarrow> dbl \<Rightarrow> vec3" where
  "vec_mul_scalar w v = Vec3 (fmul (vx w) v) (fmul (vy w) v) (fmul (vz w) v)"

definition vec_add :: "vec3 \<Rightarrow> vec3 \<Rightarrow> vec3" where
  "vec_add w v = Vec3 (fadd (vx w) (vx v)) (fadd (vy w) (vy v)) (fadd (vz w) (vz v))"

definition vec_sub :: "vec3 \<Rightarrow> vec3 \<Rightarrow> vec3" where
  "vec_sub w v = Vec3 (fsub (vx w) (vx v)) (fsub (vy w) (vy v)) (fsub (vz w) (vz v))"

definition vec_mul :: "vec3 \<Rightarrow> vec3 \<Rightarrow> vec3" where
  "vec_mul w v = Vec3 (fmul (vx w) (vx v)) (fmul (vy w) (vy v)) (fmul (vz w) (vz v))"

definition vec_div :: "vec3 \<Rightarrow> vec3 \<Rightarrow> vec3" where
  "vec_div w v = Vec3 (fdiv (vx w) (vx v)) (fdiv (vy w) (vy v)) (fdiv (vz w) (vz v))"

definition get_mod :: "vec3 \<Rightarrow> dbl" where
  "get_mod v = f_sqrt F32 (fadd (fadd (fmul (vx v) (vx v)) (fmul (vy v) (vy v))) (fmul (vz v) (vz v)))"

definition get_mod_between :: "vec3 \<Rightarrow> vec3 \<Rightarrow> dbl" where
  "get_mod_between v w = get_mod (vec_sub v w)"

definition normalize :: "vec3 \<Rightarrow> vec3" where
  "normalize v = vec_mul_scalar v (fdiv (fint 1) (get_mod v))"

definition set_mod :: "vec3 \<Rightarrow> dbl \<Rightarrow> vec3" where
  "set_mod v md = vec_mul_scalar v (fdiv md (get_mod v))"

definition get_scalar :: "vec3 \<Rightarrow> u8 \<Rightarrow> dbl" where
  "get_scalar v sel = (if sel = 0 then vx v else if sel = 1 then vy v else vz v)"

subsection \<open>Servo, sensor and panel\<close>

record servo =
  servo_src :: addr
  servo_target :: addr
  axis_base :: dbl
  axis_top :: dbl
  axis_half :: dbl
  axis_range :: dbl
  full_360 :: bool
  reverse :: bool
  set_reverse :: bool

definition new_Servo :: "addr \<Rightarrow> addr \<Rightarrow> dbl \<Rightarrow> dbl \<Rightarrow> bool \<Rightarrow> bool \<Rightarrow> servo" where
  "new_Servo src target abase atop rv set_rev =
     \<lparr>servo_src = src, servo_target = target, axis_base = abase, axis_top = atop,
      axis_half = fdiv (fadd abase atop) (fint 2), axis_range = f_round F32 (fsub atop abase),
      full_360 = dbl_le (lit F32 3599 10) (fsub atop abase), reverse = rv, set_reverse = set_rev\<rparr>"

definition inc_offset :: "servo \<Rightarrow> dbl \<Rightarrow> store \<Rightarrow> store \<times> servo" where
  "inc_offset sv inc st = (let val = st (servo_src sv) in
     if \<not> full_360 sv then
       let target = (if lt_int inc 0 then fsub val (fmul (axis_top sv) (f_neg inc))
                     else fadd val (fmul (axis_top sv) inc));
           target = (if lt_int target 0 then fint 0
                     else if gt_int target 180 then lit F32 17999 100 else target);
           crossed = (set_reverse sv \<and>
             (dbl_lt val (axis_half sv) \<and> dbl_lt (axis_half sv) target \<or>
              dbl_lt (axis_half sv) val \<and> dbl_lt target (axis_half sv)))
       in (st(servo_target sv := target), if crossed then sv\<lparr>reverse := \<not> reverse sv\<rparr> else sv)
     else
       let target = fadd val (fmul (fint 180) inc);
           target = (if lt_int target 0 then fadd target (fint 360)
                     else if gt_int target 360 then fsub target (fint 360) else target);
           target = (if f_eq target (fint 360) then fint 0 else target)
       in (st(servo_target sv := target), sv))"

definition reverse_stat :: "servo \<Rightarrow> bool" where
  "reverse_stat sv = reverse sv"

record ldr =
  ldr_src :: addr
  ldr_loc :: vec3

record panel =
  panel_src :: addr
  panel_width :: dbl
  panel_height :: dbl

subsection \<open>The system\<close>

record solar_sys =
  sensors :: "ldr list"
  servos :: "servo list"
  the_panel :: panel
  x_i_factor :: "dbl list"
  x_f_factor :: "dbl list"
  y_i_factor :: "dbl list"
  y_f_factor :: "dbl list"
  x_i :: dbl
  x_f :: dbl
  y_i :: dbl
  y_f :: dbl
  max_analog_value :: dbl

text \<open>The factors of the sensors for one edge of the panel: the total of their distances from
  the middle of the edge, and then for each sensor 1 less its share.\<close>

definition edge_factors :: "ldr list \<Rightarrow> vec3 \<Rightarrow> dbl list" where
  "edge_factors ls mid = (let total = foldl (\<lambda>a l. fadd a (get_mod_between (ldr_loc l) mid)) (fint 0) ls
     in map (\<lambda>l. fsub (fint 1) (fdiv (get_mod_between (ldr_loc l) mid) total)) ls)"

definition initial_calc_imaginary_ldr_factor :: "solar_sys \<Rightarrow> solar_sys" where
  "initial_calc_imaginary_ldr_factor s = (let
     x = panel_width (the_panel s); y = panel_height (the_panel s);
     x_h = fdiv x (fint 2); y_h = fdiv y (fint 2); z = fint 0
   in s\<lparr>x_i_factor := x_i_factor s @ edge_factors (sensors s) (Vec3 z y_h z),
        x_f_factor := x_f_factor s @ edge_factors (sensors s) (Vec3 x y_h z),
        y_i_factor := y_i_factor s @ edge_factors (sensors s) (Vec3 x_h z z),
        y_f_factor := y_f_factor s @ edge_factors (sensors s) (Vec3 x_h y z)\<rparr>)"

text \<open>The constructor leaves the four sums unset; every reader sets them first. Here they start at 0.\<close>

definition new_Virtual_Solar_sys :: "ldr list \<Rightarrow> servo list \<Rightarrow> panel \<Rightarrow> dbl \<Rightarrow> solar_sys" where
  "new_Virtual_Solar_sys ls svs p mav = initial_calc_imaginary_ldr_factor
     \<lparr>sensors = ls, servos = svs, the_panel = p, x_i_factor = [], x_f_factor = [], y_i_factor = [],
      y_f_factor = [], x_i = fint 0, x_f = fint 0, y_i = fint 0, y_f = fint 0, max_analog_value = mav\<rparr>"

text \<open>The readings weighted with the factors of one edge; \<open>at\<close> throws when a factor is missing.\<close>

fun weighted :: "ldr list \<Rightarrow> dbl list \<Rightarrow> store \<Rightarrow> dbl \<Rightarrow> dbl option" where
  "weighted [] fs st acc = Some acc"
| "weighted (l # ls) [] st acc = None"
| "weighted (l # ls) (f # fs) st acc = weighted ls fs st (fadd acc (fmul (st (ldr_src l)) f))"

definition recalc_imaginary_ldr_value :: "store \<Rightarrow> solar_sys \<Rightarrow> solar_sys option" where
  "recalc_imaginary_ldr_value st s = do {
     xi \<leftarrow> weighted (sensors s) (x_i_factor s) st (fint 0);
     xf \<leftarrow> weighted (sensors s) (x_f_factor s) st (fint 0);
     yi \<leftarrow> weighted (sensors s) (y_i_factor s) st (fint 0);
     yf \<leftarrow> weighted (sensors s) (y_f_factor s) st (fint 0);
     Some (s\<lparr>x_i := xi, x_f := xf, y_i := yi, y_f := yf\<rparr>) }"

text \<open>One servo, \<^verbatim>\<open>servo.at(i).inc_offset(d)\<close>.\<close>

definition move_servo :: "nat \<Rightarrow> dbl \<Rightarrow> store \<times> solar_sys \<Rightarrow> (store \<times> solar_sys) option" where
  "move_servo i d r = (case r of (st, s) \<Rightarrow>
     if i < length (servos s)
     then case inc_offset (servos s ! i) d st of (st', sv) \<Rightarrow> Some (st', s\<lparr>servos := (servos s)[i := sv]\<rparr>)
     else None)"

definition enhance_focus :: "store \<Rightarrow> solar_sys \<Rightarrow> (store \<times> solar_sys) option" where
  "enhance_focus st s0 = do {
     s \<leftarrow> recalc_imaginary_ldr_value st s0;
     let x_diff = fsub (x_i s) (x_f s);
     let y_diff = fsub (y_i s) (y_f s);
     r \<leftarrow> (if dbl_ge_int (dbl_abs x_diff) 175 then
         let d = fdiv x_diff (fadd (x_i s) (x_f s)) in
         if length (servos s) < 2 then None
         else move_servo 0 (if reverse_stat (servos s ! 1) then f_neg d else d) (st, s)
       else Some (st, s));
     if dbl_ge_int (dbl_abs y_diff) 175
     then move_servo 1 (fdiv y_diff (fadd (y_i s) (y_f s))) r
     else Some r }"

definition ldr_balance_stat :: "store \<Rightarrow> solar_sys \<Rightarrow> (bool \<times> solar_sys) option" where
  "ldr_balance_stat st s0 = do {
     s \<leftarrow> recalc_imaginary_ldr_value st s0;
     Some (lt_int (dbl_abs (fsub (x_i s) (x_f s))) 175 \<and> lt_int (dbl_abs (fsub (y_i s) (y_f s))) 175, s) }"

text \<open>The task: a round of \<open>enhance_focus\<close> every second, between which the other threads change
  the variables.\<close>

fun task_rounds :: "(store \<Rightarrow> store) list \<Rightarrow> store \<times> solar_sys \<Rightarrow> (store \<times> solar_sys) option" where
  "task_rounds [] r = Some r"
| "task_rounds (w # ws) (st, s) = Option.bind (enhance_focus (w st) s) (task_rounds ws)"

text \<open>Simulation of a light source, misc.hpp: every sensor gets its variable set.\<close>

definition set_virtual_luminance :: "vec3 \<Rightarrow> dbl \<Rightarrow> dbl \<Rightarrow> ldr list \<Rightarrow> store \<Rightarrow> store" where
  "set_virtual_luminance source luminosity tipical_dist ls st =
     foldl (\<lambda>st l. st(ldr_src l := fdiv (fmul (fmul (fsub (fint 1) (dbl_to_float (lit binary64 1 1000))) luminosity) tipical_dist)
       (get_mod_between (ldr_loc l) source))) st ls"

subsection \<open>Values between integers\<close>

definition between :: "int \<Rightarrow> int \<Rightarrow> dbl \<Rightarrow> bool" where
  "between a b x \<longleftrightarrow> dbl_ge_int x a \<and> dbl_le_int x b"

definition nan_or_between :: "int \<Rightarrow> int \<Rightarrow> dbl \<Rightarrow> bool" where
  "nan_or_between a b x \<longleftrightarrow> x = NaN \<or> between a b x"

lemma between_finite: "between a b x \<Longrightarrow> is_finite_f x"
  by (auto simp: between_def intro: finite_of_bounds)

lemma between_not_nan: "between a b x \<Longrightarrow> x \<noteq> NaN"
  by (auto simp: between_def)

lemma between_mono: "between a b x \<Longrightarrow> c \<le> a \<Longrightarrow> b \<le> d \<Longrightarrow> between c d x"
  by (auto simp: between_def intro: cmp_int_mono)

lemma int_cmp_val:
  "dbl_ge_int (Fin s m e) k \<longleftrightarrow> of_int k \<le> val (Fin s m e)"
  "dbl_le_int (Fin s m e) k \<longleftrightarrow> val (Fin s m e) \<le> of_int k"
proof -
  define g where "g = min e 0"
  have g: "g \<le> e" "g \<le> 0" by (simp_all add: g_def)
  define A where "A = align g s m e"
  have v: "val (Fin s m e) = of_int A / 2 ^ nat (- g)"
    unfolding align_val [OF g(1)] A_def using g(2) by (simp add: powi_nat)
  have "(if 0 \<le> g then k \<le> A * 2 ^ nat g else k * 2 ^ nat (- g) \<le> A) \<longleftrightarrow> k * 2 ^ nat (- g) \<le> A"
    "(if 0 \<le> g then A * 2 ^ nat g \<le> k else A \<le> k * 2 ^ nat (- g)) \<longleftrightarrow> A \<le> k * 2 ^ nat (- g)"
    using g(2) by auto
  moreover have "k * 2 ^ nat (- g) \<le> A \<longleftrightarrow> of_int k * 2 ^ nat (- g) \<le> (of_int A :: real)"
    "A \<le> k * 2 ^ nat (- g) \<longleftrightarrow> of_int A \<le> (of_int k * 2 ^ nat (- g) :: real)"
    using of_int_le_iff [of "k * 2 ^ nat (- g)" A, where 'a = real]
      of_int_le_iff [of A "k * 2 ^ nat (- g)", where 'a = real] by simp_all
  ultimately show "dbl_ge_int (Fin s m e) k \<longleftrightarrow> of_int k \<le> val (Fin s m e)"
    "dbl_le_int (Fin s m e) k \<longleftrightarrow> val (Fin s m e) \<le> of_int k"
    unfolding align_cmp [OF g(1)] v A_def [symmetric] by (simp_all add: field_simps)
qed

lemma between_val: "is_finite_f x \<Longrightarrow> between a b x \<longleftrightarrow> of_int a \<le> val x \<and> val x \<le> of_int b"
  by (cases x) (simp_all add: between_def int_cmp_val del: dbl_ge_int.simps dbl_le_int.simps val.simps)

lemma ge_int_trans: "dbl_ge_int x k \<Longrightarrow> dbl_le x y \<Longrightarrow> dbl_ge_int y k"
proof (cases x; cases y)
  fix s m e t n f assume "dbl_ge_int x k" "dbl_le x y" and xy: "x = Fin s m e" "y = Fin t n f"
  then show "dbl_ge_int y k" unfolding xy int_cmp_val dbl_le_val by linarith
qed auto

lemma between_0_nonneg: "between 0 b x \<Longrightarrow> nonneg x"
  by (cases x) (auto simp: between_def signed_def mult_le_0_iff split: if_splits)

lemma fint_between: "\<bar>k\<bar> \<le> 2 ^ 24 \<Longrightarrow> between k k (fint k)"
  by (simp add: between_def of_integer_bounds)

lemma fint_cmp:
  assumes "\<bar>k\<bar> \<le> 2 ^ 24"
  shows "dbl_ge_int (fint k) j \<longleftrightarrow> j \<le> k" and "dbl_le_int (fint k) j \<longleftrightarrow> k \<le> j"
proof -
  have b: "between k k (fint k)" by (rule fint_between [OF assms])
  have "is_finite_f (fint k)" by (rule between_finite [OF b])
  then obtain s m e where f: "fint k = Fin s m e" by (cases "fint k") auto
  have "val (Fin s m e) = of_int k" using b unfolding between_def f int_cmp_val by linarith
  then show "dbl_ge_int (fint k) j \<longleftrightarrow> j \<le> k" and "dbl_le_int (fint k) j \<longleftrightarrow> k \<le> j"
    unfolding f int_cmp_val by simp_all
qed

lemma fadd_between:
  "between a b x \<Longrightarrow> between c d y \<Longrightarrow> \<bar>a + c\<bar> \<le> 2 ^ 24 \<Longrightarrow> \<bar>b + d\<bar> \<le> 2 ^ 24 \<Longrightarrow> between (a + c) (b + d) (fadd x y)"
  using f_add_bounds [of binary32 x y a c] f_add_bounds [of binary32 x y b d] between_finite
  by (auto simp: between_def)

lemma f_neg_between: "between a b (f_neg x) \<longleftrightarrow> between (- b) (- a) x"
proof (cases x)
  case (Fin s m e)
  have "val (Fin (\<not> s) m e) = - val (Fin s m e)" by (simp add: signed_def)
  then show ?thesis by (auto simp: Fin between_val simp del: val.simps)
qed (auto simp: between_def)

lemma fsub_between:
  "between a b x \<Longrightarrow> between c d y \<Longrightarrow> \<bar>a - d\<bar> \<le> 2 ^ 24 \<Longrightarrow> \<bar>b - c\<bar> \<le> 2 ^ 24 \<Longrightarrow> between (a - d) (b - c) (fsub x y)"
  using fadd_between [of a b x "- d" "- c" "f_neg y"] by (simp add: f_sub_def f_neg_between)

lemma mag_between: "mag_le x k \<longleftrightarrow> between (- int k) (int k) x"
  by (auto simp: mag_le_int between_def)

lemma fmul_between:
  assumes "between (- int a) (int a) x" and "between (- int b) (int b) y" and "a * b \<le> 2 ^ 24"
  shows "between (- int (a * b)) (int (a * b)) (fmul x y)"
  using assms f_mul_mag [of binary32 a b x y] by (simp add: mag_between)

lemma fmul_nonneg: "nonneg x \<Longrightarrow> nonneg y \<Longrightarrow> dbl_ge_int (fmul x y) 0"
proof (cases x; cases y)
  fix s m e t n f assume xy: "x = Fin s m e" "y = Fin t n f" and nn: "nonneg x" "nonneg y"
  then have "0 \<le> signed (s \<noteq> t) (m * n)" by (auto simp: signed_def)
  then show "dbl_ge_int (fmul x y) 0"
    using scaled_ratio_bounds(2) [of binary32 1 0 "e + f" "s \<noteq> t" "m * n"] by (simp add: xy)
qed auto

lemma fmul_between_0:
  assumes "between 0 (int a) x" and "between 0 (int b) y" and "a * b \<le> 2 ^ 24"
  shows "between 0 (int (a * b)) (fmul x y)"
proof -
  have "between (- int (a * b)) (int (a * b)) (fmul x y)"
    using assms by (intro fmul_between) (auto intro: between_mono)
  moreover have "dbl_ge_int (fmul x y) 0" using assms by (intro fmul_nonneg) (auto intro: between_0_nonneg)
  ultimately show ?thesis by (simp add: between_def)
qed

subsection \<open>One step of a servo\<close>

text \<open>The interval to which \<^verbatim>\<open>inc_offset\<close> limits a target: 0 to the constant 180, not the axis of the
  servo, or a full turn.\<close>

definition angle_clamped :: "servo \<Rightarrow> dbl \<Rightarrow> bool" where
  "angle_clamped sv t \<longleftrightarrow> (if full_360 sv then between 0 360 t \<and> \<not> dbl_ge_int t 360 else between 0 180 t)"

text \<open>The axis of a servo, and whether it contains that interval.\<close>

definition in_axis :: "servo \<Rightarrow> dbl \<Rightarrow> bool" where
  "in_axis sv t \<longleftrightarrow> dbl_le (axis_base sv) t \<and> dbl_le t (axis_top sv)"

definition axis_covers :: "servo \<Rightarrow> bool" where
  "axis_covers sv \<longleftrightarrow> dbl_le_int (axis_base sv) 0 \<and> dbl_ge_int (axis_top sv) (if full_360 sv then 360 else 180)"

lemma le_via_int: "dbl_le_int x k \<Longrightarrow> dbl_ge_int y k \<Longrightarrow> dbl_le x y"
proof (cases x; cases y)
  fix s m e t n f assume "dbl_le_int x k" "dbl_ge_int y k" and xy: "x = Fin s m e" "y = Fin t n f"
  then show "dbl_le x y" unfolding xy int_cmp_val dbl_le_val by linarith
qed auto

lemma clamped_in_axis:
  assumes "axis_covers sv" and "angle_clamped sv t"
  shows "in_axis sv t"
  using assms le_via_int [of "axis_base sv" 0 t] le_via_int [of t 180 "axis_top sv"] le_via_int [of t 360 "axis_top sv"]
  by (auto simp: in_axis_def axis_covers_def angle_clamped_def between_def split: if_splits)

lemma cmp_f_eq: "between 0 360 t \<Longrightarrow> f_eq t (fint 360) \<longleftrightarrow> dbl_ge_int t 360"
proof -
  assume t: "between 0 360 t"
  have i: "between 360 360 (fint 360)" by (rule fint_between) simp
  have fin: "is_finite_f t" "is_finite_f (fint 360)" using t i between_finite by blast+
  then obtain s m e u n f where tf: "t = Fin s m e" "fint 360 = Fin u n f" by (cases t; cases "fint 360") auto
  show ?thesis
    using t i unfolding f_eq_def tf dbl_le_val int_cmp_val by (auto simp: between_val simp del: val.simps)
qed

lemma inc_offset_angle:
  assumes v: "angle_clamped sv (st (servo_src sv))" and top: "is_finite_f (axis_top sv)"
    and inc: "between (- 1) 1 inc"
  shows "angle_clamped sv (fst (inc_offset sv inc st) (servo_target sv))"
proof (cases "full_360 sv")
  case False
  have fv: "is_finite_f (st (servo_src sv))" using v False by (auto simp: angle_clamped_def intro: between_finite)
  have fi: "is_finite_f inc" "is_finite_f (f_neg inc)" using between_finite [OF inc] by simp_all
  have nn: "(if lt_int inc 0 then fsub (st (servo_src sv)) (fmul (axis_top sv) (f_neg inc))
        else fadd (st (servo_src sv)) (fmul (axis_top sv) inc)) \<noteq> NaN"
    using fv fi top by (simp add: f_sub_not_nan f_add_not_nan f_mul_not_nan)
  have c: "between 0 180 (if lt_int t 0 then fint 0 else if gt_int t 180 then lit F32 17999 100 else t)" if "t \<noteq> NaN" for t
  proof -
    have "between 0 180 (fint 0)" by (rule between_mono [OF fint_between]) simp_all
    moreover have "between 0 180 (lit F32 17999 100)"
      using round_to_bounds [of binary32 24 "- 149" 104 100 180 False 17999]
        round_to_bounds [of binary32 24 "- 149" 104 100 0 False 17999]
      by (simp add: between_def lit_def binary32_def signed_def)
    ultimately show ?thesis
      using cmp_int_linear [OF that] by (auto simp: lt_int_def gt_int_def between_def)
  qed
  show ?thesis using False c [OF nn] by (simp add: inc_offset_def angle_clamped_def Let_def)
next
  case True
  define t0 where "t0 = fadd (st (servo_src sv)) (fmul (fint 180) inc)"
  define t1 where "t1 = (if lt_int t0 0 then fadd t0 (fint 360) else if gt_int t0 360 then fsub t0 (fint 360) else t0)"
  have i360: "between 360 360 (fint 360)" by (rule fint_between) simp
  have "between (- 180) 180 (fmul (fint 180) inc)"
    using fmul_between [of 180 "fint 180" 1 inc] inc between_mono [OF fint_between [of 180], of "- 180" 180] by simp
  moreover have "between 0 360 (st (servo_src sv))" using v True by (simp add: angle_clamped_def)
  ultimately have t0: "between (- 180) 540 t0" unfolding t0_def using fadd_between by fastforce
  have t1: "between 0 360 t1"
  proof -
    have "between 0 360 (fadd t0 (fint 360))" if "lt_int t0 0"
    proof -
      have "between (- 180) 0 t0" using that t0 by (simp add: lt_int_def between_def)
      from fadd_between [OF this i360] show ?thesis by (simp add: between_mono)
    qed
    moreover have "between 0 360 (fsub t0 (fint 360))" if "gt_int t0 360"
    proof -
      have "between 360 540 t0" using that t0 by (simp add: gt_int_def between_def)
      from fsub_between [OF this i360] show ?thesis by (simp add: between_mono)
    qed
    ultimately show ?thesis
      using t0 cmp_int_linear [OF between_not_nan [OF t0]] by (auto simp: t1_def lt_int_def gt_int_def between_def)
  qed
  have "between 0 0 (fint 0)" by (rule fint_between) simp
  then have "between 0 360 (fint 0)" "\<not> dbl_ge_int (fint 0) 360"
    using between_val [of "fint 0"] between_finite by (auto intro: between_mono simp: of_integer_def round_to_def binary32_def signed_def)
  then have "angle_clamped sv (if f_eq t1 (fint 360) then fint 0 else t1)"
    using t1 cmp_f_eq [OF t1] True by (simp add: angle_clamped_def)
  moreover have "fst (inc_offset sv inc st) (servo_target sv) = (if f_eq t1 (fint 360) then fint 0 else t1)"
    using True by (simp add: inc_offset_def Let_def t0_def t1_def)
  ultimately show ?thesis by (simp only:)
qed


lemma reverse_upd: "\<exists>r. (if c then sv\<lparr>reverse := a\<rparr> else sv) = sv\<lparr>reverse := r\<rparr>"
proof (cases c)
  case False
  have "sv = sv\<lparr>reverse := reverse sv\<rparr>" by simp
  with False show ?thesis by metis
qed auto

lemma inc_offset_parts: "\<exists>t r. inc_offset sv inc st = (st(servo_target sv := t), sv\<lparr>reverse := r\<rparr>)"
proof -
  have "\<exists>t c. inc_offset sv inc st = (st(servo_target sv := t), if c then sv\<lparr>reverse := \<not> reverse sv\<rparr> else sv)"
  proof (cases "full_360 sv")
    case True
    then have "\<exists>t. inc_offset sv inc st = (st(servo_target sv := t), sv)"
      unfolding inc_offset_def Let_def by (simp only: not_True_eq_False if_False) (rule exI, rule refl)
    then obtain t where t: "inc_offset sv inc st = (st(servo_target sv := t), sv)" by blast
    show ?thesis unfolding t by (rule exI [of _ t], rule exI [of _ False]) simp
  next
    case False
    then show ?thesis
      unfolding inc_offset_def Let_def by (simp only: not_False_eq_True if_True) (rule exI, rule exI, rule refl)
  qed
  then obtain t c where tc: "inc_offset sv inc st = (st(servo_target sv := t), if c then sv\<lparr>reverse := \<not> reverse sv\<rparr> else sv)" by blast
  obtain r where r: "(if c then sv\<lparr>reverse := \<not> reverse sv\<rparr> else sv) = sv\<lparr>reverse := r\<rparr>" using reverse_upd by blast
  show ?thesis unfolding tc r by blast
qed
subsection \<open>The weights\<close>
lemma scaled_nonneg: "scaled_ratio fmt False n g d = Inf False \<or> nonneg (scaled_ratio fmt False n g d)"
proof -
  have "round_to fmt False n d = Inf False \<or> nonneg (round_to fmt False n d)" for n d
    by (cases fmt) (simp add: round_to_def Let_def)
  then show ?thesis by (simp add: scaled_ratio_def)
qed

lemma f_sqrt_cases: "f_sqrt fmt x = NaN \<or> f_sqrt fmt x = Inf False \<or> nonneg (f_sqrt fmt x)"
proof (cases x)
  case (Fin s m e)
  show ?thesis
    unfolding Fin f_sqrt.simps Let_def using scaled_nonneg by (cases "m = 0"; cases s) simp_all
qed auto

text \<open>Not a number, infinite, or a value that is not negative.\<close>

definition not_neg :: "dbl \<Rightarrow> bool" where
  "not_neg x \<longleftrightarrow> x = NaN \<or> x = Inf False \<or> nonneg x"

lemma get_mod_not_neg: "not_neg (get_mod_between v w)"
  using f_sqrt_cases by (auto simp: get_mod_between_def get_mod_def not_neg_def)

lemma f_sqrt_ok: "format_ok fmt \<Longrightarrow> f_ok fmt x \<Longrightarrow> f_ok fmt (f_sqrt fmt x)"
  by (cases x) (auto simp: Let_def scaled_ratio_ok)

lemma get_mod_ok: "f_ok F32 (get_mod_between v w)"
  unfolding get_mod_between_def get_mod_def by (intro f_sqrt_ok f_add_ok) simp_all

lemma fadd_not_neg:
  assumes "f_ok F32 x" and "f_ok F32 y" and "not_neg x" and "not_neg y"
  shows "not_neg (fadd x y)"
    and "nonneg (fadd x y) \<Longrightarrow> nonneg x \<and> nonneg y \<and> val x \<le> val (fadd x y) \<and> val y \<le> val (fadd x y)"
proof -
  have inf: "fadd (Inf False) z \<in> {NaN, Inf False}" if "not_neg z" for z
    using that by (cases z) (auto simp: not_neg_def)
  have nan: "fadd NaN z = NaN" for z by simp
  have nn: "fadd x y = Inf False \<or> nonneg (fadd x y) \<and> val x \<le> val (fadd x y) \<and> val y \<le> val (fadd x y)" if "nonneg x" "nonneg y"
    using f_add_nonneg [of binary32 x y] f_add_nonneg [of binary32 y x] assms that by (auto simp: f_add_commute [of F32 y x])
  have cases: "nonneg x \<and> nonneg y \<or> fadd x y \<in> {NaN, Inf False}"
    using assms(3,4) inf [of y] inf [of x] nan [of x] nan [of y] f_add_commute [of F32 x y]
    by (auto simp: not_neg_def)
  then show "not_neg (fadd x y)" using nn by (auto simp: not_neg_def)
  show "nonneg (fadd x y) \<Longrightarrow> nonneg x \<and> nonneg y \<and> val x \<le> val (fadd x y) \<and> val y \<le> val (fadd x y)"
    using cases nn by auto
qed

lemma total_ge:
  assumes "f_ok F32 acc" and "not_neg acc" and "\<forall>l \<in> set ls. f_ok F32 (d l) \<and> not_neg (d l)"
  shows "not_neg (foldl (\<lambda>a l. fadd a (d l)) acc ls)" and
    "nonneg (foldl (\<lambda>a l. fadd a (d l)) acc ls) \<Longrightarrow>
      nonneg acc \<and> val acc \<le> val (foldl (\<lambda>a l. fadd a (d l)) acc ls) \<and>
      (\<forall>l \<in> set ls. nonneg (d l) \<and> val (d l) \<le> val (foldl (\<lambda>a l. fadd a (d l)) acc ls))"
  using assms
proof (induction ls arbitrary: acc)
  case (Cons l ls)
  have ok: "f_ok F32 (fadd a (d l))" for a by (simp add: f_add_ok)
  { case 1
    then have "not_neg (fadd acc (d l))" by (intro fadd_not_neg) simp_all
    from Cons.IH(1) [OF ok this] 1 show ?case by simp }
  { case 2
    then have nn: "not_neg (fadd acc (d l))" by (intro fadd_not_neg) simp_all
    from 2 have "nonneg (foldl (\<lambda>a l. fadd a (d l)) (fadd acc (d l)) ls)" by simp
    from Cons.IH(2) [OF this ok nn] 2
    show ?case using fadd_not_neg(2) [of acc "d l"] by auto }
qed (simp_all)

lemma one_minus: "between 0 1 x \<Longrightarrow> between 0 1 (fsub (fint 1) x)"
  using fsub_between [of 1 1 "fint 1" 0 1 x] fint_between [of 1] by simp

lemma share_between:
  assumes "f_ok F32 x" and "not_neg x" and "not_neg t" and "nonneg t \<Longrightarrow> nonneg x \<and> val x \<le> val t"
  shows "nan_or_between 0 1 (fsub (fint 1) (fdiv x t))"
proof -
  have nan: "fsub (fint 1) NaN = NaN" by (cases "fint 1") (simp_all add: f_sub_def)
  have zero: "between 0 1 (f_zero F32 s)" for s
    using f_zero_cmp [of F32 s] by (simp add: between_def)
  consider "t = NaN" | "t = Inf False" | "nonneg t" using assms(3) by (auto simp: not_neg_def)
  then show ?thesis
  proof cases
    case 1
    then show ?thesis by (cases x) (simp_all add: nan nan_or_between_def)
  next
    case 2
    then show ?thesis using assms(2) nan one_minus zero
      by (cases x) (auto simp: not_neg_def nan_or_between_def)
  next
    case 3
    with assms(4) have x: "nonneg x" "val x \<le> val t" by simp_all
    obtain s m e u n f where xt: "x = Fin s m e" "t = Fin u n f" using x 3 by (cases x; cases t) auto
    show ?thesis
    proof (cases "dbl_le t (f_zero F32 False)")
      case True
      obtain z where zero: "f_zero F32 False = Fin False 0 z" using f_zero_fin by blast
      have "val t \<le> 0" using True unfolding xt zero dbl_le_val by (simp add: signed_def)
      then have "n = 0" "m = 0" using 3 x nonneg_val [of x] nonneg_val [of t]
        by (auto simp: xt signed_def mult_le_0_iff split: if_splits)
      then show ?thesis by (simp add: xt nan nan_or_between_def)
    next
      case False
      have le: "dbl_le (dbl_abs x) t" using x nonneg_val [of x] by (intro abs_fin_le) (simp_all add: xt)
      have "mag_le (fdiv x t) 1" "dbl_ge_int (fdiv x t) 0"
        using f_div_le_1 [OF _ le False] x(1) by (simp_all add: xt)
      then have "between 0 1 (fdiv x t)" by (simp add: mag_le_int between_def)
      then show ?thesis by (simp add: one_minus nan_or_between_def)
    qed
  qed
qed

lemma edge_factors_between: "f \<in> set (edge_factors ls mid) \<Longrightarrow> nan_or_between 0 1 f"
proof -
  let ?d = "\<lambda>l. get_mod_between (ldr_loc l) mid"
  let ?t = "foldl (\<lambda>a l. fadd a (?d l)) (fint 0) ls"
  assume "f \<in> set (edge_factors ls mid)"
  then obtain l where l: "l \<in> set ls" and f: "f = fsub (fint 1) (fdiv (?d l) ?t)"
    by (auto simp: edge_factors_def Let_def)
  have z: "f_ok F32 (fint 0)" "not_neg (fint 0)"
    by (simp_all add: of_integer_def round_to_ok not_neg_def round_to_def binary32_def)
  have d: "\<forall>l \<in> set ls. f_ok F32 (?d l) \<and> not_neg (?d l)" by (simp add: get_mod_ok get_mod_not_neg)
  note tot = total_ge [OF z d]
  show ?thesis unfolding f
    by (rule share_between [OF get_mod_ok get_mod_not_neg tot(1)]) (use tot(2) l in blast)
qed

lemma length_edge_factors [simp]: "length (edge_factors ls mid) = length ls"
  by (simp add: edge_factors_def Let_def)

subsection \<open>The invariant of the task\<close>

definition readings_ok :: "store \<Rightarrow> solar_sys \<Rightarrow> bool" where
  "readings_ok st s \<longleftrightarrow> (\<forall>l \<in> set (sensors s). between 0 8191 (st (ldr_src l)))"

definition factors_ok :: "solar_sys \<Rightarrow> bool" where
  "factors_ok s \<longleftrightarrow> length (sensors s) \<le> 5 \<and>
     (\<forall>fs \<in> {x_i_factor s, x_f_factor s, y_i_factor s, y_f_factor s}.
        length fs = length (sensors s) \<and> (\<forall>f \<in> set fs. nan_or_between 0 1 f))"

text \<open>A servo reads the variable that it writes, and servos have variables of their own.\<close>

definition wired :: "servo list \<Rightarrow> bool" where
  "wired svs \<longleftrightarrow> (\<forall>sv \<in> set svs. servo_src sv = servo_target sv \<and> is_finite_f (axis_top sv)) \<and>
     distinct (map servo_target svs)"

definition angles_clamped :: "store \<Rightarrow> servo list \<Rightarrow> bool" where
  "angles_clamped st svs \<longleftrightarrow> (\<forall>sv \<in> set svs. angle_clamped sv (st (servo_target sv)))"

text \<open>What stays the same of a servo: all but the direction.\<close>

definition same_servo :: "servo \<Rightarrow> servo \<Rightarrow> bool" where
  "same_servo a b \<longleftrightarrow> a = b\<lparr>reverse := reverse a\<rparr>"

lemma same_servo_facts:
  "same_servo a b \<Longrightarrow> servo_src a = servo_src b \<and> servo_target a = servo_target b \<and> axis_top a = axis_top b \<and>
     full_360 a = full_360 b \<and> angle_clamped a t = angle_clamped b t"
  unfolding same_servo_def by (metis angle_clamped_def servo.simps(1,2,4,7) servo.surjective servo.update_convs(8))

lemma same_servo_refl: "same_servo a a"
  by (simp add: same_servo_def)

lemma same_servo_trans: "same_servo a b \<Longrightarrow> same_servo b c \<Longrightarrow> same_servo a c"
  by (cases a; cases b; cases c) (simp add: same_servo_def)

lemma weighted_ok:
  assumes "length fs = length ls" and "\<forall>f \<in> set fs. nan_or_between 0 1 f"
    and "\<forall>l \<in> set ls. between 0 8191 (st (ldr_src l))" and "f_ok F32 acc" and "nan_or_between 0 (int k) acc"
    and "k + 8191 * length ls \<le> 2 ^ 20"
  shows "\<exists>r. weighted ls fs st acc = Some r \<and> f_ok F32 r \<and> nan_or_between 0 (int (k + 8191 * length ls)) r"
  using assms
proof (induction ls arbitrary: fs acc k)
  case (Cons l ls)
  then obtain f fs' where fs: "fs = f # fs'" by (cases fs) auto
  let ?p = "fmul (st (ldr_src l)) f"
  have p: "nan_or_between 0 8191 ?p"
  proof (cases "f = NaN")
    case True
    then show ?thesis by (cases "st (ldr_src l)") (simp_all add: nan_or_between_def)
  next
    case False
    then have "between 0 (int 1) f" using Cons.prems(2) by (simp add: fs nan_or_between_def)
    moreover have "between 0 (int 8191) (st (ldr_src l))" using Cons.prems(3) by simp
    ultimately have "between 0 (int (8191 * 1)) ?p" by (intro fmul_between_0) simp_all
    then show ?thesis by (simp add: nan_or_between_def)
  qed
  have "nan_or_between 0 (int (k + 8191)) (fadd acc ?p)"
  proof (cases "acc = NaN \<or> ?p = NaN")
    case True
    then have "fadd acc ?p = NaN" by (cases acc) auto
    then show ?thesis by (simp add: nan_or_between_def)
  next
    case False
    then have "between 0 (int k) acc" "between 0 8191 ?p" using p Cons.prems(5) by (simp_all add: nan_or_between_def)
    then show ?thesis using fadd_between [of 0 "int k" acc 0 8191 ?p] Cons.prems(6) by (simp add: nan_or_between_def)
  qed
  with Cons.IH [of fs' "fadd acc ?p" "k + 8191"] Cons.prems fs f_add_ok show ?case by (simp add: add.assoc)
qed simp

lemma fint_0: "f_ok F32 (fint 0)" "nan_or_between 0 (int 0) (fint 0)"
  using fint_between [of 0] by (simp_all add: of_integer_def round_to_ok nan_or_between_def)

lemma recalc_ok:
  assumes "factors_ok s" and "readings_ok st s"
  obtains xi xf yi yf where "recalc_imaginary_ldr_value st s = Some (s\<lparr>x_i := xi, x_f := xf, y_i := yi, y_f := yf\<rparr>)"
    and "\<forall>v \<in> {xi, xf, yi, yf}. f_ok F32 v \<and> nan_or_between 0 40955 v"
proof -
  have w: "\<exists>r. weighted (sensors s) fs st (fint 0) = Some r \<and> f_ok F32 r \<and> nan_or_between 0 40955 r"
    if "fs \<in> {x_i_factor s, x_f_factor s, y_i_factor s, y_f_factor s}" for fs
  proof -
    have n: "length (sensors s) \<le> 5" using assms(1) by (simp add: factors_ok_def)
    then have "0 + 8191 * length (sensors s) \<le> 2 ^ 20" by simp
    with that assms obtain r where "weighted (sensors s) fs st (fint 0) = Some r" "f_ok F32 r"
      "nan_or_between 0 (int (0 + 8191 * length (sensors s))) r"
      using weighted_ok [of fs "sensors s" st "fint 0" 0] fint_0 unfolding factors_ok_def readings_ok_def by metis
    then show ?thesis using n by (auto simp: nan_or_between_def intro: between_mono)
  qed
  from w [of "x_i_factor s"] w [of "x_f_factor s"] w [of "y_i_factor s"] w [of "y_f_factor s"]
  show ?thesis using that by (fastforce simp: recalc_imaginary_ldr_value_def)
qed

text \<open>The relative difference of two sums, when the difference is large enough to act on.\<close>

lemma relative_difference:
  assumes a: "f_ok F32 a" "nan_or_between 0 40955 a" and b: "f_ok F32 b" "nan_or_between 0 40955 b"
    and big: "dbl_ge_int (dbl_abs (fsub a b)) 175"
  shows "between (- 1) 1 (fdiv (fsub a b) (fadd a b))"
proof -
  have "a \<noteq> NaN" using big by (auto simp: f_sub_def)
  moreover have "b \<noteq> NaN" using big by (cases a) (auto simp: f_sub_def)
  ultimately have ab: "between 0 40955 a" "between 0 40955 b" using a(2) b(2) by (simp_all add: nan_or_between_def)
  have le: "dbl_le (dbl_abs (fsub a b)) (fadd a b)"
    using f_sub_le_add [of F32 a b] a(1) b(1) ab by (simp add: between_0_nonneg)
  have "dbl_ge_int (fadd a b) 175" by (rule ge_int_trans [OF big le])
  have sum: "between 0 81910 (fadd a b)" using fadd_between [OF ab] by simp
  have "\<not> dbl_le (fadd a b) (f_zero F32 False)"
  proof
    assume "dbl_le (fadd a b) (f_zero F32 False)"
    with \<open>dbl_ge_int (fadd a b) 175\<close> have "dbl_ge_int (f_zero F32 False) 175" by (rule ge_int_trans)
    then show False by (simp add: f_zero_cmp)
  qed
  from f_div_le_1(1) [OF _ le this between_finite [OF sum]] show ?thesis by (simp add: mag_between)
qed

lemma move_servo_ok:
  assumes w: "wired (servos s)" and ang: "angles_clamped st (servos s)" and i: "i < length (servos s)" and d: "between (- 1) 1 d"
  obtains st' sv where "move_servo i d (st, s) = Some (st', s\<lparr>servos := (servos s)[i := sv]\<rparr>)"
    and "same_servo sv (servos s ! i)" and "angles_clamped st' (servos s)"
    and "\<forall>a. a \<notin> servo_target ` set (servos s) \<longrightarrow> st' a = st a"
proof -
  let ?sv = "servos s ! i"
  obtain t r where tr: "inc_offset ?sv d st = (st(servo_target ?sv := t), ?sv\<lparr>reverse := r\<rparr>)"
    using inc_offset_parts by blast
  have mem: "?sv \<in> set (servos s)" using i by simp
  have "angle_clamped ?sv t"
    using inc_offset_angle [of ?sv st d] w ang d mem by (simp add: tr wired_def angles_clamped_def)
  moreover have "servo_target sv \<noteq> servo_target ?sv \<or> sv = ?sv" if "sv \<in> set (servos s)" for sv
    using w that mem unfolding wired_def distinct_map inj_on_def by blast
  ultimately have "angles_clamped (st(servo_target ?sv := t)) (servos s)"
    using ang by (auto simp: angles_clamped_def)
  moreover have "same_servo (?sv\<lparr>reverse := r\<rparr>) ?sv" by (simp add: same_servo_def)
  moreover have "move_servo i d (st, s) = Some (st(servo_target ?sv := t), s\<lparr>servos := (servos s)[i := ?sv\<lparr>reverse := r\<rparr>]\<rparr>)"
    using i tr by (simp add: move_servo_def)
  ultimately show ?thesis using that mem by auto
qed


definition sim_servos :: "servo list \<Rightarrow> servo list \<Rightarrow> bool" where
  "sim_servos as bs \<longleftrightarrow> list_all2 same_servo as bs"

lemma sim_servos_facts:
  assumes "sim_servos as bs"
  shows "length as = length bs" and "wired as = wired bs" and "angles_clamped st as = angles_clamped st bs"
    and "servo_target ` set as = servo_target ` set bs"
proof -
  from assms have "length as = length bs \<and> map servo_target as = map servo_target bs \<and>
      (\<forall>sv \<in> set as. servo_src sv = servo_target sv \<and> is_finite_f (axis_top sv)) =
      (\<forall>sv \<in> set bs. servo_src sv = servo_target sv \<and> is_finite_f (axis_top sv)) \<and>
      (\<forall>sv \<in> set as. angle_clamped sv (st (servo_target sv))) = (\<forall>sv \<in> set bs. angle_clamped sv (st (servo_target sv)))"
    unfolding sim_servos_def
  proof (induction rule: list_all2_induct)
    case (Cons a as b bs)
    then show ?case using same_servo_facts [of a b] by auto
  qed simp
  then show "length as = length bs" and "wired as = wired bs" and "angles_clamped st as = angles_clamped st bs"
    and "servo_target ` set as = servo_target ` set bs"
    by (auto simp: wired_def angles_clamped_def image_set simp del: set_map)
qed

lemma sim_servos_upd: "same_servo sv (svs ! i) \<Longrightarrow> sim_servos (svs[i := sv]) svs"
  by (cases "i < length svs") (auto simp: sim_servos_def list_all2_conv_all_nth nth_list_update same_servo_refl)

lemma sim_servos_trans: "sim_servos as bs \<Longrightarrow> sim_servos bs cs \<Longrightarrow> sim_servos as cs"
  unfolding sim_servos_def by (rule list_all2_trans [OF same_servo_trans])

lemma sim_servos_refl: "sim_servos as as"
  by (simp add: sim_servos_def list_all2_refl same_servo_refl)

text \<open>One move, or none.\<close>

lemma move_step:
  assumes w: "wired (servos s)" and ang: "angles_clamped st (servos s)"
    and i: "c \<Longrightarrow> i < length (servos s)" and d: "c \<Longrightarrow> between (- 1) 1 d"
  obtains st' svs where "(if c then move_servo i d (st, s) else Some (st, s)) = Some (st', s\<lparr>servos := svs\<rparr>)"
    and "sim_servos svs (servos s)" and "angles_clamped st' svs"
    and "\<forall>a. a \<notin> servo_target ` set (servos s) \<longrightarrow> st' a = st a"
proof (cases c)
  case True
  obtain st' sv where m: "move_servo i d (st, s) = Some (st', s\<lparr>servos := (servos s)[i := sv]\<rparr>)"
    "same_servo sv (servos s ! i)" "angles_clamped st' (servos s)"
    "\<forall>a. a \<notin> servo_target ` set (servos s) \<longrightarrow> st' a = st a"
    by (rule move_servo_ok [OF w ang i [OF True] d [OF True]])
  have sim: "sim_servos ((servos s)[i := sv]) (servos s)" by (rule sim_servos_upd [OF m(2)])
  show ?thesis
    by (rule that [OF _ sim _ m(4)]) (use True m(1,3) sim_servos_facts(3) [OF sim] in simp_all)
next
  case False
  then show ?thesis using that [of st "servos s"] ang by (simp add: sim_servos_refl)
qed

lemma enhance_focus_ok:
  assumes f: "factors_ok s" and rd: "readings_ok st s" and w: "wired (servos s)" and ang: "angles_clamped st (servos s)"
    and two: "2 \<le> length (servos s)"
  obtains st' xi xf yi yf svs where
    "enhance_focus st s = Some (st', s\<lparr>x_i := xi, x_f := xf, y_i := yi, y_f := yf, servos := svs\<rparr>)"
    and "sim_servos svs (servos s)" and "angles_clamped st' svs"
    and "\<forall>a. a \<notin> servo_target ` set (servos s) \<longrightarrow> st' a = st a"
proof -
  obtain xi xf yi yf where rc: "recalc_imaginary_ldr_value st s = Some (s\<lparr>x_i := xi, x_f := xf, y_i := yi, y_f := yf\<rparr>)"
    and v: "\<forall>v \<in> {xi, xf, yi, yf}. f_ok F32 v \<and> nan_or_between 0 40955 v"
    by (rule recalc_ok [OF f rd])
  define s1 where "s1 = s\<lparr>x_i := xi, x_f := xf, y_i := yi, y_f := yf\<rparr>"
  define dx where "dx = fdiv (fsub xi xf) (fadd xi xf)"
  define d where "d = (if reverse_stat (servos s ! 1) then f_neg dx else dx)"
  define cx where "cx = dbl_ge_int (dbl_abs (fsub xi xf)) 175"
  define cy where "cy = dbl_ge_int (dbl_abs (fsub yi yf)) 175"
  have d: "between (- 1) 1 d" if cx
    using relative_difference [of xi xf] v that by (auto simp: d_def dx_def cx_def f_neg_between)
  have dy: "between (- 1) 1 (fdiv (fsub yi yf) (fadd yi yf))" if cy
    using relative_difference [of yi yf] v that by (auto simp: cy_def)
  have s1: "servos s1 = servos s" by (simp add: s1_def)
  have "wired (servos s1)" "angles_clamped st (servos s1)" "cx \<Longrightarrow> 0 < length (servos s1)" using w ang two by (auto simp: s1)
  then obtain st1 svs1 where m1: "(if cx then move_servo 0 d (st, s1) else Some (st, s1)) = Some (st1, s1\<lparr>servos := svs1\<rparr>)"
    and sim1: "sim_servos svs1 (servos s1)" "angles_clamped st1 svs1"
    and fr1: "\<forall>a. a \<notin> servo_target ` set (servos s1) \<longrightarrow> st1 a = st a"
    using move_step [of s1 st cx 0 d] d by blast
  note fx = sim_servos_facts [OF sim1(1)]
  have "wired (servos (s1\<lparr>servos := svs1\<rparr>))" "angles_clamped st1 (servos (s1\<lparr>servos := svs1\<rparr>))"
    "cy \<Longrightarrow> 1 < length (servos (s1\<lparr>servos := svs1\<rparr>))" using w two sim1(2) fx by (simp_all add: s1)
  then obtain st2 svs2 where
    m2: "(if cy then move_servo 1 (fdiv (fsub yi yf) (fadd yi yf)) (st1, s1\<lparr>servos := svs1\<rparr>) else Some (st1, s1\<lparr>servos := svs1\<rparr>)) =
      Some (st2, s1\<lparr>servos := svs1\<rparr>\<lparr>servos := svs2\<rparr>)"
    and sim2: "sim_servos svs2 (servos (s1\<lparr>servos := svs1\<rparr>))" "angles_clamped st2 svs2"
    and fr2: "\<forall>a. a \<notin> servo_target ` set (servos (s1\<lparr>servos := svs1\<rparr>)) \<longrightarrow> st2 a = st1 a"
    using move_step [of "s1\<lparr>servos := svs1\<rparr>" st1 cy 1] dy by blast
  have "enhance_focus st s = Option.bind (if cx then move_servo 0 d (st, s1) else Some (st, s1))
      (\<lambda>r. if cy then move_servo 1 (fdiv (fsub yi yf) (fadd yi yf)) r else Some r)"
    using two by (simp add: enhance_focus_def rc d_def dx_def cx_def cy_def s1_def Let_def)
  also have "\<dots> = Some (st2, s1\<lparr>servos := svs2\<rparr>)" unfolding m1 using m2 by simp
  finally have run: "enhance_focus st s = Some (st2, s1\<lparr>servos := svs2\<rparr>)" .
  have sim: "sim_servos svs2 (servos s)" using sim_servos_trans sim1(1) sim2(1) by (simp add: s1)
  have fr: "\<forall>a. a \<notin> servo_target ` set (servos s) \<longrightarrow> st2 a = st a" using fr1 fr2 fx(4) by (simp add: s1)
  show ?thesis using that [OF _ sim sim2(2) fr] run by (simp add: s1_def)
qed

text \<open>What the other threads do between two rounds: the sensors get readings in range, and nobody
  else writes the variables of the servos.\<close>

definition env_ok :: "solar_sys \<Rightarrow> (store \<Rightarrow> store) \<Rightarrow> bool" where
  "env_ok s w \<longleftrightarrow> (\<forall>st. readings_ok (w st) s \<and> (\<forall>a \<in> servo_target ` set (servos s). w st a = st a))"

lemma task_rounds_ok:
  assumes "factors_ok s" and "wired (servos s)" and "angles_clamped st (servos s)" and "2 \<le> length (servos s)"
    and "\<forall>w \<in> set ws. env_ok s w"
  shows "\<exists>st' s'. task_rounds ws (st, s) = Some (st', s') \<and> sim_servos (servos s') (servos s) \<and> angles_clamped st' (servos s)"
  using assms
proof (induction ws arbitrary: st s)
  case (Cons w ws)
  have env: "readings_ok (w st) s" "\<forall>a \<in> servo_target ` set (servos s). w st a = st a"
    using Cons.prems(5) by (auto simp: env_ok_def)
  then have ang: "angles_clamped (w st) (servos s)" using Cons.prems(3) by (simp add: angles_clamped_def)
  obtain st1 xi xf yi yf svs where
    run: "enhance_focus (w st) s = Some (st1, s\<lparr>x_i := xi, x_f := xf, y_i := yi, y_f := yf, servos := svs\<rparr>)"
    and sim: "sim_servos svs (servos s)" "angles_clamped st1 svs"
    by (rule enhance_focus_ok [OF Cons.prems(1) env(1) Cons.prems(2) ang Cons.prems(4)])
  let ?s = "s\<lparr>x_i := xi, x_f := xf, y_i := yi, y_f := yf, servos := svs\<rparr>"
  note fx = sim_servos_facts [OF sim(1)]
  have "\<exists>st' s'. task_rounds ws (st1, ?s) = Some (st', s') \<and> sim_servos (servos s') (servos ?s) \<and> angles_clamped st' (servos ?s)"
    using Cons.prems sim(2) fx by (intro Cons.IH) (simp_all add: factors_ok_def env_ok_def readings_ok_def)
  then show ?case using run sim_servos_trans [OF _ sim(1)] fx(3) by auto
qed (simp add: sim_servos_refl)

lemma new_solar_sys_ok:
  assumes "length ls \<le> 5"
  shows "factors_ok (new_Virtual_Solar_sys ls svs p mav)" and "servos (new_Virtual_Solar_sys ls svs p mav) = svs"
    and "sensors (new_Virtual_Solar_sys ls svs p mav) = ls"
  using assms edge_factors_between
  by (auto simp: new_Virtual_Solar_sys_def initial_calc_imaginary_ldr_factor_def factors_ok_def Let_def)

subsection \<open>Properties\<close>

text \<open>
  C18: the rounds of the tracker. For a panel of any size with at most five sensors at any places
  and at least two servos, whatever readings between 0 and 8191 the converter delivers in whatever
  order, every round of the task ends without an exception and leaves every target in the interval
  of the constants of \<^verbatim>\<open>inc_offset\<close>: 0 to 180 degrees, or below 360 for a servo that turns fully. So the
  target of a servo whose axis contains this interval stays on its axis (that of a servo with a
  shorter axis need not, as \<open>short_axis_left\<close> shows). The rounding of every float operation is part of
  the statement.
\<close>

theorem targets_clamped:
  assumes "length ls \<le> 5" and "2 \<le> length svs" and "wired svs" and "angles_clamped st svs"
    and "\<forall>w \<in> set ws. env_ok (new_Virtual_Solar_sys ls svs p mav) w"
  shows "\<exists>st' s'. task_rounds ws (st, new_Virtual_Solar_sys ls svs p mav) = Some (st', s') \<and>
    angles_clamped st' svs \<and> (\<forall>sv \<in> set svs. axis_covers sv \<longrightarrow> in_axis sv (st' (servo_target sv)))"
  using task_rounds_ok [of "new_Virtual_Solar_sys ls svs p mav" st ws] new_solar_sys_ok [OF assms(1)] assms(2-5)
    clamped_in_axis by (auto simp: angles_clamped_def)

lemmas float_eval = of_integer_def round_to_def binary32_def ilog2_def bitlen.simps half_even_def Let_def
  scaled_ratio_def f_sub_def f_zero_def align_def signed_def

text \<open>Three sensors around a panel, and two servos; the variables 0 to 2 hold readings, 4 and 5 angles.\<close>

definition ldrs_example :: "ldr list" where
  "ldrs_example = [\<lparr>ldr_src = 0, ldr_loc = Vec3 (fint 0) (fint 0) (fint 1)\<rparr>,
     \<lparr>ldr_src = 1, ldr_loc = Vec3 (fint 10) (fint 0) (fint 1)\<rparr>,
     \<lparr>ldr_src = 2, ldr_loc = Vec3 (fint 5) (fint 20) (fint 1)\<rparr>]"

definition servos_example :: "servo list" where
  "servos_example = [new_Servo 4 4 (fint 0) (fint 180) False True, new_Servo 5 5 (fint 0) (fint 360) False True]"

definition panel_example :: panel where
  "panel_example = \<lparr>panel_src = 9, panel_width = fint 10, panel_height = fint 20\<rparr>"

text \<open>The readings that the other threads store.\<close>

definition light :: "int \<Rightarrow> int \<Rightarrow> int \<Rightarrow> store \<Rightarrow> store" where
  "light a b c st = st(0 := fint a, 1 := fint b, 2 := fint c)"

lemma light_env:
  assumes "{a, b, c} \<subseteq> {0..8191}"
  shows "env_ok (new_Virtual_Solar_sys ldrs_example servos_example panel_example (fint 4095)) (light a b c)"
proof -
  have "between 0 8191 (fint k)" if "k \<in> {0..8191}" for k
    using fint_between [of k] that by (auto intro: between_mono)
  moreover have "length ldrs_example \<le> 5" by (simp add: ldrs_example_def)
  ultimately show ?thesis
    using assms new_solar_sys_ok(2,3) [of ldrs_example servos_example panel_example "fint 4095"]
    by (auto simp: env_ok_def readings_ok_def ldrs_example_def servos_example_def new_Servo_def light_def)
qed

theorem targets_clamped_witness:
  "\<exists>st' s'. task_rounds [light 3000 1000 500, light 0 4095 8191]
      (\<lambda>_. fint 90, new_Virtual_Solar_sys ldrs_example servos_example panel_example (fint 4095)) = Some (st', s') \<and>
    angles_clamped st' servos_example \<and> (\<forall>sv \<in> set servos_example. in_axis sv (st' (servo_target sv)))"
proof -
  let ?sys = "new_Virtual_Solar_sys ldrs_example servos_example panel_example (fint 4095)"
  have "between 90 90 (fint 90)" by (rule fint_between) simp
  then have b: "between 0 180 (fint 90)" "between 0 360 (fint 90)" by (auto intro: between_mono)
  have "\<not> dbl_ge_int (fint 90) 360" by (simp add: fint_cmp)
  with b have ang: "angles_clamped (\<lambda>_. fint 90) servos_example" by (auto simp: angles_clamped_def angle_clamped_def)
  have wired: "wired servos_example"
    using between_finite [OF fint_between [of 180]] between_finite [OF fint_between [of 360]]
    by (simp add: wired_def servos_example_def new_Servo_def)
  have env: "\<forall>w \<in> set [light 3000 1000 500, light 0 4095 8191]. env_ok ?sys w" using light_env by simp
  have "\<not> dbl_le (lit F32 3599 10) (fsub (fint 180) (fint 0))" by (simp add: lit_def float_eval)
  then have "\<forall>sv \<in> set servos_example. axis_covers sv"
    by (simp add: servos_example_def new_Servo_def axis_covers_def fint_cmp)
  then show ?thesis
    using targets_clamped [OF _ _ wired ang env] by (simp add: ldrs_example_def servos_example_def)
qed

text \<open>A servo with an axis of 0 to 90 degrees that stands at 90 is sent to 180 by a step.\<close>

lemma short_axis_left:
  "let sv = new_Servo 4 4 (fint 0) (fint 90) False False; t = fst (inc_offset sv (fint 1) (\<lambda>_. fint 90)) 4
   in t = fint 180 \<and> \<not> in_axis sv t"
  by (simp add: new_Servo_def inc_offset_def in_axis_def lit_def lt_int_def gt_int_def float_eval)

text \<open>
  The two decisions of the tracker agree: when \<^verbatim>\<open>ldr_balance_stat\<close> reports a balance, a round
  of \<^verbatim>\<open>enhance_focus\<close> on the same readings moves no servo and changes nothing but the four sums.
\<close>

theorem balanced_is_still:
  assumes "ldr_balance_stat st s = Some (True, s')"
  shows "enhance_focus st s = Some (st, s')"
  using assms by (auto simp: ldr_balance_stat_def enhance_focus_def lt_int_def Let_def split: Option.bind_splits)

text \<open>One sensor at the edge x_i, with given weights and number of servos.\<close>

definition small_sys :: "servo list \<Rightarrow> solar_sys" where
  "small_sys svs = \<lparr>sensors = take 1 ldrs_example, servos = svs, the_panel = panel_example,
     x_i_factor = [fint 1], x_f_factor = [fint 0], y_i_factor = [fint 0], y_f_factor = [fint 0],
     x_i = fint 0, x_f = fint 0, y_i = fint 0, y_f = fint 0, max_analog_value = fint 4095\<rparr>"

lemma small_sums:
  assumes "k \<in> {100, 3000}"
  shows "fadd (fint 0) (fmul (fint k) (fint 1)) = fint k" and "fadd (fint 0) (fmul (fint k) (fint 0)) = fint 0"
    and "fsub (fint k) (fint 0) = fint k" and "fsub (fint 0) (fint 0) = fint 0"
proof -
  have *: "fadd (fint 0) (fmul (fint 100) (fint 1)) = fint 100" "fadd (fint 0) (fmul (fint 100) (fint 0)) = fint 0"
    "fsub (fint 100) (fint 0) = fint 100" "fsub (fint 0) (fint 0) = fint 0"
    "fadd (fint 0) (fmul (fint 3000) (fint 1)) = fint 3000" "fadd (fint 0) (fmul (fint 3000) (fint 0)) = fint 0"
    "fsub (fint 3000) (fint 0) = fint 3000"
    by (simp_all add: float_eval)
  show "fadd (fint 0) (fmul (fint k) (fint 1)) = fint k" and "fadd (fint 0) (fmul (fint k) (fint 0)) = fint 0"
    and "fsub (fint k) (fint 0) = fint k" and "fsub (fint 0) (fint 0) = fint 0"
    using assms * by blast+
qed

theorem balanced_is_still_witness:
  "\<exists>s'. enhance_focus (light 100 0 0 (\<lambda>_. fint 90)) (small_sys servos_example) = Some (light 100 0 0 (\<lambda>_. fint 90), s')"
proof -
  have "dbl_abs (fint 100) = fint 100" "dbl_abs (fint 0) = fint 0" by (simp_all add: of_integer_def round_to_abs)
  then have "\<exists>s'. ldr_balance_stat (light 100 0 0 (\<lambda>_. fint 90)) (small_sys servos_example) = Some (True, s')"
    using small_sums [of 100] fint_cmp [of 100] fint_cmp [of 0]
    by (simp add: ldr_balance_stat_def recalc_imaginary_ldr_value_def small_sys_def ldrs_example_def light_def lt_int_def)
  then show ?thesis using balanced_is_still by blast
qed

text \<open>
  A configuration with fewer than two servos ends the task with an exception: as soon as the
  light is out of balance, \<^verbatim>\<open>servo.at(1)\<close> throws, also when only the first servo is to move.
\<close>

theorem one_servo_throws:
  assumes "length (servos s) < 2" and "ldr_balance_stat st s = Some (False, s')"
    and "fsub (x_i s') (x_f s') \<noteq> NaN" and "fsub (y_i s') (y_f s') \<noteq> NaN"
  shows "enhance_focus st s = None"
proof -
  obtain s1 where rc: "recalc_imaginary_ldr_value st s = Some s1" and s1: "s1 = s'"
    and out: "\<not> (lt_int (dbl_abs (fsub (x_i s1) (x_f s1))) 175 \<and> lt_int (dbl_abs (fsub (y_i s1) (y_f s1))) 175)"
    using assms(2) by (auto simp: ldr_balance_stat_def split: Option.bind_splits)
  have sv: "servos s1 = servos s" using rc by (auto simp: recalc_imaginary_ldr_value_def split: Option.bind_splits)
  have abs: "dbl_abs x \<noteq> NaN" if "x \<noteq> NaN" for x using that by (cases x) simp_all
  have "dbl_ge_int (dbl_abs (fsub (x_i s1) (x_f s1))) 175 \<or> dbl_ge_int (dbl_abs (fsub (y_i s1) (y_f s1))) 175"
    using out cmp_int_linear [OF abs [OF assms(3)], of 175] cmp_int_linear [OF abs [OF assms(4)], of 175]
    by (auto simp: lt_int_def s1)
  then show ?thesis using assms(1) by (auto simp: enhance_focus_def rc sv move_servo_def Let_def)
qed

theorem one_servo_throws_witness:
  "enhance_focus (light 3000 0 0 (\<lambda>_. fint 90)) (small_sys (take 1 servos_example)) = None"
proof -
  let ?st = "light 3000 0 0 (\<lambda>_. fint 90)" and ?s = "small_sys (take 1 servos_example)"
  have "dbl_abs (fint 3000) = fint 3000" "dbl_abs (fint 0) = fint 0" by (simp_all add: of_integer_def round_to_abs)
  then obtain s' where s': "ldr_balance_stat ?st ?s = Some (False, s')" "x_i s' = fint 3000" "x_f s' = fint 0"
    "y_i s' = fint 0" "y_f s' = fint 0"
    using small_sums [of 3000] fint_cmp [of 3000] fint_cmp [of 0]
    by (simp add: ldr_balance_stat_def recalc_imaginary_ldr_value_def small_sys_def ldrs_example_def light_def lt_int_def)
  have "fint k \<noteq> NaN" for k by (simp add: of_integer_def)
  then show ?thesis
    using s' small_sums [of 3000] by (intro one_servo_throws [OF _ s'(1)]) (simp_all add: small_sys_def servos_example_def)
qed

end
