(* ===== verification/ServoComm.thy ===== *)
theory ServoComm
  imports Solar
begin

text \<open>
  The servo driver, servo_util.cpp: a servo follows the angle in a shared variable and turns it
  into duty cycles of the PWM peripheral, whose calls are a list of duties. The conversion of
  \<^verbatim>\<open>float\<close> to \<^verbatim>\<open>uint32_t\<close> is a parameter: C++ leaves it undefined outside the range of the type.
\<close>

subsection \<open>The state\<close>

text \<open>A target pointer: the variable of the object itself (\<^term>\<open>None\<close>) or a shared one.\<close>

record servo_comm =
  sc_id :: u8
  ROT_MAX_DEG :: u32
  SWEEP_PERIOD_MS :: u32
  DUTY_RANGE_US :: u32
  DUTY_UPD_PERIOD_MS :: u32
  STEPS :: u32
  REST_PERIOD_MS :: u32
  REVERSED :: u8
  duty_current :: u32
  rot_current :: dbl
  sc_conn :: nat
  target_ptr :: "addr option"
  ended :: bool

definition Servo_comm_default :: servo_comm where
  "Servo_comm_default = \<lparr>sc_id = 0x30, ROT_MAX_DEG = 180, SWEEP_PERIOD_MS = 1500, DUTY_RANGE_US = 2500 - 500,
     DUTY_UPD_PERIOD_MS = 20, STEPS = 1500 div 20, REST_PERIOD_MS = 1000, REVERSED = 0,
     duty_current = push_bit 15 1 * 500 div 20000, rot_current = fint 0, sc_conn = 0, target_ptr = None, ended = False\<rparr>"

text \<open>A division by 0 is undefined.\<close>

definition Servo_comm_new :: "u8 \<Rightarrow> u32 \<Rightarrow> u32 \<Rightarrow> u32 \<Rightarrow> u32 \<Rightarrow> u32 \<Rightarrow> u32 \<Rightarrow> u8 \<Rightarrow> nat \<Rightarrow> nat \<Rightarrow> addr option \<Rightarrow> servo_comm option" where
  "Servo_comm_new ident rot_max sweep_ms range_us initial_duty upd_ms rest_ms reversed bits channel target =
     (if upd_ms = 0 \<or> upd_ms * 1000 = 0 then None else
      Some \<lparr>sc_id = ident, ROT_MAX_DEG = rot_max, SWEEP_PERIOD_MS = sweep_ms, DUTY_RANGE_US = range_us,
        DUTY_UPD_PERIOD_MS = upd_ms, STEPS = sweep_ms div upd_ms, REST_PERIOD_MS = rest_ms, REVERSED = reversed,
        duty_current = push_bit bits 1 * initial_duty div (upd_ms * 1000), rot_current = fint 0,
        sc_conn = channel, target_ptr = target, ended = False\<rparr>)"

definition end_now :: "servo_comm \<Rightarrow> servo_comm" where
  "end_now sc = sc\<lparr>ended := True\<rparr>"

definition unset_target :: "servo_comm \<Rightarrow> servo_comm" where
  "unset_target sc = (if ended sc then sc\<lparr>target_ptr := None\<rparr> else sc)"

definition set_target :: "addr option \<Rightarrow> servo_comm \<Rightarrow> servo_comm" where
  "set_target target sc = (if ended sc \<and> target \<noteq> None then sc\<lparr>target_ptr := target\<rparr> else sc)"

subsection \<open>The task\<close>

definition uint_to_float :: "u32 \<Rightarrow> dbl" where
  "uint_to_float w = fint (int (unat w))"

definition uint_to_double :: "u32 \<Rightarrow> dbl" where
  "uint_to_double w = of_integer binary64 (int (unat w))"

text \<open>The conversion as C++ defines it, and one that takes the integral part modulo 2 to the 32.\<close>

fun integral :: "dbl \<Rightarrow> int option" where
  "integral NaN = None"
| "integral (Inf s) = None"
| "integral (Fin s m e) = Some (signed s (if 0 \<le> e then m * 2 ^ nat e else m div 2 ^ nat (- e)))"

definition cvt_std :: "dbl \<Rightarrow> u32 option" where
  "cvt_std x = (case integral x of Some k \<Rightarrow> if 0 \<le> k \<and> k < 2 ^ 32 then Some (word_of_int k) else None | None \<Rightarrow> None)"

definition cvt_wrap :: "dbl \<Rightarrow> u32 option" where
  "cvt_wrap x = map_option word_of_int (integral x)"

text \<open>The products are of type \<^verbatim>\<open>float\<close>; \<^verbatim>\<open>round\<close> takes and returns a \<^verbatim>\<open>double\<close>, and so the division by
  \<^verbatim>\<open>STEPS\<close> is one of \<^verbatim>\<open>double\<close>.\<close>

definition duty_step_change :: "(dbl \<Rightarrow> u32 option) \<Rightarrow> servo_comm \<Rightarrow> dbl \<Rightarrow> u32 option" where
  "duty_step_change cvt sc rot = (let rot_relat = fdiv rot (uint_to_float (ROT_MAX_DEG sc))
     in cvt (f_div binary64 (f_round binary64 (fmul (uint_to_float (DUTY_RANGE_US sc)) rot_relat)) (uint_to_double (STEPS sc))))"

text \<open>The loop over the steps: the duties that are set, and the last one.\<close>

fun sweep :: "nat \<Rightarrow> u32 \<Rightarrow> u32 \<Rightarrow> u32 list \<times> u32" where
  "sweep 0 change duty = ([], duty)"
| "sweep (Suc n) change duty = (case sweep n change (duty + change) of (ds, d) \<Rightarrow> ((duty + change) # ds, d))"

text \<open>One round, with the pointer that the task took when it started.\<close>

definition task_round :: "(dbl \<Rightarrow> u32 option) \<Rightarrow> addr option \<Rightarrow> store \<Rightarrow> servo_comm \<Rightarrow> (u32 list \<times> servo_comm) option" where
  "task_round cvt target st sc = (case target of
     None \<Rightarrow> Some ([], sc)
   | Some a \<Rightarrow>
     let target_rc = (if REVERSED sc \<noteq> 0 then fsub (fint 180) (st a) else st a);
         rot = fsub target_rc (rot_current sc)
     in if dbl_lt (dbl_abs rot) (lit binary64 5 10) \<or> dbl_lt (uint_to_float (ROT_MAX_DEG sc)) target_rc
        then Some ([], sc)
        else do {
          change \<leftarrow> duty_step_change cvt sc rot;
          let (ds, d) = sweep (unat (STEPS sc)) change (duty_current sc);
          Some (ds, sc\<lparr>duty_current := d, rot_current := target_rc\<rparr>) })"

text \<open>The task over its rounds: whether \<^verbatim>\<open>end_now\<close> was called before, and the values of the variables.
  It ends when the flag is set. \<^verbatim>\<open>operator ()\<close> clears the flag and starts it.\<close>

fun servo_task :: "(dbl \<Rightarrow> u32 option) \<Rightarrow> addr option \<Rightarrow> (bool \<times> store) list \<Rightarrow> servo_comm \<Rightarrow> (u32 list \<times> servo_comm) option" where
  "servo_task cvt target [] sc = Some ([], sc)"
| "servo_task cvt target (r # rs) sc = (let sc0 = (if fst r then end_now sc else sc) in
     if ended sc0 then Some ([], sc0) else do {
       (ds, sc1) \<leftarrow> task_round cvt target (snd r) sc0;
       (ds', sc2) \<leftarrow> servo_task cvt target rs sc1;
       Some (ds @ ds', sc2) })"

definition servo_run :: "(dbl \<Rightarrow> u32 option) \<Rightarrow> (bool \<times> store) list \<Rightarrow> servo_comm \<Rightarrow> (u32 list \<times> servo_comm) option" where
  "servo_run cvt rs sc = servo_task cvt (target_ptr sc) rs (sc\<lparr>ended := False\<rparr>)"

subsection \<open>Rounding errors\<close>

lemma round_to_error:
  assumes fmt: "fmt = (p, emin, emax)" and ok: "format_ok fmt" and n: "0 < n" and d: "0 < d"
    and normal: "2 powi (int p - 1 + emin) \<le> real n / real d" and small: "n \<le> 2 ^ p * d"
  shows "\<exists>m e. round_to fmt neg n d = Fin neg m e \<and> \<bar>real m * 2 powi e - real n / real d\<bar> \<le> real n / real d * 2 powi (1 - int p)"
proof -
  let ?q = "real n / real d"
  from ok have p: "0 < p" by (simp add: fmt)
  obtain m e m' e' where r: "round_to fmt neg n d = (if emax < e' then Inf neg else Fin neg m' e')"
    and me: "e' = e \<and> m' = m \<or> e' = e + 1 \<and> m' = 2 ^ (p - 1) \<and> m = 2 ^ p"
    and nrm: "e = emin \<or> 2 powi (int p - 1 + e) \<le> ?q"
    and le: "\<And>j. ?q \<le> real j * 2 powi e \<Longrightarrow> m \<le> j" and ge: "\<And>j. real j * 2 powi e \<le> ?q \<Longrightarrow> j \<le> m"
    by (rule round_to_spec [OF fmt p n d, where neg = neg]) (rule that)
  have "(2 :: real) ^ p = 2 ^ (p - 1) * 2" using p by (cases p) simp_all
  then have same: "real m' * 2 powi e' = real m * 2 powi e" using me by (auto simp: power_int_add_1')
  have pos: "0 < (2 :: real) powi e" by simp
  define j where "j = nat \<lfloor>?q / 2 powi e\<rfloor>"
  have j: "real j \<le> ?q / 2 powi e" "?q / 2 powi e < real j + 1"
    unfolding j_def by (simp_all add: of_nat_nat floor_le_iff)
  then have "real j * 2 powi e \<le> ?q" "?q < (real j + 1) * 2 powi e"
    by (simp_all only: pos_le_divide_eq [OF pos] pos_divide_less_eq [OF pos])
  then have jq: "real j * 2 powi e \<le> ?q" "?q \<le> real (j + 1) * 2 powi e" by (simp_all add: add.commute)
  have "j \<le> m" "m \<le> j + 1" by (rule ge [OF jq(1)], rule le [OF jq(2)])
  then have "real j * 2 powi e \<le> real m * 2 powi e" "real m * 2 powi e \<le> real (j + 1) * 2 powi e"
    by (intro mult_right_mono; simp)+
  moreover have "real (j + 1) * 2 powi e = real j * 2 powi e + 2 powi e" by (simp add: distrib_right)
  ultimately have err: "\<bar>real m * 2 powi e - ?q\<bar> \<le> 2 powi e" using jq by linarith
  have "(2 :: real) powi e = 2 powi (int p - 1 + e) * 2 powi (1 - int p)" by (simp flip: power_int_add)
  also have "\<dots> \<le> ?q * 2 powi (1 - int p)" using nrm normal by (intro mult_right_mono) auto
  finally have "\<bar>real m' * 2 powi e' - ?q\<bar> \<le> ?q * 2 powi (1 - int p)" using err same by linarith
  moreover have "\<exists>m e. round_to fmt neg n d = Fin neg m e"
  proof -
    have "mag_le (round_to fmt neg n d) (2 ^ p)" by (rule round_to_mag(1) [OF fmt ok d _ small]) simp
    then show ?thesis using r by (cases "emax < e'") auto
  qed
  ultimately show ?thesis using r by (auto split: if_splits)
qed

lemma f_div_round:
  assumes "0 < n"
  obtains n' d' where "f_div fmt (Fin s m e) (Fin t n f) = round_to fmt (s \<noteq> t) n' d'" and "0 < d'"
    and "real n' / real d' = \<bar>val (Fin s m e)\<bar> / \<bar>val (Fin t n f)\<bar>"
proof -
  obtain n' d' where "scaled_ratio fmt (s \<noteq> t) m (e - f) n = round_to fmt (s \<noteq> t) n' d'" "0 < d'"
    "real n' / real d' = real m * 2 powi (e - f) / real n" by (rule scaled_ratio_round [OF assms])
  then show ?thesis using that assms by (simp add: val_abs power_int_diff del: val.simps)
qed

lemma f_mul_round:
  obtains n' d' where "f_mul fmt (Fin s m e) (Fin t n f) = round_to fmt (s \<noteq> t) n' d'" and "0 < d'"
    and "real n' / real d' = \<bar>val (Fin s m e)\<bar> * \<bar>val (Fin t n f)\<bar>"
proof -
  obtain n' d' where "scaled_ratio fmt (s \<noteq> t) (m * n) (e + f) 1 = round_to fmt (s \<noteq> t) n' d'" "0 < d'"
    "real n' / real d' = real (m * n) * 2 powi (e + f) / real (1 :: nat)" by (rule scaled_ratio_round [OF zero_less_one])
  then show ?thesis using that by (simp add: val_abs power_int_add ac_simps del: val.simps)
qed

text \<open>The integral part and the nearest integer of a magnitude.\<close>

lemma div_pow_bounds:
  fixes a b :: nat
  assumes "0 < b"
  shows "real (a div b) \<le> real a / real b" and "real a / real b < real (a div b) + 1"
proof -
  have "a div b * b \<le> a" "a < (a div b + 1) * b"
    using assms dividend_less_times_div [of b a] by (simp_all add: algebra_simps)
  then have "real (a div b) * real b \<le> real a" "real a < (real (a div b) + 1) * real b"
    by (metis of_nat_le_iff of_nat_mult, metis of_nat_less_iff of_nat_mult of_nat_add of_nat_1)
  with assms show "real (a div b) \<le> real a / real b" and "real a / real b < real (a div b) + 1"
    by (simp_all add: pos_le_divide_eq pos_divide_less_eq)
qed

lemma integral_bounds:
  obtains k where "integral (Fin s m e) = Some (signed s k)" and "real k \<le> \<bar>val (Fin s m e)\<bar>" and "\<bar>val (Fin s m e)\<bar> < real k + 1"
proof (cases "0 \<le> e")
  case True
  then show ?thesis using that [of "m * 2 ^ nat e"] by (simp add: val_abs powi_nat del: val.simps)
next
  case False
  then have v: "\<bar>val (Fin s m e)\<bar> = real m / real (2 ^ nat (- e))" by (simp add: val_abs powi_nat del: val.simps)
  show ?thesis
    by (rule that [of "m div 2 ^ nat (- e)"]) (use False div_pow_bounds [of "2 ^ nat (- e)" m] in \<open>simp_all add: v del: val.simps\<close>)
qed

lemma f_round_bounds:
  obtains k where "f_round fmt (Fin s m e) = round_to fmt s k 1" and "real k \<le> \<bar>val (Fin s m e)\<bar> + 1 / 2"
    and "\<bar>val (Fin s m e)\<bar> + 1 / 2 < real k + 1"
proof (cases "0 \<le> e")
  case True
  then show ?thesis using that [of "m * 2 ^ nat e"] by (simp add: val_abs powi_nat del: val.simps)
next
  case False
  define b where "b = (2 :: nat) ^ nat (- e)"
  have v: "\<bar>val (Fin s m e)\<bar> + 1 / 2 = real (2 * m + b) / real (2 * b)"
    using False by (simp add: val_abs powi_nat b_def add_divide_distrib del: val.simps)
  show ?thesis
    by (rule that [of "(2 * m + b) div (2 * b)"])
      (use False div_pow_bounds [of "2 * b" "2 * m + b"] in \<open>simp_all only: v f_round.simps b_def [symmetric] if_False, simp_all add: b_def\<close>)
qed

text \<open>The step change of the drivers of the program, in closed form.\<close>

lemma round_to_sign: "round_to fmt neg n d = Fin s m e \<Longrightarrow> s = neg \<and> round_to fmt neg' n d = Fin neg' m e"
  by (cases fmt) (auto simp: round_to_def Let_def split: prod.splits if_splits)

lemma integer_Fin:
  assumes "0 < k" and "k \<le> 2 ^ 24" and "format_ok fmt" and "24 \<le> precision fmt"
  obtains m e where "of_integer fmt (int k) = Fin False m e" and "of_integer fmt (- int k) = Fin True m e"
    and "\<bar>val (Fin s m e)\<bar> = real k" and "0 < m"
proof -
  have "\<bar>int k\<bar> \<le> 2 ^ 24" using assms(2) by (metis abs_of_nat of_nat_le_iff of_nat_numeral of_nat_power)
  also have "(2 :: int) ^ 24 \<le> 2 ^ precision fmt" using assms(4) by (intro power_increasing) simp_all
  finally have "between (int k) (int k) (of_integer fmt (int k))" using of_integer_bounds [OF assms(3)] by (simp add: between_def)
  then have b: "between (int k) (int k) (round_to fmt False k 1)" by (simp add: of_integer_def)
  have "is_finite_f (round_to fmt False k 1)" by (rule between_finite [OF b])
  then obtain s m e where "round_to fmt False k 1 = Fin s m e" by (cases "round_to fmt False k 1") auto
  then have f: "round_to fmt False k 1 = Fin False m e" using round_to_sign by metis
  have v: "val (Fin False m e) = real k" using b unfolding f by (simp add: between_val del: val.simps)
  then have "0 < m" using assms(1) by (cases "m = 0") (simp_all add: signed_def)
  have "round_to fmt True k 1 = Fin True m e" using round_to_sign [OF f] by blast
  then show ?thesis
    using that [of m e] f v \<open>0 < m\<close> assms(1) by (simp add: of_integer_def val_abs signed_def abs_mult)
qed

lemma fint_Fin:
  assumes "0 < k" and "k \<le> 2 ^ 24"
  obtains m e where "fint (int k) = Fin False m e" and "fint (- int k) = Fin True m e" and "\<bar>val (Fin s m e)\<bar> = real k" and "0 < m"
  by (rule integer_Fin [OF assms, of F32 s]) (simp_all add: that)

lemma fint_Fin_signed:
  assumes "0 < k" and "k \<le> 2 ^ 24"
  obtains m e where "fint (signed s (k)) = Fin s m e" and "\<bar>val (Fin s m e)\<bar> = real k" and "0 < m"
  by (rule fint_Fin [OF assms, where s = s]) (cases s; simp add: signed_def that)

lemma F32_parts: "F32 = (24, - 149, 104)"
  by (simp add: binary32_def)

lemma fdiv_error:
  assumes x: "x = Fin s m e" and y: "y = Fin False n f" and n: "0 < n"
    and big: "2 powi (- 126) \<le> \<bar>val x\<bar> / \<bar>val y\<bar>" and small: "\<bar>val x\<bar> / \<bar>val y\<bar> \<le> 2 ^ 24"
  shows "\<exists>m' e'. fdiv x y = Fin s m' e' \<and> \<bar>\<bar>val (fdiv x y)\<bar> - \<bar>val x\<bar> / \<bar>val y\<bar>\<bar> \<le> \<bar>val x\<bar> / \<bar>val y\<bar> * 2 powi (- 23)"
proof -
  obtain n' d' where r: "fdiv x y = round_to F32 s n' d'" and d: "0 < d'" and q: "real n' / real d' = \<bar>val x\<bar> / \<bar>val y\<bar>"
    using f_div_round [OF n, of F32 s m e False f] unfolding x y by (auto simp del: f_div.simps val.simps)
  have "real n' \<le> real (2 ^ 24 * d')" using small d by (simp add: q [symmetric] pos_divide_le_eq del: val.simps)
  then have sm: "n' \<le> 2 ^ 24 * d'" by (simp only: of_nat_le_iff)
  have "0 < (2 :: real) powi (- 126)" by simp
  with big have "0 < real n' / real d'" unfolding q by linarith
  then have n': "0 < n'" using d by (simp add: zero_less_divide_iff)
  have "2 powi (int 24 - 1 + - 149) \<le> real n' / real d'" using big by (simp add: q del: val.simps)
  from round_to_error [OF F32_parts _ n' d this sm, of s]
  show ?thesis unfolding r q [symmetric] by (auto simp: val_abs simp del: val.simps)
qed

lemma fmul_error:
  assumes x: "x = Fin s m e" and y: "y = Fin False n f"
    and big: "2 powi (- 126) \<le> \<bar>val x\<bar> * \<bar>val y\<bar>" and small: "\<bar>val x\<bar> * \<bar>val y\<bar> \<le> 2 ^ 24"
  shows "\<exists>m' e'. fmul y x = Fin s m' e' \<and> \<bar>\<bar>val (fmul y x)\<bar> - \<bar>val x\<bar> * \<bar>val y\<bar>\<bar> \<le> \<bar>val x\<bar> * \<bar>val y\<bar> * 2 powi (- 23)"
proof -
  obtain n' d' where r: "fmul y x = round_to F32 s n' d'" and d: "0 < d'" and q: "real n' / real d' = \<bar>val x\<bar> * \<bar>val y\<bar>"
    using f_mul_round [of F32 False n f s m e] unfolding x y by (auto simp: mult.commute simp del: f_mul.simps val.simps)
  have "real n' \<le> real (2 ^ 24 * d')" using small d by (simp add: q [symmetric] pos_divide_le_eq del: val.simps)
  then have sm: "n' \<le> 2 ^ 24 * d'" by (simp only: of_nat_le_iff)
  have "0 < (2 :: real) powi (- 126)" by simp
  with big have "0 < real n' / real d'" unfolding q by linarith
  then have n': "0 < n'" using d by (simp add: zero_less_divide_iff)
  have "2 powi (int 24 - 1 + - 149) \<le> real n' / real d'" using big by (simp add: q del: val.simps)
  from round_to_error [OF F32_parts _ n' d this sm, of s]
  show ?thesis unfolding r q [symmetric] by (auto simp: val_abs simp del: val.simps)
qed

lemma fsub_error:
  assumes fin: "is_finite_f x" "is_finite_f y" and big: "2 powi (- 126) \<le> val x - val y" and small: "val x - val y \<le> 2 ^ 24"
  shows "\<exists>m e. fsub x y = Fin False m e \<and> \<bar>val (fsub x y) - (val x - val y)\<bar> \<le> (val x - val y) * 2 powi (- 23)"
proof -
  obtain s m e t n f where xy: "x = Fin s m e" "y = Fin t n f" using fin by (cases x; cases y) auto
  have neg: "val (Fin (\<not> t) n f) = - val y" by (simp add: xy signed_def)
  obtain z g where add: "fsub x y = (if z = 0 then f_zero F32 (s \<and> \<not> t) else scaled_ratio F32 (z < 0) (nat \<bar>z\<bar>) g 1)"
    and zg: "of_int z * 2 powi g = val x - val y"
    using f_add_fin [of F32 s m e "\<not> t" n f] neg unfolding f_sub_def by (auto simp: xy simp del: f_add.simps val.simps)
  have pos: "0 < (2 :: real) powi g" "0 < (2 :: real) powi (- 126)" by simp_all
  then have "0 < of_int z * (2 :: real) powi g" using big unfolding zg by linarith
  then have z: "0 < z" using pos by (simp add: zero_less_mult_iff)
  obtain n' d' where r: "scaled_ratio F32 False (nat \<bar>z\<bar>) g 1 = round_to F32 False n' d'" "0 < d'"
    "real n' / real d' = real (nat \<bar>z\<bar>) * 2 powi g / real (1 :: nat)" by (rule scaled_ratio_round [OF zero_less_one])
  have q: "real n' / real d' = val x - val y" unfolding r(3) zg [symmetric] using z by simp
  have "real n' \<le> real (2 ^ 24 * d')" using small r(2) by (simp add: q [symmetric] pos_divide_le_eq del: val.simps)
  then have sm: "n' \<le> 2 ^ 24 * d'" by (simp only: of_nat_le_iff)
  have "0 < real n' / real d'" using big pos unfolding q by linarith
  then have n': "0 < n'" using r(2) by (simp add: zero_less_divide_iff)
  have "2 powi (int 24 - 1 + - 149) \<le> real n' / real d'" using big by (simp add: q del: val.simps)
  from round_to_error [OF F32_parts _ n' r(2) this sm, of False]
  have "\<exists>m e. round_to F32 False n' d' = Fin False m e \<and> \<bar>real m * 2 powi e - real n' / real d'\<bar> \<le> real n' / real d' * 2 powi (- 23)"
    by simp
  moreover have "fsub x y = round_to F32 False n' d'" using z add r(1) by simp
  ultimately show ?thesis unfolding q [symmetric] by (auto simp: val_abs signed_def)
qed

text \<open>A quotient of small integers has the integral part of the integers.\<close>

lemma integral_fdiv:
  assumes k: "0 < k" "k \<le> 2 ^ 18" and c: "0 < c" "c \<le> 32"
  shows "integral (f_div binary64 (of_integer binary64 (signed s k)) (of_integer binary64 (int c))) = Some (signed s (k div c))"
proof -
  have ok: "format_ok binary64" "24 \<le> precision binary64" by (simp_all add: binary64_def precision_def)
  obtain m e where x: "of_integer binary64 (signed s k) = Fin s m e" "\<bar>val (Fin s m e)\<bar> = real k" "0 < m"
    by (rule integer_Fin [of k binary64 s]) (use k ok in \<open>auto simp: signed_def split: if_splits\<close>)
  obtain n f where y: "of_integer binary64 (int c) = Fin False n f" "\<bar>val (Fin False n f)\<bar> = real c" "0 < n"
    by (rule integer_Fin [of c binary64 False]) (use c ok in auto)
  obtain n' d' where r: "f_div binary64 (Fin s m e) (Fin False n f) = round_to binary64 s n' d'" and d: "0 < d'"
    and q: "real n' / real d' = real k / real c"
    using f_div_round [OF y(3), of binary64 s m e False f] x y by (auto simp del: f_div.simps val.simps)
  let ?q = "k div c"
  have low: "real ?q \<le> real n' / real d'" unfolding q by (rule div_pow_bounds(1) [OF c(1)])
  have high: "real n' / real d' \<le> real (32 * (?q + 1) - 1) * 2 powi (- 5)"
  proof -
    have "k \<le> c * ?q + (c - 1)" using mod_less_divisor [OF c(1), of k] by (metis Suc_pred' add_le_cancel_left c(1) less_Suc_eq_le mult_div_mod_eq)
    then have "k + 1 \<le> c * (?q + 1)" using c(1) by simp
    then have "real k + 1 \<le> real c * (real ?q + 1)" by (metis of_nat_1 of_nat_add of_nat_le_iff of_nat_mult)
    then have "real k / real c \<le> real ?q + 1 - 1 / real c" using c(1) by (simp add: field_simps)
    also have "\<dots> \<le> real ?q + 1 - 1 / 32" using c by (simp add: field_simps)
    also have "\<dots> = real (32 * (?q + 1) - 1) * 2 powi (- 5)" by (simp add: power_int_def of_nat_diff field_simps)
    finally show ?thesis unfolding q .
  qed
  have qs: "?q \<le> 2 ^ 18" using k(2) div_le_dividend le_trans by blast
  have rep1: "f_ok binary64 (Fin False ?q 0)" using qs by (simp add: binary64_def)
  have rep2: "f_ok binary64 (Fin False (32 * (?q + 1) - 1) (- 5))" using qs by (simp add: binary64_def)
  obtain m' e' where z: "round_to binary64 s n' d' = Fin s m' e'" "real m' * 2 powi e' \<le> real (32 * (?q + 1) - 1) * 2 powi (- 5)"
    using round_rep(1) [OF ok(1) d rep2 high, of s] by blast
  have z2: "real ?q \<le> real m' * 2 powi e'" using round_rep(2) [OF ok(1) d rep1, of n' s] low z(1) by auto
  have "real (32 * (?q + 1) - 1) * 2 powi (- 5) < real ?q + 1" by (simp add: power_int_def of_nat_diff field_simps)
  with z(2) have z3: "real m' * 2 powi e' < real ?q + 1" by linarith
  obtain j where j: "integral (Fin s m' e') = Some (signed s j)" "real j \<le> \<bar>val (Fin s m' e')\<bar>" "\<bar>val (Fin s m' e')\<bar> < real j + 1"
    by (rule integral_bounds)
  have "real j < real ?q + 1" "real ?q < real j + 1" using j(2,3) z2 z3 unfolding val_abs by linarith+
  then have "j = ?q" by linarith
  then show ?thesis using j(1) by (simp add: x(1) y(1) r z(1) del: f_div.simps integral.simps)
qed

lemma round_to_ratio:
  assumes "0 < d" and "0 < d'" and "real n / real d = real n' / real d'"
  shows "round_to fmt neg n d = round_to fmt neg n' d'"
proof -
  have "real (n * d') = real (n' * d)" using assms by (simp add: field_simps)
  then have eq: "n * d' = n' * d" by (simp only: of_nat_eq_iff)
  have "round_to fmt neg n d = round_to fmt neg (n * d') (d * d')" using assms by (simp add: round_to_scale)
  also have "\<dots> = round_to fmt neg (n' * d) (d' * d)" unfolding eq mult.commute [of d d'] ..
  also have "\<dots> = round_to fmt neg n' d'" using assms by (simp add: round_to_scale)
  finally show ?thesis .
qed

text \<open>Differences of small integers are exact.\<close>

lemma fint_Fin_int:
  assumes "\<bar>a\<bar> \<le> 2 ^ 24"
  obtains m e where "fint a = Fin (a < 0) m e" and "val (fint a) = of_int a"
proof -
  have b: "between a a (fint a)" by (rule fint_between [OF assms])
  have "is_finite_f (fint a)" by (rule between_finite [OF b])
  then obtain s m e where f: "fint a = Fin s m e" by (cases "fint a") auto
  then have "s = (a < 0)" using round_to_sign unfolding of_integer_def by blast
  moreover have "val (fint a) = of_int a" using b between_val [OF between_finite [OF b]] by simp
  ultimately show ?thesis using that f by simp
qed

lemma fsub_fint:
  assumes "\<bar>a\<bar> \<le> 2 ^ 24" and "\<bar>b\<bar> \<le> 2 ^ 24"
  shows "fsub (fint a) (fint b) = fint (a - b)"
proof -
  obtain m e where a: "fint a = Fin (a < 0) m e" "val (fint a) = of_int a" by (rule fint_Fin_int [OF assms(1)])
  obtain n f where b: "fint b = Fin (b < 0) n f" "val (fint b) = of_int b" by (rule fint_Fin_int [OF assms(2)])
  have nb: "val (Fin (\<not> b < 0) n f) = - of_int b" using b by (simp add: signed_def split: if_splits)
  obtain z g where sub: "fsub (fint a) (fint b) =
      (if z = 0 then f_zero F32 (a < 0 \<and> \<not> b < 0) else scaled_ratio F32 (z < 0) (nat \<bar>z\<bar>) g 1)"
    and z: "of_int z * 2 powi g = (of_int (a - b) :: real)"
    using f_add_fin [of F32 "a < 0" m e "\<not> b < 0" n f] a nb
    unfolding f_sub_def by (auto simp: b(1) simp del: f_add.simps val.simps)
  show ?thesis
  proof (cases "z = 0")
    case True
    then have "of_int (a - b) = (0 :: real)" using z by simp
    then have "a = b" by (simp only: of_int_eq_0_iff)
    then have "(a < 0 \<and> \<not> b < 0) = (a - b < 0)" "nat \<bar>a - b\<bar> = 0" by simp_all
    then have "f_zero F32 (a < 0 \<and> \<not> b < 0) = fint (a - b)" by (simp add: f_zero_def of_integer_def)
    then show ?thesis using True unfolding sub by simp
  next
    case False
    have pos: "0 < (2 :: real) powi g" by simp
    have sgn: "z < 0 \<longleftrightarrow> a - b < 0"
    proof -
      have "z < 0 \<longleftrightarrow> of_int z * (2 :: real) powi g < 0" using pos by (simp add: mult_less_0_iff)
      also have "\<dots> \<longleftrightarrow> a - b < 0" unfolding z by (simp only: of_int_less_0_iff)
      finally show ?thesis .
    qed
    obtain n' d' where r: "scaled_ratio F32 (z < 0) (nat \<bar>z\<bar>) g 1 = round_to F32 (z < 0) n' d'" "0 < d'"
      "real n' / real d' = real (nat \<bar>z\<bar>) * 2 powi g / real (1 :: nat)" by (rule scaled_ratio_round [OF zero_less_one])
    have "real (nat \<bar>z\<bar>) * 2 powi g = \<bar>of_int z * 2 powi g\<bar>" by (simp add: abs_mult)
    also have "\<dots> = real (nat \<bar>a - b\<bar>)" unfolding z by simp
    finally have "real n' / real d' = real (nat \<bar>a - b\<bar>) / real 1" using r(3) by simp
    then have "round_to F32 (z < 0) n' d' = round_to F32 (z < 0) (nat \<bar>a - b\<bar>) 1" using r(2) by (intro round_to_ratio) simp_all
    then have "scaled_ratio F32 (z < 0) (nat \<bar>z\<bar>) g 1 = fint (a - b)"
      unfolding of_integer_def sgn using r(1) sgn by simp
    then show ?thesis unfolding sub using False by simp
  qed
qed

text \<open>The step change for any turn of a quarter of a degree to 1000 degrees: the nearest integer to 3000
  ticks for 180 degrees, up to the rounding of the two products, divided by 25.\<close>

lemma step_change_round:
  assumes "1 / 4 \<le> \<bar>val (Fin s m e)\<bar>" and "\<bar>val (Fin s m e)\<bar> \<le> 1000"
  obtains k where "integral (f_div binary64 (f_round binary64 (fmul (fint 3000) (fdiv (Fin s m e) (fint 180)))) (of_integer binary64 25)) =
      Some (signed s (k div 25))" and "\<bar>real k - 50 * \<bar>val (Fin s m e)\<bar> / 3\<bar> \<le> 51 / 100"
proof -
  define v where "v = \<bar>val (Fin s m e)\<bar>"
  have v: "1 / 4 \<le> v" "v \<le> 1000" using assms by (simp_all only: v_def)
  obtain n f where y: "fint (int 180) = Fin False n f" "\<bar>val (Fin False n f)\<bar> = real 180" "0 < n"
    by (rule fint_Fin [of 180 False]) auto
  obtain n3 f3 where w: "fint (int 3000) = Fin False n3 f3" "\<bar>val (Fin False n3 f3)\<bar> = real 3000"
    by (rule fint_Fin [of 3000 False]) auto
  define a where "a = fdiv (Fin s m e) (Fin False n f)"
  define b where "b = fmul (Fin False n3 f3) a"
  have "2 powi (- 126) \<le> (1 :: real) / 2 ^ 126" by (simp add: powi_nat)
  then have tiny: "2 powi (- 126) \<le> (1 :: real) / 1000" by (rule order_trans) simp
  have p23: "(2 :: real) powi (- 23) = 1 / 8388608" by (simp add: powi_nat)
  have big: "2 powi (- 126) \<le> \<bar>val (Fin s m e)\<bar> / \<bar>val (Fin False n f)\<bar>" "\<bar>val (Fin s m e)\<bar> / \<bar>val (Fin False n f)\<bar> \<le> 2 ^ 24"
    using tiny v unfolding v_def [symmetric] y(2) by simp_all
  obtain ma ea where a: "a = Fin s ma ea" and ea: "\<bar>\<bar>val a\<bar> - v / 180\<bar> \<le> v / 180 / 8388608"
    using fdiv_error [OF refl refl y(3) big] unfolding a_def [symmetric] v_def [symmetric] y(2) p23 by fastforce
  have va: "1 / 721 \<le> \<bar>val a\<bar>" "\<bar>val a\<bar> \<le> 6" using ea v by linarith+
  have big: "2 powi (- 126) \<le> \<bar>val a\<bar> * \<bar>val (Fin False n3 f3)\<bar>" "\<bar>val a\<bar> * \<bar>val (Fin False n3 f3)\<bar> \<le> 2 ^ 24"
    using tiny va unfolding w(2) by simp_all
  obtain mb eb where b: "b = Fin s mb eb" and eb: "\<bar>\<bar>val b\<bar> - \<bar>val a\<bar> * 3000\<bar> \<le> \<bar>val a\<bar> * 3000 / 8388608"
    using fmul_error [OF a refl big] unfolding b_def [symmetric] w(2) p23 by fastforce
  obtain k where k: "f_round binary64 (Fin s mb eb) = round_to binary64 s k 1" "real k \<le> \<bar>val (Fin s mb eb)\<bar> + 1 / 2"
    "\<bar>val (Fin s mb eb)\<bar> + 1 / 2 < real k + 1" by (rule f_round_bounds)
  have k2: "real k \<le> \<bar>val b\<bar> + 1 / 2" "\<bar>val b\<bar> + 1 / 2 < real k + 1" using k b by simp_all
  have close: "\<bar>\<bar>val b\<bar> - 50 * v / 3\<bar> \<le> 1 / 100" using ea eb va v by linarith
  have near: "\<bar>real k - 50 * v / 3\<bar> \<le> 51 / 100" using k2 close by linarith
  have "0 < real k" "real k < 262144" using near v by linarith+
  then have k0: "0 < k" "k \<le> 2 ^ 18" by simp_all
  have "round_to binary64 s k 1 = of_integer binary64 (signed s k)" using k0 by (cases s) (simp_all add: of_integer_def signed_def)
  then have "f_round binary64 (fmul (fint (int 3000)) (fdiv (Fin s m e) (fint (int 180)))) = of_integer binary64 (signed s k)"
    unfolding y(1) w(1) a_def [symmetric] b_def [symmetric] b k(1) .
  then show ?thesis using that [of k] integral_fdiv [OF k0, of 25 s] near by (simp add: v_def del: val.simps)
qed

lemma step_change_integral:
  assumes d: "0 < d" "d \<le> 180"
  shows "integral (f_div binary64 (f_round binary64 (fmul (fint 3000) (fdiv (fint (signed s d)) (fint 180)))) (of_integer binary64 25)) =
    Some (signed s ((50 * d + 1) div 3 div 25))"
proof -
  obtain m e where x: "fint (signed s d) = Fin s m e" "\<bar>val (Fin s m e)\<bar> = real d"
    by (rule fint_Fin_signed [of d s]) (use d in auto)
  have d': "1 \<le> real d" "real d \<le> 180" using d by simp_all
  have "1 / 4 \<le> \<bar>val (Fin s m e)\<bar>" "\<bar>val (Fin s m e)\<bar> \<le> 1000" unfolding x(2) using d' by linarith+
  then obtain k where k: "integral (f_div binary64 (f_round binary64 (fmul (fint 3000) (fdiv (Fin s m e) (fint 180)))) (of_integer binary64 25)) =
      Some (signed s (k div 25))" "\<bar>real k - 50 * real d / 3\<bar> \<le> 51 / 100"
    by (rule step_change_round) (simp only: x(2))
  have "3 * real k < 50 * real d + 2" "50 * real d + 1 < 3 * real k + 3" using k(2) by linarith+
  then have "real (3 * k) < real (50 * d + 2)" "real (50 * d + 1) < real (3 * k + 3)" by simp_all
  then have "3 * k < 50 * d + 2" "50 * d + 1 < 3 * k + 3" by (simp_all only: of_nat_less_iff)
  then have "k = (50 * d + 1) div 3" by linarith
  then show ?thesis using k(1) by (simp add: x(1))
qed

subsection \<open>The drivers of the program\<close>

text \<open>180 degrees over 3000 microseconds in 25 steps, reversed: what both servos are built with.\<close>

definition is_driver :: "servo_comm \<Rightarrow> bool" where
  "is_driver sc \<longleftrightarrow> ROT_MAX_DEG sc = 180 \<and> DUTY_RANGE_US sc = 3000 \<and> STEPS sc = 25 \<and> REVERSED sc = 1"

text \<open>The duty per step of a turn by \<open>d\<close> degrees.\<close>

definition step_ticks :: "nat \<Rightarrow> nat" where
  "step_ticks d = (50 * d + 1) div 3 div 25"

lemma sweep_end: "snd (sweep n change duty) = duty + of_nat n * change"
  by (induction n arbitrary: duty) (simp_all add: case_prod_beta algebra_simps)

lemma sweep_length: "length (fst (sweep n change duty)) = n"
  by (induction n arbitrary: duty) (simp_all add: case_prod_beta)

lemma sweep_zero: "fst (sweep n 0 duty) = replicate n duty"
  by (induction n arbitrary: duty) (simp_all add: case_prod_beta)

lemma dbl_le_fint:
  assumes "\<bar>a\<bar> \<le> 2 ^ 24" and "\<bar>b\<bar> \<le> 2 ^ 24"
  shows "dbl_le (fint a) (fint b) \<longleftrightarrow> a \<le> b"
proof -
  obtain m e where a: "fint a = Fin (a < 0) m e" "val (fint a) = of_int a" by (rule fint_Fin_int [OF assms(1)])
  obtain n f where b: "fint b = Fin (b < 0) n f" "val (fint b) = of_int b" by (rule fint_Fin_int [OF assms(2)])
  have "dbl_le (fint a) (fint b) \<longleftrightarrow> val (fint a) \<le> val (fint b)" unfolding a(1) b(1) by (rule dbl_le_val)
  then show ?thesis by (simp add: a(2) b(2))
qed

lemma abs_fint: "\<bar>k\<bar> \<le> 2 ^ 24 \<Longrightarrow> dbl_abs (fint k) = fint \<bar>k\<bar>"
  by (simp add: of_integer_def round_to_abs)

text \<open>The test against half a degree.\<close>

lemma half_degree:
  assumes "\<bar>k\<bar> \<le> 2 ^ 24"
  shows "dbl_lt (dbl_abs (fint k)) (lit binary64 5 10) \<longleftrightarrow> k = 0"
proof -
  have half: "lit binary64 5 10 = Fin False (2 ^ 52) (- 53)"
    by (simp add: lit_def round_to_def binary64_def ilog2_def bitlen.simps half_even_def Let_def)
  obtain m e where k: "fint \<bar>k\<bar> = Fin (\<bar>k\<bar> < 0) m e" "val (fint \<bar>k\<bar>) = of_int \<bar>k\<bar>"
    by (rule fint_Fin_int [of "\<bar>k\<bar>"]) (use assms in simp_all)
  have v: "val (Fin False (2 ^ 52) (- 53)) = 1 / 2" by (simp add: signed_def powi_nat)
  have "dbl_lt (dbl_abs (fint k)) (lit binary64 5 10) \<longleftrightarrow> of_int \<bar>k\<bar> < (1 / 2 :: real)"
    unfolding dbl_lt_def abs_fint [OF assms] half k(1) dbl_le_val unfolding v k(1) [symmetric] k(2) by (simp only: less_le_not_le)
  also have "\<dots> \<longleftrightarrow> k = 0"
  proof
    assume "of_int \<bar>k\<bar> < (1 / 2 :: real)"
    then have "of_int \<bar>k\<bar> < (1 :: real)" by linarith
    then have "\<bar>k\<bar> < 1" by (simp only: of_int_less_1_iff)
    then show "k = 0" by simp
  qed simp
  finally show ?thesis .
qed

text \<open>One round, with an integral angle in the variable.\<close>

lemma driver_round:
  assumes sc: "is_driver sc" and r: "rot_current sc = fint (int r)" "r \<le> 180" and t: "st a = fint (180 - int c)" "c \<le> 180"
    and neq: "c \<noteq> r" and cvt: "cvt = cvt_std \<or> cvt = cvt_wrap"
    and up: "cvt = cvt_std \<Longrightarrow> r \<le> c \<or> step_ticks (r - c) = 0"
  shows "task_round cvt (Some a) st sc =
    (let change = word_of_int (if r \<le> c then int (step_ticks (c - r)) else - int (step_ticks (r - c)))
     in Some (fst (sweep 25 change (duty_current sc)),
       sc\<lparr>duty_current := duty_current sc + 25 * change, rot_current := fint (int c)\<rparr>))"
proof -
  have tc: "fsub (fint 180) (st a) = fint (int c)" using t by (simp add: fsub_fint)
  have rot: "fsub (fint (int c)) (fint (int r)) = fint (int c - int r)" using r t by (simp add: fsub_fint)
  have skip: "\<not> dbl_lt (dbl_abs (fint (int c - int r))) (lit binary64 5 10)"
    using half_degree [of "int c - int r"] neq r(2) t(2) by simp
  have max: "\<not> dbl_lt (uint_to_float 180) (fint (int c))"
    using dbl_le_fint [of "int c" 180] t(2) by (simp add: dbl_lt_def uint_to_float_def)
  define s d where "s = (c < r)" and "d = (if r \<le> c then c - r else r - c)"
  have d: "0 < d" "d \<le> 180" using neq r(2) t(2) by (auto simp: d_def)
  have sd: "int c - int r = signed s d" by (auto simp: s_def d_def signed_def)
  have int: "integral (f_div binary64 (f_round binary64 (fmul (uint_to_float 3000) (fdiv (fint (int c - int r)) (uint_to_float 180)))) (uint_to_double 25)) =
    Some (signed s (step_ticks d))"
    using step_change_integral [OF d, of s] by (simp add: uint_to_float_def uint_to_double_def step_ticks_def sd)
  have "step_ticks d < 2 ^ 32" using d(2) by (simp add: step_ticks_def div_less_iff_less_mult)
  then have "cvt (f_div binary64 (f_round binary64 (fmul (uint_to_float 3000) (fdiv (fint (int c - int r)) (uint_to_float 180)))) (uint_to_double 25)) =
    Some (word_of_int (signed s (step_ticks d)))"
    using cvt up by (auto simp: cvt_std_def cvt_wrap_def int s_def d_def signed_def)
  then have dsc: "duty_step_change cvt sc (fint (int c - int r)) = Some (word_of_int (signed s (step_ticks d)))"
    using sc by (simp add: duty_step_change_def is_driver_def)
  define change :: u32 where "change = word_of_int (signed s (step_ticks d))"
  have ch: "word_of_int (if r \<le> c then int (step_ticks (c - r)) else - int (step_ticks (r - c))) = change"
    by (simp add: change_def s_def d_def signed_def)
  have steps: "unat (STEPS sc) = 25" using sc by (simp add: is_driver_def)
  show ?thesis unfolding ch
    using sc tc rot skip max sweep_end [of 25 change "duty_current sc"]
    by (simp add: task_round_def is_driver_def r(1) dsc [folded change_def] Let_def case_prod_beta)
qed

lemma driver_round_still:
  assumes "is_driver sc" and "rot_current sc = fint (int c)" and "st a = fint (180 - int c)" and "c \<le> 180"
  shows "task_round cvt (Some a) st sc = Some ([], sc)"
  using assms half_degree [of 0] by (simp add: task_round_def is_driver_def fsub_fint)

lemma new_driver:
  "Servo_comm_new ident 180 500 3000 500 20 1000 1 15 ch (Some a) = Some \<lparr>sc_id = ident, ROT_MAX_DEG = 180,
     SWEEP_PERIOD_MS = 500, DUTY_RANGE_US = 3000, DUTY_UPD_PERIOD_MS = 20, STEPS = 25, REST_PERIOD_MS = 1000,
     REVERSED = 1, duty_current = 819, rot_current = fint 0, sc_conn = ch, target_ptr = Some a, ended = False\<rparr>"
  by (simp add: Servo_comm_new_def)

subsection \<open>Properties\<close>

text \<open>
  C19: the accuracy of one move forward, for all angles, fractional ones included. When the angle that a
  driver of the program is told (180 less the variable) exceeds its present angle by 0.51 degrees or
  more, the move is defined, sets 25 duties, records the angle up to the rounding of a float, and
  raises the duty by a multiple of 25 that is at most 0.52 ticks more and at most 24.52 ticks less than
  the 3000 ticks for 180 degrees in proportion. (Smaller moves are ignored, and moves back are not defined.)
\<close>

theorem servo_move_accuracy:
  assumes "is_driver sc" and "between 0 180 (rot_current sc)" and "between 0 180 (st a)"
    and "turn = 180 - val (st a) - val (rot_current sc)" and "51 / 100 \<le> turn"
  shows "\<exists>ds q rot. task_round cvt_std (Some a) st sc =
      Some (ds, sc\<lparr>duty_current := duty_current sc + of_nat (25 * q), rot_current := rot\<rparr>) \<and> length ds = 25 \<and>
    between 0 180 rot \<and> \<bar>val rot - (180 - val (st a))\<bar> \<le> 1 / 2 ^ 15 \<and>
    real (25 * q) \<le> 50 / 3 * turn + 52 / 100 \<and> 50 / 3 * turn \<le> real (25 * q) + 2452 / 100"
proof -
  define t where "t = fsub (fint 180) (st a)"
  define rot where "rot = fsub t (rot_current sc)"
  have i180: "between 180 180 (fint 180)" by (rule fint_between) simp
  have fin: "is_finite_f (fint 180)" "is_finite_f (st a)" "is_finite_f (rot_current sc)"
    using i180 assms(2,3) between_finite by blast+
  have v: "val (fint 180) = 180" "0 \<le> val (st a)" "val (st a) \<le> 180" "0 \<le> val (rot_current sc)" "val (rot_current sc) \<le> 180"
    using i180 assms(2,3) fin by (simp_all add: between_val)
  have t180: "between 0 180 t" using fsub_between [OF i180 assms(3)] by (simp add: t_def)
  have p: "(2 :: real) powi (- 126) \<le> 1 / 2" "(2 :: real) powi (- 23) = 1 / 8388608" by (simp_all add: powi_nat)
  have "2 powi (- 126) \<le> val (fint 180) - val (st a)" "val (fint 180) - val (st a) \<le> 2 ^ 24" using v assms(4,5) p(1) by simp_all
  from fsub_error [OF fin(1,2) this] have e1: "\<bar>val t - (180 - val (st a))\<bar> \<le> (180 - val (st a)) / 8388608"
    unfolding t_def [symmetric] v(1) p(2) by fastforce
  have t: "180 - val (st a) - 1 / 40000 \<le> val t" "val t \<le> 180 - val (st a) + 1 / 40000"
    using abs_le_D1 [OF e1] abs_le_D2 [OF e1] v(2,3) by simp_all
  have t3: "\<bar>val t - (180 - val (st a))\<bar> \<le> 1 / 32768"
    by (rule abs_leI) (use t in simp_all)
  have "2 powi (- 126) \<le> val t - val (rot_current sc)" "val t - val (rot_current sc) \<le> 2 ^ 24" using t v assms(4,5) p(1) by simp_all
  from fsub_error [OF between_finite [OF t180] fin(3) this] obtain m e where r: "rot = Fin False m e"
    and e2: "\<bar>val rot - (val t - val (rot_current sc))\<bar> \<le> (val t - val (rot_current sc)) / 8388608"
    unfolding rot_def [symmetric] p(2) by auto
  have "(val t - val (rot_current sc)) / 8388608 \<le> 1 / 40000" using t v by simp
  then have close: "\<bar>val rot - turn\<bar> \<le> 1 / 10000" using e2 t v assms(4) by linarith
  have vr: "1 / 4 \<le> \<bar>val (Fin False m e)\<bar>" "\<bar>val (Fin False m e)\<bar> \<le> 1000" "1 / 2 \<le> val rot" "\<bar>val (Fin False m e)\<bar> = val rot"
    using close assms(4,5) v unfolding r by linarith+
  obtain k where k: "integral (f_div binary64 (f_round binary64 (fmul (fint 3000) (fdiv (Fin False m e) (fint 180)))) (of_integer binary64 25)) =
      Some (signed False (k div 25))" "\<bar>real k - 50 * \<bar>val (Fin False m e)\<bar> / 3\<bar> \<le> 51 / 100"
    by (rule step_change_round [OF vr(1,2)])
  have near: "\<bar>real k - 50 / 3 * turn\<bar> \<le> 52 / 100" using k(2) close unfolding vr(4) by linarith
  have kq: "25 * (k div 25) \<le> k" "k \<le> 25 * (k div 25) + 24" by linarith+
  then have kr: "real (25 * (k div 25)) \<le> real k" "real k \<le> real (25 * (k div 25)) + 24" by linarith+
  have "real k < 4294967296" using near v assms(4) by linarith
  then have "k div 25 < 2 ^ 32" by simp
  then have change: "duty_step_change cvt_std sc rot = Some (of_nat (k div 25))"
    using assms(1) k(1) by (simp add: duty_step_change_def is_driver_def uint_to_float_def uint_to_double_def r cvt_std_def signed_def)
  have half: "lit binary64 5 10 = Fin False (2 ^ 52) (- 53)" "val (Fin False (2 ^ 52) (- 53)) = 1 / 2"
    by (simp_all add: lit_def float_eval binary64_def powi_nat)
  have "\<not> dbl_lt (dbl_abs rot) (lit binary64 5 10)"
    using vr(3) unfolding half(1) r dbl_abs.simps dbl_lt_def dbl_le_val half(2) by auto
  moreover have "\<not> dbl_lt (uint_to_float 180) t"
    using le_via_int [of t 180 "fint 180"] t180 i180 by (simp add: dbl_lt_def uint_to_float_def between_def)
  ultimately have "task_round cvt_std (Some a) st sc = Some (fst (sweep 25 (of_nat (k div 25)) (duty_current sc)),
      sc\<lparr>duty_current := duty_current sc + of_nat (25 * (k div 25)), rot_current := t\<rparr>)"
    using assms(1) change sweep_end [of 25 "of_nat (k div 25)" "duty_current sc"]
    by (simp add: task_round_def is_driver_def Let_def case_prod_beta t_def [symmetric] rot_def [symmetric])
  moreover have "real (25 * (k div 25)) \<le> 50 / 3 * turn + 52 / 100" "50 / 3 * turn \<le> real (25 * (k div 25)) + 2452 / 100"
    using near kr by linarith+
  moreover have "\<bar>val t - (180 - val (st a))\<bar> \<le> 1 / 2 ^ 15" using t3 by simp
  ultimately show ?thesis using t180 sweep_length by blast
qed

text \<open>A driver as the program makes it.\<close>

definition driver_example :: servo_comm where
  "driver_example = the (Servo_comm_new 0 180 500 3000 500 20 1000 1 15 0 (Some 4))"

lemma driver_example: "is_driver driver_example" "rot_current driver_example = fint 0" "duty_current driver_example = 819"
  by (simp_all add: driver_example_def new_driver is_driver_def)

text \<open>From 0 to 78.5 degrees: the variable holds 101.5.\<close>

theorem servo_move_accuracy_witness:
  "\<exists>ds q rot. task_round cvt_std (Some 4) (\<lambda>_. Fin False 203 (- 1)) driver_example =
      Some (ds, driver_example\<lparr>duty_current := duty_current driver_example + of_nat (25 * q), rot_current := rot\<rparr>) \<and>
    length ds = 25 \<and> real (25 * q) \<le> 50 / 3 * (157 / 2) + 52 / 100 \<and> 50 / 3 * (157 / 2) \<le> real (25 * q) + 2452 / 100"
proof -
  have z: "between 0 0 (fint 0)" by (rule fint_between) simp
  then have "val (fint 0) = 0" using between_val [OF between_finite [OF z]] by simp
  moreover have "between 0 180 (Fin False 203 (- 1))" by (simp add: between_def signed_def)
  moreover have "val (Fin False 203 (- 1)) = 203 / 2" by (simp add: signed_def powi_nat)
  moreover have "between 0 180 (fint 0)" by (rule between_mono [OF z]) simp_all
  ultimately show ?thesis
    using servo_move_accuracy [of driver_example "\<lambda>_. Fin False 203 (- 1)" 4 "157 / 2"] driver_example by fastforce
qed

text \<open>
  A target that creeps never moves the servo. A driver whose target angle rises by one degree
  per round, all the way from 0 to any angle up to 180, sets the same duty in every step of every
  round: each single turn is cut to 0 ticks per step, and the angle is recorded as reached.
\<close>

theorem creeping_target_never_moves:
  assumes "Servo_comm_new ident 180 500 3000 500 20 1000 1 15 ch (Some a) = Some sc" and "n \<le> 180"
  shows "\<exists>ds. servo_run cvt_std (map (\<lambda>k. (False, \<lambda>_. fint (180 - int k))) [1..<n + 1]) sc =
      Some (ds, sc\<lparr>rot_current := fint (int n)\<rparr>) \<and> set ds \<subseteq> {819}"
proof -
  have sc: "is_driver sc" "rot_current sc = fint (int 0)" "target_ptr sc = Some a" "\<not> ended sc" "duty_current sc = 819"
    using assms(1) by (auto simp: new_driver is_driver_def)
  have run: "\<exists>ds. servo_task cvt_std (Some a) (map (\<lambda>k. (False, \<lambda>_. fint (180 - int k))) [r + 1..<r + 1 + m]) s =
      Some (ds, s\<lparr>rot_current := fint (int (r + m))\<rparr>) \<and> set ds \<subseteq> {819}"
    if "is_driver s" "rot_current s = fint (int r)" "\<not> ended s" "duty_current s = 819" "r + m \<le> 180" for s r m
    using that
  proof (induction m arbitrary: r s)
    case 0
    then have "s\<lparr>rot_current := fint (int r)\<rparr> = s" by simp
    then show ?case by simp
  next
    case (Suc m)
    let ?s = "s\<lparr>rot_current := fint (int (r + 1))\<rparr>"
    have "step_ticks 1 = 0" by (simp add: step_ticks_def)
    then have rd: "task_round cvt_std (Some a) (\<lambda>_. fint (180 - int (r + 1))) s = Some (replicate 25 819, ?s)"
      using driver_round [of s r "\<lambda>_. fint (180 - int (r + 1))" a "r + 1" cvt_std] Suc.prems sweep_zero [of 25 819]
      by (simp add: Let_def)
    obtain ds where ds: "servo_task cvt_std (Some a) (map (\<lambda>k. (False, \<lambda>_. fint (180 - int k))) [r + 1 + 1..<r + 1 + 1 + m]) ?s =
      Some (ds, ?s\<lparr>rot_current := fint (int (r + 1 + m))\<rparr>)" "set ds \<subseteq> {819}"
      using Suc.IH [of ?s "r + 1"] Suc.prems by (auto simp: is_driver_def)
    have "[r + 1..<r + 1 + Suc m] = (r + 1) # [r + 1 + 1..<r + 1 + 1 + m]" by (simp add: upt_conv_Cons)
    then have "servo_task cvt_std (Some a) (map (\<lambda>k. (False, \<lambda>_. fint (180 - int k))) [r + 1..<r + 1 + Suc m]) s =
        Some (replicate 25 819 @ ds, s\<lparr>rot_current := fint (int (r + Suc m))\<rparr>)"
      using rd ds(1) Suc.prems(3) by (simp only: list.map servo_task.simps fst_conv snd_conv if_False Let_def) simp
    moreover have "set (replicate 25 819 @ ds) \<subseteq> {819}" using ds(2) by simp
    ultimately show ?case by blast
  qed
  have same: "sc\<lparr>ended := False\<rparr> = sc" using sc(4) by (cases sc) simp
  show ?thesis
    using run [of sc 0 n] sc(1,2,4,5) assms(2) unfolding servo_run_def sc(3) same by (simp only: add_0 add.commute [of n] not_False_eq_True simp_thms)
qed

theorem creeping_target_never_moves_witness:
  "\<exists>ds. servo_run cvt_std (map (\<lambda>k. (False, \<lambda>_. fint (180 - int k))) [1..<180 + 1]) driver_example =
      Some (ds, driver_example\<lparr>rot_current := fint (int 180)\<rparr>) \<and> set ds \<subseteq> {819}"
  by (rule creeping_target_never_moves [of 0 0 4]) (simp_all add: driver_example_def new_driver)

text \<open>
  Every move back is undefined in C++. The change per step is computed as a float and converted
  to \<^verbatim>\<open>uint32_t\<close>; for a target at least two degrees below the present angle it is negative.
\<close>

theorem servo_move_back_undefined:
  assumes "is_driver sc" and "rot_current sc = fint (int r)" and "st a = fint (180 - int c)" and "c + 2 \<le> r" and "r \<le> 180"
  shows "task_round cvt_std (Some a) st sc = None"
proof -
  have q: "0 < step_ticks (r - c)"
  proof -
    have "75 \<le> 50 * (r - c) + 1" using assms(4) by linarith
    then have "25 \<le> (50 * (r - c) + 1) div 3" by linarith
    then show ?thesis by (simp add: step_ticks_def div_greater_zero_iff)
  qed
  have neg: "int c - int r = signed True (r - c)" using assms(4) by (simp add: signed_def)
  have "integral (f_div binary64 (f_round binary64 (fmul (uint_to_float 3000) (fdiv (fint (int c - int r)) (uint_to_float 180)))) (uint_to_double 25)) =
    Some (- int (step_ticks (r - c)))"
    using step_change_integral [of "r - c" True] assms(4,5) by (simp add: uint_to_float_def uint_to_double_def step_ticks_def neg) (simp add: signed_def)
  then have "duty_step_change cvt_std sc (fint (int c - int r)) = None"
    using assms(1) q by (simp add: duty_step_change_def is_driver_def cvt_std_def)
  moreover have "\<not> dbl_lt (dbl_abs (fint (int c - int r))) (lit binary64 5 10)"
    using half_degree [of "int c - int r"] assms(4,5) by simp
  moreover have "\<not> dbl_lt (uint_to_float 180) (fint (int c))"
    using dbl_le_fint [of "int c" 180] assms(4,5) by (simp add: dbl_lt_def uint_to_float_def)
  ultimately show ?thesis
    using assms by (simp add: task_round_def is_driver_def fsub_fint Let_def)
qed

theorem servo_move_back_undefined_witness:
  "task_round cvt_std (Some 4) (\<lambda>_. fint 180) (driver_example\<lparr>rot_current := fint (int 90)\<rparr>) = None"
  by (rule servo_move_back_undefined [where r = 90 and c = 0]) (use driver_example in \<open>simp_all add: is_driver_def\<close>)

lemma cvt_differ: "cvt_wrap \<noteq> cvt_std"
proof
  assume "cvt_wrap = cvt_std"
  then have "cvt_wrap (Fin True 1 0) = cvt_std (Fin True 1 0)" by simp
  then show False by (simp add: cvt_wrap_def cvt_std_def signed_def)
qed

text \<open>
  Where the conversion takes the integral part modulo 2 to the 32, a move there and back returns
  to the duty it started from, whatever the two angles: no error adds up.
\<close>

theorem servo_there_and_back:
  assumes "is_driver sc" and "rot_current sc = fint (int r)" and "r \<le> 180" and "c \<le> 180"
  shows "\<exists>ds. servo_task cvt_wrap (Some a) [(False, \<lambda>_. fint (180 - int c)), (False, \<lambda>_. fint (180 - int r))]
    (sc\<lparr>ended := False\<rparr>) = Some (ds, sc\<lparr>ended := False\<rparr>)"
proof (cases "c = r")
  case True
  have "is_driver (sc\<lparr>ended := False\<rparr>)" using assms(1) by (simp add: is_driver_def)
  then show ?thesis using True assms driver_round_still [of "sc\<lparr>ended := False\<rparr>" r "\<lambda>_. fint (180 - int r)" a cvt_wrap] by simp
next
  case False
  let ?sc = "sc\<lparr>ended := False\<rparr>"
  define ch :: u32 where "ch = word_of_int (if r \<le> c then int (step_ticks (c - r)) else - int (step_ticks (r - c)))"
  define ch' :: u32 where "ch' = word_of_int (if c \<le> r then int (step_ticks (r - c)) else - int (step_ticks (c - r)))"
  have opp: "ch' = - ch" using False by (auto simp: ch_def ch'_def)
  define s1 where "s1 = ?sc\<lparr>duty_current := duty_current sc + 25 * ch, rot_current := fint (int c)\<rparr>"
  have dr: "is_driver ?sc" "is_driver s1" using assms(1) by (simp_all add: is_driver_def s1_def)
  obtain ds1 where r1: "task_round cvt_wrap (Some a) (\<lambda>_. fint (180 - int c)) ?sc = Some (ds1, s1)"
    using driver_round [OF dr(1), of r "\<lambda>_. fint (180 - int c)" a c cvt_wrap] assms False cvt_differ
    by (simp add: s1_def flip: ch_def)
  obtain ds2 where "task_round cvt_wrap (Some a) (\<lambda>_. fint (180 - int r)) s1 =
      Some (ds2, s1\<lparr>duty_current := duty_current s1 + 25 * ch', rot_current := fint (int r)\<rparr>)"
    using driver_round [OF dr(2), of c "\<lambda>_. fint (180 - int r)" a r cvt_wrap] assms False cvt_differ
    by (simp add: s1_def flip: ch'_def)
  moreover have "s1\<lparr>duty_current := duty_current s1 + 25 * ch', rot_current := fint (int r)\<rparr> = ?sc"
    using assms(2) by (cases sc) (simp add: s1_def opp)
  ultimately show ?thesis using r1 by (simp add: s1_def end_now_def)
qed

theorem servo_there_and_back_witness:
  "\<exists>ds. servo_task cvt_wrap (Some 4) [(False, \<lambda>_. fint (180 - int 77)), (False, \<lambda>_. fint (180 - int 0))]
    (driver_example\<lparr>ended := False\<rparr>) = Some (ds, driver_example\<lparr>ended := False\<rparr>)"
  by (rule servo_there_and_back) (simp_all add: driver_example)

end
