(* ===== verification/Domohelios.thy ===== *)
theory Domohelios
  imports ServoComm FileServer ConfigText
begin

text \<open>
  The program itself, domohelios.cpp: its shared variables, the loading of the configuration, the
  construction of the tracker from it, and the threads: battery control, readings, telemetry, the
  switch that is toggled by remote calls and applied by a loop. Calls of the drivers are values.
\<close>

subsection \<open>Shared variables\<close>

definition adc_ldr_a :: addr where "adc_ldr_a = 0"
definition adc_ldr_b :: addr where "adc_ldr_b = 1"
definition adc_ldr_c :: addr where "adc_ldr_c = 2"
definition adc_ldr_d :: addr where "adc_ldr_d = 3"
definition servo_a_target :: addr where "servo_a_target = 4"
definition servo_b_target :: addr where "servo_b_target = 5"
definition adc_batt :: addr where "adc_batt = 6"
definition adc_panel :: addr where "adc_panel = 7"

lemmas variables = adc_ldr_a_def adc_ldr_b_def adc_ldr_c_def adc_ldr_d_def servo_a_target_def servo_b_target_def
  adc_batt_def adc_panel_def

text \<open>Both servos: 180 degrees, a sweep of 500 ms, 3500 - 500 microseconds from 500, 20 ms per step.\<close>

definition servo_a :: "servo_comm option" where
  "servo_a = Servo_comm_new 0 180 500 (3500 - 500) 500 20 1000 1 15 0 (Some servo_a_target)"

definition servo_b :: "servo_comm option" where
  "servo_b = Servo_comm_new 1 180 500 (3500 - 500) 500 20 1000 1 15 1 (Some servo_b_target)"

subsection \<open>The configuration\<close>

definition SYS_CFG_FILE_PATH :: "u8 list" where "SYS_CFG_FILE_PATH = ascii ''/data/config.json''"

text \<open>The general buffer: 2048 bytes, zero at the start. \<^verbatim>\<open>fread\<close> stores at most that many.\<close>

definition load_buffer :: "u8 list \<Rightarrow> u8 list" where
  "load_buffer bs = take 2048 bs @ replicate (2048 - length bs) 0"

text \<open>The string in the buffer; without a terminator the parser reads beyond it.\<close>

definition buffer_string :: "u8 list \<Rightarrow> u8 list option" where
  "buffer_string b = (if 0 \<in> set b then Some (cstr b) else None)"

text \<open>The result: the code of \<^verbatim>\<open>check_and_dump_cfg\<close>, or none without a file, and the configuration.
  A file that is there but cannot be opened gives \<^verbatim>\<open>fread\<close> a null pointer.\<close>

definition init_config ::
  "'s fsys \<Rightarrow> 's \<Rightarrow> bool \<Rightarrow> (nat \<Rightarrow> bool) \<Rightarrow> heap \<Rightarrow> DH_config \<Rightarrow> ((int option \<times> DH_config \<times> heap) run) option" where
  "init_config F d open_ok mem h conf = (case fs_read F d SYS_CFG_FILE_PATH of
     None \<Rightarrow> Some (Done (None, conf, h))
   | Some bs \<Rightarrow> if \<not> open_ok then None else do {
       str \<leftarrow> buffer_string (load_buffer bs);
       r \<leftarrow> cJSON_Parse mem (Some str) h;
       (case r of Running \<Rightarrow> Some Running
        | Done pr \<Rightarrow> do {
            (err, conf') \<leftarrow> check_and_dump_cfg (res_item pr) conf;
            Some (Done (Some err, conf',
              case res_item pr of None \<Rightarrow> res_heap pr | Some it \<Rightarrow> cJSON_Delete [it] (res_heap pr))) }) })"

subsection \<open>The tracker\<close>

definition target_ldr :: "addr list" where "target_ldr = [adc_ldr_a, adc_ldr_b, adc_ldr_c, adc_ldr_d]"

definition target_servo :: "addr list" where "target_servo = [servo_b_target, servo_a_target]"

definition vec_of :: "Vector3 \<Rightarrow> vec3" where
  "vec_of v = Vec3 (v_x v) (v_y v) (v_z v)"

text \<open>The two loops over the configuration; an index outside an array is a fault.\<close>

fun make_ldrs :: "DH_config \<Rightarrow> nat \<Rightarrow> nat \<Rightarrow> ldr list option" where
  "make_ldrs c 0 i = Some []"
| "make_ldrs c (Suc n) i = do {
     loc \<leftarrow> rd (ldr_location c) i;
     src \<leftarrow> rd target_ldr i;
     ls \<leftarrow> make_ldrs c n (i + 1);
     Some (\<lparr>ldr_src = src, ldr_loc = vec_of loc\<rparr> # ls) }"

fun make_servos :: "DH_config \<Rightarrow> nat \<Rightarrow> nat \<Rightarrow> servo list option" where
  "make_servos c 0 i = Some []"
| "make_servos c (Suc n) i = do {
     target \<leftarrow> rd target_servo i;
     max_rot \<leftarrow> rd (servo_max_rotation c) i;
     can_reverse \<leftarrow> rd (servo_can_reverse_logic c) i;
     svs \<leftarrow> make_servos c n (i + 1);
     Some (new_Servo target target (fint 0) max_rot False (can_reverse \<noteq> 0) # svs) }"

definition init_json_sys_config :: "DH_config \<Rightarrow> solar_sys option" where
  "init_json_sys_config c = do {
     let panel = \<lparr>panel_src = adc_panel, panel_width = v_x (panel_dimensions c), panel_height = v_y (panel_dimensions c)\<rparr>;
     ls \<leftarrow> make_ldrs c (unat (LDR_count c)) 0;
     svs \<leftarrow> make_servos c (unat (Servo_count c)) 0;
     Some (new_Virtual_Solar_sys ls svs panel (fint 4095)) }"

subsection \<open>Readings, battery and telemetry\<close>

text \<open>The average of the raw readings of a channel, in \<^verbatim>\<open>float\<close>.\<close>

definition get_average_read :: "int list \<Rightarrow> dbl" where
  "get_average_read raws = fdiv (foldl (\<lambda>acc r. fadd acc (fint r)) (fint 0) raws) (fint (int (length raws)))"

text \<open>One round of \<^verbatim>\<open>misc_adc_read\<close>, given the raw readings of the channels 6, 7, 4 (four of each) and
  5 (ten). The factor 1.25 is a \<^verbatim>\<open>double\<close>.\<close>

definition misc_adc_read_round :: "int list \<Rightarrow> int list \<Rightarrow> int list \<Rightarrow> int list \<Rightarrow> store \<Rightarrow> store" where
  "misc_adc_read_round ch6 ch7 ch4 ch5 st =
     st(adc_ldr_a := get_average_read ch6,
        adc_ldr_b := dbl_to_float (f_mul binary64 (get_average_read ch7) (lit binary64 5 4)),
        adc_ldr_c := dbl_to_float (f_mul binary64 (get_average_read ch4) (lit binary64 5 4)),
        adc_batt := fdiv (get_average_read ch5) (fint 185))"

text \<open>One round of \<^verbatim>\<open>battery_control_loop\<close> on the flag \<^verbatim>\<open>disable_external\<close>; each comparison loads
  the battery again.\<close>

definition battery_control_round :: "dbl \<times> dbl \<Rightarrow> bool \<Rightarrow> bool" where
  "battery_control_round batt disabled = (if dbl_lt (fst batt) (lit F32 32 10) then True
     else if dbl_lt (lit F32 34 10) (snd batt) then False else disabled)"

definition battery_is_critical :: "dbl \<Rightarrow> bool" where
  "battery_is_critical batt = dbl_lt (f_sub binary64 batt (lit binary64 32 10)) (lit binary64 1 100)"

definition flag_to_float :: "bool \<Rightarrow> dbl" where
  "flag_to_float b = fint (if b then 1 else 0)"

definition send_telemetry :: "store \<Rightarrow> u8 \<Rightarrow> (string \<times> dbl) list" where
  "send_telemetry st sw = (let
     ldr0 = st adc_ldr_a; ldr1 = st adc_ldr_b; ldr2 = st adc_ldr_c;
     avg = fdiv (fadd (fadd ldr0 ldr1) ldr2) (fint 3);
     bit = (\<lambda>i. fint (int (unat (sw AND push_bit i 1))))
   in [(''LDR-AVG'', avg), (''BATT'', st adc_batt),
       (''BATT-IS-LOW'', flag_to_float (dbl_lt (lit F32 32 10) (st adc_batt))),
       (''ON-CHARGE'', flag_to_float (gt_int (st adc_batt) 4)),
       (''SPANEL'', st adc_panel), (''LDR-TOP'', ldr0), (''LDR-L'', ldr1), (''LDR-R'', ldr2), (''LDR-AVG'', avg),
       (''Servo-X'', st servo_b_target), (''Servo-Y'', st servo_a_target),
       (''Inversion-Servo-X'', flag_to_float (gt_int (st servo_a_target) 90)),
       (''SW-0'', bit 0), (''SW-1'', bit 1), (''SW-2'', bit 2), (''SW-3'', bit 3),
       (''SW-4'', bit 4), (''SW-5'', bit 5), (''SW-6'', bit 6), (''SW-7'', bit 7)])"

text \<open>The targets that \<^verbatim>\<open>init_servo\<close> stores, in order.\<close>

definition init_servo_targets :: "(dbl \<times> dbl) list" where
  "init_servo_targets = concat (replicate 2 [(fint 0, fint 0), (fint 180, fint 180), (fint 0, fint 0)])"

subsection \<open>The switch\<close>

text \<open>\<^verbatim>\<open>1 << (desp % 8)\<close>: the remainder of C has the sign of \<open>desp\<close>, and a shift by a negative
  amount is undefined.\<close>

definition switch_bit :: "int \<Rightarrow> u8 option" where
  "switch_bit desp = (let k = (if desp < 0 then - (- desp mod 8) else desp mod 8) in
     if k < 0 then None else Some (push_bit (nat k) 1))"

text \<open>The handler of the remote call as one action.\<close>

definition toggle_switch :: "bool \<Rightarrow> int \<Rightarrow> u8 \<Rightarrow> u8 option" where
  "toggle_switch disabled desp sw = (if disabled then Some sw
     else map_option (\<lambda>b. sw XOR b) (switch_bit desp))"

text \<open>The levels that the callbacks give the two pins, 15 and 2, and the loop over the callbacks.\<close>

record pins =
  gpio_15 :: u32
  gpio_2 :: u32

definition toggle_gpio_A :: "u8 \<Rightarrow> pins \<Rightarrow> pins" where
  "toggle_gpio_A buff p = p\<lparr>gpio_15 := ucast (buff AND 1)\<rparr>"

definition toggle_gpio_B :: "u8 \<Rightarrow> pins \<Rightarrow> pins" where
  "toggle_gpio_B buff p = p\<lparr>gpio_2 := ucast (buff AND 2)\<rparr>"

text \<open>\<^verbatim>\<open>do_something\<close> prints and \<^verbatim>\<open>dummy\<close> does nothing.\<close>

definition children_callback_functions :: "(u8 \<Rightarrow> pins \<Rightarrow> pins) list" where
  "children_callback_functions = [toggle_gpio_A, toggle_gpio_B, \<lambda>_ p. p, \<lambda>_ p. p]"

subsection \<open>The threads of the switch\<close>

text \<open>
  Where the two threads stand. The handler of a remote call has tested the flag (\<open>Tested\<close>) and
  then loaded the switch (\<open>Loaded\<close>) before it stores it. The loop has tested the flag and cleared
  the switch (\<open>Cleared\<close>), loaded the buffered value (\<open>Old\<close>), then the switch (\<open>Both\<close>), stored
  the buffered value and runs the callbacks from the \<open>i\<close>-th (\<open>Calling\<close>).
\<close>

datatype rpc_pc = Rpc_idle | Tested int | Loaded int u8

datatype loop_pc = Loop_head | Cleared | Old u8 | Both u8 u8 | Calling nat u8 u8

record switch_sys =
  switch_val :: u8
  switch_buff :: u8
  disable_external :: bool
  the_pins :: pins
  rpc :: rpc_pc
  looping :: loop_pc

definition switch_init :: switch_sys where
  "switch_init = \<lparr>switch_val = 0, switch_buff = 0, disable_external = False,
     the_pins = \<lparr>gpio_15 = 0, gpio_2 = 0\<rparr>, rpc = Rpc_idle, looping = Loop_head\<rparr>"

text \<open>Each load and store of an atomic variable is a step of its own; the battery thread sets the
  flag at any time.\<close>

inductive switch_step :: "switch_sys \<Rightarrow> switch_sys \<Rightarrow> bool" where
  battery: "switch_step s (s\<lparr>disable_external := d\<rparr>)"
| rpc_test: "rpc s = Rpc_idle \<Longrightarrow> \<not> disable_external s \<Longrightarrow> switch_step s (s\<lparr>rpc := Tested desp\<rparr>)"
| rpc_load: "rpc s = Tested desp \<Longrightarrow> switch_step s (s\<lparr>rpc := Loaded desp (switch_val s)\<rparr>)"
| rpc_store: "rpc s = Loaded desp v \<Longrightarrow> switch_bit desp = Some b \<Longrightarrow>
    switch_step s (s\<lparr>switch_val := v XOR b, rpc := Rpc_idle\<rparr>)"
| loop_clear: "looping s = Loop_head \<Longrightarrow> disable_external s \<Longrightarrow>
    switch_step s (s\<lparr>switch_val := 0, looping := Cleared\<rparr>)"
| loop_keep: "looping s = Loop_head \<Longrightarrow> \<not> disable_external s \<Longrightarrow> switch_step s (s\<lparr>looping := Cleared\<rparr>)"
| loop_old: "looping s = Cleared \<Longrightarrow> switch_step s (s\<lparr>looping := Old (switch_buff s)\<rparr>)"
| loop_new: "looping s = Old ld \<Longrightarrow> switch_step s (s\<lparr>looping := Both ld (switch_val s)\<rparr>)"
| loop_same: "looping s = Both ld tg \<Longrightarrow> ld = tg \<Longrightarrow> switch_step s (s\<lparr>looping := Loop_head\<rparr>)"
| loop_differ: "looping s = Both ld tg \<Longrightarrow> ld \<noteq> tg \<Longrightarrow>
    switch_step s (s\<lparr>switch_buff := tg, looping := Calling 0 ld tg\<rparr>)"
| loop_call: "looping s = Calling i ld tg \<Longrightarrow> i < length children_callback_functions \<Longrightarrow>
    switch_step s (s\<lparr>the_pins := (if (ld XOR tg) AND push_bit i 1 \<noteq> 0
        then (children_callback_functions ! i) (switch_buff s) (the_pins s) else the_pins s),
      looping := Calling (i + 1) ld tg\<rparr>)"
| loop_end: "looping s = Calling i ld tg \<Longrightarrow> i = length children_callback_functions \<Longrightarrow>
    switch_step s (s\<lparr>looping := Loop_head\<rparr>)"

inductive switch_reachable :: "switch_sys \<Rightarrow> bool" where
  start: "switch_reachable switch_init"
| step: "switch_reachable s \<Longrightarrow> switch_step s t \<Longrightarrow> switch_reachable t"

text \<open>The loop without the other threads: one round.\<close>

definition switch_round :: "switch_sys \<Rightarrow> switch_sys" where
  "switch_round s = (let
     sw = (if disable_external s then 0 else switch_val s);
     ld = switch_buff s
   in if ld \<noteq> sw then s\<lparr>switch_val := sw, switch_buff := sw,
        the_pins := foldl (\<lambda>p (i, f). if (ld XOR sw) AND push_bit i 1 \<noteq> 0 then f sw p else p) (the_pins s)
          (zip [0..<length children_callback_functions] children_callback_functions)\<rparr>
      else s\<lparr>switch_val := sw\<rparr>)"

subsection \<open>Invariant of the switch\<close>

definition level_A :: "u8 \<Rightarrow> u32" where "level_A b = ucast (b AND 1)"
definition level_B :: "u8 \<Rightarrow> u32" where "level_B b = ucast (b AND 2)"

text \<open>The pins show the buffered value, or, while the callbacks run, the old value where the
  callback of a pin is still to come.\<close>

definition pins_ok :: "switch_sys \<Rightarrow> bool" where
  "pins_ok s \<longleftrightarrow> (case looping s of
     Calling i ld tg \<Rightarrow> switch_buff s = tg \<and> i \<le> 4 \<and>
       gpio_15 (the_pins s) = level_A (if i = 0 then ld else tg) \<and>
       gpio_2 (the_pins s) = level_B (if i \<le> 1 then ld else tg)
   | lp \<Rightarrow> gpio_15 (the_pins s) = level_A (switch_buff s) \<and> gpio_2 (the_pins s) = level_B (switch_buff s) \<and>
       (case lp of Old ld \<Rightarrow> ld = switch_buff s | Both ld tg \<Rightarrow> ld = switch_buff s | _ \<Rightarrow> True))"

lemma same_bit: "(a XOR b) AND m = 0 \<Longrightarrow> (a :: u8) AND m = b AND m"
proof -
  assume "(a XOR b) AND m = 0"
  then have "(a AND m) XOR (b AND m) = 0" by (simp add: bit.conj_xor_distrib2)
  then show ?thesis using xor_right_cancel [of "a AND m" "b AND m" "b AND m"] by simp
qed

lemma switch_step_pins: "switch_step s t \<Longrightarrow> pins_ok s \<Longrightarrow> pins_ok t"
proof (induction rule: switch_step.induct)
  case (loop_call s i ld tg)
  then have b: "switch_buff s = tg" "gpio_15 (the_pins s) = level_A (if i = 0 then ld else tg)"
    "gpio_2 (the_pins s) = level_B (if i \<le> 1 then ld else tg)"
    by (simp_all add: pins_ok_def)
  consider "i = 0" | "i = 1" | "i = 2 \<or> i = 3"
    using loop_call(2) by (fastforce simp: children_callback_functions_def)
  then show ?case
  proof cases
    case 1
    then show ?thesis using loop_call(1) b same_bit [of ld tg 1]
      by (auto simp: pins_ok_def children_callback_functions_def toggle_gpio_A_def level_A_def)
  next
    case 2
    then show ?thesis using loop_call(1) b same_bit [of ld tg 2]
      by (auto simp: pins_ok_def children_callback_functions_def toggle_gpio_B_def level_B_def)
  next
    case 3
    then show ?thesis using loop_call(1) b by (auto simp: pins_ok_def children_callback_functions_def)
  qed
qed (auto simp: pins_ok_def children_callback_functions_def split: loop_pc.splits)

lemma reachable_pins: "switch_reachable s \<Longrightarrow> pins_ok s"
proof (induction rule: switch_reachable.induct)
  case start
  show ?case by (simp add: pins_ok_def switch_init_def level_A_def level_B_def)
next
  case (step s t)
  then show ?case by (blast intro: switch_step_pins)
qed

subsection \<open>Properties of the switch\<close>

text \<open>
  C20: the pins never lie. In every interleaving of remote calls, battery control and the loop over
  the callbacks, at atomic loads and stores, whenever the loop is between two rounds the levels
  of the pins 15 and 2 are the bits 0 and 1 of the buffered switch.
\<close>

theorem pins_follow_switch:
  assumes "switch_reachable s" and "looping s = Loop_head"
  shows "gpio_15 (the_pins s) = level_A (switch_buff s) \<and> gpio_2 (the_pins s) = level_B (switch_buff s)"
  using reachable_pins [OF assms(1)] assms(2) by (simp add: pins_ok_def)

theorem pins_follow_switch_witness:
  "gpio_15 (the_pins switch_init) = level_A (switch_buff switch_init) \<and>
   gpio_2 (the_pins switch_init) = level_B (switch_buff switch_init)"
  by (rule pins_follow_switch [OF start]) (simp add: switch_init_def)

text \<open>The loop alone, step by step.\<close>

lemma rtrancl_step: "switch_step s t \<Longrightarrow> switch_step\<^sup>*\<^sup>* t u \<Longrightarrow> switch_step\<^sup>*\<^sup>* s u"
  by (rule converse_rtranclp_into_rtranclp)

lemma loop_call_n:
  "looping s = Calling i ld tg \<Longrightarrow> i + n = 4 \<Longrightarrow>
    switch_step\<^sup>*\<^sup>* s (s\<lparr>the_pins := foldl (\<lambda>p (i, f). if (ld XOR tg) AND push_bit i 1 \<noteq> 0 then f (switch_buff s) p else p)
      (the_pins s) (zip [i..<4] (drop i children_callback_functions)), looping := Loop_head\<rparr>)"
proof (induction n arbitrary: i s)
  case 0
  then have "switch_step s (s\<lparr>looping := Loop_head\<rparr>)"
    by (intro loop_end [where i = i and ld = ld and tg = tg]) (simp_all add: children_callback_functions_def)
  then show ?case using 0 by auto
next
  case (Suc n)
  define f where "f = (\<lambda>p (i, g). if (ld XOR tg) AND push_bit i 1 \<noteq> 0 then g (switch_buff s) p else (p :: pins))"
  have i: "i < length children_callback_functions" using Suc.prems(2) by (simp add: children_callback_functions_def)
  define s1 where "s1 = s\<lparr>the_pins := f (the_pins s) (i, children_callback_functions ! i), looping := Calling (i + 1) ld tg\<rparr>"
  have "switch_step s s1" using loop_call [OF Suc.prems(1) i] by (simp add: s1_def f_def)
  have cons: "zip [i..<4] (drop i children_callback_functions) =
      (i, children_callback_functions ! i) # zip [i + 1..<4] (drop (i + 1) children_callback_functions)"
    using i Suc.prems(2) by (simp add: Cons_nth_drop_Suc [symmetric] upt_conv_Cons)
  have buff: "switch_buff s1 = switch_buff s" by (simp add: s1_def)
  have "looping s1 = Calling (i + 1) ld tg" "i + 1 + n = 4" using Suc.prems(2) by (simp_all add: s1_def)
  from Suc.IH [OF this, unfolded buff, folded f_def]
  have "switch_step\<^sup>*\<^sup>* s (s1\<lparr>the_pins := foldl f (the_pins s1) (zip [i + 1..<4] (drop (i + 1) children_callback_functions)),
      looping := Loop_head\<rparr>)" by (rule rtrancl_step [OF \<open>switch_step s s1\<close>])
  moreover have "s1\<lparr>the_pins := foldl f (the_pins s1) (zip [i + 1..<4] (drop (i + 1) children_callback_functions)),
      looping := Loop_head\<rparr> = s\<lparr>the_pins := foldl f (the_pins s) (zip [i..<4] (drop i children_callback_functions)), looping := Loop_head\<rparr>"
    unfolding cons by (simp add: s1_def)
  ultimately show ?case unfolding f_def by simp
qed

text \<open>
  C21: undisturbed, the loop carries the switch to the pins: from any reachable state between two
  rounds the steps of one round lead to the state of \<open>switch_round\<close>, which is again between two
  rounds, in which the buffered switch is the switch, or 0 when the battery is low, and the pins
  show its bits 0 and 1.
\<close>

theorem switch_round_applies:
  assumes "switch_reachable s" and "looping s = Loop_head"
  shows "switch_step\<^sup>*\<^sup>* s (switch_round s) \<and> looping (switch_round s) = Loop_head \<and>
    switch_val (switch_round s) = (if disable_external s then 0 else switch_val s) \<and>
    switch_buff (switch_round s) = switch_val (switch_round s) \<and>
    gpio_15 (the_pins (switch_round s)) = level_A (switch_val (switch_round s)) \<and>
    gpio_2 (the_pins (switch_round s)) = level_B (switch_val (switch_round s))"
proof -
  define sw where "sw = (if disable_external s then 0 else switch_val s)"
  define ld where "ld = switch_buff s"
  define f where "f = (\<lambda>p (i, g). if (ld XOR sw) AND push_bit i 1 \<noteq> 0 then g sw p else (p :: pins))"
  define ps where "ps = foldl f (the_pins s) (zip [0..<4] children_callback_functions)"
  have children: "length children_callback_functions = 4" by (simp add: children_callback_functions_def)
  have hd: "s\<lparr>looping := Loop_head\<rparr> = s" using assms(2) by (cases s) simp
  have rd: "switch_round s = (if ld \<noteq> sw then s\<lparr>switch_val := sw, switch_buff := sw, the_pins := ps\<rparr> else s\<lparr>switch_val := sw\<rparr>)"
    unfolding switch_round_def Let_def sw_def [symmetric] ld_def [symmetric] ps_def f_def
    by (simp only: children)
  define s1 where "s1 = s\<lparr>switch_val := sw, looping := Cleared\<rparr>"
  have a: "switch_step s s1"
    using loop_clear [OF assms(2)] loop_keep [OF assms(2)] by (cases "disable_external s") (simp_all add: s1_def sw_def)
  have b: "switch_step s1 (s1\<lparr>looping := Old ld\<rparr>)" using loop_old [of s1] by (simp add: s1_def ld_def)
  have c: "switch_step (s1\<lparr>looping := Old ld\<rparr>) (s1\<lparr>looping := Both ld sw\<rparr>)"
    using loop_new [of "s1\<lparr>looping := Old ld\<rparr>" ld] by (simp add: s1_def)
  have "switch_step\<^sup>*\<^sup>* (s1\<lparr>looping := Both ld sw\<rparr>) (switch_round s)"
  proof (cases "ld = sw")
    case True
    have "s1\<lparr>looping := Loop_head\<rparr> = (s\<lparr>looping := Loop_head\<rparr>)\<lparr>switch_val := sw\<rparr>" by (simp add: s1_def)
    then have "s1\<lparr>looping := Loop_head\<rparr> = switch_round s" using True by (simp add: rd hd)
    then show ?thesis using loop_same [of "s1\<lparr>looping := Both ld sw\<rparr>" ld sw] True by simp
  next
    case False
    define s2 where "s2 = s1\<lparr>switch_buff := sw, looping := Calling 0 ld sw\<rparr>"
    have s2: "looping s2 = Calling 0 ld sw" "switch_buff s2 = sw" "the_pins s2 = the_pins s" by (simp_all add: s2_def s1_def)
    have d: "switch_step (s1\<lparr>looping := Both ld sw\<rparr>) s2"
      using loop_differ [of "s1\<lparr>looping := Both ld sw\<rparr>" ld sw] False by (simp add: s2_def)
    have "switch_step\<^sup>*\<^sup>* s2 (s2\<lparr>the_pins := ps, looping := Loop_head\<rparr>)"
      using loop_call_n [OF s2(1), of 4, unfolded s2(2,3), folded f_def] by (simp add: ps_def)
    moreover have "s2\<lparr>the_pins := ps, looping := Loop_head\<rparr> =
        (s\<lparr>looping := Loop_head\<rparr>)\<lparr>switch_val := sw, switch_buff := sw, the_pins := ps\<rparr>"
      by (simp add: s1_def s2_def)
    ultimately have "switch_step\<^sup>*\<^sup>* s2 (switch_round s)" using False by (simp only: rd hd if_True not_False_eq_True)
    with d show ?thesis by (rule rtrancl_step)
  qed
  then have "switch_step\<^sup>*\<^sup>* s (switch_round s)" by (rule rtrancl_step [OF a rtrancl_step [OF b rtrancl_step [OF c]]])
  moreover have "looping (switch_round s) = Loop_head" using assms(2) by (simp add: rd)
  ultimately have steps: "switch_step\<^sup>*\<^sup>* s (switch_round s) \<and> looping (switch_round s) = Loop_head" by blast
  have "switch_reachable t" if "switch_step\<^sup>*\<^sup>* s t" for t
    using that by (induction rule: rtranclp_induct) (auto intro: assms(1) switch_reachable.step)
  with steps have "pins_ok (switch_round s)" using reachable_pins by blast
  then show ?thesis using steps by (auto simp: pins_ok_def switch_round_def Let_def split: if_splits)
qed

theorem switch_round_applies_witness:
  "switch_step\<^sup>*\<^sup>* switch_init (switch_round switch_init) \<and> gpio_15 (the_pins (switch_round switch_init)) = 0"
  using switch_round_applies [OF start] by (simp add: switch_init_def level_A_def)

text \<open>
  The cut-off can be overtaken: a remote call that has loaded the switch before the loop clears
  it for a low battery stores its value afterwards, and the loop turns the pin on although the
  cut-off is active all the time.
\<close>

theorem cut_off_overtaken:
  "\<exists>s. switch_reachable s \<and> looping s = Loop_head \<and> disable_external s \<and> gpio_15 (the_pins s) = 1"
proof -
  let ?a = "switch_init\<lparr>rpc := Loaded 0 0, disable_external := True\<rparr>"
  let ?b = "switch_init\<lparr>switch_val := 1, disable_external := True, looping := Cleared\<rparr>"
  let ?p = "\<lparr>gpio_15 = 1, gpio_2 = 0\<rparr>"
  let ?c = "\<lambda>i. switch_init\<lparr>switch_val := 1, switch_buff := 1, disable_external := True, the_pins := ?p, looping := Calling i 0 1\<rparr>"
  note run = switch_reachable.step
  have "switch_step switch_init (switch_init\<lparr>rpc := Tested 0\<rparr>)"
    by (rule rpc_test) (simp_all add: switch_init_def)
  from run [OF start this] have "switch_reachable (switch_init\<lparr>rpc := Tested 0\<rparr>)" .
  moreover have "switch_step (switch_init\<lparr>rpc := Tested 0\<rparr>) (switch_init\<lparr>rpc := Loaded 0 0\<rparr>)"
    using rpc_load [of "switch_init\<lparr>rpc := Tested 0\<rparr>" 0] by (simp add: switch_init_def)
  ultimately have "switch_reachable (switch_init\<lparr>rpc := Loaded 0 0\<rparr>)" by (rule run)
  from run [OF this battery [where d = True]] have "switch_reachable ?a" by simp
  moreover have "switch_step ?a (?a\<lparr>looping := Cleared\<rparr>)"
    using loop_clear [of ?a] by (simp add: switch_init_def)
  ultimately have "switch_reachable (?a\<lparr>looping := Cleared\<rparr>)" by (rule run)
  moreover have "switch_step (?a\<lparr>looping := Cleared\<rparr>) ?b"
    using rpc_store [of "?a\<lparr>looping := Cleared\<rparr>" 0 0 1] by (simp add: switch_init_def switch_bit_def)
  ultimately have "switch_reachable ?b" by (rule run)
  moreover have "switch_step ?b (?b\<lparr>looping := Old 0\<rparr>)" using loop_old [of ?b] by (simp add: switch_init_def)
  ultimately have "switch_reachable (?b\<lparr>looping := Old 0\<rparr>)" by (rule run)
  moreover have "switch_step (?b\<lparr>looping := Old 0\<rparr>) (?b\<lparr>looping := Both 0 1\<rparr>)"
    using loop_new [of "?b\<lparr>looping := Old 0\<rparr>" 0] by simp
  ultimately have "switch_reachable (?b\<lparr>looping := Both 0 1\<rparr>)" by (rule run)
  moreover have "switch_step (?b\<lparr>looping := Both 0 1\<rparr>) (?b\<lparr>switch_buff := 1, looping := Calling 0 0 1\<rparr>)"
    using loop_differ [of "?b\<lparr>looping := Both 0 1\<rparr>" 0 1] by simp
  ultimately have "switch_reachable (?b\<lparr>switch_buff := 1, looping := Calling 0 0 1\<rparr>)" by (rule run)
  moreover have "switch_step (?b\<lparr>switch_buff := 1, looping := Calling 0 0 1\<rparr>) (?c 1)"
    using loop_call [of "?b\<lparr>switch_buff := 1, looping := Calling 0 0 1\<rparr>" 0 0 1]
    by (simp add: switch_init_def children_callback_functions_def toggle_gpio_A_def)
  ultimately have c1: "switch_reachable (?c 1)" by (rule run)
  have more: "switch_step (?c i) (?c (i + 1))" if "i \<in> {1, 2, 3}" for i
    using loop_call [of "?c i" i 0 1] that by (auto simp: children_callback_functions_def)
  have "switch_reachable (?c 4)"
    using run [OF run [OF run [OF c1 more [of 1]] more [of "1 + 1"]] more [of "1 + 1 + 1"]] by (simp add: eval_nat_numeral)
  moreover have "switch_step (?c 4) (?c 4\<lparr>looping := Loop_head\<rparr>)"
    using loop_end [of "?c 4" 4 0 1] by (simp add: children_callback_functions_def)
  ultimately have "switch_reachable (?c 4\<lparr>looping := Loop_head\<rparr>)" by (rule run)
  then show ?thesis by (rule exI [where x = "?c 4\<lparr>looping := Loop_head\<rparr>", OF conjI]) simp
qed

subsection \<open>Battery\<close>

lemma low_constants:
  "lit F32 32 10 = Fin False 13421773 (- 22)" "lit binary64 32 10 = Fin False 7205759403792794 (- 51)"
  "lit binary64 1 100 = Fin False 5764607523034235 (- 59)"
  by (simp_all add: lit_def binary64_def float_eval)

lemma signs: "(round_to fmt neg n d = Inf neg) = (\<forall>m e. round_to fmt neg n d \<noteq> Fin neg m e)"
  by (cases fmt) (auto simp: round_to_def Let_def split: prod.splits if_splits)

lemma sub_small:
  assumes "val (Fin s m e) - val (Fin t n f) \<le> 2 powi - 10"
  shows "dbl_lt (f_sub binary64 (Fin s m e) (Fin t n f)) (lit binary64 1 100)"
proof -
  obtain z g where eq: "f_sub binary64 (Fin s m e) (Fin t n f) =
      (if z = 0 then f_zero binary64 (s \<and> \<not> t) else scaled_ratio binary64 (z < 0) (nat \<bar>z\<bar>) g 1)"
    and z: "of_int z * 2 powi g = val (Fin s m e) - val (Fin t n f)"
    using f_add_fin [of binary64 s m e "\<not> t" n f] by (auto simp: f_sub_def signed_def)
  have rep: "f_ok binary64 (Fin False 1 (- 10))" by (simp add: binary64_def)
  have lt: "dbl_lt x (lit binary64 1 100)" if "x = Fin u k i" and "val x \<le> 2 powi - 10" for x u k i
  proof -
    have "(2 :: real) powi - 10 < 5764607523034235 * 2 powi - 59" by (simp add: powi_nat)
    then show ?thesis using that unfolding low_constants that(1)
      by (simp add: dbl_lt_not_le dbl_le_val signed_def del: dbl_le.simps)
  qed
  consider "z = 0" | "z < 0" | "0 < z" by linarith
  then show ?thesis
  proof cases
    case 1
    obtain i where "f_zero binary64 (s \<and> \<not> t) = Fin (s \<and> \<not> t) 0 i" using f_zero_fin by blast
    then show ?thesis using 1 lt [of "f_zero binary64 (s \<and> \<not> t)"] by (simp add: eq signed_def)
  next
    case 2
    have "scaled_ratio binary64 True (nat \<bar>z\<bar>) g 1 = Inf True \<or> (\<exists>k i. scaled_ratio binary64 True (nat \<bar>z\<bar>) g 1 = Fin True k i)"
      by (auto simp: scaled_ratio_def signs)
    then obtain k i where "scaled_ratio binary64 True (nat \<bar>z\<bar>) g 1 \<in> {Inf True, Fin True k i}" by auto
    moreover have "val (Fin True k i) \<le> 2 powi - 10" 
    proof -
      have "0 \<le> real k * 2 powi i" "(0 :: real) \<le> 2 powi - 10" by simp_all
      moreover have "val (Fin True k i) = - (real k * 2 powi i)" by (simp add: signed_def)
      ultimately show ?thesis by linarith
    qed
    ultimately show ?thesis using 2 lt [of _ True k i] unfolding low_constants by (auto simp: eq dbl_lt_def)
  next
    case 3
    have "real (nat \<bar>z\<bar>) * 2 powi g / real 1 \<le> real 1 * 2 powi - 10" using 3 z assms by simp
    from scaled_rep(1) [OF _ _ rep this, of False] obtain k i where
      "scaled_ratio binary64 False (nat \<bar>z\<bar>) g 1 = Fin False k i" "real k * 2 powi i \<le> 2 powi - 10" by auto
    then show ?thesis using 3 lt [of _ False k i] by (simp add: eq signed_def)
  qed
qed

text \<open>
  C24: the main thread gives up no later than the battery thread cuts the switch off: any reading
  that makes the battery loop disable the external devices, below 3.2 as a \<^verbatim>\<open>float\<close>, is critical
  for the comparison in \<^verbatim>\<open>double\<close> that ends the main loop.
\<close>

theorem critical_before_cutoff:
  assumes "battery_control_round (b, b') False"
  shows "battery_is_critical b"
proof -
  have lt: "dbl_lt b (lit F32 32 10)" using assms by (auto simp: battery_control_round_def split: if_splits)
  show ?thesis
  proof (cases b)
    case NaN
    then show ?thesis using lt by (simp add: dbl_lt_def)
  next
    case (Inf s)
    then show ?thesis using lt unfolding low_constants battery_is_critical_def by (cases s) (simp_all add: dbl_lt_def f_sub_def)
  next
    case (Fin s m e)
    have "val b < 13421773 * 2 powi - 22"
      using lt unfolding Fin low_constants by (simp add: dbl_lt_not_le dbl_le_val signed_def del: dbl_le.simps)
    then have "val b - val (Fin False 7205759403792794 (- 51)) \<le> 2 powi - 10" by (simp add: signed_def powi_nat)
    then show ?thesis using sub_small unfolding Fin battery_is_critical_def low_constants by blast
  qed
qed

theorem critical_before_cutoff_witness: "battery_is_critical (fint 3)"
proof (rule critical_before_cutoff)
  show "battery_control_round (fint 3, fint 4) False"
    unfolding battery_control_round_def low_constants by (simp add: dbl_lt_def float_eval)
qed

lemma last_event:
  "(\<exists>i < Suc n. P i \<and> (\<forall>j. i < j \<and> j < Suc n \<longrightarrow> Q j)) \<longleftrightarrow>
    P n \<or> Q n \<and> (\<exists>i < n. P i \<and> (\<forall>j. i < j \<and> j < n \<longrightarrow> Q j))"
  by (auto simp: less_Suc_eq)

text \<open>
  The cut-off has a hysteresis: after any sequence of rounds of the battery loop the flag is
  set exactly if some round read less than 3.2 and no later round read at least 3.2 and then
  more than 3.4, or no round decided and it was set at the start. Readings between the two
  limits never change it.
\<close>

theorem battery_hysteresis:
  "foldl (\<lambda>d b. battery_control_round b d) d0 bs \<longleftrightarrow>
    (\<exists>i < length bs. dbl_lt (fst (bs ! i)) (lit F32 32 10) \<and>
       (\<forall>j. i < j \<and> j < length bs \<longrightarrow> dbl_lt (fst (bs ! j)) (lit F32 32 10) \<or> \<not> dbl_lt (lit F32 34 10) (snd (bs ! j)))) \<or>
    d0 \<and> (\<forall>b \<in> set bs. dbl_lt (fst b) (lit F32 32 10) \<or> \<not> dbl_lt (lit F32 34 10) (snd b))"
proof (induction bs rule: rev_induct)
  case Nil
  show ?case by simp
next
  case (snoc b bs)
  let ?low = "\<lambda>b. dbl_lt (fst b) (lit F32 32 10)" and ?high = "\<lambda>b. dbl_lt (lit F32 34 10) (snd b)"
  have nth: "(\<exists>i < length bs. ?low ((bs @ [b]) ! i) \<and> (\<forall>j. i < j \<and> j < length bs \<longrightarrow> ?low ((bs @ [b]) ! j) \<or> \<not> ?high ((bs @ [b]) ! j))) \<longleftrightarrow>
      (\<exists>i < length bs. ?low (bs ! i) \<and> (\<forall>j. i < j \<and> j < length bs \<longrightarrow> ?low (bs ! j) \<or> \<not> ?high (bs ! j)))"
    by (intro ex_cong1 conj_cong all_cong1 imp_cong refl) (auto simp: nth_append)
  show ?case
    unfolding length_append_singleton last_event nth using snoc
    by (simp add: battery_control_round_def)
qed

theorem battery_hysteresis_witness:
  "\<not> foldl (\<lambda>d b. battery_control_round b d) False [(fint 3, fint 3), (fint 4, fint 4)]"
proof -
  have "dbl_lt (fint 3) (lit F32 32 10)" "\<not> dbl_lt (lit F32 34 10) (fint 3)" "\<not> dbl_lt (fint 4) (lit F32 32 10)"
    "dbl_lt (lit F32 34 10) (fint 4)"
    unfolding low_constants by (simp_all add: dbl_lt_def lit_def float_eval)
  then show ?thesis unfolding battery_hysteresis by (auto simp: less_Suc_eq)
qed

subsection \<open>The tracker from the configuration\<close>

lemma ratio_between:
  assumes "format_ok fmt" and "0 < d" and le: "real n / real d \<le> real k" and "k \<le> 2 ^ precision fmt" and "neg \<Longrightarrow> n = 0"
  shows "between 0 (int k) (round_to fmt neg n d)"
proof -
  obtain p emin emax where fmt: "fmt = (p, emin, emax)" by (cases fmt) auto
  have "real n \<le> real (k * d)" using le assms(2) by (simp add: field_simps)
  then have "n \<le> k * d" by (simp only: of_nat_le_iff)
  then have b: "signed neg n \<le> int k * int d" "0 \<le> signed neg n"
    using assms(5) by (auto simp: signed_def simp flip: of_nat_mult)
  have k: "\<bar>int k\<bar> \<le> 2 ^ p" using assms(4) by (simp add: fmt precision_def)
  show ?thesis
    using round_to_bounds(1) [OF fmt assms(1,2) k b(1)] round_to_bounds(2) [OF fmt assms(1,2), of 0 neg n] b(2)
    by (simp add: between_def)
qed

lemma sign_zero: "nonneg (Fin s m e) \<Longrightarrow> nonneg (Fin t n f) \<Longrightarrow> s \<noteq> t \<Longrightarrow> val (Fin s m e) = 0 \<or> val (Fin t n f) = 0"
  by (auto simp: signed_def)

lemma f_mul_between_0:
  assumes ok: "format_ok fmt" and x: "between 0 (int a) x" and y: "between 0 (int b) y" and "a * b \<le> 2 ^ precision fmt"
  shows "between 0 (int (a * b)) (f_mul fmt x y)"
proof -
  obtain s m e t n f where f: "x = Fin s m e" "y = Fin t n f"
    using between_finite [OF x] between_finite [OF y] by (cases x; cases y) auto
  have v: "0 \<le> val (Fin s m e)" "val (Fin s m e) \<le> real a" "0 \<le> val (Fin t n f)" "val (Fin t n f) \<le> real b"
    using x y by (simp_all add: f between_val del: val.simps)
  have nn: "nonneg (Fin s m e)" "nonneg (Fin t n f)" using x y between_0_nonneg by (auto simp: f simp del: nonneg.simps)
  obtain n' d' where r: "f_mul fmt (Fin s m e) (Fin t n f) = round_to fmt (s \<noteq> t) n' d'" "0 < d'"
    "real n' / real d' = \<bar>val (Fin s m e)\<bar> * \<bar>val (Fin t n f)\<bar>" by (rule f_mul_round)
  have "real n' / real d' \<le> real (a * b)" using v by (simp add: r(3) mult_mono del: val.simps)
  moreover have "n' = 0" if "s \<noteq> t" using sign_zero [OF nn that] r(2,3) by (auto simp del: val.simps)
  ultimately show ?thesis unfolding f r(1) using ok r(2) assms(4) by (intro ratio_between) auto
qed

lemma f_div_between_0:
  assumes ok: "format_ok fmt" and x: "between 0 (int (a * b)) x" and y: "between (int b) (int c) y" and "0 < b" and "a \<le> 2 ^ precision fmt"
  shows "between 0 (int a) (f_div fmt x y)"
proof -
  obtain s m e t n f where f: "x = Fin s m e" "y = Fin t n f"
    using between_finite [OF x] between_finite [OF y] by (cases x; cases y) auto
  have v: "0 \<le> val (Fin s m e)" "val (Fin s m e) \<le> real a * real b" "real b \<le> val (Fin t n f)"
    using x y by (simp_all add: f between_val del: val.simps)
  have "between 0 (int c) y" using y by (rule between_mono) auto
  then have nn: "nonneg (Fin s m e)" "nonneg (Fin t n f)" using x between_0_nonneg by (auto simp: f simp del: nonneg.simps)
  have pos: "0 < val (Fin t n f)" using v(3) assms(4) by linarith
  then have "0 < n" by (cases n) (auto simp: signed_def split: if_splits)
  then obtain n' d' where r: "f_div fmt (Fin s m e) (Fin t n f) = round_to fmt (s \<noteq> t) n' d'" "0 < d'"
    "real n' / real d' = \<bar>val (Fin s m e)\<bar> / \<bar>val (Fin t n f)\<bar>" by (rule f_div_round)
  have "val (Fin s m e) \<le> real a * val (Fin t n f)"
    using v(2) mult_left_mono [OF v(3), of "real a"] by linarith
  then have "real n' / real d' \<le> real a" using pos v(1) by (simp add: r(3) divide_le_eq del: val.simps)
  moreover have "n' = 0" if "s \<noteq> t" using sign_zero [OF nn that] pos r(2,3) by (auto simp del: val.simps)
  ultimately show ?thesis unfolding f r(1) using ok r(2) assms(5) by (intro ratio_between) auto
qed

lemma dbl_to_float_between:
  assumes x: "between 0 (int k) x" and "k \<le> 2 ^ 24"
  shows "between 0 (int k) (dbl_to_float x)"
proof -
  obtain s m e where f: "x = Fin s m e" using between_finite [OF x] by (cases x) auto
  have v: "val (Fin s m e) \<le> real k" using x by (simp add: f between_val del: val.simps)
  have nn: "s \<Longrightarrow> m = 0" using between_0_nonneg [OF x] by (auto simp: f)
  have abs: "real m * 2 powi e \<le> real k" using v nn by (cases s) (simp_all add: signed_def)
  show ?thesis
  proof (cases "0 \<le> e")
    case True
    then have "real (m * 2 ^ nat e) / real (1 :: nat) \<le> real k" using abs by (simp add: powi_nat)
    then show ?thesis using True assms(2) nn by (auto simp: f intro!: ratio_between simp del: of_nat_mult)
  next
    case False
    then have "real m / real (2 ^ nat (- e)) \<le> real k" using abs by (simp add: powi_nat)
    then show ?thesis using False assms(2) nn by (auto simp: f intro!: ratio_between)
  qed
qed

text \<open>An average of at most 1000 readings of a 12 bit converter stays in its range.\<close>

lemma sum_between:
  "set rs \<subseteq> {0..4095} \<Longrightarrow> between 0 (int (k * 4095)) acc \<Longrightarrow> k + length rs \<le> 4096 \<Longrightarrow>
    between 0 (int ((k + length rs) * 4095)) (foldl (\<lambda>acc r. fadd acc (fint r)) acc rs)"
proof (induction rs arbitrary: k acc)
  case (Cons r rs)
  have "between 0 4095 (fint r)" using fint_between [of r] Cons.prems(1) by (auto intro: between_mono)
  moreover have "\<bar>int (k * 4095) + 4095\<bar> \<le> 2 ^ 24" using Cons.prems(3) by simp
  ultimately have "between 0 (int (Suc k * 4095)) (fadd acc (fint r))"
    using fadd_between [OF Cons.prems(2), of 0 4095 "fint r"] by (simp add: add.commute)
  from Cons.IH [OF _ this] show ?case using Cons.prems by simp
qed simp

lemma average_between:
  assumes "set rs \<subseteq> {0..4095}" and "0 < length rs" and "length rs \<le> 4096"
  shows "between 0 4095 (get_average_read rs)"
proof -
  have z: "between 0 (int (0 * 4095)) (fint 0)" using fint_between [of 0] by simp
  have "between 0 (int (4095 * length rs)) (foldl (\<lambda>acc r. fadd acc (fint r)) (fint 0) rs)"
    using sum_between [OF assms(1) z] assms(3) by (simp add: mult.commute)
  moreover have "between (int (length rs)) (int (length rs)) (fint (int (length rs)))"
    using assms(3) by (intro fint_between) simp
  ultimately show ?thesis
    using f_div_between_0 [of F32 4095 "length rs"] assms(2) by (simp add: get_average_read_def)
qed

lemma scaled_reading:
  assumes "between 0 4095 x"
  shows "between 0 8191 (dbl_to_float (f_mul binary64 x (lit binary64 5 4)))"
proof -
  have "between 0 (int 2) (lit binary64 5 4)" unfolding lit_def by (rule ratio_between) simp_all
  then have "between 0 (int (4095 * 2)) (f_mul binary64 x (lit binary64 5 4))"
    using assms by (intro f_mul_between_0) simp_all
  then have "between 0 (int 8190) (dbl_to_float (f_mul binary64 x (lit binary64 5 4)))"
    by (intro dbl_to_float_between) simp_all
  then show ?thesis by (rule between_mono) simp_all
qed

text \<open>What the converter delivers in one round.\<close>

definition raw_ok :: "int list \<times> int list \<times> int list \<times> int list \<Rightarrow> bool" where
  "raw_ok r \<longleftrightarrow> (case r of (c6, c7, c4, c5) \<Rightarrow> length c6 = 4 \<and> length c7 = 4 \<and> length c4 = 4 \<and> length c5 = 10 \<and>
     set c6 \<union> set c7 \<union> set c4 \<union> set c5 \<subseteq> {0..4095})"

definition read_round :: "int list \<times> int list \<times> int list \<times> int list \<Rightarrow> store \<Rightarrow> store" where
  "read_round r = (case r of (c6, c7, c4, c5) \<Rightarrow> misc_adc_read_round c6 c7 c4 c5)"

lemma read_round_between:
  assumes "raw_ok r"
  shows "between 0 8191 (read_round r st adc_ldr_a)" "between 0 8191 (read_round r st adc_ldr_b)"
    "between 0 8191 (read_round r st adc_ldr_c)"
proof -
  obtain c6 c7 c4 c5 where r: "r = (c6, c7, c4, c5)" by (cases r) auto
  have av: "between 0 4095 (get_average_read c6)" "between 0 4095 (get_average_read c7)" "between 0 4095 (get_average_read c4)"
    using assms by (auto simp: r raw_ok_def intro!: average_between)
  show "between 0 8191 (read_round r st adc_ldr_a)" "between 0 8191 (read_round r st adc_ldr_b)"
    "between 0 8191 (read_round r st adc_ldr_c)"
    using av(1) [THEN between_mono, of 0 8191] av(2,3) [THEN scaled_reading]
    by (simp_all add: r read_round_def misc_adc_read_round_def variables)
qed

lemma make_ldrs_none: "i \<le> 4 \<Longrightarrow> 4 < i + n \<Longrightarrow> make_ldrs c n i = None"
proof (induction n arbitrary: i)
  case (Suc n)
  then show ?case by (cases "i = 4") (auto simp: rd_def target_ldr_def split: Option.bind_split)
qed simp

lemma make_servos_none: "i \<le> 2 \<Longrightarrow> 2 < i + n \<Longrightarrow> make_servos c n i = None"
proof (induction n arbitrary: i)
  case (Suc n)
  then show ?case by (cases "i = 2") (auto simp: rd_def target_servo_def split: Option.bind_split)
qed simp

lemma make_ldrs_some:
  "cfg_shape c \<Longrightarrow> i + n \<le> 4 \<Longrightarrow> \<exists>ls. make_ldrs c n i = Some ls \<and> map ldr_src ls = take n (drop i target_ldr)"
proof (induction n arbitrary: i)
  case (Suc n)
  have i: "i < length target_ldr" "i < length (ldr_location c)" using Suc.prems by (simp_all add: target_ldr_def cfg_shape_def)
  obtain ls where "make_ldrs c n (i + 1) = Some ls" "map ldr_src ls = take n (drop (i + 1) target_ldr)"
    using Suc.IH [of "i + 1"] Suc.prems by auto
  then show ?case using i by (simp add: rd_def Cons_nth_drop_Suc [symmetric])
qed simp

lemma make_servos_some:
  "cfg_shape c \<Longrightarrow> i + n \<le> 2 \<Longrightarrow> \<exists>svs. make_servos c n i = Some svs \<and>
    map servo_src svs = take n (drop i target_servo) \<and> map servo_target svs = take n (drop i target_servo) \<and>
    map axis_base svs = replicate n (fint 0) \<and> map axis_top svs = take n (drop i (servo_max_rotation c))"
proof (induction n arbitrary: i)
  case (Suc n)
  have i: "i < length target_servo" "i < length (servo_max_rotation c)" "i < length (servo_can_reverse_logic c)"
    using Suc.prems by (simp_all add: target_servo_def cfg_shape_def)
  obtain svs where "make_servos c n (i + 1) = Some svs" "map servo_src svs = take n (drop (i + 1) target_servo)"
    "map servo_target svs = take n (drop (i + 1) target_servo)"
    "map axis_base svs = replicate n (fint 0)" "map axis_top svs = take n (drop (i + 1) (servo_max_rotation c))"
    using Suc.IH [of "i + 1"] Suc.prems by auto
  then show ?case using i by (simp add: rd_def new_Servo_def Cons_nth_drop_Suc [symmetric])
qed simp

text \<open>
  The configuration may announce more sensors and servos than the program has variables for:
  on a structure that the reader filled, building the tracker stays inside the local arrays
  exactly if there are at most four sensors and two servos, while the reader admits five and four.
\<close>

theorem tracker_needs_few:
  assumes "cfg_inv c"
  shows "init_json_sys_config c \<noteq> None \<longleftrightarrow> LDR_count c \<le> 4 \<and> Servo_count c \<le> 2"
proof -
  have shape: "cfg_shape c" using assms by (simp add: cfg_inv_def)
  have n: "LDR_count c \<le> 4 \<longleftrightarrow> unat (LDR_count c) \<le> 4" "Servo_count c \<le> 2 \<longleftrightarrow> unat (Servo_count c) \<le> 2"
    by (simp_all add: word_le_nat_alt)
  have l: "make_ldrs c k 0 \<noteq> None \<longleftrightarrow> k \<le> 4" for k
    using make_ldrs_none [of 0 k c] make_ldrs_some [OF shape, of 0 k] by (cases "k \<le> 4") auto
  have s: "make_servos c k 0 \<noteq> None \<longleftrightarrow> k \<le> 2" for k
    using make_servos_none [of 0 k c] make_servos_some [OF shape, of 0 k] by (cases "k \<le> 2") auto
  show ?thesis
    unfolding n using l [of "unat (LDR_count c)"] s [of "unat (Servo_count c)"]
    by (auto simp: init_json_sys_config_def Let_def split: Option.bind_splits)
qed

theorem tracker_needs_few_witness:
  "cfg_inv (blank_config\<lparr>LDR_count := 5, Servo_count := 2\<rparr>) \<and>
   init_json_sys_config (blank_config\<lparr>LDR_count := 5, Servo_count := 2\<rparr>) = None"
proof -
  have inv: "cfg_inv (blank_config\<lparr>LDR_count := 5, Servo_count := 2\<rparr>)"
    using blank_config_inv by (simp add: cfg_inv_def cfg_shape_def)
  then show ?thesis using tracker_needs_few [OF inv] by simp
qed

text \<open>
  C22: the program from the configuration to the motors: for a configuration with at most three
  sensors and two servos of any finite rotation, and with the sensors' variables written by
  \<^verbatim>\<open>misc_adc_read\<close> from any readings of the 12 bit converter, the tracker is built, every round of
  it ends without an exception, and both targets stay in the interval of the constants of
  \<^verbatim>\<open>inc_offset\<close> (0 to 180 degrees, or below 360 for a full turn). The target of a servo for which at
  least 180 degrees are configured (360 for a full turn) thereby stays between 0 and its configured maximum.
\<close>

theorem configured_tracker_clamped:
  assumes "cfg_inv c" and "LDR_count c \<le> 3" and "Servo_count c = 2" and "\<forall>r \<in> set (servo_max_rotation c). is_finite_f r"
    and "list_all raw_ok rs"
  shows "\<exists>s st' s'. init_json_sys_config c = Some s \<and> map servo_target (servos s) = [servo_b_target, servo_a_target] \<and>
    map axis_top (servos s) = take 2 (servo_max_rotation c) \<and>
    task_rounds (map read_round rs) (\<lambda>_. fint 0, s) = Some (st', s') \<and> angles_clamped st' (servos s) \<and>
    (\<forall>sv \<in> set (servos s). dbl_ge_int (axis_top sv) (if full_360 sv then 360 else 180) \<longrightarrow>
       dbl_le (fint 0) (st' (servo_target sv)) \<and> dbl_le (st' (servo_target sv)) (axis_top sv))"
proof -
  have shape: "cfg_shape c" using assms(1) by (simp add: cfg_inv_def)
  have n: "unat (LDR_count c) \<le> 3" using assms(2) by (simp add: word_le_nat_alt)
  obtain ls where ls: "make_ldrs c (unat (LDR_count c)) 0 = Some ls" "map ldr_src ls = take (unat (LDR_count c)) target_ldr"
    using make_ldrs_some [OF shape, of 0 "unat (LDR_count c)"] n by auto
  obtain svs where svs: "make_servos c (unat (Servo_count c)) 0 = Some svs" "map servo_src svs = target_servo"
    "map servo_target svs = target_servo" "map axis_base svs = replicate 2 (fint 0)" "map axis_top svs = take 2 (servo_max_rotation c)"
    using make_servos_some [OF shape, of 0 2] assms(3) by (auto simp: target_servo_def)
  define s where "s = new_Virtual_Solar_sys ls svs \<lparr>panel_src = adc_panel, panel_width = v_x (panel_dimensions c),
    panel_height = v_y (panel_dimensions c)\<rparr> (fint 4095)"
  have "length ls = min (unat (LDR_count c)) 4" using arg_cong [OF ls(2), of length] by (simp add: target_ldr_def)
  then have len: "length ls \<le> 5" by simp
  have sys: "servos s = svs" "sensors s = ls" unfolding s_def using new_solar_sys_ok(2,3) [OF len] by auto
  have srcs: "set (map ldr_src ls) \<subseteq> {adc_ldr_a, adc_ldr_b, adc_ldr_c}"
    using n set_take_subset_set_take [of "unat (LDR_count c)" 3 target_ldr] by (auto simp: ls(2) target_ldr_def)
  have two: "length svs = 2" using arg_cong [OF svs(2), of length] by (simp add: target_servo_def)
  then obtain a b where ab: "svs = [a, b]" by (auto simp: length_Suc_conv numeral_2_eq_2)
  have wired: "wired svs"
    using svs(2,3) assms(4) arg_cong [OF svs(5), of set] set_take_subset [of 2 "servo_max_rotation c"]
    by (auto simp: wired_def ab target_servo_def variables)
  have base: "\<forall>sv \<in> set svs. axis_base sv = fint 0" using svs(4) by (auto simp: ab numeral_2_eq_2)
  have zero: "angle_clamped sv (fint 0)" for sv
    using fint_between [of 0, THEN between_mono, of 0 360] fint_between [of 0, THEN between_mono, of 0 180]
    by (simp add: angle_clamped_def fint_cmp)
  have "env_ok s w" if w: "w \<in> set (map read_round rs)" for w
  proof -
    obtain r where r: "w = read_round r" "raw_ok r" using w assms(5) by (auto simp: list_all_iff)
    have "read_round r st a = st a" if "a \<in> {servo_a_target, servo_b_target}" for st a
      using that by (cases r) (auto simp: read_round_def misc_adc_read_round_def variables)
    moreover have "between 0 8191 (read_round r st (ldr_src l))" if "l \<in> set ls" for l st
      using that srcs read_round_between [OF r(2)] by auto
    ultimately show ?thesis
      using svs(3) by (auto simp: env_ok_def readings_ok_def sys r(1) ab target_servo_def)
  qed
  then have "\<exists>st' s'. task_rounds (map read_round rs) (\<lambda>_. fint 0, s) = Some (st', s') \<and> angles_clamped st' svs"
    using task_rounds_ok [of s "\<lambda>_. fint 0" "map read_round rs"] new_solar_sys_ok(1) [OF len] two wired zero
    by (simp add: sys) (auto simp: s_def angles_clamped_def)
  moreover have "init_json_sys_config c = Some s"
    using ls(1) svs(1) by (simp add: init_json_sys_config_def s_def)
  moreover have "dbl_le (fint 0) t \<and> dbl_le t (axis_top sv)"
    if "sv \<in> set svs" "angle_clamped sv t" "dbl_ge_int (axis_top sv) (if full_360 sv then 360 else 180)" for sv t
    using clamped_in_axis [of sv t] that base by (simp add: axis_covers_def in_axis_def fint_cmp)
  ultimately show ?thesis using svs(3,5) sys by (fastforce simp: target_servo_def angles_clamped_def)
qed

definition two_servos :: DH_config where
  "two_servos = blank_config\<lparr>LDR_count := 3, Servo_count := 2, servo_max_rotation := replicate 4 (fint 180)\<rparr>"

theorem configured_tracker_clamped_witness:
  "\<exists>s st' s'. init_json_sys_config two_servos = Some s \<and> map axis_top (servos s) = [fint 180, fint 180] \<and>
    task_rounds (map read_round [([1, 2, 3, 4], [0, 0, 0, 4095], [7, 7, 7, 7], replicate 10 600)]) (\<lambda>_. fint 0, s) = Some (st', s') \<and>
    angles_clamped st' (servos s)"
proof -
  let ?rs = "[([1, 2, 3, 4], [0, 0, 0, 4095], [7, 7, 7, 7], replicate 10 600)] :: (int list \<times> int list \<times> int list \<times> int list) list"
  have inv: "cfg_inv two_servos" using blank_config_inv by (simp add: cfg_inv_def cfg_shape_def two_servos_def)
  have fin: "\<forall>r \<in> set (servo_max_rotation two_servos). is_finite_f r"
    using between_finite [OF fint_between [of 180]] by (simp add: two_servos_def)
  have n: "LDR_count two_servos \<le> 3" "Servo_count two_servos = 2" by (simp_all add: two_servos_def)
  have raw: "list_all raw_ok ?rs" by (simp add: raw_ok_def)
  have "take 2 (servo_max_rotation two_servos) = [fint 180, fint 180]" by (simp add: two_servos_def numeral_2_eq_2)
  with configured_tracker_clamped [OF inv n fin raw] show ?thesis by metis
qed

subsection \<open>Start\<close>

lemma blocks_list: "blocks cs = sum_list (map (\<lambda>c. blocks [c]) cs)"
proof (induction cs)
  case (Cons c cs)
  then show ?case using blocks_append [of "[c]" cs] by simp
qed simp

lemma blocks_tree: "blocks [tree nm j] = 1 + int (allocs j) + (if nm = None then 0 else 1)"
proof (induction nm j rule: tree.induct)
  case (5 nm js)
  have "blocks (map (tree None) js) = int (sum_list (map (\<lambda>j. 1 + allocs j) js))"
    using 5 by (subst blocks_list) (induction js; simp)
  then show ?case by (simp add: type_codes)
next
  case (6 nm ms)
  have "blocks (map (\<lambda>m. tree (Some (fst m)) (snd m)) ms) = int (sum_list (map (\<lambda>m. 2 + allocs (snd m)) ms))"
    using 6 by (subst blocks_list) (induction ms; simp)
  then show ?case by (simp add: type_codes)
qed (simp_all add: type_codes)

lemma buffer_text:
  assumes "length bs < 2048" and "0 \<notin> set bs"
  shows "buffer_string (load_buffer bs) = Some bs"
proof -
  obtain k where "2048 - length bs = Suc k" using assms(1) by (cases "2048 - length bs") auto
  then have "load_buffer bs = bs @ 0 # replicate k 0" using assms(1) by (simp add: load_buffer_def)
  moreover have "takeWhile (\<lambda>c. c \<noteq> 0) (bs @ 0 # replicate k 0) = bs"
    using assms(2) by (induction bs) auto
  ultimately show ?thesis by (simp add: buffer_string_def cstr_def)
qed

text \<open>
  C23: the program loads its configuration: when the file holds the JSON text of a configuration,
  shorter than the buffer, \<^verbatim>\<open>init_config\<close> reads the whole file, parses it, fills the structure with
  every setting, reports code 0, and gives back all memory of the parsed tree.
\<close>

theorem config_file_loaded:
  assumes "settings_fit s" and "numbers_fit s" and "cfg_shape c" and "length (json_text (config_json s)) < 2048"
    and "fs_read F d SYS_CFG_FILE_PATH = Some (json_text (config_json s))"
  shows "\<exists>h'. init_config F d True always h c = Some (Done (Some 0, config_of s c, h')) \<and> live h' = live h"
proof -
  let ?j = "config_json s"
  have "0 \<notin> set (json_text ?j)" using json_text_nonzero [OF config_plain [OF assms(2)]] by (auto simp: list_all_iff)
  then have "buffer_string (load_buffer (json_text ?j)) = Some (json_text ?j)" using assms(4) by (rule buffer_text [rotated])
  then show ?thesis
    using assms(5) config_read_back [OF assms(1,3)] blocks_tree [of None ?j]
    by (simp add: init_config_def cJSON_Parse_def parse_text_document [OF config_plain [OF assms(2)]]
        cJSON_Delete_heap grow_def)
qed

theorem config_file_loaded_witness:
  "\<exists>h'. init_config map_fs [ascii ''/data/config.json'' \<mapsto> json_text (config_json settings_example)] True always
     \<lparr>requests = 0, live = 0\<rparr> blank_config = Some (Done (Some 0, config_of settings_example blank_config, h')) \<and> live h' = 0"
proof -
  have fits: "settings_fit settings_example"
    by (simp add: settings_fit_def settings_example_def net_fits_def text_fits_def)
  have nums: "numbers_fit settings_example"
    by (simp add: numbers_fit_def settings_example_def points_fit_def servo_fits_def)
  have shape: "cfg_shape blank_config" using blank_config_inv by (simp add: cfg_inv_def)
  have len: "length (json_text (config_json settings_example)) < 2048" by code_simp
  have "fs_read map_fs [ascii ''/data/config.json'' \<mapsto> json_text (config_json settings_example)] SYS_CFG_FILE_PATH =
    Some (json_text (config_json settings_example))" by (simp add: map_fs_def SYS_CFG_FILE_PATH_def)
  from config_file_loaded [OF fits nums shape len this, of "\<lparr>requests = 0, live = 0\<rparr>"] show ?thesis by simp
qed

text \<open>
  A file that fills the buffer leaves it without a terminator, so that the parser reads beyond
  it: a configuration file of 2048 bytes or more without a zero byte is undefined behaviour,
  whatever it holds.
\<close>

theorem long_config_unterminated:
  assumes "fs_read F d SYS_CFG_FILE_PATH = Some bs" and "2048 \<le> length bs" and "0 \<notin> set (take 2048 bs)"
  shows "init_config F d ok mem h c = None"
  using assms by (simp add: init_config_def buffer_string_def load_buffer_def)

theorem long_config_unterminated_witness:
  "init_config map_fs [ascii ''/data/config.json'' \<mapsto> replicate 3000 0x20] True always \<lparr>requests = 0, live = 0\<rparr> blank_config = None"
  by (rule long_config_unterminated [where bs = "replicate 3000 0x20"]) (simp_all add: map_fs_def SYS_CFG_FILE_PATH_def)

end
