(* ===== verification/Wifi.thy ===== *)
theory Wifi
  imports ConfigText
begin

text \<open>
  The Wi-Fi station, wifi_def.c, and \<^verbatim>\<open>init_wifi\<close> of domohelios.cpp. The Wi-Fi driver is the list of
  events it reports; what the code asks of it is counted. The sizes of the two arrays of its
  configuration are parameters, as its header is outside the repository.
\<close>

subsection \<open>Events\<close>

datatype wifi_event = STA_START | STA_DISCONNECTED | STA_GOT_IP | Other_event

definition EXAMPLE_ESP_MAXIMUM_RETRY :: int where "EXAMPLE_ESP_MAXIMUM_RETRY = 3"
definition WIFI_CONNECTED_BIT :: u32 where "WIFI_CONNECTED_BIT = push_bit 0 1"
definition WIFI_FAIL_BIT :: u32 where "WIFI_FAIL_BIT = push_bit 1 1"

text \<open>The static variables, the bits of the event group (none before it is created), the number of
  calls of \<^verbatim>\<open>esp_wifi_connect\<close>, and the variable that \<^verbatim>\<open>set_wifi_ok_addr\<close> has given.\<close>

record wifi =
  s_wifi_event_group :: "u32 option"
  s_retry_num :: int
  connects :: nat
  wifi_ok :: "u8 option"

definition wifi_start :: wifi where
  "wifi_start = \<lparr>s_wifi_event_group = None, s_retry_num = 0, connects = 0, wifi_ok = None\<rparr>"

definition esp_wifi_connect :: "wifi \<Rightarrow> wifi" where
  "esp_wifi_connect w = w\<lparr>connects := connects w + 1\<rparr>"

definition set_bits :: "u32 \<Rightarrow> wifi \<Rightarrow> wifi option" where
  "set_bits b w = map_option (\<lambda>g. w\<lparr>s_wifi_event_group := Some (g OR b)\<rparr>) (s_wifi_event_group w)"

definition wifi_sta_event_handler :: "wifi_event \<Rightarrow> wifi \<Rightarrow> wifi option" where
  "wifi_sta_event_handler e w = (case e of
     STA_START \<Rightarrow> Some (esp_wifi_connect w)
   | STA_DISCONNECTED \<Rightarrow>
       if s_retry_num w < EXAMPLE_ESP_MAXIMUM_RETRY
       then let w = esp_wifi_connect w in Some (w\<lparr>s_retry_num := s_retry_num w + 1\<rparr>)
       else set_bits WIFI_FAIL_BIT w
   | STA_GOT_IP \<Rightarrow> set_bits WIFI_CONNECTED_BIT (w\<lparr>s_retry_num := 0\<rparr>)
   | Other_event \<Rightarrow> Some w)"

fun handle_events :: "wifi_event list \<Rightarrow> wifi \<Rightarrow> wifi option" where
  "handle_events [] w = Some w"
| "handle_events (e # es) w = do { w' \<leftarrow> wifi_sta_event_handler e w; handle_events es w' }"

subsection \<open>Connecting\<close>

definition bits_of :: "wifi \<Rightarrow> u32" where
  "bits_of w = (case s_wifi_event_group w of None \<Rightarrow> 0 | Some g \<Rightarrow> g)"

text \<open>\<^verbatim>\<open>xEventGroupWaitBits\<close>: either bit ends the wait, neither is cleared. The events that are
  left over are returned.\<close>

fun wait_bits :: "wifi_event list \<Rightarrow> wifi \<Rightarrow> (wifi \<times> wifi_event list) run option" where
  "wait_bits es w = (if bits_of w AND (WIFI_CONNECTED_BIT OR WIFI_FAIL_BIT) \<noteq> 0 then Some (Done (w, es))
     else case es of [] \<Rightarrow> Some Running
     | e # es' \<Rightarrow> do { w' \<leftarrow> wifi_sta_event_handler e w; wait_bits es' w' })"

declare wait_bits.simps [simp del]

definition set_wifi_ok_addr :: "u8 \<Rightarrow> wifi \<Rightarrow> wifi" where
  "set_wifi_ok_addr var w = w\<lparr>wifi_ok := Some var\<rparr>"

definition wifi_init_sta :: "nat \<Rightarrow> nat \<Rightarrow> u8 list \<Rightarrow> u8 list \<Rightarrow> wifi_event list \<Rightarrow> wifi \<Rightarrow> (wifi \<times> wifi_event list) run option" where
  "wifi_init_sta ssid_size pass_size name pass es w = do {
     let w = w\<lparr>s_wifi_event_group := Some 0\<rparr>;
     ssid' \<leftarrow> strcpy (replicate ssid_size 0) (Some name);
     pass' \<leftarrow> strcpy (replicate pass_size 0) (Some pass);
     r \<leftarrow> wait_bits es w;
     case r of Running \<Rightarrow> Some Running
     | Done (w, es') \<Rightarrow>
         if bits_of w AND WIFI_CONNECTED_BIT \<noteq> 0
         then (case wifi_ok w of None \<Rightarrow> None | Some _ \<Rightarrow> Some (Done (w\<lparr>wifi_ok := Some 1\<rparr>, es')))
         else Some (Done (w, es')) }"

text \<open>\<^verbatim>\<open>init_wifi\<close>: one round of the loop, with the first network of the configuration.\<close>

definition init_wifi :: "nat \<Rightarrow> nat \<Rightarrow> DH_config \<Rightarrow> wifi_event list \<Rightarrow> wifi \<Rightarrow> (wifi \<times> wifi_event list) run option" where
  "init_wifi ssid_size pass_size conf es w = do {
     net \<leftarrow> rd (WIFI_list conf) 0;
     wifi_init_sta ssid_size pass_size (ssid net) (passphrase net) es w }"

subsection \<open>Running until a bit is set\<close>

text \<open>How a station that starts with \<open>n\<close> retries behind it ends: connected, failed, or still trying,
  and the events it has not seen.\<close>

fun verdict :: "nat \<Rightarrow> wifi_event list \<Rightarrow> (bool \<times> wifi_event list) option" where
  "verdict n [] = None"
| "verdict n (STA_GOT_IP # es) = Some (True, es)"
| "verdict n (STA_DISCONNECTED # es) = (if 3 \<le> n then Some (False, es) else verdict (n + 1) es)"
| "verdict n (STA_START # es) = verdict n es"
| "verdict n (Other_event # es) = verdict n es"

definition stopped_bit :: "bool \<Rightarrow> u32" where
  "stopped_bit c = (if c then WIFI_CONNECTED_BIT else WIFI_FAIL_BIT)"

lemma bit_tests: "stopped_bit c AND (WIFI_CONNECTED_BIT OR WIFI_FAIL_BIT) \<noteq> 0"
  "stopped_bit c AND WIFI_CONNECTED_BIT \<noteq> 0 \<longleftrightarrow> c" "WIFI_CONNECTED_BIT = stopped_bit True"
  "WIFI_FAIL_BIT = stopped_bit False"
  by (simp_all add: stopped_bit_def WIFI_CONNECTED_BIT_def WIFI_FAIL_BIT_def)

lemma wait_bits_stop: "s_wifi_event_group w = Some (stopped_bit c) \<Longrightarrow> wait_bits es w = Some (Done (w, es))"
  by (subst wait_bits.simps) (simp add: bits_of_def bit_tests(1))

lemma wait_bits_step: "s_wifi_event_group w = Some 0 \<Longrightarrow>
    wait_bits (e # es) w = do { w' \<leftarrow> wifi_sta_event_handler e w; wait_bits es w' }"
  by (subst wait_bits.simps) (simp add: bits_of_def)

lemmas handler_simps = wifi_sta_event_handler_def set_bits_def esp_wifi_connect_def EXAMPLE_ESP_MAXIMUM_RETRY_def
  bit_tests(3,4)

lemma wait_bits_verdict:
  assumes "s_wifi_event_group w = Some 0" and "s_retry_num w = int n" and "n \<le> 3"
  shows "case verdict n es of
      None \<Rightarrow> wait_bits es w = Some Running
    | Some (c, es') \<Rightarrow> \<exists>w'. wait_bits es w = Some (Done (w', es')) \<and> wifi_ok w' = wifi_ok w \<and>
        s_wifi_event_group w' = Some (stopped_bit c)"
  using assms
proof (induction n es arbitrary: w rule: verdict.induct)
  case (1 n)
  then show ?case by (simp add: wait_bits.simps [of "[]"] bits_of_def)
next
  case (3 n es)
  show ?case
  proof (cases "n = 3")
    case False
    then show ?thesis
      using 3(1) [of "w\<lparr>connects := connects w + 1, s_retry_num := s_retry_num w + 1\<rparr>"] 3(2-)
      by (auto simp: wait_bits_step handler_simps Let_def split: option.splits)
  qed (use 3(2-) in \<open>simp add: wait_bits_step handler_simps wait_bits_stop\<close>)
next
  case (4 n es)
  show ?case using 4(1) [of "w\<lparr>connects := connects w + 1\<rparr>"] 4(2-)
    by (auto simp: wait_bits_step handler_simps split: option.splits)
next
  case (5 n es)
  show ?case using 5(1) [of w] 5(2-) by (auto simp: wait_bits_step handler_simps split: option.splits)
qed (simp_all add: wait_bits_step handler_simps wait_bits_stop)

text \<open>The verdict in words of the list: before the first address, at most three disconnections.\<close>

lemma verdict_count:
  "n \<le> 3 \<Longrightarrow> map_option fst (verdict n es) = (let before = takeWhile (\<lambda>e. e \<noteq> STA_GOT_IP) es in
     if 3 < n + count_list before STA_DISCONNECTED then Some False
     else if STA_GOT_IP \<in> set es then Some True else None)"
  by (induction n es rule: verdict.induct) (auto simp: Let_def)


subsection \<open>What the program gets\<close>

lemma strcpy_zeros: "strcpy (replicate n 0) (Some s) \<noteq> None \<longleftrightarrow> length (cstr s) < n"
  by (auto simp: strcpy_def wr_def)

lemma wifi_init_sta_overflow:
  "\<not> (length (cstr name) < a \<and> length (cstr pass) < b) \<Longrightarrow> wifi_init_sta a b name pass es w = None"
  using strcpy_zeros [of a name] strcpy_zeros [of b pass]
  by (cases "strcpy (replicate a 0) (Some name)") (auto simp: wifi_init_sta_def)

lemma wifi_init_sta_verdict:
  assumes "length (cstr name) < a" "length (cstr pass) < b" "wifi_ok w = Some k" "s_retry_num w = int n" "n \<le> 3"
  shows "case verdict n es of
      None \<Rightarrow> wifi_init_sta a b name pass es w = Some Running
    | Some (c, es') \<Rightarrow> \<exists>w'. wifi_init_sta a b name pass es w = Some (Done (w', es')) \<and> wifi_ok w' = Some (if c then 1 else k)"
proof -
  obtain x y where "strcpy (replicate a 0) (Some name) = Some x" "strcpy (replicate b 0) (Some pass) = Some y"
    using assms(1,2) strcpy_zeros by blast
  then show ?thesis
    using wait_bits_verdict [of "w\<lparr>s_wifi_event_group := Some 0\<rparr>" n es] assms(3-)
    by (auto simp: wifi_init_sta_def bits_of_def bit_tests(2) split: option.splits)
qed

text \<open>
  C39: \<^verbatim>\<open>init_wifi\<close> copies the name and the pass phrase of the first configured network into the driver's
  fixed arrays and overruns one of them when either is too long, whatever happens next; otherwise it
  ends as soon as the station has an address or has lost the access point once more than its three
  retries, sets \<^verbatim>\<open>wifi_ok\<close> in the first case and leaves it alone in the second, and it never returns
  when neither happens.
\<close>

theorem init_wifi_ends:
  assumes "WIFI_list conf = net # nets" and "wifi_ok w = Some k" and "s_retry_num w = int n" and "n \<le> 3"
  shows "if ssid_size \<le> length (cstr (ssid net)) \<or> pass_size \<le> length (cstr (passphrase net))
    then init_wifi ssid_size pass_size conf es w = None
    else if 3 < n + count_list (takeWhile (\<lambda>e. e \<noteq> STA_GOT_IP) es) STA_DISCONNECTED
    then \<exists>w' es'. init_wifi ssid_size pass_size conf es w = Some (Done (w', es')) \<and> wifi_ok w' = Some k
    else if STA_GOT_IP \<in> set es
    then \<exists>w' es'. init_wifi ssid_size pass_size conf es w = Some (Done (w', es')) \<and> wifi_ok w' = Some 1
    else init_wifi ssid_size pass_size conf es w = Some Running"
proof -
  have i: "init_wifi ssid_size pass_size conf es w = wifi_init_sta ssid_size pass_size (ssid net) (passphrase net) es w"
    using assms(1) by (simp add: init_wifi_def rd_def)
  show ?thesis
    using wifi_init_sta_overflow [of "ssid net" ssid_size "passphrase net" pass_size es w]
      wifi_init_sta_verdict [of "ssid net" ssid_size "passphrase net" pass_size w k n es, OF _ _ assms(2-)]
      verdict_count [OF assms(4), of es]
    unfolding i by (auto simp: Let_def not_le not_less split: option.splits if_splits)
qed

lemma cstr_repeat: "cstr (replicate n c @ 0 # r) = (if c = 0 then [] else replicate n c)" "cstr (replicate n 0) = []"
  by (induction n) (auto simp: cstr_def)

lemma blank_networks: "WIFI_list blank_config = blank_wifi # replicate 4 blank_wifi"
  by (simp add: blank_config_def numeral_eq_Suc)

lemma blank_names: "cstr (ssid blank_wifi) = []" "cstr (passphrase blank_wifi) = []"
  by (simp_all add: blank_wifi_def cstr_repeat(2))

theorem init_wifi_ends_witness:
  "(\<exists>w' es'. init_wifi 32 64 blank_config [STA_START, STA_DISCONNECTED, STA_GOT_IP] (wifi_start\<lparr>wifi_ok := Some 0\<rparr>) =
      Some (Done (w', es')) \<and> wifi_ok w' = Some 1) \<and>
   init_wifi 32 64 (blank_config\<lparr>WIFI_list := [blank_wifi\<lparr>ssid := replicate 40 0x61 @ [0]\<rparr>]\<rparr>) []
     (wifi_start\<lparr>wifi_ok := Some 0\<rparr>) = None"
  using init_wifi_ends [of blank_config blank_wifi "replicate 4 blank_wifi" "wifi_start\<lparr>wifi_ok := Some 0\<rparr>" 0 0 32 64
      "[STA_START, STA_DISCONNECTED, STA_GOT_IP]"]
    init_wifi_ends [of "blank_config\<lparr>WIFI_list := [blank_wifi\<lparr>ssid := replicate 40 0x61 @ [0]\<rparr>]\<rparr>"
      "blank_wifi\<lparr>ssid := replicate 40 0x61 @ [0]\<rparr>" "[]" "wifi_start\<lparr>wifi_ok := Some 0\<rparr>" 0 0 32 64 "[]"]
  by (simp add: blank_networks blank_names wifi_start_def cstr_repeat)

lemma count_list_repeat: "count_list (replicate k x) y = (if x = y then k else 0)"
  by (induction k) auto

lemma handle_events_retries:
  assumes "STA_GOT_IP \<notin> set es" and "s_wifi_event_group w \<noteq> None" and "s_retry_num w = int n" and "n \<le> 3"
  shows "\<exists>w'. handle_events es w = Some w' \<and> wifi_ok w' = wifi_ok w \<and>
    connects w' = connects w + count_list es STA_START + min (3 - n) (count_list es STA_DISCONNECTED)"
  using assms
proof (induction es arbitrary: w n)
  case (Cons e es)
  show ?case
  proof (cases e)
    case STA_START
    then show ?thesis using Cons.IH [of "w\<lparr>connects := connects w + 1\<rparr>" n] Cons.prems
      by (auto simp: handler_simps)
  next
    case STA_DISCONNECTED
    show ?thesis
    proof (cases "n = 3")
      case True
      obtain g where "s_wifi_event_group w = Some g" using Cons.prems(2) by blast
      then show ?thesis using Cons.IH [of "w\<lparr>s_wifi_event_group := Some (g OR WIFI_FAIL_BIT)\<rparr>" n] Cons.prems True STA_DISCONNECTED
        by (auto simp: handler_simps)
    next
      case False
      then show ?thesis
        using Cons.IH [of "w\<lparr>connects := connects w + 1, s_retry_num := s_retry_num w + 1\<rparr>" "n + 1"] Cons.prems STA_DISCONNECTED
        by (auto simp: handler_simps Let_def)
    qed
  qed (use Cons in \<open>auto simp: handler_simps\<close>)
qed simp

text \<open>
  C40: A connection that is lost is asked for again three times and then never more: over any number of
  disconnections with no new address in between, \<^verbatim>\<open>esp_wifi_connect\<close> is called three times at most,
  and \<^verbatim>\<open>wifi_ok\<close> keeps saying that the station is connected.
\<close>

theorem lost_connection_gives_up:
  assumes "s_wifi_event_group w = Some g"
  shows "\<exists>w'. handle_events (STA_GOT_IP # replicate k STA_DISCONNECTED) w = Some w' \<and>
    connects w' = connects w + min 3 k \<and> wifi_ok w' = wifi_ok w"
  using handle_events_retries [of "replicate k STA_DISCONNECTED" "w\<lparr>s_retry_num := 0, s_wifi_event_group := Some (g OR WIFI_CONNECTED_BIT)\<rparr>" 0] assms
  by (auto simp: wifi_sta_event_handler_def set_bits_def count_list_repeat)

theorem lost_connection_gives_up_witness:
  "\<exists>w'. handle_events (STA_GOT_IP # replicate 100 STA_DISCONNECTED) (wifi_start\<lparr>s_wifi_event_group := Some 0, wifi_ok := Some 1\<rparr>) = Some w' \<and>
     connects w' = 3 \<and> wifi_ok w' = Some 1"
  using lost_connection_gives_up [of "wifi_start\<lparr>s_wifi_event_group := Some 0, wifi_ok := Some 1\<rparr>" 0 100]
  by (simp add: wifi_start_def)

end
