(* ===== verification/AppMain.thy ===== *)
theory AppMain
  imports Domohelios Wifi "HOL-Library.Sublist"
begin

text \<open>
  The life of the program, domohelios.cpp: \<^verbatim>\<open>app_main\<close> and the threads it starts, as a relation of
  steps that interleave in any order. The main thread runs lists of actions; a thread makes one step
  for a round of its loop, except for the publisher, whose test and whose use of the ThingsBoard
  object are two steps.
\<close>

subsection \<open>State\<close>

datatype task = Battery_control | Switch_callbacks | Misc_adc_read | Solar_task | Publish | Servo_task nat

datatype action = Init_solar | Store_targets dbl dbl | Start task | New_tb | Destroy_tb | Set_to_sleep
  | End_servo nat | Join task | Delete_solar | Enter_sleep

datatype main_pc = Connecting | Main_loop | Ap_sleep | Going_up "action list" | Awaiting | Going_down "action list" | Returned

datatype tb_object = No_tb | Live_tb | Destroyed_tb

text \<open>\<open>tb_fault\<close>: a method or the destructor was called on a ThingsBoard object that does not live.
  \<open>tracker\<close> is the copy of \<^verbatim>\<open>*solar\<close> that the thread of the tracker works on. \<open>sleeps\<close> counts the calls of \<^verbatim>\<open>enter_sleep\<close>, \<open>softaps\<close> those of \<^verbatim>\<open>wifi_init_softap\<close>.\<close>

record app =
  main_pc :: main_pc
  running :: "task set"
  sending :: bool
  servo_ends :: "nat set"
  main_wifi_ok :: u8
  terminate :: bool
  to_sleep :: bool
  disable_external :: bool
  vars :: store
  solar :: "solar_sys option"
  tracker :: "solar_sys option"
  tb :: tb_object
  tb_fault :: bool
  file_server :: start_state
  sleeps :: nat
  softaps :: nat

text \<open>The configuration is loaded and the battery control started.\<close>

definition app_start :: app where
  "app_start = \<lparr>main_pc = Connecting, running = {Battery_control}, sending = False, servo_ends = {},
     main_wifi_ok = 0, terminate = False, to_sleep = False, disable_external = False, vars = (\<lambda>_. fint 0),
     solar = None, tracker = None, tb = No_tb, tb_fault = False, file_server = \<lparr>server_data = None, routes = []\<rparr>,
     sleeps = 0, softaps = 0\<rparr>"

definition WORKING_PATH :: "u8 list" where "WORKING_PATH = ascii ''/data''"

subsection \<open>What the main thread does\<close>

definition servo_thread_init :: "nat list \<Rightarrow> action list" where
  "servo_thread_init list = map (\<lambda>i. Start (Servo_task i)) list"

definition init_servo :: "action list" where
  "init_servo = servo_thread_init [0, 1] @ map (\<lambda>(x, y). Store_targets x y) init_servo_targets"

definition go_up :: "action list" where
  "go_up = [Init_solar] @ init_servo @
     [New_tb, Start Misc_adc_read, Start Solar_task, Start Publish, Start Switch_callbacks]"

definition turn_off_servo_control :: "nat list \<Rightarrow> action list" where
  "turn_off_servo_control servo_bind = concat (map (\<lambda>i. [End_servo i, Join (Servo_task i)]) servo_bind)"

text \<open>\<^verbatim>\<open>deinit_thingsboard\<close> calls the destructor, and so does \<^verbatim>\<open>delete tb\<close>.\<close>

definition low_battery_sys_drop :: "action list" where
  "low_battery_sys_drop = [Destroy_tb, Set_to_sleep]"

definition memory_and_threads_cleanup :: "action list" where
  "memory_and_threads_cleanup = turn_off_servo_control [0, 1] @
     [Join Battery_control, Join Switch_callbacks, Join Misc_adc_read, Join Solar_task, Join Publish, Delete_solar, Destroy_tb]"

definition go_down :: "action list" where
  "go_down = low_battery_sys_drop @ memory_and_threads_cleanup @ [Enter_sleep]"

text \<open>One action. A thread that is joined must have ended; the tracker is started on a copy of \<^verbatim>\<open>*solar\<close>.\<close>

fun perform :: "DH_config \<Rightarrow> action \<Rightarrow> app \<Rightarrow> app option" where
  "perform conf Init_solar s = map_option (\<lambda>y. s\<lparr>solar := Some y\<rparr>) (init_json_sys_config conf)"
| "perform conf (Store_targets x y) s = Some (s\<lparr>vars := (vars s)(servo_a_target := x, servo_b_target := y)\<rparr>)"
| "perform conf (Start t) s = (if t = Solar_task
     then map_option (\<lambda>y. s\<lparr>running := insert t (running s), tracker := Some y\<rparr>) (solar s)
     else Some (s\<lparr>running := insert t (running s)\<rparr>))"
| "perform conf New_tb s = Some (s\<lparr>tb := Live_tb\<rparr>)"
| "perform conf Destroy_tb s = Some (s\<lparr>tb := Destroyed_tb, tb_fault := tb_fault s \<or> tb s \<noteq> Live_tb\<rparr>)"
| "perform conf Set_to_sleep s = Some (s\<lparr>to_sleep := True\<rparr>)"
| "perform conf (End_servo i) s = Some (s\<lparr>servo_ends := insert i (servo_ends s)\<rparr>)"
| "perform conf (Join t) s = (if t \<in> running s then None else Some s)"
| "perform conf Delete_solar s = Some (s\<lparr>solar := None\<rparr>)"
| "perform conf Enter_sleep s = Some (s\<lparr>sleeps := sleeps s + 1\<rparr>)"

text \<open>The steps of \<^verbatim>\<open>app_main\<close>, and in access point mode the restart by the file server that it starts: an
  upload of the Wi-Fi file that the handler accepts. What is on the disk and what the network does is
  arbitrary. The program then begins anew (with another configuration if that was uploaded as well;
  runs from \<open>app_start\<close> with any configuration are reachable).\<close>

inductive main_step :: "nat \<Rightarrow> nat \<Rightarrow> nat \<Rightarrow> DH_config \<Rightarrow> app \<Rightarrow> app \<Rightarrow> bool" for vfs_path_max ssid_size pass_size conf where
  connected: "main_pc s = Connecting \<Longrightarrow>
    init_wifi ssid_size pass_size conf es (wifi_start\<lparr>wifi_ok := Some (main_wifi_ok s)\<rparr>) = Some (Done (w, es')) \<Longrightarrow> wifi_ok w = Some k \<Longrightarrow>
    main_step vfs_path_max ssid_size pass_size conf s (s\<lparr>main_pc := Main_loop, main_wifi_ok := k\<rparr>)"
| return: "main_pc s = Main_loop \<Longrightarrow> terminate s \<Longrightarrow> main_step vfs_path_max ssid_size pass_size conf s (s\<lparr>main_pc := Returned\<rparr>)"
| softap: "main_pc s = Main_loop \<Longrightarrow> \<not> terminate s \<Longrightarrow> main_wifi_ok s = 0 \<Longrightarrow>
    start_file_server vfs_path_max alloc_ok httpd_ok WORKING_PATH (file_server s) = (e, fs) \<Longrightarrow>
    main_step vfs_path_max ssid_size pass_size conf s (s\<lparr>main_pc := Ap_sleep, softaps := softaps s + 1, file_server := fs\<rparr>)"
| awake: "main_pc s = Ap_sleep \<Longrightarrow> main_step vfs_path_max ssid_size pass_size conf s (s\<lparr>main_pc := Main_loop\<rparr>)"
| station: "main_pc s = Main_loop \<Longrightarrow> \<not> terminate s \<Longrightarrow> main_wifi_ok s \<noteq> 0 \<Longrightarrow>
    main_step vfs_path_max ssid_size pass_size conf s (s\<lparr>main_pc := Going_up go_up\<rparr>)"
| up: "main_pc s = Going_up (c # cs) \<Longrightarrow> perform conf c s = Some s' \<Longrightarrow>
    main_step vfs_path_max ssid_size pass_size conf s (s'\<lparr>main_pc := Going_up cs\<rparr>)"
| is_up: "main_pc s = Going_up [] \<Longrightarrow> main_step vfs_path_max ssid_size pass_size conf s (s\<lparr>main_pc := Awaiting\<rparr>)"
| waits: "main_pc s = Awaiting \<Longrightarrow> \<not> battery_is_critical (vars s adc_batt) \<Longrightarrow> main_step vfs_path_max ssid_size pass_size conf s s"
| critical: "main_pc s = Awaiting \<Longrightarrow> battery_is_critical (vars s adc_batt) \<Longrightarrow>
    main_step vfs_path_max ssid_size pass_size conf s (s\<lparr>main_pc := Going_down go_down\<rparr>)"
| down: "main_pc s = Going_down (c # cs) \<Longrightarrow> perform conf c s = Some s' \<Longrightarrow>
    main_step vfs_path_max ssid_size pass_size conf s (s'\<lparr>main_pc := Going_down cs\<rparr>)"
| is_down: "main_pc s = Going_down [] \<Longrightarrow> main_step vfs_path_max ssid_size pass_size conf s (s\<lparr>main_pc := Main_loop\<rparr>)"
| restart: "(ascii ''/upload/*'', HTTP_POST, Upload) \<in> set (routes (file_server s)) \<Longrightarrow> server_data (file_server s) = Some base \<Longrightarrow>
    upload_post_handler map_fs env (FILE_PATH_MAX vfs_path_max) base req sv = Some (Done (e, sv')) \<Longrightarrow>
    \<not> restarted sv \<Longrightarrow> restarted sv' \<Longrightarrow> main_step vfs_path_max ssid_size pass_size conf s app_start"

subsection \<open>What the threads do\<close>

text \<open>A loop that runs \<^verbatim>\<open>while(!to_sleep.load())\<close> ends its thread.\<close>

definition end_task :: "task \<Rightarrow> app \<Rightarrow> app" where
  "end_task t s = s\<lparr>running := running s - {t}\<rparr>"

definition battery_control_step :: "app \<Rightarrow> app" where
  "battery_control_step s =
     s\<lparr>disable_external := battery_control_round (vars s adc_batt, vars s adc_batt) (disable_external s)\<rparr>"

definition misc_adc_read_step :: "int list \<Rightarrow> int list \<Rightarrow> int list \<Rightarrow> int list \<Rightarrow> app \<Rightarrow> app" where
  "misc_adc_read_step ch6 ch7 ch4 ch5 s = (if to_sleep s then end_task Misc_adc_read s
     else s\<lparr>vars := misc_adc_read_round ch6 ch7 ch4 ch5 (vars s)\<rparr>)"

definition publish_step :: "app \<Rightarrow> app" where
  "publish_step s = (if sending s then s\<lparr>sending := False, tb_fault := tb_fault s \<or> tb s \<noteq> Live_tb\<rparr>
     else if to_sleep s then end_task Publish s else s\<lparr>sending := True\<rparr>)"

text \<open>What a round of the switch does is in the theory of the program; it touches nothing here.\<close>

definition switch_callbacks_step :: "app \<Rightarrow> app" where
  "switch_callbacks_step s = (if to_sleep s then end_task Switch_callbacks s else s)"

definition solar_task_step :: "app \<Rightarrow> app option" where
  "solar_task_step s = do { y \<leftarrow> tracker s; (st, y') \<leftarrow> enhance_focus (vars s) y; Some (s\<lparr>vars := st, tracker := Some y'\<rparr>) }"

definition servo_task_step :: "nat \<Rightarrow> app \<Rightarrow> app" where
  "servo_task_step i s = (if i \<in> servo_ends s then end_task (Servo_task i) s else s)"

inductive task_step :: "app \<Rightarrow> app \<Rightarrow> bool" where
  battery: "Battery_control \<in> running s \<Longrightarrow> task_step s (battery_control_step s)"
| misc: "Misc_adc_read \<in> running s \<Longrightarrow> task_step s (misc_adc_read_step ch6 ch7 ch4 ch5 s)"
| publish: "Publish \<in> running s \<Longrightarrow> task_step s (publish_step s)"
| switches: "Switch_callbacks \<in> running s \<Longrightarrow> task_step s (switch_callbacks_step s)"
| solar: "Solar_task \<in> running s \<Longrightarrow> solar_task_step s = Some s' \<Longrightarrow> task_step s s'"
| servo: "Servo_task i \<in> running s \<Longrightarrow> task_step s (servo_task_step i s)"

inductive app_reachable :: "nat \<Rightarrow> nat \<Rightarrow> nat \<Rightarrow> DH_config \<Rightarrow> app \<Rightarrow> bool" for vfs_path_max ssid_size pass_size conf where
  start: "app_reachable vfs_path_max ssid_size pass_size conf app_start"
| main: "app_reachable vfs_path_max ssid_size pass_size conf s \<Longrightarrow> main_step vfs_path_max ssid_size pass_size conf s s' \<Longrightarrow>
    app_reachable vfs_path_max ssid_size pass_size conf s'"
| task: "app_reachable vfs_path_max ssid_size pass_size conf s \<Longrightarrow> task_step s s' \<Longrightarrow>
    app_reachable vfs_path_max ssid_size pass_size conf s'"


inductive_cases perform_step: "main_step v a b conf s s'"

lemmas step_defs = battery_control_step_def misc_adc_read_step_def publish_step_def switch_callbacks_step_def
  solar_task_step_def servo_task_step_def end_task_def

subsection \<open>The shutdown\<close>

lemmas go_defs = go_up_def go_down_def init_servo_def servo_thread_init_def init_servo_targets_def turn_off_servo_control_def
  low_battery_sys_drop_def memory_and_threads_cleanup_def

definition app_inv :: "app \<Rightarrow> bool" where
  "app_inv s \<longleftrightarrow> Battery_control \<in> running s \<and> \<not> terminate s \<and> sleeps s = 0 \<and>
     (Publish \<in> running s \<longrightarrow> tb s \<noteq> No_tb) \<and>
     (case main_pc s of Returned \<Rightarrow> False
      | Going_down as \<Rightarrow> suffix as go_down \<and> Join Battery_control \<in> set as \<and> (tb_fault s \<longrightarrow> tb s = Destroyed_tb)
      | pc \<Rightarrow> tb s \<noteq> Destroyed_tb \<and> \<not> tb_fault s \<and>
          (case pc of Going_up as \<Rightarrow> suffix as go_up \<and> (New_tb \<in> set as \<or> tb s \<noteq> No_tb) | _ \<Rightarrow> True))"

lemma going_down_order: "suffix (c # cs) go_down \<Longrightarrow> Join Battery_control \<in> set (c # cs) \<Longrightarrow> c \<noteq> Join Battery_control \<Longrightarrow>
    Join Battery_control \<in> set cs \<and> (c = Destroy_tb \<or> c = Set_to_sleep \<or> (\<exists>i. c = End_servo i \<or> c = Join (Servo_task i)))"
  by (auto simp: go_defs suffix_Cons)

lemma going_up_order: "suffix (c # cs) go_up \<Longrightarrow>
    (c = Start Publish \<longrightarrow> New_tb \<notin> set cs) \<and> (\<forall>t. c \<noteq> Join t) \<and> c \<noteq> Destroy_tb \<and> c \<noteq> Enter_sleep"
  by (auto simp: go_defs suffix_Cons numeral_eq_Suc)

lemma suffix_tail: "suffix (c # cs) xs \<Longrightarrow> suffix cs xs"
  by (metis suffix_ConsD)

lemma perform_pc: "perform conf c s = Some s' \<Longrightarrow> main_pc s' = main_pc s"
  by (cases c) (auto split: if_splits)

lemma perform_inv_down:
  assumes "app_inv s" and "main_pc s = Going_down (c # cs)" and "perform conf c s = Some s'"
  shows "app_inv (s'\<lparr>main_pc := Going_down cs\<rparr>)"
proof -
  have c: "suffix (c # cs) go_down" "Join Battery_control \<in> set (c # cs)" "Battery_control \<in> running s"
    using assms(1,2) by (auto simp: app_inv_def)
  have "c \<noteq> Join Battery_control" using assms(3) c(3) by auto
  note o = going_down_order [OF c(1,2) this]
  then show ?thesis
    using assms suffix_tail [OF c(1)] by (elim conjE disjE exE) (auto simp: app_inv_def split: if_splits)
qed

lemma perform_inv_up:
  assumes "app_inv s" and "main_pc s = Going_up (c # cs)" and "perform conf c s = Some s'"
  shows "app_inv (s'\<lparr>main_pc := Going_up cs\<rparr>)"
proof -
  have c: "suffix (c # cs) go_up" using assms(1,2) by (auto simp: app_inv_def)
  show ?thesis
    using going_up_order [OF c] suffix_tail [OF c] assms by (cases c) (auto simp: app_inv_def split: if_splits)
qed

lemma app_inv_other: "app_inv (s\<lparr>vars := v\<rparr>) = app_inv s" "app_inv (s\<lparr>vars := v, tracker := y\<rparr>) = app_inv s"
  "app_inv (s\<lparr>disable_external := d\<rparr>) = app_inv s" "app_inv (s\<lparr>sending := b\<rparr>) = app_inv s"
  by (cases "main_pc s"; simp add: app_inv_def)+

lemma end_task_inv: "app_inv s \<Longrightarrow> t \<noteq> Battery_control \<Longrightarrow> app_inv (end_task t s)"
  by (cases "main_pc s") (simp_all add: app_inv_def end_task_def)

lemma publish_step_inv:
  assumes "app_inv s" and "Publish \<in> running s"
  shows "app_inv (publish_step s)"
proof -
  have "tb s = Live_tb \<or> tb s = Destroyed_tb" using assms by (cases "tb s") (auto simp: app_inv_def)
  then have "app_inv (s\<lparr>sending := False, tb_fault := tb_fault s \<or> tb s \<noteq> Live_tb\<rparr>)"
    using assms by (auto simp: app_inv_def split: main_pc.splits)
  then show ?thesis using assms(1) by (simp add: publish_step_def end_task_inv app_inv_other)
qed

lemma task_step_inv: "task_step s s' \<Longrightarrow> app_inv s \<Longrightarrow> app_inv s'"
proof (induction rule: task_step.induct)
  case (solar s s')
  then obtain st y where "s' = s\<lparr>vars := st, tracker := Some y\<rparr>"
    by (auto simp: solar_task_step_def split: Option.bind_splits)
  then show ?case using solar.prems by (simp add: app_inv_other)
qed (simp_all add: battery_control_step_def misc_adc_read_step_def switch_callbacks_step_def servo_task_step_def
    app_inv_other end_task_inv publish_step_inv)

lemma task_step_keeps: "task_step s s' \<Longrightarrow> main_pc s' = main_pc s \<and> main_wifi_ok s' = main_wifi_ok s \<and>
    file_server s' = file_server s \<and> softaps s' = softaps s"
  by (induction rule: task_step.induct) (auto simp: step_defs split: Option.bind_splits)

lemma main_step_inv: "main_step v a b conf s s' \<Longrightarrow> app_inv s \<Longrightarrow> app_inv s'"
proof (induction rule: main_step.induct)
  case (up s c cs s')
  then show ?case using perform_inv_up by blast
next
  case (down s c cs s')
  then show ?case using perform_inv_down by blast
qed (auto simp: app_inv_def go_defs app_start_def)

lemma app_reachable_inv: "app_reachable v a b conf s \<Longrightarrow> app_inv s"
proof (induction rule: app_reachable.induct)
  case start
  then show ?case by (simp add: app_inv_def app_start_def)
qed (blast intro: main_step_inv task_step_inv)+


text \<open>
  C36: \<^verbatim>\<open>app_main\<close> never gets past its shutdown. The thread of the battery control has no way to end, so
  the call that joins it never returns: \<^verbatim>\<open>enter_sleep\<close> is never called, the program never goes
  round its loop again, and what comes after (the readings, the tracker, the publisher) is not joined.
\<close>

theorem shutdown_never_finishes:
  assumes "app_reachable vfs_path_max ssid_size pass_size conf s"
  shows "Battery_control \<in> running s \<and> sleeps s = 0 \<and> main_pc s \<noteq> Returned \<and>
    (case main_pc s of Going_down as \<Rightarrow> Join Battery_control \<in> set as | _ \<Rightarrow> True)"
  using app_reachable_inv [OF assms] by (auto simp: app_inv_def split: main_pc.splits)

text \<open>Without a network: the file server, and what does not run.\<close>

definition server_inv :: "nat \<Rightarrow> start_state \<Rightarrow> bool" where
  "server_inv v f \<longleftrightarrow> length (routes f) \<le> 3 \<and> (routes f \<noteq> [] \<longrightarrow> server_data f = Some (take v WORKING_PATH) \<and>
     (ascii ''/upload/*'', HTTP_POST, Upload) \<in> set (routes f))"

lemma start_file_server_inv:
  "start_file_server v p q WORKING_PATH f = (e, f') \<Longrightarrow> server_inv v f \<Longrightarrow> server_inv v f'"
  by (auto simp: start_file_server_def server_inv_def Let_def split: if_splits)

definition ap_inv :: "nat \<Rightarrow> app \<Rightarrow> bool" where
  "ap_inv v s \<longleftrightarrow> \<not> terminate s \<and> server_inv v (file_server s) \<and>
     (main_wifi_ok s = 0 \<longrightarrow> running s = {Battery_control} \<and> vars s adc_batt = fint 0 \<and> solar s = None \<and> \<not> to_sleep s \<and>
        (main_pc s = Connecting \<or> main_pc s = Main_loop \<or> main_pc s = Ap_sleep)) \<and>
     (main_pc s = Connecting \<longrightarrow> main_wifi_ok s = 0) \<and>
     (main_pc s = Connecting \<or> main_wifi_ok s \<noteq> 0 \<longrightarrow> routes (file_server s) = [])"

lemma perform_keeps: "perform conf c s = Some s' \<Longrightarrow> main_wifi_ok s' = main_wifi_ok s \<and> file_server s' = file_server s \<and>
    terminate s' = terminate s"
  by (cases c) (auto split: if_splits)

lemma main_step_ap: "main_step v a b conf s s' \<Longrightarrow> ap_inv v s \<Longrightarrow> ap_inv v s'"
proof (induction rule: main_step.induct)
  case (softap s alloc_ok httpd_ok e fs)
  then show ?case using start_file_server_inv [OF softap(4)] by (auto simp: ap_inv_def)
next
  case (up s c cs s')
  then show ?case using perform_keeps [OF up(2)] by (auto simp: ap_inv_def)
next
  case (down s c cs s')
  then show ?case using perform_keeps [OF down(2)] by (auto simp: ap_inv_def)
next
  case (connected s es w es' k)
  then show ?case by (simp add: ap_inv_def)
qed (simp_all add: ap_inv_def app_start_def server_inv_def)

lemma task_step_ap: "task_step s s' \<Longrightarrow> ap_inv v s \<Longrightarrow> ap_inv v s'"
  by (induction rule: task_step.induct) (auto simp: ap_inv_def step_defs split: Option.bind_splits)

lemma app_reachable_ap: "app_reachable v a b conf s \<Longrightarrow> ap_inv v s"
proof (induction rule: app_reachable.induct)
  case start
  then show ?case by (simp add: ap_inv_def server_inv_def app_start_def)
qed (blast intro: main_step_ap task_step_ap)+

subsection \<open>A run to the shutdown\<close>

fun perform_all :: "DH_config \<Rightarrow> action list \<Rightarrow> app \<Rightarrow> app option" where
  "perform_all conf [] s = Some s"
| "perform_all conf (c # cs) s = Option.bind (perform conf c s) (\<lambda>s'. perform_all conf cs (s'\<lparr>main_pc := Going_up cs\<rparr>))"

lemma goes_up:
  assumes "app_reachable v a b conf s" and "main_pc s = Going_up as" and "perform_all conf as s = Some s'"
  shows "app_reachable v a b conf s'"
  using assms
proof (induction as arbitrary: s)
  case (Cons c cs)
  then obtain s1 where s1: "perform conf c s = Some s1" "perform_all conf cs (s1\<lparr>main_pc := Going_up cs\<rparr>) = Some s'"
    by (auto split: Option.bind_splits)
  show ?case by (rule Cons.IH [OF app_reachable.main [OF Cons.prems(1) main_step.up [OF Cons.prems(2) s1(1)]] _ s1(2)]) simp
qed simp

lemma zero_is_critical: "battery_is_critical (fint 0)"
proof -
  have "fint 0 = Fin False 0 (- 149)" by (simp add: float_eval)
  then show ?thesis using sub_small [of False 0 "- 149" False 7205759403792794 "- 51"]
    unfolding battery_is_critical_def low_constants by (simp add: signed_def powi_nat)
qed

definition usable_config :: "nat \<Rightarrow> nat \<Rightarrow> DH_config \<Rightarrow> bool" where
  "usable_config ssid_size pass_size conf \<longleftrightarrow> init_json_sys_config conf \<noteq> None \<and> WIFI_list conf \<noteq> [] \<and>
     length (cstr (ssid (hd (WIFI_list conf)))) < ssid_size \<and> length (cstr (passphrase (hd (WIFI_list conf)))) < pass_size"

lemma reaches_station:
  assumes "usable_config a b conf"
  shows "app_reachable v a b conf (app_start\<lparr>main_pc := Going_up go_up, main_wifi_ok := 1\<rparr>)"
proof -
  obtain net nets where n: "WIFI_list conf = net # nets"
    "length (cstr (ssid net)) < a" "length (cstr (passphrase net)) < b"
    using assms by (cases "WIFI_list conf") (auto simp: usable_config_def)
  obtain w es' where w: "init_wifi a b conf [STA_GOT_IP] (wifi_start\<lparr>wifi_ok := Some (main_wifi_ok app_start)\<rparr>) = Some (Done (w, es'))"
    "wifi_ok w = Some 1"
    using wifi_init_sta_verdict [OF n(2,3), of "wifi_start\<lparr>wifi_ok := Some 0\<rparr>" 0 0 "[STA_GOT_IP]"] n(1)
    by (auto simp: wifi_start_def app_start_def init_wifi_def rd_def)
  have "app_reachable v a b conf (app_start\<lparr>main_pc := Main_loop, main_wifi_ok := 1\<rparr>)"
    by (rule app_reachable.main [OF app_reachable.start main_step.connected [OF _ w]]) (simp add: app_start_def)
  from app_reachable.main [OF this main_step.station] show ?thesis by (simp add: app_start_def)
qed

definition all_tasks :: "task set" where
  "all_tasks = {Switch_callbacks, Publish, Solar_task, Misc_adc_read, Servo_task 1, Servo_task 0, Battery_control}"

lemma reaches_shutdown:
  assumes "usable_config a b conf"
  shows "\<exists>s. app_reachable v a b conf s \<and> main_pc s = Going_down go_down \<and> running s = all_tasks \<and> \<not> to_sleep s \<and>
    \<not> sending s \<and> servo_ends s = {} \<and> tb s = Live_tb"
proof -
  obtain y where y: "init_json_sys_config conf = Some y" using assms by (auto simp: usable_config_def)
  define s0 where "s0 = app_start\<lparr>main_pc := Going_up go_up, main_wifi_ok := 1\<rparr>"
  obtain s1 where s1: "perform_all conf go_up s0 = Some s1" "main_pc s1 = Going_up []" "running s1 = all_tasks"
    "\<not> to_sleep s1" "\<not> sending s1" "servo_ends s1 = {}" "tb s1 = Live_tb" "vars s1 adc_batt = fint 0"
    by (simp add: go_defs numeral_eq_Suc y s0_def app_start_def all_tasks_def adc_batt_def servo_a_target_def servo_b_target_def)
  have "app_reachable v a b conf s1"
    by (rule goes_up [OF reaches_station [OF assms] _ s1(1) [unfolded s0_def]]) simp
  from app_reachable.main [OF this main_step.is_up [OF s1(2)]]
  have up: "app_reachable v a b conf (s1\<lparr>main_pc := Awaiting\<rparr>)" .
  have "app_reachable v a b conf (s1\<lparr>main_pc := Going_down go_down\<rparr>)"
    using app_reachable.main [OF up main_step.critical] s1(8) zero_is_critical by simp
  then show ?thesis using s1(3-7) by (intro exI [of _ "s1\<lparr>main_pc := Going_down go_down\<rparr>"]) simp
qed


lemma go_down_parts: "go_down = Destroy_tb # Set_to_sleep # End_servo 0 # Join (Servo_task 0) # End_servo 1 # Join (Servo_task 1) #
    Join Battery_control # [Join Switch_callbacks, Join Misc_adc_read, Join Solar_task, Join Publish, Delete_solar, Destroy_tb, Enter_sleep]"
  by (simp add: go_defs)

text \<open>Joining a servo that has been told to end, once its thread has made its step.\<close>

lemma goes_down_servo:
  assumes "app_reachable v a b conf s" and "main_pc s = Going_down (End_servo i # Join (Servo_task i) # cs)" and "Servo_task i \<in> running s"
  shows "\<exists>s'. app_reachable v a b conf s' \<and> main_pc s' = Going_down cs \<and> running s' = running s - {Servo_task i}"
proof -
  have "app_reachable v a b conf (s\<lparr>servo_ends := insert i (servo_ends s), main_pc := Going_down (Join (Servo_task i) # cs)\<rparr>)"
    using app_reachable.main [OF assms(1) main_step.down [OF assms(2)]] by simp
  from app_reachable.task [OF this task_step.servo [of i]]
  have "app_reachable v a b conf (s\<lparr>servo_ends := insert i (servo_ends s),
      main_pc := Going_down (Join (Servo_task i) # cs), running := running s - {Servo_task i}\<rparr>)" using assms(3) by (simp add: step_defs)
  from app_reachable.main [OF this main_step.down [of _ "Join (Servo_task i)" cs]] show ?thesis by force
qed

lemma stuck_main:
  assumes "rtranclp (\<lambda>s s'. main_step v a b conf s s' \<or> task_step s s') s s'"
    and "app_inv s" and "ap_inv v s" and "main_pc s = Going_down (Join Battery_control # cs)"
  shows "main_pc s' = Going_down (Join Battery_control # cs) \<and> app_inv s' \<and> ap_inv v s'"
  using assms
proof (induction rule: rtranclp_induct)
  case (step y z)
  then have y: "main_pc y = Going_down (Join Battery_control # cs)" "app_inv y" "ap_inv v y" by auto
  then have "routes (file_server y) = []" by (auto simp: ap_inv_def)
  then have "\<not> main_step v a b conf y z" using y by (auto elim!: perform_step simp: app_inv_def split: if_splits)
  then have "task_step y z" using step by blast
  then show ?case using y task_step_inv task_step_keeps task_step_ap by metis
qed simp

text \<open>
  C35: The shutdown does hang: with a configuration the program can use, and with a battery that is
  critical (as it is before the first reading is stored), a run leads \<^verbatim>\<open>app_main\<close> to the call that
  joins the battery control, and whatever the threads do from there, it stays in that call.
\<close>

theorem critical_battery_hangs:
  assumes "usable_config ssid_size pass_size conf"
  shows "\<exists>s. app_reachable vfs_path_max ssid_size pass_size conf s \<and>
    (\<forall>s'. rtranclp (\<lambda>s s'. main_step vfs_path_max ssid_size pass_size conf s s' \<or> task_step s s') s s' \<longrightarrow>
      (\<exists>cs. main_pc s' = Going_down (Join Battery_control # cs) \<and> Enter_sleep \<in> set cs))"
proof -
  let ?R = "app_reachable vfs_path_max ssid_size pass_size conf"
  obtain s where s: "?R s" "main_pc s = Going_down go_down" "running s = all_tasks" "\<not> to_sleep s"
    using reaches_shutdown [OF assms] by blast
  define t where "t = s\<lparr>tb := Destroyed_tb, tb_fault := tb_fault s \<or> tb s \<noteq> Live_tb\<rparr>"
  note go = app_reachable.main [OF _ main_step.down]
  have "?R (t\<lparr>main_pc := Going_down (tl go_down)\<rparr>)"
    unfolding t_def using go [OF s(1), of Destroy_tb "tl go_down"] s(2) by (simp add: go_down_parts)
  from go [OF this, of Set_to_sleep "tl (tl go_down)"]
  have u: "?R (t\<lparr>to_sleep := True, main_pc := Going_down (tl (tl go_down))\<rparr>)"
    by (simp add: go_down_parts)
  have r: "running t = all_tasks" using s(3) by (simp add: t_def)
  obtain x where x: "?R x" "main_pc x = Going_down (tl (tl (tl (tl go_down))))" "running x = all_tasks - {Servo_task 0}"
    using goes_down_servo [OF u, of 0 "tl (tl (tl (tl go_down)))"] r by (auto simp: go_down_parts all_tasks_def)
  obtain z where "?R z" "main_pc z = Going_down (tl (tl (tl (tl (tl (tl go_down))))))"
    using goes_down_servo [OF x(1), of 1 "tl (tl (tl (tl (tl (tl go_down)))))"] x(2,3) by (auto simp: go_down_parts all_tasks_def)
  then show ?thesis
    using stuck_main app_reachable_inv app_reachable_ap by (intro exI [of _ z]) (fastforce simp: go_down_parts)
qed


text \<open>
  C37: The publisher can use the ThingsBoard object after its destructor has run: \<^verbatim>\<open>app_main\<close> calls the
  destructor before it sets \<^verbatim>\<open>to_sleep\<close>, and does not wait for the thread. No use goes wrong before.
\<close>

theorem publisher_uses_destroyed:
  assumes "usable_config ssid_size pass_size conf"
  shows "(\<exists>s. app_reachable vfs_path_max ssid_size pass_size conf s \<and> tb_fault s) \<and>
    (\<forall>s. app_reachable vfs_path_max ssid_size pass_size conf s \<longrightarrow> tb_fault s \<longrightarrow> tb s = Destroyed_tb)"
proof (intro conjI allI impI)
  let ?R = "app_reachable vfs_path_max ssid_size pass_size conf"
  obtain s where s: "?R s" "main_pc s = Going_down go_down" "running s = all_tasks" "\<not> to_sleep s" "\<not> sending s"
    using reaches_shutdown [OF assms] by blast
  define t where "t = s\<lparr>tb := Destroyed_tb, tb_fault := tb_fault s \<or> tb s \<noteq> Live_tb, main_pc := Going_down (tl go_down)\<rparr>"
  have "?R t" unfolding t_def
    using app_reachable.main [OF s(1) main_step.down, of Destroy_tb "tl go_down"] s(2) by (simp add: go_down_parts)
  moreover have "task_step t (t\<lparr>sending := True\<rparr>)" using task_step.publish [of t] s by (simp add: t_def all_tasks_def step_defs)
  ultimately have "?R (t\<lparr>sending := True\<rparr>)" by (rule app_reachable.task)
  from app_reachable.task [OF this task_step.publish] s(3)
  have "?R (publish_step (t\<lparr>sending := True\<rparr>))" by (simp add: t_def all_tasks_def)
  then show "\<exists>s. ?R s \<and> tb_fault s" by (intro exI [of _ "publish_step (t\<lparr>sending := True\<rparr>)"]) (simp add: t_def step_defs)
next
  fix s
  assume r: "app_reachable vfs_path_max ssid_size pass_size conf s" and f: "tb_fault s"
  from app_reachable_inv [OF r] f show "tb s = Destroyed_tb" by (auto simp: app_inv_def split: main_pc.splits)
qed

subsection \<open>Without a network\<close>

text \<open>An upload that restarts the program.\<close>

definition wifi_upload :: request where
  "wifi_upload = \<lparr>req_uri = ascii ''/upload/wifi.csv'', content_len = 4, req_body = ascii ''a ,b''\<rparr>"

definition quick_env :: env where
  "quick_env = good_env\<lparr>arrivals := [Arrive 4 True]\<rparr>"

lemma wifi_upload_restarts:
  "\<exists>sv'. upload_post_handler map_fs quick_env (FILE_PATH_MAX v) (ascii ''/data'') wifi_upload empty_server =
    Some (Done (ESP_OK, sv')) \<and> restarted sv'"
  by (simp add: upload_post_handler_def wifi_upload_def quick_env_def empty_server_def good_env_def get_path_path_of
      path_of_def ascii_def trailing_slash_def MAX_FILE_SIZE_def SCRATCH_BUFSIZE_def recv_loop.simps map_fs_def FILE_PATH_MAX_def
      CONFIG_SPIFFS_OBJ_NAME_LEN_def remove_old_def finish_upload_def scan_pair_def scan_word_def is_space_def
      answer_def emit_def Let_def)

lemma main_step_ap_closed:
  "main_step v a b conf s s' \<Longrightarrow> ap_inv v s \<Longrightarrow> main_pc s \<noteq> Connecting \<Longrightarrow> main_wifi_ok s = 0 \<Longrightarrow>
    main_pc s' \<noteq> Connecting \<and> main_wifi_ok s' = 0 \<or> s' = app_start \<and> routes (file_server s) \<noteq> []"
proof (induction rule: main_step.induct)
  case (restart s base env req sv e sv')
  then have "routes (file_server s) \<noteq> []" by auto
  then show ?case by simp
qed (simp_all add: ap_inv_def)


text \<open>The state after a failed connection, with the server started.\<close>

definition serving :: app where
  "serving = app_start\<lparr>main_pc := Ap_sleep, softaps := 1,
     file_server := snd (start_file_server 15 True True WORKING_PATH (file_server app_start))\<rparr>"

subsection \<open>Witnesses\<close>

lemma blank_usable: "usable_config 32 64 blank_config"
  by (simp add: usable_config_def init_json_sys_config_def blank_config_def blank_wifi_def cstr_def Let_def numeral_eq_Suc)

theorem shutdown_never_finishes_witness: "Battery_control \<in> running app_start \<and> sleeps app_start = 0"
  using shutdown_never_finishes [OF app_reachable.start [of 15 32 64 blank_config]] by simp

theorem critical_battery_hangs_witness:
  "\<exists>s. app_reachable 15 32 64 blank_config s \<and> (\<exists>cs. main_pc s = Going_down (Join Battery_control # cs))"
  using critical_battery_hangs [OF blank_usable, of 15] by blast

theorem publisher_uses_destroyed_witness: "\<exists>s. app_reachable 15 32 64 blank_config s \<and> tb_fault s"
  using publisher_uses_destroyed [OF blank_usable, of 15] by blast

lemma reaches_serving: "app_reachable 15 32 64 blank_config serving"
proof -
  have net: "rd (WIFI_list blank_config) 0 = Some blank_wifi" "length (cstr (ssid blank_wifi)) < 32"
    "length (cstr (passphrase blank_wifi)) < 64"
    by (simp_all add: blank_config_def blank_wifi_def cstr_def rd_def)
  obtain w es' where w: "init_wifi 32 64 blank_config (replicate 4 STA_DISCONNECTED) (wifi_start\<lparr>wifi_ok := Some (main_wifi_ok app_start)\<rparr>) =
      Some (Done (w, es'))" "wifi_ok w = Some 0"
    using wifi_init_sta_verdict [OF net(2,3), of "wifi_start\<lparr>wifi_ok := Some 0\<rparr>" 0 0 "replicate 4 STA_DISCONNECTED"] net(1)
    by (auto simp: wifi_start_def app_start_def init_wifi_def numeral_eq_Suc)
  have "app_reachable 15 32 64 blank_config (app_start\<lparr>main_pc := Main_loop, main_wifi_ok := 0\<rparr>)"
    by (rule app_reachable.main [OF app_reachable.start main_step.connected [OF _ w]]) (simp add: app_start_def)
  from app_reachable.main [OF this main_step.softap [of _ 15 True True]] show ?thesis
    by (cases "start_file_server 15 True True WORKING_PATH (file_server app_start)") (simp add: serving_def app_start_def)
qed


end
