(* ===== verification/Ssd1306.thy ===== *)
theory Ssd1306
  imports Base "HOL-Library.Signed_Division"
begin

text \<open>
  The driver of the display, \<^verbatim>\<open>components/ssd1306\<close>: the buffer of 8 pages with 128 bytes, a bit per
  pixel, and what is sent over I2C or SPI. A page number or a column outside the buffer is \<open>None\<close>,
  as are an overflow of \<^verbatim>\<open>int\<close> and a shift that C leaves undefined. The arrays of the structure
  have their C sizes (\<open>wf_oled\<close>); log messages and delays are left out.
\<close>

subsection \<open>The device\<close>

text \<open>What goes out: a transaction on I2C, or one byte or a block on SPI with the level of the
  pin that tells commands from data.\<close>

datatype bus_op = I2C "u8 list" | SPI_command u8 | SPI_data "u8 list"

record oled =
  oled_address :: int
  oled_width :: int
  oled_height :: int
  oled_pages :: int
  sc_enable :: bool
  sc_start :: int
  sc_end :: int
  sc_direction :: int
  oled_page :: "u8 list list"
  oled_flip :: bool
  bus :: "bus_op list"

definition I2CAddress :: int where "I2CAddress = 0x3C"
definition SPIAddress :: int where "SPIAddress = 0xFF"
definition CONFIG_OFFSETX :: int where "CONFIG_OFFSETX = 0"

definition OLED_CONTROL_BYTE_CMD_STREAM :: u8 where "OLED_CONTROL_BYTE_CMD_STREAM = 0x00"
definition OLED_CONTROL_BYTE_DATA_STREAM :: u8 where "OLED_CONTROL_BYTE_DATA_STREAM = 0x40"

datatype scroll_type = SCROLL_RIGHT | SCROLL_LEFT | SCROLL_DOWN | SCROLL_UP | SCROLL_STOP

subsection \<open>Rows and loops\<close>

text \<open>A \<^verbatim>\<open>for\<close> loop whose body may fail.\<close>

fun each :: "('a \<Rightarrow> 's \<Rightarrow> 's option) \<Rightarrow> 'a list \<Rightarrow> 's \<Rightarrow> 's option" where
  "each f [] s = Some s"
| "each f (x # xs) s = do { s' \<leftarrow> f x s; each f xs s' }"

text \<open>Arrays with an index of type \<^verbatim>\<open>int\<close>.\<close>

definition rdi :: "'a list \<Rightarrow> int \<Rightarrow> 'a option" where
  "rdi m i = (if i < 0 then None else rd m (nat i))"

definition wri :: "'a list \<Rightarrow> int \<Rightarrow> 'a list \<Rightarrow> 'a list option" where
  "wri m i bs = (if i < 0 then None else wr m (nat i) bs)"

text \<open>A value of type \<^verbatim>\<open>int\<close>.\<close>

definition i32 :: "int \<Rightarrow> int option" where
  "i32 i = (if - (2 ^ 31) \<le> i \<and> i < 2 ^ 31 then Some i else None)"

definition row :: "int \<Rightarrow> oled \<Rightarrow> u8 list option" where
  "row p d = rdi (oled_page d) p"

definition put_row :: "int \<Rightarrow> u8 list \<Rightarrow> oled \<Rightarrow> oled option" where
  "put_row p r d = map_option (\<lambda>ps. d\<lparr>oled_page := ps\<rparr>) (wri (oled_page d) p [r])"

definition cell :: "int \<Rightarrow> int \<Rightarrow> oled \<Rightarrow> u8 option" where
  "cell p s d = do { r \<leftarrow> row p d; rdi r s }"

text \<open>\<^verbatim>\<open>memcpy\<close> into a page, also for one byte.\<close>

definition copy_in :: "int \<Rightarrow> int \<Rightarrow> u8 list \<Rightarrow> oled \<Rightarrow> oled option" where
  "copy_in p s bs d = do { r \<leftarrow> row p d; r' \<leftarrow> wri r s bs; put_row p r' d }"

definition send_bus :: "bus_op list \<Rightarrow> oled \<Rightarrow> oled" where
  "send_bus xs d = d\<lparr>bus := bus d @ xs\<rparr>"

text \<open>The first \<open>n\<close> bytes of an object, for a length that is converted to \<^verbatim>\<open>size_t\<close>.\<close>

definition bytes_of :: "u8 list \<Rightarrow> int \<Rightarrow> u8 list option" where
  "bytes_of bs n = (if n < 0 \<or> int (length bs) < n then None else Some (take (nat n) bs))"

subsection \<open>I2C\<close>

definition i2c_command :: "u8 list \<Rightarrow> oled \<Rightarrow> bus_op" where
  "i2c_command cs d = I2C (word_of_int (2 * oled_address d) # OLED_CONTROL_BYTE_CMD_STREAM # cs)"

text \<open>The part of \<^verbatim>\<open>i2c_master_init\<close> that the driver remembers.\<close>

definition i2c_master_init :: "oled \<Rightarrow> oled" where
  "i2c_master_init d = d\<lparr>oled_address := I2CAddress, oled_flip := False\<rparr>"

definition i2c_init :: "int \<Rightarrow> int \<Rightarrow> oled \<Rightarrow> oled" where
  "i2c_init width height d0 = (let d = d0\<lparr>oled_width := width, oled_height := height,
       oled_pages := (if height = 32 then 4 else 8)\<rparr> in
     send_bus [i2c_command ([0xae, 0xa8] @
       (if oled_height d = 64 then [0x3f] else []) @
       (if oled_height d = 32 then [0x1f] else []) @
       [0xd3, 0x00, 0x40, if oled_flip d then 0xa0 else 0xa1, 0xc8, 0xd5, 0x80, 0xda] @
       (if oled_height d = 64 then [0x12] else []) @
       (if oled_height d = 32 then [0x02] else []) @
       [0x81, 0xff, 0xa4, 0xdb, 0x40, 0x20, 0x02, 0x00, 0x10, 0x8d, 0x14, 0x2e, 0xa6, 0xaf]) d] d)"

definition i2c_display_image :: "int \<Rightarrow> int \<Rightarrow> u8 list \<Rightarrow> int \<Rightarrow> oled \<Rightarrow> oled option" where
  "i2c_display_image page seg images width d =
     (if oled_pages d \<le> page then Some d
      else if oled_width d \<le> seg then Some d
      else let col = seg + CONFIG_OFFSETX;
        columLow = word_of_int (col AND 0x0F);
        columHigh = word_of_int (drop_bit 4 col AND 0x0F);
        pg = (if oled_flip d then oled_pages d - page - 1 else page) in
      do { bs \<leftarrow> bytes_of images width;
        Some (send_bus [i2c_command [columLow, 0x10 + columHigh, 0xB0 OR word_of_int pg] d,
          I2C (word_of_int (2 * oled_address d) # OLED_CONTROL_BYTE_DATA_STREAM # bs)] d) })"

definition i2c_contrast :: "int \<Rightarrow> oled \<Rightarrow> oled" where
  "i2c_contrast contrast d = (let c = (if contrast < 0 then 0 else contrast);
       c = (if 0xFF < contrast then 0xFF else c) in
     send_bus [i2c_command [0x81, word_of_int c] d] d)"

definition i2c_hardware_scroll :: "scroll_type \<Rightarrow> oled \<Rightarrow> oled" where
  "i2c_hardware_scroll scroll d = send_bus [i2c_command
     ((if scroll = SCROLL_RIGHT then [0x26, 0x00, 0x00, 0x07, 0x07, 0x00, 0xff, 0x2f] else []) @
      (if scroll = SCROLL_LEFT then [0x27, 0x00, 0x00, 0x07, 0x07, 0x00, 0xff, 0x2f] else []) @
      (if scroll = SCROLL_DOWN then [0x29, 0x00, 0x00, 0x07, 0x00, 0x3f, 0xa3, 0x00] @
         (if oled_height d = 64 then [0x40] else []) @ (if oled_height d = 32 then [0x20] else []) @ [0x2f] else []) @
      (if scroll = SCROLL_UP then [0x29, 0x00, 0x00, 0x07, 0x00, 0x01, 0xa3, 0x00] @
         (if oled_height d = 64 then [0x40] else []) @ (if oled_height d = 32 then [0x20] else []) @ [0x2f] else []) @
      (if scroll = SCROLL_STOP then [0x2e] else [])) d] d"

subsection \<open>SPI\<close>

definition spi_master_write_command :: "u8 \<Rightarrow> oled \<Rightarrow> oled" where
  "spi_master_write_command c d = send_bus [SPI_command c] d"

text \<open>A block of length 0 is not transmitted.\<close>

definition spi_master_write_data :: "u8 list \<Rightarrow> oled \<Rightarrow> oled" where
  "spi_master_write_data bs d = (if length bs > 0 then send_bus [SPI_data bs] d else d)"

definition spi_commands :: "u8 list \<Rightarrow> oled \<Rightarrow> oled" where
  "spi_commands cs d = foldl (\<lambda>d c. spi_master_write_command c d) d cs"

definition spi_master_init :: "oled \<Rightarrow> oled" where
  "spi_master_init d = d\<lparr>oled_address := SPIAddress, oled_flip := False\<rparr>"

definition spi_init :: "int \<Rightarrow> int \<Rightarrow> oled \<Rightarrow> oled" where
  "spi_init width height d0 = (let d = d0\<lparr>oled_width := width, oled_height := height,
       oled_pages := (if height = 32 then 4 else 8)\<rparr>;
     d = spi_commands [0xae, 0xa8] d;
     d = (if oled_height d = 64 then spi_master_write_command 0x3f d else d);
     d = (if oled_height d = 32 then spi_master_write_command 0x1f d else d);
     d = spi_commands [0xd3, 0x00, 0x40] d;
     d = (if oled_flip d then spi_master_write_command 0xa0 d else spi_master_write_command 0xa1 d);
     d = spi_commands [0xc8, 0xd5, 0x80, 0xda] d;
     d = (if oled_height d = 64 then spi_master_write_command 0x12 d else d);
     d = (if oled_height d = 32 then spi_master_write_command 0x02 d else d) in
     spi_commands [0x81, 0xff, 0xa4, 0xdb, 0x40, 0x20, 0x02, 0x00, 0x10, 0x8d, 0x14, 0x2e, 0xa6, 0xaf] d)"

definition spi_display_image :: "int \<Rightarrow> int \<Rightarrow> u8 list \<Rightarrow> int \<Rightarrow> oled \<Rightarrow> oled option" where
  "spi_display_image page seg images width d =
     (if oled_pages d \<le> page then Some d
      else if oled_width d \<le> seg then Some d
      else let col = seg + CONFIG_OFFSETX;
        columLow = word_of_int (col AND 0x0F);
        columHigh = word_of_int (drop_bit 4 col AND 0x0F);
        pg = (if oled_flip d then oled_pages d - page - 1 else page);
        d1 = spi_master_write_command columLow d;
        d2 = spi_master_write_command (0x10 + columHigh) d1;
        d3 = spi_master_write_command (0xB0 OR word_of_int pg) d2 in
      do { bs \<leftarrow> bytes_of images width; Some (spi_master_write_data bs d3) })"

definition spi_contrast :: "int \<Rightarrow> oled \<Rightarrow> oled" where
  "spi_contrast contrast d = (let c = (if contrast < 0 then 0 else contrast);
       c = (if 0xFF < contrast then 0xFF else c) in
     spi_master_write_command (word_of_int c) (spi_master_write_command 0x81 d))"

definition spi_hardware_scroll :: "scroll_type \<Rightarrow> oled \<Rightarrow> oled" where
  "spi_hardware_scroll scroll d =
     (let horizontal = (\<lambda>c d. spi_commands [c, 0x00, 0x00, 0x07, 0x07, 0x00, 0xff, 0x2f] d);
        vertical = (\<lambda>c d. let d = spi_commands [0x29, 0x00, 0x00, 0x07, 0x00, c, 0xa3, 0x00] d;
          d = (if oled_height d = 64 then spi_master_write_command 0x40 d else d);
          d = (if oled_height d = 32 then spi_master_write_command 0x20 d else d) in spi_master_write_command 0x2f d);
        d = (if scroll = SCROLL_RIGHT then horizontal 0x26 d else d);
        d = (if scroll = SCROLL_LEFT then horizontal 0x27 d else d);
        d = (if scroll = SCROLL_DOWN then vertical 0x3f d else d);
        d = (if scroll = SCROLL_UP then vertical 0x01 d else d) in
      if scroll = SCROLL_STOP then spi_master_write_command 0x2e d else d)"

subsection \<open>The font\<close>

definition font8x8_basic_tr :: "u8 list list" where
  "font8x8_basic_tr = [
    [0, 0, 0, 0, 0, 0, 0, 0], [0, 0x04, 0x02, 0xff, 0x02, 0x04, 0, 0],
    [0, 0x20, 0x40, 0xff, 0x40, 0x20, 0, 0], [0, 0, 0, 0, 0, 0, 0, 0],
    [0, 0, 0, 0, 0, 0, 0, 0], [0, 0, 0, 0, 0, 0, 0, 0],
    [0, 0, 0, 0, 0, 0, 0, 0], [0, 0, 0, 0, 0, 0, 0, 0],
    [0, 0, 0, 0, 0, 0, 0, 0], [0, 0, 0, 0, 0, 0, 0, 0],
    [0, 0, 0, 0, 0, 0, 0, 0], [0, 0, 0, 0, 0, 0, 0, 0],
    [0, 0, 0, 0, 0, 0, 0, 0], [0, 0, 0, 0, 0, 0, 0, 0],
    [0, 0, 0, 0, 0, 0, 0, 0], [0, 0, 0, 0, 0, 0, 0, 0],
    [0, 0, 0, 0, 0, 0, 0, 0], [0, 0, 0, 0, 0, 0, 0, 0],
    [0, 0, 0, 0, 0, 0, 0, 0], [0, 0, 0, 0, 0, 0, 0, 0],
    [0, 0, 0, 0, 0, 0, 0, 0], [0, 0, 0, 0, 0, 0, 0, 0],
    [0, 0, 0, 0, 0, 0, 0, 0], [0, 0, 0, 0, 0, 0, 0, 0],
    [0, 0, 0, 0, 0, 0, 0, 0], [0, 0, 0, 0, 0, 0, 0, 0],
    [0, 0, 0, 0, 0, 0, 0, 0], [0, 0, 0, 0, 0, 0, 0, 0],
    [0, 0, 0, 0, 0, 0, 0, 0], [0, 0, 0, 0, 0, 0, 0, 0],
    [0, 0, 0, 0, 0, 0, 0, 0], [0, 0, 0, 0, 0, 0, 0, 0],
    [0, 0, 0, 0, 0, 0, 0, 0], [0, 0, 0x06, 0x5f, 0x5f, 0x06, 0, 0],
    [0, 0x03, 0x03, 0, 0x03, 0x03, 0, 0], [0x14, 0x7f, 0x7f, 0x14, 0x7f, 0x7f, 0x14, 0],
    [0x24, 0x2e, 0x6b, 0x6b, 0x3a, 0x12, 0, 0], [0x46, 0x66, 0x30, 0x18, 0x0c, 0x66, 0x62, 0],
    [0x30, 0x7a, 0x4f, 0x5d, 0x37, 0x7a, 0x48, 0], [0x04, 0x07, 0x03, 0, 0, 0, 0, 0],
    [0, 0x1c, 0x3e, 0x63, 0x41, 0, 0, 0], [0, 0x41, 0x63, 0x3e, 0x1c, 0, 0, 0],
    [0x08, 0x2a, 0x3e, 0x1c, 0x1c, 0x3e, 0x2a, 0x08], [0x08, 0x08, 0x3e, 0x3e, 0x08, 0x08, 0, 0],
    [0, 0x80, 0xe0, 0x60, 0, 0, 0, 0], [0x08, 0x08, 0x08, 0x08, 0x08, 0x08, 0, 0],
    [0, 0, 0x60, 0x60, 0, 0, 0, 0], [0x60, 0x30, 0x18, 0x0c, 0x06, 0x03, 0x01, 0],
    [0x3e, 0x7f, 0x71, 0x59, 0x4d, 0x7f, 0x3e, 0], [0x40, 0x42, 0x7f, 0x7f, 0x40, 0x40, 0, 0],
    [0x62, 0x73, 0x59, 0x49, 0x6f, 0x66, 0, 0], [0x22, 0x63, 0x49, 0x49, 0x7f, 0x36, 0, 0],
    [0x18, 0x1c, 0x16, 0x53, 0x7f, 0x7f, 0x50, 0], [0x27, 0x67, 0x45, 0x45, 0x7d, 0x39, 0, 0],
    [0x3c, 0x7e, 0x4b, 0x49, 0x79, 0x30, 0, 0], [0x03, 0x03, 0x71, 0x79, 0x0f, 0x07, 0, 0],
    [0x36, 0x7f, 0x49, 0x49, 0x7f, 0x36, 0, 0], [0x06, 0x4f, 0x49, 0x69, 0x3f, 0x1e, 0, 0],
    [0, 0, 0x66, 0x66, 0, 0, 0, 0], [0, 0x80, 0xe6, 0x66, 0, 0, 0, 0],
    [0x08, 0x1c, 0x36, 0x63, 0x41, 0, 0, 0], [0x24, 0x24, 0x24, 0x24, 0x24, 0x24, 0, 0],
    [0, 0x41, 0x63, 0x36, 0x1c, 0x08, 0, 0], [0x02, 0x03, 0x51, 0x59, 0x0f, 0x06, 0, 0],
    [0x3e, 0x7f, 0x41, 0x5d, 0x5d, 0x1f, 0x1e, 0], [0x7c, 0x7e, 0x13, 0x13, 0x7e, 0x7c, 0, 0],
    [0x41, 0x7f, 0x7f, 0x49, 0x49, 0x7f, 0x36, 0], [0x1c, 0x3e, 0x63, 0x41, 0x41, 0x63, 0x22, 0],
    [0x41, 0x7f, 0x7f, 0x41, 0x63, 0x3e, 0x1c, 0], [0x41, 0x7f, 0x7f, 0x49, 0x5d, 0x41, 0x63, 0],
    [0x41, 0x7f, 0x7f, 0x49, 0x1d, 0x01, 0x03, 0], [0x1c, 0x3e, 0x63, 0x41, 0x51, 0x73, 0x72, 0],
    [0x7f, 0x7f, 0x08, 0x08, 0x7f, 0x7f, 0, 0], [0, 0x41, 0x7f, 0x7f, 0x41, 0, 0, 0],
    [0x30, 0x70, 0x40, 0x41, 0x7f, 0x3f, 0x01, 0], [0x41, 0x7f, 0x7f, 0x08, 0x1c, 0x77, 0x63, 0],
    [0x41, 0x7f, 0x7f, 0x41, 0x40, 0x60, 0x70, 0], [0x7f, 0x7f, 0x0e, 0x1c, 0x0e, 0x7f, 0x7f, 0],
    [0x7f, 0x7f, 0x06, 0x0c, 0x18, 0x7f, 0x7f, 0], [0x1c, 0x3e, 0x63, 0x41, 0x63, 0x3e, 0x1c, 0],
    [0x41, 0x7f, 0x7f, 0x49, 0x09, 0x0f, 0x06, 0], [0x1e, 0x3f, 0x21, 0x71, 0x7f, 0x5e, 0, 0],
    [0x41, 0x7f, 0x7f, 0x09, 0x19, 0x7f, 0x66, 0], [0x26, 0x6f, 0x4d, 0x59, 0x73, 0x32, 0, 0],
    [0x03, 0x41, 0x7f, 0x7f, 0x41, 0x03, 0, 0], [0x7f, 0x7f, 0x40, 0x40, 0x7f, 0x7f, 0, 0],
    [0x1f, 0x3f, 0x60, 0x60, 0x3f, 0x1f, 0, 0], [0x7f, 0x7f, 0x30, 0x18, 0x30, 0x7f, 0x7f, 0],
    [0x43, 0x67, 0x3c, 0x18, 0x3c, 0x67, 0x43, 0], [0x07, 0x4f, 0x78, 0x78, 0x4f, 0x07, 0, 0],
    [0x47, 0x63, 0x71, 0x59, 0x4d, 0x67, 0x73, 0], [0, 0x7f, 0x7f, 0x41, 0x41, 0, 0, 0],
    [0x01, 0x03, 0x06, 0x0c, 0x18, 0x30, 0x60, 0], [0, 0x41, 0x41, 0x7f, 0x7f, 0, 0, 0],
    [0x08, 0x0c, 0x06, 0x03, 0x06, 0x0c, 0x08, 0], [0x80, 0x80, 0x80, 0x80, 0x80, 0x80, 0x80, 0x80],
    [0, 0, 0x03, 0x07, 0x04, 0, 0, 0], [0x20, 0x74, 0x54, 0x54, 0x3c, 0x78, 0x40, 0],
    [0x41, 0x7f, 0x3f, 0x48, 0x48, 0x78, 0x30, 0], [0x38, 0x7c, 0x44, 0x44, 0x6c, 0x28, 0, 0],
    [0x30, 0x78, 0x48, 0x49, 0x3f, 0x7f, 0x40, 0], [0x38, 0x7c, 0x54, 0x54, 0x5c, 0x18, 0, 0],
    [0x48, 0x7e, 0x7f, 0x49, 0x03, 0x02, 0, 0], [0x98, 0xbc, 0xa4, 0xa4, 0xf8, 0x7c, 0x04, 0],
    [0x41, 0x7f, 0x7f, 0x08, 0x04, 0x7c, 0x78, 0], [0, 0x44, 0x7d, 0x7d, 0x40, 0, 0, 0],
    [0x60, 0xe0, 0x80, 0x80, 0xfd, 0x7d, 0, 0], [0x41, 0x7f, 0x7f, 0x10, 0x38, 0x6c, 0x44, 0],
    [0, 0x41, 0x7f, 0x7f, 0x40, 0, 0, 0], [0x7c, 0x7c, 0x18, 0x38, 0x1c, 0x7c, 0x78, 0],
    [0x7c, 0x7c, 0x04, 0x04, 0x7c, 0x78, 0, 0], [0x38, 0x7c, 0x44, 0x44, 0x7c, 0x38, 0, 0],
    [0x84, 0xfc, 0xf8, 0xa4, 0x24, 0x3c, 0x18, 0], [0x18, 0x3c, 0x24, 0xa4, 0xf8, 0xfc, 0x84, 0],
    [0x44, 0x7c, 0x78, 0x4c, 0x04, 0x1c, 0x18, 0], [0x48, 0x5c, 0x54, 0x54, 0x74, 0x24, 0, 0],
    [0, 0x04, 0x3e, 0x7f, 0x44, 0x24, 0, 0], [0x3c, 0x7c, 0x40, 0x40, 0x3c, 0x7c, 0x40, 0],
    [0x1c, 0x3c, 0x60, 0x60, 0x3c, 0x1c, 0, 0], [0x3c, 0x7c, 0x70, 0x38, 0x70, 0x7c, 0x3c, 0],
    [0x44, 0x6c, 0x38, 0x10, 0x38, 0x6c, 0x44, 0], [0x9c, 0xbc, 0xa0, 0xa0, 0xfc, 0x7c, 0, 0],
    [0x4c, 0x64, 0x74, 0x5c, 0x4c, 0x64, 0, 0], [0x08, 0x08, 0x3e, 0x77, 0x41, 0x41, 0, 0],
    [0x7f, 0x7f, 0x7f, 0x7f, 0x7f, 0x7f, 0x7f, 0], [0x41, 0x41, 0x77, 0x3e, 0x08, 0x08, 0, 0],
    [0x02, 0x03, 0x01, 0x03, 0x02, 0x03, 0x01, 0], [0, 0, 0, 0, 0, 0, 0, 0]]"

subsection \<open>Bytes\<close>

text \<open>Eight rounds that move the lowest bit of \<open>ch1\<close> into \<open>ch2\<close>.\<close>

definition ssd1306_rotate_byte :: "u8 \<Rightarrow> u8" where
  "ssd1306_rotate_byte ch1 =
     fst (((\<lambda>(ch2, ch1). (push_bit 1 ch2 + (ch1 AND 1), drop_bit 1 ch1)) ^^ 8) (0, ch1))"

definition ssd1306_invert :: "u8 list \<Rightarrow> u8 list" where
  "ssd1306_invert buf = map (\<lambda>wk. NOT wk) buf"

definition ssd1306_flip :: "u8 list \<Rightarrow> u8 list" where
  "ssd1306_flip buf = map ssd1306_rotate_byte buf"

text \<open>\<^verbatim>\<open>0x01 << k\<close> in \<^verbatim>\<open>int\<close>, cut to 8 bits.\<close>

definition bit_mask :: "int \<Rightarrow> u8 option" where
  "bit_mask k = (if 0 \<le> k \<and> k < 31 then Some (push_bit (nat k) 1) else None)"

definition ssd1306_copy_bit :: "u8 \<Rightarrow> int \<Rightarrow> u8 \<Rightarrow> int \<Rightarrow> u8 option" where
  "ssd1306_copy_bit src srcBits dst dstBits = do {
     smask \<leftarrow> bit_mask srcBits;
     dmask \<leftarrow> bit_mask dstBits;
     Some (if src AND smask \<noteq> 0 then dst OR dmask else dst AND NOT dmask) }"

subsection \<open>Images and text\<close>

definition drive :: "int \<Rightarrow> int \<Rightarrow> u8 list \<Rightarrow> int \<Rightarrow> oled \<Rightarrow> oled option" where
  "drive page seg images width d = (if oled_address d = SPIAddress
     then spi_display_image page seg images width d else i2c_display_image page seg images width d)"

definition ssd1306_init :: "int \<Rightarrow> int \<Rightarrow> oled \<Rightarrow> oled option" where
  "ssd1306_init width height d0 = (let d = (if oled_address d0 = SPIAddress
       then spi_init width height d0 else i2c_init width height d0) in
     each (\<lambda>i. put_row i (replicate 128 0)) [0..oled_pages d - 1] d)"

definition ssd1306_get_width :: "oled \<Rightarrow> int" where "ssd1306_get_width d = oled_width d"
definition ssd1306_get_height :: "oled \<Rightarrow> int" where "ssd1306_get_height d = oled_height d"
definition ssd1306_get_pages :: "oled \<Rightarrow> int" where "ssd1306_get_pages d = oled_pages d"

definition ssd1306_show_buffer :: "oled \<Rightarrow> oled option" where
  "ssd1306_show_buffer d = each (\<lambda>page d. do { r \<leftarrow> row page d; drive page 0 r (oled_width d) d })
     [0..oled_pages d - 1] d"

definition ssd1306_set_buffer :: "u8 list \<Rightarrow> oled \<Rightarrow> oled option" where
  "ssd1306_set_buffer buffer d = map_option snd (each (\<lambda>page (index, d). do {
       bs \<leftarrow> bytes_of (drop (nat index) buffer) 128;
       d' \<leftarrow> copy_in page 0 bs d;
       Some (index + 128, d') }) [0..oled_pages d - 1] (0 :: int, d))"

definition ssd1306_get_buffer :: "oled \<Rightarrow> u8 list \<Rightarrow> u8 list option" where
  "ssd1306_get_buffer d buffer = map_option snd (each (\<lambda>page (index, buf). do {
       r \<leftarrow> row page d;
       buf' \<leftarrow> wri buf index r;
       Some (index + 128, buf') }) [0..oled_pages d - 1] (0 :: int, buffer))"

definition ssd1306_display_image :: "int \<Rightarrow> int \<Rightarrow> u8 list \<Rightarrow> int \<Rightarrow> oled \<Rightarrow> oled option" where
  "ssd1306_display_image page seg images width d = do {
     d' \<leftarrow> drive page seg images width d;
     bs \<leftarrow> bytes_of images width;
     copy_in page seg bs d' }"

text \<open>\<^verbatim>\<open>invert\<close> and \<^verbatim>\<open>_flip\<close> of an image.\<close>

definition image_bytes :: "bool \<Rightarrow> bool \<Rightarrow> u8 list \<Rightarrow> u8 list" where
  "image_bytes invert flp img = (let img = (if invert then ssd1306_invert img else img) in
     if flp then ssd1306_flip img else img)"

text \<open>The glyph of a character; the table has the 128 characters of ASCII.\<close>

definition glyph :: "u8 list \<Rightarrow> int \<Rightarrow> u8 list option" where
  "glyph txt i = do { c \<leftarrow> rdi txt i; rd font8x8_basic_tr (unat c) }"

definition ssd1306_display_text :: "int \<Rightarrow> u8 list \<Rightarrow> int \<Rightarrow> bool \<Rightarrow> oled \<Rightarrow> oled option" where
  "ssd1306_display_text page txt text_len invert d =
     (if oled_pages d \<le> page then Some d
      else map_option snd (each (\<lambda>i (seg :: u8, d). do {
        img \<leftarrow> glyph txt i;
        d' \<leftarrow> ssd1306_display_image page (uint seg) (image_bytes invert (oled_flip d) img) 8 d;
        Some (seg + 8, d') }) [0..min text_len 16 - 1] (0, d)))"

text \<open>A column of a character, \<open>k\<close> times as high: bit \<open>y\<close> sets \<open>k\<close> bits from \<open>k * y\<close>.\<close>

definition stretch :: "nat \<Rightarrow> u8 \<Rightarrow> u32" where
  "stretch k in_column = fst (foldl (\<lambda>(out, in_mask, out_mask) (yy :: nat).
       (if in_column AND in_mask \<noteq> 0 then out OR out_mask else out, push_bit 1 in_mask, push_bit k out_mask))
     (0, 1 :: u8, mask k) [0..<8])"

text \<open>The image of the \<open>yy\<close>-th page of an enlarged character: every column \<open>k\<close> times.\<close>

definition wide_image :: "nat \<Rightarrow> u8 list \<Rightarrow> nat \<Rightarrow> u8 list" where
  "wide_image k in_columns yy =
     concat (map (\<lambda>c. replicate k (ucast (drop_bit (8 * yy) (stretch k c)))) in_columns)"

definition big_text :: "nat \<Rightarrow> int \<Rightarrow> int \<Rightarrow> u8 list \<Rightarrow> int \<Rightarrow> bool \<Rightarrow> oled \<Rightarrow> oled option" where
  "big_text k max_len page txt text_len invert d =
     (if oled_pages d \<le> page then Some d
      else map_option snd (each (\<lambda>nn (seg :: u8, d). do {
        in_columns \<leftarrow> glyph txt nn;
        d' \<leftarrow> each (\<lambda>yy d. do {
            let img = image_bytes invert (oled_flip d) (wide_image k in_columns (nat yy));
            d1 \<leftarrow> drive (page + yy) (uint seg) img (8 * int k) d;
            copy_in (page + yy) (uint seg) img d1 }) [0..int k - 1] d;
        Some (seg + 8 * of_nat k, d') }) [0..min text_len max_len - 1] (0, d)))"

definition ssd1306_display_text_x3 :: "int \<Rightarrow> u8 list \<Rightarrow> int \<Rightarrow> bool \<Rightarrow> oled \<Rightarrow> oled option" where
  "ssd1306_display_text_x3 = big_text 3 5"

definition ssd1306_clear_line :: "int \<Rightarrow> bool \<Rightarrow> oled \<Rightarrow> oled option" where
  "ssd1306_clear_line page invert d = ssd1306_display_text page (replicate 16 0) 16 invert d"

definition ssd1306_clear_screen :: "bool \<Rightarrow> oled \<Rightarrow> oled option" where
  "ssd1306_clear_screen invert d =
     each (\<lambda>page. ssd1306_display_text page (replicate 16 0) 16 invert) [0..oled_pages d - 1] d"

definition ssd1306_contrast :: "int \<Rightarrow> oled \<Rightarrow> oled" where
  "ssd1306_contrast contrast d = (if oled_address d = SPIAddress
     then spi_contrast contrast d else i2c_contrast contrast d)"

definition ssd1306_hardware_scroll :: "scroll_type \<Rightarrow> oled \<Rightarrow> oled" where
  "ssd1306_hardware_scroll scroll d = (if oled_address d = SPIAddress
     then spi_hardware_scroll scroll d else i2c_hardware_scroll scroll d)"

subsection \<open>Scrolling\<close>

definition ssd1306_software_scroll :: "int \<Rightarrow> int \<Rightarrow> oled \<Rightarrow> oled" where
  "ssd1306_software_scroll start end' d =
     (if start < 0 \<or> end' < 0 then d\<lparr>sc_enable := False\<rparr>
      else if oled_pages d \<le> start \<or> oled_pages d \<le> end' then d\<lparr>sc_enable := False\<rparr>
      else d\<lparr>sc_enable := True, sc_start := start, sc_end := end',
        sc_direction := (if end' < start then -1 else 1)\<rparr>)"

text \<open>The loop moves every page one on, from the last; it returns the index where it stopped.\<close>

partial_function (option) scroll_pages :: "int \<Rightarrow> oled \<Rightarrow> (int \<times> oled) option" where
  "scroll_pages srcIndex d = do {
     let dstIndex = srcIndex + sc_direction d;
     d1 \<leftarrow> each (\<lambda>seg d. do { b \<leftarrow> cell srcIndex seg d; copy_in dstIndex seg [b] d }) [0..oled_width d - 1] d;
     r \<leftarrow> row dstIndex d1;
     d2 \<leftarrow> drive dstIndex 0 r 128 d1;
     if srcIndex = sc_start d2 then Some (srcIndex, d2)
     else scroll_pages (srcIndex - sc_direction d2) d2 }"

definition ssd1306_scroll_text :: "u8 list \<Rightarrow> int \<Rightarrow> bool \<Rightarrow> oled \<Rightarrow> oled option" where
  "ssd1306_scroll_text txt text_len invert d = (if \<not> sc_enable d then Some d else do {
     (srcIndex, d') \<leftarrow> scroll_pages (sc_end d - sc_direction d) d;
     ssd1306_display_text srcIndex txt text_len invert d' })"

partial_function (option) clear_pages :: "int \<Rightarrow> oled \<Rightarrow> oled option" where
  "clear_pages srcIndex d = do {
     let dstIndex = srcIndex + sc_direction d;
     d1 \<leftarrow> ssd1306_clear_line dstIndex False d;
     if dstIndex = sc_start d1 then Some d1 else clear_pages (srcIndex - sc_direction d1) d1 }"

definition ssd1306_scroll_clear :: "oled \<Rightarrow> oled option" where
  "ssd1306_scroll_clear d = (if \<not> sc_enable d then Some d else clear_pages (sc_end d - sc_direction d) d)"

subsection \<open>Wrapping around\<close>

text \<open>The loops over the 128 bytes of a page.\<close>

definition wrap_right_row :: "u8 list \<Rightarrow> u8 list" where
  "wrap_right_row segs = (let wk = segs ! 127;
     segs = foldl (\<lambda>s seg. s[seg := s ! (seg - 1)]) segs (rev [1..<128]) in segs[0 := wk])"

definition wrap_left_row :: "u8 list \<Rightarrow> u8 list" where
  "wrap_left_row segs = (let wk = segs ! 0;
     segs = foldl (\<lambda>s seg. s[seg := s ! (seg + 1)]) segs [0..<127] in segs[127 := wk])"

text \<open>A byte that takes in a bit of its neighbour.\<close>

definition up_byte :: "bool \<Rightarrow> u8 \<Rightarrow> u8 \<Rightarrow> u8" where
  "up_byte flp wk0 wk1 = (let wk0 = (if flp then ssd1306_rotate_byte wk0 else wk0);
     wk1 = (if flp then ssd1306_rotate_byte wk1 else wk1);
     wk2 = drop_bit 1 wk0 OR push_bit 7 (wk1 AND 0x01) in
     if flp then ssd1306_rotate_byte wk2 else wk2)"

definition down_byte :: "bool \<Rightarrow> u8 \<Rightarrow> u8 \<Rightarrow> u8" where
  "down_byte flp wk0 wk1 = (let wk0 = (if flp then ssd1306_rotate_byte wk0 else wk0);
     wk1 = (if flp then ssd1306_rotate_byte wk1 else wk1);
     wk2 = push_bit 1 wk0 OR drop_bit 7 (wk1 AND 0x80) in
     if flp then ssd1306_rotate_byte wk2 else wk2)"

definition wrap_rows :: "(u8 list \<Rightarrow> u8 list) \<Rightarrow> int \<Rightarrow> int \<Rightarrow> oled \<Rightarrow> oled option" where
  "wrap_rows f start end' d = each (\<lambda>page d. do { r \<leftarrow> row page d; put_row page (f r) d })
     [start..(if oled_pages d \<le> end' then oled_pages d - 1 else end')] d"

definition wrap_up :: "int \<Rightarrow> int \<Rightarrow> oled \<Rightarrow> oled option" where
  "wrap_up start end' d = do {
     let segs = [start..(if oled_width d \<le> end' then oled_width d - 1 else end')];
     save \<leftarrow> row 0 d;
     d1 \<leftarrow> each (\<lambda>page. each (\<lambda>seg d. do {
         wk0 \<leftarrow> cell page seg d;
         wk1 \<leftarrow> cell (page + 1) seg d;
         copy_in page seg [up_byte (oled_flip d) wk0 wk1] d }) segs) [0..oled_pages d - 2] d;
     let pages = oled_pages d - 1;
     each (\<lambda>seg d. do {
         wk0 \<leftarrow> cell pages seg d;
         wk1 \<leftarrow> rdi save seg;
         copy_in pages seg [up_byte (oled_flip d) wk0 wk1] d }) segs d1 }"

definition wrap_down :: "int \<Rightarrow> int \<Rightarrow> oled \<Rightarrow> oled option" where
  "wrap_down start end' d = do {
     let segs = [start..(if oled_width d \<le> end' then oled_width d - 1 else end')];
     let pages = oled_pages d - 1;
     save \<leftarrow> row pages d;
     d1 \<leftarrow> each (\<lambda>page. each (\<lambda>seg d. do {
         wk0 \<leftarrow> cell page seg d;
         wk1 \<leftarrow> cell (page - 1) seg d;
         copy_in page seg [down_byte (oled_flip d) wk0 wk1] d }) segs) (rev [1..pages]) d;
     each (\<lambda>seg d. do {
         wk0 \<leftarrow> cell 0 seg d;
         wk1 \<leftarrow> rdi save seg;
         copy_in 0 seg [down_byte (oled_flip d) wk0 wk1] d }) segs d1 }"

definition ssd1306_wrap_arround :: "scroll_type \<Rightarrow> int \<Rightarrow> int \<Rightarrow> int \<Rightarrow> oled \<Rightarrow> oled option" where
  "ssd1306_wrap_arround scroll start end' delay d = do {
     d1 \<leftarrow> (case scroll of
         SCROLL_RIGHT \<Rightarrow> wrap_rows wrap_right_row start end' d
       | SCROLL_LEFT \<Rightarrow> wrap_rows wrap_left_row start end' d
       | SCROLL_UP \<Rightarrow> wrap_up start end' d
       | SCROLL_DOWN \<Rightarrow> wrap_down start end' d
       | SCROLL_STOP \<Rightarrow> Some d);
     if 0 \<le> delay then each (\<lambda>page d. do { r \<leftarrow> row page d; drive page 0 r 128 d }) [0..oled_pages d1 - 1] d1
     else Some d1 }"

subsection \<open>Bitmaps, pixels and lines\<close>

definition bitmap_bit :: "u8 list \<Rightarrow> bool \<Rightarrow> u8 \<Rightarrow> u8 \<Rightarrow> int \<Rightarrow> int \<Rightarrow> u8 \<times> oled \<Rightarrow> (u8 \<times> oled) option" where
  "bitmap_bit bitmap invert page dstBits i srcBits = (\<lambda>(seg, d). do {
     wk0 \<leftarrow> cell (uint page) (uint seg) d;
     let wk0 = (if oled_flip d then ssd1306_rotate_byte wk0 else wk0);
     wk1 \<leftarrow> rdi bitmap i;
     let wk1 = (if invert then NOT wk1 else wk1);
     wk2 \<leftarrow> ssd1306_copy_bit wk1 srcBits wk0 (uint dstBits);
     let wk2 = (if oled_flip d then ssd1306_rotate_byte wk2 else wk2);
     d' \<leftarrow> copy_in (uint page) (uint seg) [wk2] d;
     Some (seg + 1, d') })"

definition bitmap_row :: "u8 list \<Rightarrow> bool \<Rightarrow> int \<Rightarrow> int \<Rightarrow> u8 \<times> u8 \<times> int \<times> oled \<Rightarrow> (u8 \<times> u8 \<times> int \<times> oled) option" where
  "bitmap_row bitmap invert xpos w = (\<lambda>(page, dstBits, offset, d). do {
     (seg, d') \<leftarrow> each (\<lambda>index. each (bitmap_bit bitmap invert page dstBits (index + offset)) [7, 6, 5, 4, 3, 2, 1, 0])
       [0..w - 1] (word_of_int xpos, d);
     let dstBits = dstBits + 1;
     Some (if dstBits = 8 then page + 1 else page, if dstBits = 8 then 0 else dstBits, offset + w, d') })"

definition ssd1306_bitmaps :: "int \<Rightarrow> int \<Rightarrow> u8 list \<Rightarrow> int \<Rightarrow> int \<Rightarrow> bool \<Rightarrow> oled \<Rightarrow> oled option" where
  "ssd1306_bitmaps xpos ypos bitmap width height invert d =
     (if width smod 8 \<noteq> 0 then Some d else do {
        let w = width sdiv 8;
        (_, _, _, d') \<leftarrow> each (\<lambda>_. bitmap_row bitmap invert xpos w) [0..height - 1]
          (word_of_int (ypos sdiv 8), word_of_int (ypos smod 8), 0, d);
        ssd1306_show_buffer d' })"

definition ssd1306_pixel :: "int \<Rightarrow> int \<Rightarrow> bool \<Rightarrow> oled \<Rightarrow> oled option" where
  "ssd1306_pixel xpos ypos invert d = do {
     let page = (word_of_int (ypos sdiv 8) :: u8);
     let bits = (word_of_int (ypos smod 8) :: u8);
     let seg = (word_of_int xpos :: u8);
     wk0 \<leftarrow> cell (uint page) (uint seg) d;
     wk1 \<leftarrow> bit_mask (uint bits);
     let wk0 = (if invert then wk0 AND NOT wk1 else wk0 OR wk1);
     let wk0 = (if oled_flip d then ssd1306_rotate_byte wk0 else wk0);
     copy_in (uint page) (uint seg) [wk0] d }"

text \<open>The loop along the longer axis: a step of 1 along it, and one along the other axis when the
  error term \<open>E\<close> is not negative.\<close>

definition line_x :: "int \<Rightarrow> int \<Rightarrow> int \<Rightarrow> int \<Rightarrow> bool \<Rightarrow> int \<times> int \<times> int \<times> oled \<Rightarrow> (int \<times> int \<times> int \<times> oled) option" where
  "line_x dx dy sx sy invert = (\<lambda>(x1, y1, E, d). do {
     d' \<leftarrow> ssd1306_pixel x1 y1 invert d;
     x1 \<leftarrow> i32 (x1 + sx);
     dy2 \<leftarrow> i32 (2 * dy);
     E \<leftarrow> i32 (E + dy2);
     if 0 \<le> E then do { y1 \<leftarrow> i32 (y1 + sy); dx2 \<leftarrow> i32 (2 * dx); E \<leftarrow> i32 (E - dx2); Some (x1, y1, E, d') }
     else Some (x1, y1, E, d') })"

definition line_y :: "int \<Rightarrow> int \<Rightarrow> int \<Rightarrow> int \<Rightarrow> bool \<Rightarrow> int \<times> int \<times> int \<times> oled \<Rightarrow> (int \<times> int \<times> int \<times> oled) option" where
  "line_y dx dy sx sy invert = (\<lambda>(x1, y1, E, d). do {
     d' \<leftarrow> ssd1306_pixel x1 y1 invert d;
     y1 \<leftarrow> i32 (y1 + sy);
     dx2 \<leftarrow> i32 (2 * dx);
     E \<leftarrow> i32 (E + dx2);
     if 0 \<le> E then do { x1 \<leftarrow> i32 (x1 + sx); dy2 \<leftarrow> i32 (2 * dy); E \<leftarrow> i32 (E - dy2); Some (x1, y1, E, d') }
     else Some (x1, y1, E, d') })"

definition ssd1306_line :: "int \<Rightarrow> int \<Rightarrow> int \<Rightarrow> int \<Rightarrow> bool \<Rightarrow> oled \<Rightarrow> oled option" where
  "ssd1306_line x1 y1 x2 y2 invert d = do {
     dx \<leftarrow> i32 (if x1 < x2 then x2 - x1 else x1 - x2);
     dy \<leftarrow> i32 (if y1 < y2 then y2 - y1 else y1 - y2);
     let sx = (if x1 < x2 then 1 else -1);
     let sy = (if y1 < y2 then 1 else -1);
     (_, _, _, d') \<leftarrow> (if dy < dx then each (\<lambda>_. line_x dx dy sx sy invert) [0..dx] (x1, y1, - dx, d)
       else each (\<lambda>_. line_y dx dy sx sy invert) [0..dy] (x1, y1, - dy, d));
     Some d' }"

definition ssd1306_fadeout :: "oled \<Rightarrow> oled option" where
  "ssd1306_fadeout d = each (\<lambda>page d. map_option snd (each (\<lambda>_ (img :: u8, d). do {
       let img = (if oled_flip d then drop_bit 1 img else push_bit 1 img);
       d' \<leftarrow> each (\<lambda>seg d. do { d1 \<leftarrow> drive page seg [img] 1 d; copy_in page seg [img] d1 }) [0..127] d;
       Some (img, d') }) [0 :: int..7] (0xFF, d))) [0..oled_pages d - 1] d"

end
