(* ===== verification/SsdPixels.thy ===== *)
theory SsdPixels
  imports Ssd1306
begin

text \<open>
  What the drawing operations of the display do to the pixels of the buffer: \<open>pixel_on\<close> reads a
  pixel, in the order of the bits of a flipped display when it is flipped.
\<close>

subsection \<open>Loops\<close>

lemma each_append: "each f (xs @ ys) s = Option.bind (each f xs s) (each f ys)"
  by (induction xs arbitrary: s) (simp_all split: bind_splits)

lemma each_nth:
  assumes "P 0 s" and "\<And>i s. i < length xs \<Longrightarrow> P i s \<Longrightarrow> \<exists>s'. f (xs ! i) s = Some s' \<and> P (Suc i) s'"
  shows "\<exists>s'. each f xs s = Some s' \<and> P (length xs) s'"
  using assms
proof (induction xs arbitrary: s P)
  case (Cons x xs)
  obtain s1 where s1: "f x s = Some s1" "P 1 s1" using Cons.prems(2) [of 0 s] Cons.prems(1) by auto
  have "\<exists>s'. each f xs s1 = Some s' \<and> P (Suc (length xs)) s'"
    by (rule Cons.IH [of "\<lambda>i. P (Suc i)"]) (use s1 Cons.prems(2) in \<open>force+\<close>)
  with s1 show ?case by simp
qed simp

lemma each_upto:
  assumes "P a s" and "a \<le> b + 1"
    and "\<And>i s. a \<le> i \<Longrightarrow> i \<le> b \<Longrightarrow> P i s \<Longrightarrow> \<exists>s'. f i s = Some s' \<and> P (i + 1) s'"
  shows "\<exists>s'. each f [a..b] s = Some s' \<and> P (b + 1) s'"
proof -
  have "\<exists>s'. each f [a..b] s = Some s' \<and> P (a + int (length [a..b])) s'"
  proof (rule each_nth [where P = "\<lambda>i. P (a + int i)"])
    fix i s assume "i < length [a..b]" and "P (a + int i) s"
    then show "\<exists>s'. f ([a..b] ! i) s = Some s' \<and> P (a + int (Suc i)) s'"
      using assms(3) [of "a + int i" s] by (simp add: ac_simps)
  qed (use assms in simp)
  then show ?thesis using assms(2) by simp
qed

lemma each_downto:
  assumes "P b s" and "a \<le> b + 1"
    and "\<And>i s. a \<le> i \<Longrightarrow> i \<le> b \<Longrightarrow> P i s \<Longrightarrow> \<exists>s'. f i s = Some s' \<and> P (i - 1) s'"
  shows "\<exists>s'. each f (rev [a..b]) s = Some s' \<and> P (a - 1) s'"
proof -
  have "\<exists>s'. each f (rev [a..b]) s = Some s' \<and> P (b - int (length (rev [a..b]))) s'"
  proof (rule each_nth)
    show "P (b - int 0) s" using assms by simp
    fix i s assume i: "i < length (rev [a..b])" and P: "P (b - int i) s"
    have "f (b - int i) s = f (rev [a..b] ! i) s" using i by (simp add: rev_nth nth_upto)
    moreover have "\<exists>s'. f (b - int i) s = Some s' \<and> P (b - int (Suc i)) s'"
      using assms(3) [of "b - int i" s] i P by (simp add: algebra_simps)
    ultimately show "\<exists>s'. f (rev [a..b] ! i) s = Some s' \<and> P (b - int (Suc i)) s'" by (simp only:)
  qed
  then show ?thesis using assms(2) by simp
qed

subsection \<open>Bytes of the buffer\<close>

definition wf_oled :: "oled \<Rightarrow> bool" where
  "wf_oled d \<longleftrightarrow> length (oled_page d) = 8 \<and> (\<forall>r \<in> set (oled_page d). length r = 128) \<and>
     0 < oled_pages d \<and> oled_pages d \<le> 8 \<and> 0 < oled_width d \<and> oled_width d \<le> 128"

text \<open>A dark display of 64 rows.\<close>

definition dark_oled :: "bool \<Rightarrow> oled" where
  "dark_oled flp = \<lparr>oled_address = I2CAddress, oled_width = 128, oled_height = 64, oled_pages = 8, sc_enable = False,
     sc_start = 0, sc_end = 0, sc_direction = 1, oled_page = replicate 8 (replicate 128 0), oled_flip = flp, bus = []\<rparr>"

lemma wf_dark_oled: "wf_oled (dark_oled flp)"
  by (simp add: wf_oled_def dark_oled_def)

lemma dark_oled_simps [simp]: "oled_pages (dark_oled flp) = 8" "oled_width (dark_oled flp) = 128" "oled_flip (dark_oled flp) = flp"
  by (simp_all add: dark_oled_def)

definition byte_at :: "oled \<Rightarrow> nat \<Rightarrow> nat \<Rightarrow> u8" where
  "byte_at d p s = oled_page d ! p ! s"

definition set_byte :: "nat \<Rightarrow> nat \<Rightarrow> u8 \<Rightarrow> oled \<Rightarrow> oled" where
  "set_byte p s b d = d\<lparr>oled_page := (oled_page d)[p := (oled_page d ! p)[s := b]]\<rparr>"

lemma row_len: "wf_oled d \<Longrightarrow> p < 8 \<Longrightarrow> length (oled_page d ! p) = 128"
  by (simp add: wf_oled_def)

text \<open>The parts of the device that drawing leaves alone.\<close>

definition same_oled :: "oled \<Rightarrow> oled \<Rightarrow> bool" where
  "same_oled d d' \<longleftrightarrow> oled_address d' = oled_address d \<and> oled_width d' = oled_width d \<and> oled_height d' = oled_height d \<and>
     oled_pages d' = oled_pages d \<and> oled_flip d' = oled_flip d \<and> sc_enable d' = sc_enable d \<and> sc_start d' = sc_start d \<and>
     sc_end d' = sc_end d \<and> sc_direction d' = sc_direction d \<and> wf_oled d'"

lemma same_oled_refl: "wf_oled d \<Longrightarrow> same_oled d d"
  by (simp add: same_oled_def)

lemma same_oled_trans: "same_oled d d' \<Longrightarrow> same_oled d' d'' \<Longrightarrow> same_oled d d''"
  by (simp add: same_oled_def)

lemma same_oledD: "same_oled d d' \<Longrightarrow> wf_oled d' \<and> oled_pages d' = oled_pages d \<and> oled_width d' = oled_width d \<and>
    oled_flip d' = oled_flip d"
  by (simp add: same_oled_def)

lemma cell_ok: "wf_oled d \<Longrightarrow> p < 8 \<Longrightarrow> s < 128 \<Longrightarrow> cell (int p) (int s) d = Some (byte_at d p s)"
  by (simp add: cell_def row_def rdi_def rd_in row_len byte_at_def wf_oled_def)

lemma row_ok: "wf_oled d \<Longrightarrow> p < 8 \<Longrightarrow> row (int p) d = Some (oled_page d ! p)"
  by (simp add: row_def rdi_def rd_in wf_oled_def)

lemma wr_update: "i < length m \<Longrightarrow> wr m i [b] = Some (m[i := b])"
  by (simp add: wr_def upd_conv_take_nth_drop)

lemma put_row_ok: "wf_oled d \<Longrightarrow> p < 8 \<Longrightarrow> put_row (int p) r d = Some (d\<lparr>oled_page := (oled_page d)[p := r]\<rparr>)"
  by (simp add: put_row_def wri_def wr_update wf_oled_def)

lemma copy_byte: "wf_oled d \<Longrightarrow> p < 8 \<Longrightarrow> s < 128 \<Longrightarrow> copy_in (int p) (int s) [b] d = Some (set_byte p s b d)"
  by (simp add: copy_in_def row_ok wri_def wr_update row_len put_row_ok set_byte_def)

lemma wf_put_row: "wf_oled d \<Longrightarrow> length r = 128 \<Longrightarrow> wf_oled (d\<lparr>oled_page := (oled_page d)[p := r]\<rparr>)"
  by (auto simp: wf_oled_def dest!: subsetD [OF set_update_subset_insert])

lemma same_set_byte: "wf_oled d \<Longrightarrow> p < 8 \<Longrightarrow> same_oled d (set_byte p s b d)"
  using wf_put_row [of d "(oled_page d ! p)[s := b]" p] by (simp add: same_oled_def set_byte_def row_len)

lemma byte_set_byte:
  "wf_oled d \<Longrightarrow> p < 8 \<Longrightarrow> s < 128 \<Longrightarrow> byte_at (set_byte p s b d) q r = (if q = p \<and> r = s then b else byte_at d q r)"
  by (auto simp: byte_at_def set_byte_def nth_list_update row_len wf_oled_def)

subsection \<open>Bits\<close>

lemma u8_eqI: "(\<And>n. n < 8 \<Longrightarrow> bit a n = bit b n) \<Longrightarrow> a = (b :: u8)"
  by (rule bit_word_eqI) simp

lemma rotate_steps:
  fixes b :: u8
  assumes "n \<le> 8"
  shows "\<exists>c. ((\<lambda>(ch2, ch1). (push_bit 1 ch2 + (ch1 AND 1), drop_bit 1 ch1)) ^^ n) (0, b) = (c, drop_bit n b) \<and>
     (\<forall>i. bit c i \<longleftrightarrow> i < n \<and> bit b (n - 1 - i))"
  using assms
proof (induction n)
  case (Suc n)
  then obtain c where c: "((\<lambda>(ch2, ch1). (push_bit 1 ch2 + (ch1 AND 1), drop_bit 1 ch1)) ^^ n) (0, b) = (c, drop_bit n b)"
    "\<And>i. bit c i \<longleftrightarrow> i < n \<and> bit b (n - 1 - i)" by auto
  have p: "bit (push_bit 1 c) i \<longleftrightarrow> i < 8 \<and> 0 < i \<and> bit c (i - 1)" for i
    by (simp only: bit_push_bit_iff) (auto simp: possible_bit_def)
  have plus: "push_bit 1 c + (drop_bit n b AND 1) = push_bit 1 c OR (drop_bit n b AND 1)"
    by (rule disjunctive_add) (simp only: p bit_and_iff bit_1_iff, auto)
  have "bit (push_bit 1 c OR (drop_bit n b AND 1)) i \<longleftrightarrow> i < Suc n \<and> bit b (n - i)" for i
    using Suc.prems unfolding bit_or_iff p bit_and_iff bit_1_iff bit_drop_bit_eq c(2) by (cases i) auto
  moreover have "drop_bit 1 (drop_bit n b) = drop_bit (Suc n) b" by (simp only: drop_bit_drop_bit) simp
  ultimately show ?case using plus by (simp only: funpow.simps comp_apply c(1) prod.case) auto
qed simp

lemma bit_rotate [simp]: "bit (ssd1306_rotate_byte b) i \<longleftrightarrow> i < 8 \<and> bit b (7 - i)"
proof -
  obtain c where c: "((\<lambda>(ch2, ch1). (push_bit 1 ch2 + (ch1 AND 1), drop_bit 1 ch1)) ^^ 8) (0, b) = (c, drop_bit 8 b)"
    "\<And>i. bit c i \<longleftrightarrow> i < 8 \<and> bit b (8 - 1 - i)" using rotate_steps [of 8 b] by blast
  show ?thesis unfolding ssd1306_rotate_byte_def c(1) fst_conv c(2) by simp
qed

subsection \<open>Drawing\<close>

text \<open>The buffer afterwards, given as a function of page and column.\<close>

definition drawn :: "oled \<Rightarrow> oled \<Rightarrow> (nat \<Rightarrow> nat \<Rightarrow> u8) \<Rightarrow> bool" where
  "drawn d d' f \<longleftrightarrow> same_oled d d' \<and> (\<forall>p < 8. \<forall>s < 128. byte_at d' p s = f p s)"

lemma drawn_refl: "wf_oled d \<Longrightarrow> drawn d d (byte_at d)"
  by (simp add: drawn_def same_oled_refl)

lemma drawn_trans: "drawn d d' f \<Longrightarrow> drawn d' d'' g \<Longrightarrow> drawn d d'' g"
  by (auto simp: drawn_def intro: same_oled_trans)

lemma drawn_cong: "drawn d d' f \<Longrightarrow> (\<And>p s. p < 8 \<Longrightarrow> s < 128 \<Longrightarrow> f p s = g p s) \<Longrightarrow> drawn d d' g"
  by (simp add: drawn_def)

lemma drawnD: "drawn d d' f \<Longrightarrow> wf_oled d' \<and> oled_pages d' = oled_pages d \<and> oled_width d' = oled_width d \<and>
    oled_flip d' = oled_flip d"
  by (simp add: drawn_def same_oled_def)

lemma drawn_byte: "drawn d d' f \<Longrightarrow> p < 8 \<Longrightarrow> s < 128 \<Longrightarrow> byte_at d' p s = f p s"
  by (simp add: drawn_def)

lemma drawn_set_byte:
  assumes "drawn d d' f" and "p < 8" and "s < 128"
  shows "drawn d (set_byte p s b d') (\<lambda>q r. if q = p \<and> r = s then b else f q r)"
  using assms drawnD [OF assms(1)] same_oled_trans [OF _ same_set_byte] byte_set_byte [of d' p s b]
  by (auto simp: drawn_def)

lemma drawn_send: "drawn d d' f \<Longrightarrow> drawn d (send_bus xs d') f"
  by (simp add: drawn_def same_oled_def send_bus_def byte_at_def wf_oled_def)

lemma send_bus_Nil [simp]: "send_bus [] d = d"
  by (simp add: send_bus_def)

lemma send_bus_twice [simp]: "send_bus ys (send_bus xs d) = send_bus (xs @ ys) d"
  by (simp add: send_bus_def)

lemma drive_ok:
  assumes "0 \<le> width" and "width \<le> int (length images)"
  shows "\<exists>xs. drive page seg images width d = Some (send_bus xs d)"
proof -
  have bs: "bytes_of images width = Some (take (nat width) images)" using assms by (simp add: bytes_of_def)
  show ?thesis
  proof (cases "oled_pages d \<le> page \<or> oled_width d \<le> seg")
    case True
    then have "drive page seg images width d = Some (send_bus [] d)"
      by (auto simp: drive_def spi_display_image_def i2c_display_image_def)
    then show ?thesis by blast
  next
    case False
    with bs show ?thesis
      by (simp add: drive_def spi_display_image_def i2c_display_image_def spi_master_write_command_def
        spi_master_write_data_def Let_def) blast
  qed
qed

text \<open>A loop over the columns of a page, where each byte depends on itself and on a byte that the
  loop does not change.\<close>

lemma column_loop:
  assumes "wf_oled d" and "p < 8" and "0 \<le> a" and "b < 128"
    and w: "\<And>s d'. a \<le> s \<Longrightarrow> s \<le> b \<Longrightarrow> same_oled d d' \<Longrightarrow>
      (\<And>q r. q < 8 \<Longrightarrow> r < 128 \<Longrightarrow> q \<noteq> p \<Longrightarrow> byte_at d' q r = byte_at d q r) \<Longrightarrow> g s d' = Some (w (nat s))"
  shows "\<exists>d'. each (\<lambda>seg d. do { wk0 \<leftarrow> cell (int p) seg d; wk1 \<leftarrow> g seg d; copy_in (int p) seg [h (oled_flip d) wk0 wk1] d }) [a..b] d = Some d' \<and>
    drawn d d' (\<lambda>q r. if q = p \<and> a \<le> int r \<and> int r \<le> b then h (oled_flip d) (byte_at d p r) (w r) else byte_at d q r)"
proof (cases "a \<le> b")
  case False
  then show ?thesis by simp (rule drawn_cong [OF drawn_refl [OF assms(1)]], auto)
next
  case True
  let ?P = "\<lambda>s d'. drawn d d' (\<lambda>q r. if q = p \<and> a \<le> int r \<and> int r < s then h (oled_flip d) (byte_at d p r) (w r) else byte_at d q r)"
  have "\<exists>d'. each (\<lambda>seg d. do { wk0 \<leftarrow> cell (int p) seg d; wk1 \<leftarrow> g seg d; copy_in (int p) seg [h (oled_flip d) wk0 wk1] d }) [a..b] d = Some d' \<and>
    ?P (b + 1) d'"
  proof (rule each_upto)
    show "?P a d" by (rule drawn_cong [OF drawn_refl]) (use assms in auto)
    fix s d' assume s: "a \<le> s" "s \<le> b" and P: "?P s d'"
    define k where "k = nat s"
    have k: "s = int k" "k < 128" using s assms by (auto simp: k_def)
    have "g s d' = Some (w k)" unfolding k_def using s P by (intro w) (auto simp: drawn_def)
    moreover have "byte_at d' p k = byte_at d p k" using drawn_byte [OF P assms(2) k(2)] k by simp
    moreover have "drawn d (set_byte p k (h (oled_flip d) (byte_at d p k) (w k)) d')
        (\<lambda>q r. if q = p \<and> a \<le> int r \<and> int r < s + 1 then h (oled_flip d) (byte_at d p r) (w r) else byte_at d q r)"
      by (rule drawn_cong [OF drawn_set_byte [OF P assms(2) k(2)]]) (use s k in auto)
    ultimately show "\<exists>d''. (do { wk0 \<leftarrow> cell (int p) s d'; wk1 \<leftarrow> g s d'; copy_in (int p) s [h (oled_flip d') wk0 wk1] d' }) = Some d'' \<and>
      ?P (s + 1) d''"
      using drawnD [OF P] k assms(2) by (simp add: cell_ok copy_byte)
  qed (use True in auto)
  then show ?thesis by (auto elim!: drawn_cong)
qed

subsection \<open>Wrapping around\<close>

definition pixel_on :: "oled \<Rightarrow> nat \<Rightarrow> nat \<Rightarrow> bool" where
  "pixel_on d x y \<longleftrightarrow> bit (byte_at d (y div 8) x) (if oled_flip d then 7 - y mod 8 else y mod 8)"

lemma bit_u8: "bit (a :: u8) n \<Longrightarrow> n < 8"
  using bit_imp_le_length [of a n] by simp

lemma bit_twice_u8: "bit (a * 2 :: u8) k \<longleftrightarrow> k < 8 \<and> 0 < k \<and> bit a (k - 1)"
  using bit_double_iff [of a k] by (simp add: possible_bit_def mult.commute [of a])

lemma bit_up_byte:
  "k < 8 \<Longrightarrow> bit (up_byte f a b) (if f then 7 - k else k) \<longleftrightarrow>
     (if k < 7 then bit a (if f then 7 - Suc k else Suc k) else bit b (if f then 7 else 0))"
  by (cases f; cases "k = 7")
    (auto simp: up_byte_def Let_def bit_or_iff bit_drop_bit_eq bit_push_bit_iff bit_and_iff bit_1_iff possible_bit_def dest: bit_u8)

lemma bit_down_byte:
  "k < 8 \<Longrightarrow> bit (down_byte f a b) (if f then 7 - k else k) \<longleftrightarrow>
     (if 0 < k then bit a (if f then 7 - (k - 1) else k - 1) else bit b (if f then 0 else 7))"
proof -
  have m: "bit (0x80 :: u8) j \<longleftrightarrow> j = 7" for j
    using bit_exp_iff [where 'a = "8 word", of 7 j] by (auto simp: possible_bit_def)
  assume "k < 8"
  then show ?thesis
    by (cases f; cases "k = 0")
      (auto simp: down_byte_def Let_def bit_or_iff bit_drop_bit_eq bit_twice_u8 bit_and_iff bit_1_iff m dest: bit_u8)
qed

text \<open>The columns the loops run over.\<close>

definition within :: "int \<Rightarrow> int \<Rightarrow> int \<Rightarrow> nat \<Rightarrow> bool" where
  "within n start end' s \<longleftrightarrow> start \<le> int s \<and> int s \<le> end' \<and> int s < n"

lemma within_iff: "within n start end' s \<longleftrightarrow> start \<le> int s \<and> int s \<le> (if n \<le> end' then n - 1 else end')"
  by (auto simp: within_def)

lemma wrap_up_ok:
  assumes wf: "wf_oled d" and "0 \<le> start"
  shows "\<exists>d'. wrap_up start end' d = Some d' \<and> drawn d d' (\<lambda>p s.
    if p < nat (oled_pages d) \<and> within (oled_width d) start end' s
    then up_byte (oled_flip d) (byte_at d p s) (byte_at d (Suc p mod nat (oled_pages d)) s) else byte_at d p s)"
proof -
  define e where "e = (if oled_width d \<le> end' then oled_width d - 1 else end')"
  define n where "n = nat (oled_pages d) - 1"
  define w where "w s = within (oled_width d) start end' s" for s
  have n: "oled_pages d = int n + 1" "n < 8" and e: "e < 128" using wf by (auto simp: n_def e_def wf_oled_def)
  have w_iff: "w s \<longleftrightarrow> start \<le> int s \<and> int s \<le> e" for s by (simp add: w_def within_iff e_def)
  let ?u = "up_byte (oled_flip d)"
  let ?step = "\<lambda>page seg d'. do { wk0 \<leftarrow> cell page seg d'; wk1 \<leftarrow> cell (page + 1) seg d';
      copy_in page seg [up_byte (oled_flip d') wk0 wk1] d' }"
  let ?last = "\<lambda>seg d'. do { wk0 \<leftarrow> cell (int n) seg d'; wk1 \<leftarrow> rdi (oled_page d ! 0) seg;
      copy_in (int n) seg [up_byte (oled_flip d') wk0 wk1] d' }"
  let ?P = "\<lambda>i d'. drawn d d' (\<lambda>p s. if int p < i \<and> w s then ?u (byte_at d p s) (byte_at d (Suc p) s) else byte_at d p s)"
  have "\<exists>d1. each (\<lambda>page. each (?step page) [start..e]) [0..int n - 1] d = Some d1 \<and> ?P (int n - 1 + 1) d1"
  proof (rule each_upto)
    show "?P 0 d" by (rule drawn_cong [OF drawn_refl [OF wf]]) simp
    fix i d1 assume i: "0 \<le> i" "i \<le> int n - 1" and P: "?P i d1"
    define p where "p = nat i"
    have p: "i = int p" "Suc p < 8" "Suc p \<le> n" using i n by (auto simp: p_def)
    have wf1: "wf_oled d1" and flp: "oled_flip d1 = oled_flip d" using drawnD [OF P] by simp_all
    obtain d2 where d2: "each (?step (int p)) [start..e] d1 = Some d2"
      "drawn d1 d2 (\<lambda>q r. if q = p \<and> start \<le> int r \<and> int r \<le> e
         then up_byte (oled_flip d1) (byte_at d1 p r) (byte_at d1 (Suc p) r) else byte_at d1 q r)"
    proof -
      have "\<exists>d2. each (?step (int p)) [start..e] d1 = Some d2 \<and> drawn d1 d2 (\<lambda>q r. if q = p \<and> start \<le> int r \<and> int r \<le> e
         then up_byte (oled_flip d1) (byte_at d1 p r) (byte_at d1 (Suc p) r) else byte_at d1 q r)"
      proof (rule column_loop [OF wf1])
        fix s d' assume s: "start \<le> s" "s \<le> e" and d': "same_oled d1 d'"
          "\<And>q r. q < 8 \<Longrightarrow> r < 128 \<Longrightarrow> q \<noteq> p \<Longrightarrow> byte_at d' q r = byte_at d1 q r"
        have "cell (int (Suc p)) (int (nat s)) d' = Some (byte_at d' (Suc p) (nat s))"
          using s e d'(1) p by (intro cell_ok) (auto simp: same_oled_def)
        then show "cell (int p + 1) s d' = Some (byte_at d1 (Suc p) (nat s))"
          using s e assms p d'(2) [of "Suc p" "nat s"] by (simp add: ac_simps)
      qed (use assms e p in auto)
      then show ?thesis using that by blast
    qed
    have "?P (i + 1) d2"
      by (rule drawn_cong [OF drawn_trans [OF P d2(2)]])
        (use p n flp in \<open>auto simp: drawn_byte [OF P] w_iff\<close>)
    with d2(1) p(1) show "\<exists>d2. each (?step i) [start..e] d1 = Some d2 \<and> ?P (i + 1) d2" by blast
  qed (use n in simp)
  then obtain d1 where d1: "each (\<lambda>page. each (?step page) [start..e]) [0..int n - 1] d = Some d1" "?P (int n) d1" by auto
  have wf1: "wf_oled d1" and flp: "oled_flip d1 = oled_flip d" using drawnD [OF d1(2)] by simp_all
  have "\<exists>d2. each ?last [start..e] d1 = Some d2 \<and> drawn d1 d2 (\<lambda>q r. if q = n \<and> start \<le> int r \<and> int r \<le> e
     then up_byte (oled_flip d1) (byte_at d1 n r) (byte_at d 0 r) else byte_at d1 q r)"
    by (rule column_loop [OF wf1 n(2) assms(2) e])
      (use assms e in \<open>auto simp: rdi_def rd_in row_len byte_at_def nat_less_iff\<close>)
  then obtain d2 where d2: "each ?last [start..e] d1 = Some d2" "drawn d1 d2 (\<lambda>q r. if q = n \<and> start \<le> int r \<and> int r \<le> e
     then up_byte (oled_flip d1) (byte_at d1 n r) (byte_at d 0 r) else byte_at d1 q r)" by blast
  have "wrap_up start end' d = Some d2"
    using d1(1) d2(1) row_ok [OF wf, of 0] n by (simp add: wrap_up_def e_def Let_def)
  moreover have "drawn d d2 (\<lambda>p s. if p < nat (oled_pages d) \<and> within (oled_width d) start end' s
    then ?u (byte_at d p s) (byte_at d (Suc p mod nat (oled_pages d)) s) else byte_at d p s)"
    by (rule drawn_cong [OF drawn_trans [OF d1(2) d2(2)]])
      (use n flp in \<open>auto simp: drawn_byte [OF d1(2)] w_iff w_def [symmetric] nat_add_distrib mod_Suc\<close>)
  ultimately show ?thesis by blast
qed

lemma wrap_down_ok:
  assumes wf: "wf_oled d" and "0 \<le> start"
  shows "\<exists>d'. wrap_down start end' d = Some d' \<and> drawn d d' (\<lambda>p s.
    if p < nat (oled_pages d) \<and> within (oled_width d) start end' s
    then down_byte (oled_flip d) (byte_at d p s) (byte_at d ((p + nat (oled_pages d) - 1) mod nat (oled_pages d)) s)
    else byte_at d p s)"
proof -
  define e where "e = (if oled_width d \<le> end' then oled_width d - 1 else end')"
  define n where "n = nat (oled_pages d) - 1"
  define w where "w s = within (oled_width d) start end' s" for s
  have n: "oled_pages d = int n + 1" "n < 8" and e: "e < 128" using wf by (auto simp: n_def e_def wf_oled_def)
  have w_iff: "w s \<longleftrightarrow> start \<le> int s \<and> int s \<le> e" for s by (simp add: w_def within_iff e_def)
  let ?u = "down_byte (oled_flip d)"
  let ?step = "\<lambda>page seg d'. do { wk0 \<leftarrow> cell page seg d'; wk1 \<leftarrow> cell (page - 1) seg d';
      copy_in page seg [down_byte (oled_flip d') wk0 wk1] d' }"
  let ?last = "\<lambda>seg d'. do { wk0 \<leftarrow> cell 0 seg d'; wk1 \<leftarrow> rdi (oled_page d ! n) seg;
      copy_in 0 seg [down_byte (oled_flip d') wk0 wk1] d' }"
  let ?P = "\<lambda>i d'. drawn d d' (\<lambda>p s. if i < int p \<and> p \<le> n \<and> w s then ?u (byte_at d p s) (byte_at d (p - 1) s) else byte_at d p s)"
  have "\<exists>d1. each (\<lambda>page. each (?step page) [start..e]) (rev [1..int n]) d = Some d1 \<and> ?P (1 - 1) d1"
  proof (rule each_downto)
    show "?P (int n) d" by (rule drawn_cong [OF drawn_refl [OF wf]]) auto
    fix i d1 assume i: "1 \<le> i" "i \<le> int n" and P: "?P i d1"
    define p where "p = nat i"
    have p: "i = int p" "p < 8" "0 < p" "p \<le> n" using i n by (auto simp: p_def)
    have wf1: "wf_oled d1" and flp: "oled_flip d1 = oled_flip d" using drawnD [OF P] by simp_all
    obtain d2 where d2: "each (?step (int p)) [start..e] d1 = Some d2"
      "drawn d1 d2 (\<lambda>q r. if q = p \<and> start \<le> int r \<and> int r \<le> e
         then down_byte (oled_flip d1) (byte_at d1 p r) (byte_at d1 (p - 1) r) else byte_at d1 q r)"
    proof -
      have "\<exists>d2. each (?step (int p)) [start..e] d1 = Some d2 \<and> drawn d1 d2 (\<lambda>q r. if q = p \<and> start \<le> int r \<and> int r \<le> e
         then down_byte (oled_flip d1) (byte_at d1 p r) (byte_at d1 (p - 1) r) else byte_at d1 q r)"
      proof (rule column_loop [OF wf1])
        fix s d' assume s: "start \<le> s" "s \<le> e" and d': "same_oled d1 d'"
          "\<And>q r. q < 8 \<Longrightarrow> r < 128 \<Longrightarrow> q \<noteq> p \<Longrightarrow> byte_at d' q r = byte_at d1 q r"
        have "cell (int (p - 1)) (int (nat s)) d' = Some (byte_at d' (p - 1) (nat s))"
          using s e d'(1) p by (intro cell_ok) (auto simp: same_oled_def)
        then show "cell (int p - 1) s d' = Some (byte_at d1 (p - 1) (nat s))"
          using s e assms p d'(2) [of "p - 1" "nat s"] by (simp add: of_nat_diff)
      qed (use assms e p in auto)
      then show ?thesis using that by blast
    qed
    have "?P (i - 1) d2"
      by (rule drawn_cong [OF drawn_trans [OF P d2(2)]])
        (use p n flp in \<open>auto simp: drawn_byte [OF P] w_iff\<close>)
    with d2(1) p(1) show "\<exists>d2. each (?step i) [start..e] d1 = Some d2 \<and> ?P (i - 1) d2" by blast
  qed (use n in simp)
  then obtain d1 where d1: "each (\<lambda>page. each (?step page) [start..e]) (rev [1..int n]) d = Some d1" "?P 0 d1" by auto
  have wf1: "wf_oled d1" and flp: "oled_flip d1 = oled_flip d" using drawnD [OF d1(2)] by simp_all
  have "\<exists>d2. each ?last [start..e] d1 = Some d2 \<and> drawn d1 d2 (\<lambda>q r. if q = 0 \<and> start \<le> int r \<and> int r \<le> e
     then down_byte (oled_flip d1) (byte_at d1 0 r) (byte_at d n r) else byte_at d1 q r)"
    using column_loop [OF wf1, of 0 start e "\<lambda>seg _. rdi (oled_page d ! n) seg" "byte_at d n" down_byte]
      assms e n by (auto simp: rdi_def rd_in row_len byte_at_def nat_less_iff)
  then obtain d2 where d2: "each ?last [start..e] d1 = Some d2" "drawn d1 d2 (\<lambda>q r. if q = 0 \<and> start \<le> int r \<and> int r \<le> e
     then down_byte (oled_flip d1) (byte_at d1 0 r) (byte_at d n r) else byte_at d1 q r)" by blast
  have "wrap_down start end' d = Some d2"
    using d1(1) d2(1) row_ok [OF wf, of n] n by (simp add: wrap_down_def e_def Let_def)
  moreover have "drawn d d2 (\<lambda>p s. if p < nat (oled_pages d) \<and> within (oled_width d) start end' s
    then ?u (byte_at d p s) (byte_at d ((p + nat (oled_pages d) - 1) mod nat (oled_pages d)) s) else byte_at d p s)"
    by (rule drawn_cong [OF drawn_trans [OF d1(2) d2(2)]])
      (use n flp in \<open>auto simp: drawn_byte [OF d1(2)] w_iff w_def [symmetric] nat_add_distrib mod_if\<close>)
  ultimately show ?thesis by blast
qed

lemma wrap_rows_ok:
  assumes wf: "wf_oled d" and "0 \<le> start" and len: "\<And>r. length r = 128 \<Longrightarrow> length (f r) = 128"
  shows "\<exists>d'. wrap_rows f start end' d = Some d' \<and> drawn d d' (\<lambda>p s.
    if within (oled_pages d) start end' p then f (oled_page d ! p) ! s else byte_at d p s)"
proof -
  define e where "e = (if oled_pages d \<le> end' then oled_pages d - 1 else end')"
  have e: "e < 8" using wf by (auto simp: e_def wf_oled_def)
  let ?step = "\<lambda>page d. do { r \<leftarrow> row page d; put_row page (f r) d }"
  let ?new = "\<lambda>i d'. drawn d d' (\<lambda>p s. if start \<le> int p \<and> int p < i then f (oled_page d ! p) ! s else byte_at d p s)"
  let ?P = "\<lambda>i d'. ?new i d' \<and> (\<forall>p < 8. i \<le> int p \<longrightarrow> oled_page d' ! p = oled_page d ! p)"
  have "\<exists>d'. each ?step [start..e] d = Some d' \<and> ?new (e + 1) d'" if "start \<le> e"
  proof -
    have "\<exists>d'. each ?step [start..e] d = Some d' \<and> ?P (e + 1) d'"
    proof (rule each_upto)
      show "?P start d" by (auto intro!: drawn_cong [OF drawn_refl [OF wf]])
      fix i d1 assume i: "start \<le> i" "i \<le> e" and P: "?P i d1"
      define p where "p = nat i"
      have p: "i = int p" "p < 8" using i e assms by (auto simp: p_def)
      let ?d2 = "d1\<lparr>oled_page := (oled_page d1)[p := f (oled_page d ! p)]\<rparr>"
      have wf1: "wf_oled d1" using drawnD P by blast
      have "wf_oled ?d2" using wf p by (intro wf_put_row wf1 len) (simp add: row_len)
      then have "same_oled d ?d2" using P by (simp add: drawn_def same_oled_def)
      then have "?P (i + 1) ?d2" using P p wf1 i(1)
        by (auto simp: drawn_def byte_at_def nth_list_update wf_oled_def)
      moreover have "?step i d1 = Some ?d2" using P p wf1 by (simp add: row_ok put_row_ok)
      ultimately show "\<exists>d2. ?step i d1 = Some d2 \<and> ?P (i + 1) d2" by blast
    qed (use that in simp)
    then show ?thesis by blast
  qed
  then have "\<exists>d'. each ?step [start..e] d = Some d' \<and> ?new (e + 1) d'"
  proof (cases "start \<le> e")
    case False
    then show ?thesis by simp (rule drawn_cong [OF drawn_refl [OF wf]], auto)
  qed simp
  then show ?thesis unfolding wrap_rows_def e_def [symmetric]
    by (auto simp: within_iff e_def [symmetric] elim!: drawn_cong)
qed

lemma shift_right_loop:
  "k < length s \<Longrightarrow> foldl (\<lambda>s seg. s[seg := s ! (seg - 1)]) s (rev [1..<Suc k]) = s ! 0 # take k s @ drop (Suc k) s"
proof (induction k arbitrary: s)
  case 0
  then show ?case by (cases s) auto
next
  case (Suc k)
  have u: "rev [1..<Suc (Suc k)] = Suc k # rev [1..<Suc k]" by simp
  have "drop (Suc k) (s[Suc k := s ! k]) = s ! k # drop (Suc (Suc k)) s"
    using Suc.prems by (simp add: drop_update_swap Cons_nth_drop_Suc [symmetric])
  then show ?case using Suc unfolding u foldl_Cons by (simp add: take_Suc_conv_app_nth)
qed

lemma shift_left_loop:
  "k < length s \<Longrightarrow> foldl (\<lambda>s seg. s[seg := s ! (seg + 1)]) s [0..<k] = take k (tl s) @ drop k s"
proof (induction k)
  case (Suc k)
  have "drop k s = s ! k # drop (Suc k) s" using Suc.prems by (simp add: Cons_nth_drop_Suc)
  with Suc show ?case
    by (simp add: nth_append take_Suc_conv_app_nth nth_tl list_update_append)
qed simp

lemma wrap_right_row: "length r = 128 \<Longrightarrow> wrap_right_row r = map (\<lambda>s. r ! ((s + 127) mod 128)) [0..<128]"
  using shift_right_loop [of 127 r]
  by (intro nth_equalityI) (auto simp: wrap_right_row_def Let_def nth_Cons nth_append mod_if split: nat.splits)

lemma wrap_left_row: "length r = 128 \<Longrightarrow> wrap_left_row r = map (\<lambda>s. r ! (Suc s mod 128)) [0..<128]"
  using shift_left_loop [of 127 r]
  by (intro nth_equalityI) (auto simp: wrap_left_row_def Let_def nth_list_update nth_append nth_tl mod_if)

lemma show_rows_ok:
  assumes wf: "wf_oled d" and n: "n \<le> oled_pages d" and width: "\<And>d'. same_oled d d' \<Longrightarrow> 0 \<le> w d' \<and> w d' \<le> 128"
  shows "\<exists>d'. each (\<lambda>page d. do { r \<leftarrow> row page d; drive page 0 r (w d) d }) [0..n - 1] d = Some d' \<and> drawn d d' (byte_at d)"
proof (cases "0 \<le> n")
  case True
  have "\<exists>d'. each (\<lambda>page d. do { r \<leftarrow> row page d; drive page 0 r (w d) d }) [0..n - 1] d = Some d' \<and> drawn d d' (byte_at d)"
  proof (rule each_upto [where P = "\<lambda>_ d'. drawn d d' (byte_at d)"])
    fix i d1 assume i: "0 \<le> i" "i \<le> n - 1" and P: "drawn d d1 (byte_at d)"
    define p where "p = nat i"
    have p: "i = int p" "p < 8" using i n wf by (auto simp: p_def wf_oled_def)
    have r: "row i d1 = Some (oled_page d1 ! p)" "length (oled_page d1 ! p) = 128"
      using drawnD [OF P] p by (simp_all add: row_ok row_len)
    obtain xs where "drive i 0 (oled_page d1 ! p) (w d1) d1 = Some (send_bus xs d1)"
      using drive_ok [of "w d1" "oled_page d1 ! p" i 0 d1] width [of d1] P r by (auto simp: drawn_def)
    then show "\<exists>d2. (do { r \<leftarrow> row i d1; drive i 0 r (w d1) d1 }) = Some d2 \<and> drawn d d2 (byte_at d)"
      using r P by (simp add: drawn_send)
  qed (use True wf in \<open>simp_all add: drawn_refl\<close>)
  then show ?thesis .
qed (use drawn_refl [OF wf] in simp)

text \<open>The pixel that comes to a place: the vertical moves run over all pages of the display and a
  range of columns, the horizontal ones over all columns and a range of pages.\<close>

definition wrap_source :: "scroll_type \<Rightarrow> int \<Rightarrow> int \<Rightarrow> oled \<Rightarrow> nat \<Rightarrow> nat \<Rightarrow> nat \<times> nat" where
  "wrap_source scroll start end' d x y = (let h = 8 * nat (oled_pages d) in
     if scroll = SCROLL_UP \<and> within (oled_width d) start end' x then (x, Suc y mod h)
     else if scroll = SCROLL_DOWN \<and> within (oled_width d) start end' x then (x, (y + h - 1) mod h)
     else if scroll = SCROLL_RIGHT \<and> within (oled_pages d) start end' (y div 8) then ((x + 127) mod 128, y)
     else if scroll = SCROLL_LEFT \<and> within (oled_pages d) start end' (y div 8) then (Suc x mod 128, y)
     else (x, y))"

text \<open>The byte that comes to a place.\<close>

definition wrapped_byte :: "scroll_type \<Rightarrow> int \<Rightarrow> int \<Rightarrow> oled \<Rightarrow> nat \<Rightarrow> nat \<Rightarrow> u8" where
  "wrapped_byte scroll start end' d p s = (let n = nat (oled_pages d) in case scroll of
     SCROLL_RIGHT \<Rightarrow> if within (oled_pages d) start end' p then byte_at d p ((s + 127) mod 128) else byte_at d p s
   | SCROLL_LEFT \<Rightarrow> if within (oled_pages d) start end' p then byte_at d p (Suc s mod 128) else byte_at d p s
   | SCROLL_UP \<Rightarrow> if p < n \<and> within (oled_width d) start end' s
       then up_byte (oled_flip d) (byte_at d p s) (byte_at d (Suc p mod n) s) else byte_at d p s
   | SCROLL_DOWN \<Rightarrow> if p < n \<and> within (oled_width d) start end' s
       then down_byte (oled_flip d) (byte_at d p s) (byte_at d ((p + n - 1) mod n) s) else byte_at d p s
   | SCROLL_STOP \<Rightarrow> byte_at d p s)"

lemma wrap_bytes:
  assumes wf: "wf_oled d" and start: "0 \<le> start"
  shows "\<exists>d'. ssd1306_wrap_arround scroll start end' delay d = Some d' \<and> drawn d d' (wrapped_byte scroll start end' d)"
proof -
  define moved where "moved = (case scroll of
         SCROLL_RIGHT \<Rightarrow> wrap_rows wrap_right_row start end' d
       | SCROLL_LEFT \<Rightarrow> wrap_rows wrap_left_row start end' d
       | SCROLL_UP \<Rightarrow> wrap_up start end' d
       | SCROLL_DOWN \<Rightarrow> wrap_down start end' d
       | SCROLL_STOP \<Rightarrow> Some d)"
  have "\<exists>d1. moved = Some d1 \<and> drawn d d1 (wrapped_byte scroll start end' d)"
  proof (cases scroll)
    case SCROLL_RIGHT
    obtain d1 where "moved = Some d1" and d1: "drawn d d1 (\<lambda>p s.
      if within (oled_pages d) start end' p then wrap_right_row (oled_page d ! p) ! s else byte_at d p s)"
      using wrap_rows_ok [OF assms, of wrap_right_row end'] by (auto simp: SCROLL_RIGHT moved_def wrap_right_row)
    moreover have "drawn d d1 (wrapped_byte scroll start end' d)"
      by (rule drawn_cong [OF d1]) (simp add: SCROLL_RIGHT wrapped_byte_def wrap_right_row row_len [OF wf] byte_at_def)
    ultimately show ?thesis by blast
  next
    case SCROLL_LEFT
    obtain d1 where "moved = Some d1" and d1: "drawn d d1 (\<lambda>p s.
      if within (oled_pages d) start end' p then wrap_left_row (oled_page d ! p) ! s else byte_at d p s)"
      using wrap_rows_ok [OF assms, of wrap_left_row end'] by (auto simp: SCROLL_LEFT moved_def wrap_left_row)
    moreover have "drawn d d1 (wrapped_byte scroll start end' d)"
      by (rule drawn_cong [OF d1]) (simp add: SCROLL_LEFT wrapped_byte_def wrap_left_row row_len [OF wf] byte_at_def)
    ultimately show ?thesis by blast
  next
    case SCROLL_UP
    show ?thesis using wrap_up_ok [OF assms, of end']
      by (simp add: SCROLL_UP moved_def) (erule exE, erule conjE, rule exI, erule conjI, erule drawn_cong, simp add: wrapped_byte_def Let_def)
  next
    case SCROLL_DOWN
    show ?thesis using wrap_down_ok [OF assms, of end']
      by (simp add: SCROLL_DOWN moved_def) (erule exE, erule conjE, rule exI, erule conjI, erule drawn_cong, simp add: wrapped_byte_def Let_def)
  next
    case SCROLL_STOP
    have "drawn d d (wrapped_byte SCROLL_STOP start end' d)"
      by (rule drawn_cong [OF drawn_refl [OF wf]]) (simp add: wrapped_byte_def)
    then show ?thesis by (simp add: SCROLL_STOP moved_def)
  qed
  then obtain d1 where d1: "moved = Some d1" "drawn d d1 (wrapped_byte scroll start end' d)" by blast
  have wf1: "wf_oled d1" using drawnD [OF d1(2)] by simp
  obtain d2 where d2: "(if 0 \<le> delay then each (\<lambda>page d. do { r \<leftarrow> row page d; drive page 0 r 128 d }) [0..oled_pages d1 - 1] d1
     else Some d1) = Some d2" "drawn d1 d2 (byte_at d1)"
    using show_rows_ok [OF wf1, of "oled_pages d1" "\<lambda>_. 128"] drawn_refl [OF wf1] by (cases "0 \<le> delay") auto
  have "ssd1306_wrap_arround scroll start end' delay d = Some d2"
    using d1(1) d2(1) by (simp add: ssd1306_wrap_arround_def moved_def [symmetric])
  moreover have "drawn d d2 (wrapped_byte scroll start end' d)"
    by (rule drawn_cong [OF drawn_trans [OF d1(2) d2(2)]]) (simp add: drawn_byte [OF d1(2)])
  ultimately show ?thesis by blast
qed

lemma page_of_next:
  fixes y :: nat
  assumes "0 < n" and "y < 8 * n"
  shows "(Suc y mod (8 * n)) div 8 = (if y mod 8 < 7 then y div 8 else Suc (y div 8) mod n)"
    and "(Suc y mod (8 * n)) mod 8 = (if y mod 8 < 7 then Suc (y mod 8) else 0)"
    and "((y + 8 * n - 1) mod (8 * n)) div 8 = (if 0 < y mod 8 then y div 8 else (y div 8 + n - 1) mod n)"
    and "((y + 8 * n - 1) mod (8 * n)) mod 8 = (if 0 < y mod 8 then y mod 8 - 1 else 7)"
proof -
  define p k where "p = y div 8" and "k = y mod 8"
  have y: "y = 8 * p + k" "k < 8" "p < n" using assms by (auto simp: p_def k_def)
  have nxt: "Suc y mod (8 * n) = (if k < 7 then 8 * p + Suc k else 8 * (Suc p mod n))"
  proof (cases "k < 7")
    case True
    then show ?thesis using y by (simp add: mod_less)
  next
    case False
    then have "Suc y = 8 * Suc p" using y by simp
    then show ?thesis using False by (simp only: mult_mod_right [symmetric]) simp
  qed
  show "(Suc y mod (8 * n)) div 8 = (if y mod 8 < 7 then y div 8 else Suc (y div 8) mod n)"
    and "(Suc y mod (8 * n)) mod 8 = (if y mod 8 < 7 then Suc (y mod 8) else 0)"
    unfolding nxt p_def [symmetric] k_def [symmetric] using y(2) by auto
  have m: "(8 * m + 7) mod (8 * n) = 8 * (m mod n) + 7" for m
  proof -
    have "m = n * (m div n) + m mod n" by simp
    then have "8 * m + 7 = (8 * (m mod n) + 7) + 8 * n * (m div n)" by (simp only: mult.assoc)
    moreover have "8 * (m mod n) + 7 < 8 * n" using mod_less_divisor [OF assms(1), of m] by simp
    ultimately show ?thesis by (simp only: mod_mult_self2 mod_less)
  qed
  have prv: "(y + 8 * n - 1) mod (8 * n) = (if 0 < k then 8 * p + (k - 1) else 8 * ((p + n - 1) mod n) + 7)"
  proof (cases "0 < k")
    case True
    then have "y + 8 * n - 1 = 8 * p + (k - 1) + 8 * n" using y by simp
    moreover have "8 * p + (k - 1) < 8 * n" using y by simp
    ultimately have "(y + 8 * n - 1) mod (8 * n) = 8 * p + (k - 1)" by (simp only: mod_add_self2 mod_less)
    then show ?thesis using True by (simp only: if_True)
  next
    case False
    then have "y + 8 * n - 1 = 8 * (p + n - 1) + 7" using y assms by (simp add: algebra_simps)
    moreover have "(8 * (p + n - 1) + 7) mod (8 * n) = 8 * ((p + n - 1) mod n) + 7" by (rule m)
    ultimately show ?thesis using False by simp
  qed
  show "((y + 8 * n - 1) mod (8 * n)) div 8 = (if 0 < y mod 8 then y div 8 else (y div 8 + n - 1) mod n)"
    and "((y + 8 * n - 1) mod (8 * n)) mod 8 = (if 0 < y mod 8 then y mod 8 - 1 else 7)"
    unfolding prv p_def [symmetric] k_def [symmetric] using y(2) by (cases k; simp)+
qed

lemma wrap_pixels:
  assumes wf: "wf_oled d" and "0 \<le> start" and xy: "x < 128" "y < 8 * nat (oled_pages d)" and d': "drawn d d' (wrapped_byte scroll start end' d)"
  shows "pixel_on d' x y = (case wrap_source scroll start end' d x y of (x', y') \<Rightarrow> pixel_on d x' y')"
proof -
  have n: "0 < nat (oled_pages d)" "y div 8 < nat (oled_pages d)" "y div 8 < 8"
    using wf xy by (auto simp: wf_oled_def)
  note d'_byte = drawn_byte [OF d' n(3) xy(1)]
  note bits = bit_up_byte [of "y mod 8" "oled_flip d"] bit_down_byte [of "y mod 8" "oled_flip d"]
  show ?thesis
    unfolding pixel_on_def d'_byte using drawnD [OF d'] n
    by (cases scroll) (auto simp: wrapped_byte_def wrap_source_def Let_def page_of_next [OF n(1) xy(2), unfolded One_nat_def] bits)
qed

fun opposite :: "scroll_type \<Rightarrow> scroll_type" where
  "opposite SCROLL_RIGHT = SCROLL_LEFT"
| "opposite SCROLL_LEFT = SCROLL_RIGHT"
| "opposite SCROLL_UP = SCROLL_DOWN"
| "opposite SCROLL_DOWN = SCROLL_UP"
| "opposite SCROLL_STOP = SCROLL_STOP"

lemma less_8_cases: "(k :: nat) < 8 \<Longrightarrow> k = 0 \<or> k = 1 \<or> k = 2 \<or> k = 3 \<or> k = 4 \<or> k = 5 \<or> k = 6 \<or> k = 7"
  by arith

lemma bit_up_down:
  assumes "k < 8"
  shows "bit (up_byte False a b) k \<longleftrightarrow> (if k < 7 then bit a (Suc k) else bit b 0)"
    and "bit (down_byte False a b) k \<longleftrightarrow> (if 0 < k then bit a (k - 1) else bit b 7)"
    and "bit (up_byte True a b) k \<longleftrightarrow> (if 0 < k then bit a (k - 1) else bit b 7)"
    and "bit (down_byte True a b) k \<longleftrightarrow> (if k < 7 then bit a (Suc k) else bit b 0)"
proof -
  show "bit (up_byte False a b) k \<longleftrightarrow> (if k < 7 then bit a (Suc k) else bit b 0)"
    using bit_up_byte [OF assms, of False a b] by simp
  show "bit (down_byte False a b) k \<longleftrightarrow> (if 0 < k then bit a (k - 1) else bit b 7)"
    using bit_down_byte [OF assms, of False a b] by simp
  show "bit (up_byte True a b) k \<longleftrightarrow> (if 0 < k then bit a (k - 1) else bit b 7)"
    using less_8_cases [OF assms] bit_up_byte [of "7 - k" True a b] by (elim disjE) simp_all
  show "bit (down_byte True a b) k \<longleftrightarrow> (if k < 7 then bit a (Suc k) else bit b 0)"
    using less_8_cases [OF assms] bit_down_byte [of "7 - k" True a b] by (elim disjE) (simp_all add: numeral_eq_Suc)
qed

lemma down_up: "down_byte f (up_byte f a b) (up_byte f c a) = a"
proof (rule u8_eqI)
  fix k :: nat assume k: "k < 8"
  show "bit (down_byte f (up_byte f a b) (up_byte f c a)) k = bit a k"
  proof (cases f)
    case True
    then show ?thesis using k bit_up_down(4) [OF k, of "up_byte f a b" "up_byte f c a"]
      bit_up_down(3) [of "Suc k" a b] bit_up_down(3) [of 0 c a] by (cases "k = 7") simp_all
  next
    case False
    then show ?thesis using k bit_up_down(2) [OF k, of "up_byte f a b" "up_byte f c a"]
      bit_up_down(1) [of "k - 1" a b] bit_up_down(1) [of 7 c a] by (cases k) simp_all
  qed
qed

lemma up_down: "up_byte f (down_byte f a b) (down_byte f c a) = a"
proof (rule u8_eqI)
  fix k :: nat assume k: "k < 8"
  show "bit (up_byte f (down_byte f a b) (down_byte f c a)) k = bit a k"
  proof (cases f)
    case True
    then show ?thesis using k bit_up_down(3) [OF k, of "down_byte f a b" "down_byte f c a"]
      bit_up_down(4) [of "k - 1" a b] bit_up_down(4) [of 7 c a] by (cases k) simp_all
  next
    case False
    then show ?thesis using k bit_up_down(1) [OF k, of "down_byte f a b" "down_byte f c a"]
      bit_up_down(2) [of "Suc k" a b] bit_up_down(2) [of 0 c a] by (cases "k = 7") simp_all
  qed
qed

lemma next_prev:
  assumes "p < (n :: nat)"
  shows "Suc ((p + n - 1) mod n) mod n = p" and "(Suc p mod n + n - 1) mod n = p"
    and "(p + n - 1) mod n < n" and "Suc p mod n < n"
proof -
  have "(p + n - 1) mod n = (if p = 0 then n - 1 else p - 1)"
  proof (cases p)
    case (Suc q)
    then have "p + n - 1 = q + n" by simp
    then show ?thesis using Suc assms by simp
  qed (use assms in simp)
  then show "Suc ((p + n - 1) mod n) mod n = p" and "(p + n - 1) mod n < n" using assms by auto
  show "(Suc p mod n + n - 1) mod n = p" using assms by (auto simp: mod_Suc)
  show "Suc p mod n < n" using assms by simp
qed

lemma wrapped_back:
  assumes "drawn d d' (wrapped_byte scroll start end' d)" and "p < 8" and "s < 128" and wf: "wf_oled d"
  shows "wrapped_byte (opposite scroll) start end' d' p s = byte_at d p s"
proof -
  have n: "nat (oled_pages d) \<le> 8" using wf by (auto simp: wf_oled_def)
  have b: "byte_at d' q r = wrapped_byte scroll start end' d q r" if "q < 8" "r < 128" for q r
    using drawn_byte [OF assms(1) that] .
  have c: "(s + 127) mod 128 < 128" "Suc s mod 128 < 128" "Suc ((s + 127) mod 128) mod 128 = s" "(Suc s mod 128 + 127) mod 128 = s"
    using assms(3) by (auto simp: mod_if)
  define n where "n = nat (oled_pages d)"
  have n': "nat (oled_pages d') = n" "oled_flip d' = oled_flip d" "oled_pages d' = oled_pages d" "oled_width d' = oled_width d"
    using drawnD [OF assms(1)] by (simp_all add: n_def)
  have vertical: "byte_at d' q s = wrapped_byte scroll start end' d q s" if "q < n" for q
    using that n assms(3) by (intro b) (simp_all add: n_def)
  show ?thesis
  proof (cases scroll)
    case SCROLL_UP
    show ?thesis
    proof (cases "p < n \<and> within (oled_width d) start end' s")
      case True
      note m = next_prev [OF conjunct1 [OF True]]
      have "wrapped_byte (opposite scroll) start end' d' p s =
          down_byte (oled_flip d) (byte_at d' p s) (byte_at d' ((p + n - 1) mod n) s)"
        using True by (simp only: SCROLL_UP opposite.simps wrapped_byte_def Let_def n' n_def [symmetric] scroll_type.case simp_thms if_True)
      also have "byte_at d' ((p + n - 1) mod n) s = up_byte (oled_flip d) (byte_at d ((p + n - 1) mod n) s) (byte_at d p s)"
        using True m unfolding vertical [OF m(3)] by (simp only: SCROLL_UP wrapped_byte_def Let_def n_def [symmetric] scroll_type.case) simp
      also have "byte_at d' p s = up_byte (oled_flip d) (byte_at d p s) (byte_at d (Suc p mod n) s)"
        using True unfolding vertical [OF conjunct1 [OF True]]
        by (simp only: SCROLL_UP wrapped_byte_def Let_def n_def [symmetric] scroll_type.case simp_thms if_True)
      finally show ?thesis by (simp only: down_up)
    next
      case False
      then show ?thesis using b [OF assms(2,3)]
        by (simp only: SCROLL_UP opposite.simps wrapped_byte_def Let_def n' n_def [symmetric] scroll_type.case if_False)
    qed
  next
    case SCROLL_DOWN
    show ?thesis
    proof (cases "p < n \<and> within (oled_width d) start end' s")
      case True
      note m = next_prev [OF conjunct1 [OF True]]
      have "wrapped_byte (opposite scroll) start end' d' p s =
          up_byte (oled_flip d) (byte_at d' p s) (byte_at d' (Suc p mod n) s)"
        using True by (simp only: SCROLL_DOWN opposite.simps wrapped_byte_def Let_def n' n_def [symmetric] scroll_type.case simp_thms if_True)
      also have "byte_at d' (Suc p mod n) s = down_byte (oled_flip d) (byte_at d (Suc p mod n) s) (byte_at d p s)"
        using True m unfolding vertical [OF m(4)] by (simp only: SCROLL_DOWN wrapped_byte_def Let_def n_def [symmetric] scroll_type.case) simp
      also have "byte_at d' p s = down_byte (oled_flip d) (byte_at d p s) (byte_at d ((p + n - 1) mod n) s)"
        using True unfolding vertical [OF conjunct1 [OF True]]
        by (simp only: SCROLL_DOWN wrapped_byte_def Let_def n_def [symmetric] scroll_type.case simp_thms if_True)
      finally show ?thesis by (simp only: up_down)
    next
      case False
      then show ?thesis using b [OF assms(2,3)]
        by (simp only: SCROLL_DOWN opposite.simps wrapped_byte_def Let_def n' n_def [symmetric] scroll_type.case if_False)
    qed
  qed (use assms(2,3) c n' in \<open>simp_all add: wrapped_byte_def b\<close>)
qed

lemma bytes_eq_pages:
  assumes "wf_oled d" and "wf_oled d'" and "\<And>p s. p < 8 \<Longrightarrow> s < 128 \<Longrightarrow> byte_at d' p s = byte_at d p s"
  shows "oled_page d' = oled_page d"
proof (rule nth_equalityI)
  show "length (oled_page d') = length (oled_page d)" using assms by (simp add: wf_oled_def)
  fix p assume "p < length (oled_page d')"
  then have p: "p < 8" using assms by (simp add: wf_oled_def)
  show "oled_page d' ! p = oled_page d ! p"
    using assms(3) [OF p] row_len [OF assms(1) p] row_len [OF assms(2) p] by (intro nth_equalityI) (auto simp: byte_at_def)
qed

text \<open>
  C0: \<^verbatim>\<open>ssd1306_wrap_arround\<close> moves pixels around: on a display in use and from a place that is not
  negative it returns, and every pixel of the display is the one at the source of its place, whether
  the display is flipped or not.
\<close>

theorem wrap_around_moves:
  assumes "wf_oled d" and "0 \<le> start"
  shows "\<exists>d'. ssd1306_wrap_arround scroll start end' delay d = Some d' \<and> same_oled d d' \<and>
    (\<forall>x < 128. \<forall>y < 8 * nat (oled_pages d).
       pixel_on d' x y = (case wrap_source scroll start end' d x y of (x', y') \<Rightarrow> pixel_on d x' y'))"
  using wrap_bytes [OF assms, of scroll end' delay] wrap_pixels [OF assms] by (auto simp: drawn_def)

text \<open>
  Moving back undoes a move: \<^verbatim>\<open>ssd1306_wrap_arround\<close> and then the same with the opposite
  direction leave the buffer as it was.
\<close>

theorem wrap_around_back:
  assumes "wf_oled d" and "0 \<le> start"
  shows "\<exists>d1 d2. ssd1306_wrap_arround scroll start end' delay d = Some d1 \<and>
    ssd1306_wrap_arround (opposite scroll) start end' delay' d1 = Some d2 \<and> oled_page d2 = oled_page d"
proof -
  obtain d1 where d1: "ssd1306_wrap_arround scroll start end' delay d = Some d1" "drawn d d1 (wrapped_byte scroll start end' d)"
    using wrap_bytes [OF assms] by blast
  have wf1: "wf_oled d1" using drawnD [OF d1(2)] by simp
  obtain d2 where d2: "ssd1306_wrap_arround (opposite scroll) start end' delay' d1 = Some d2"
    "drawn d1 d2 (wrapped_byte (opposite scroll) start end' d1)" using wrap_bytes [OF wf1 assms(2)] by blast
  have "oled_page d2 = oled_page d"
    using drawnD [OF d2(2)] by (intro bytes_eq_pages assms)
      (simp_all add: drawn_byte [OF d2(2)] wrapped_back [OF d1(2) _ _ assms(1)])
  with d1 d2 show ?thesis by blast
qed

theorem wrap_around_moves_witness:
  "\<exists>d'. ssd1306_wrap_arround SCROLL_UP 3 200 0 (dark_oled True) = Some d' \<and> same_oled (dark_oled True) d' \<and>
    (\<forall>x < 128. \<forall>y < 8 * nat (oled_pages (dark_oled True)). pixel_on d' x y =
       (case wrap_source SCROLL_UP 3 200 (dark_oled True) x y of (x', y') \<Rightarrow> pixel_on (dark_oled True) x' y'))"
  by (rule wrap_around_moves [OF wf_dark_oled]) simp

theorem wrap_around_back_witness:
  "\<exists>d1 d2. ssd1306_wrap_arround SCROLL_LEFT 2 5 0 (dark_oled False) = Some d1 \<and>
    ssd1306_wrap_arround SCROLL_RIGHT 2 5 (-1) d1 = Some d2 \<and> oled_page d2 = oled_page (dark_oled False)"
  using wrap_around_back [OF wf_dark_oled, of 2 SCROLL_LEFT 5 0 False "-1"] by simp

end
