(* ===== verification/SsdDraw.thy ===== *)
theory SsdDraw
  imports SsdPixels
begin

text \<open>
  Pixels, lines and bitmaps on the display: the byte that a pixel changes, the points of a line with
  its rounding, and the rectangle under a bitmap.
\<close>

subsection \<open>Pixels and lines\<close>

lemma sdiv_8: "(int y) sdiv 8 = int (y div 8)" "(int y) smod 8 = int (y mod 8)"
  by (simp_all add: signed_divide_int_def signed_modulo_int_def zdiv_int zmod_int sgn_if)

lemma uint_word_of_nat_u8: "n < 256 \<Longrightarrow> uint (word_of_int (int n) :: u8) = int n"
  by (simp add: unsigned_of_nat take_bit_nat_eq_self_iff)

lemma bit_mask_ok: "k < 8 \<Longrightarrow> bit_mask (int k) = Some (push_bit k 1)"
  by (simp add: bit_mask_def)

lemma bit_1_shifted: "k < 8 \<Longrightarrow> bit (2 ^ k :: u8) n \<longleftrightarrow> n = k"
  by (auto simp: bit_exp_iff possible_bit_def)

text \<open>The byte that \<^verbatim>\<open>_ssd1306_pixel\<close> stores.\<close>

definition pixel_byte :: "bool \<Rightarrow> bool \<Rightarrow> nat \<Rightarrow> u8 \<Rightarrow> u8" where
  "pixel_byte flp invert k b = (let b = (if invert then b AND NOT (push_bit k 1) else b OR push_bit k 1) in
     if flp then ssd1306_rotate_byte b else b)"

lemma pixel_ok:
  assumes "wf_oled d" and "x < 128" and "y < 64"
  shows "ssd1306_pixel (int x) (int y) invert d =
    Some (set_byte (y div 8) x (pixel_byte (oled_flip d) invert (y mod 8) (byte_at d (y div 8) x)) d)"
proof -
  have p: "y div 8 < 8" using assms by simp
  have u: "uint (word_of_int (int (y div 8)) :: u8) = int (y div 8)" "uint (word_of_int (int (y mod 8)) :: u8) = int (y mod 8)"
    "uint (word_of_int (int x) :: u8) = int x"
    using assms by (intro uint_word_of_nat_u8; simp)+
  have m: "bit_mask (int (y mod 8)) = Some (push_bit (y mod 8) 1)" by (simp add: bit_mask_ok)
  show ?thesis unfolding ssd1306_pixel_def sdiv_8 Let_def u m
    using assms p by (simp add: cell_ok copy_byte pixel_byte_def Let_def)
qed

lemma pixel_on_set:
  assumes "wf_oled d" and "x < 128" and "y < 64" and "x' < 128" and "y' < 64"
  shows "pixel_on (set_byte (y div 8) x b d) x' y' \<longleftrightarrow>
    (if x' = x \<and> y' div 8 = y div 8 then bit b (if oled_flip d then 7 - y' mod 8 else y' mod 8) else pixel_on d x' y')"
proof -
  have "oled_flip (set_byte (y div 8) x b d) = oled_flip d" by (simp add: set_byte_def)
  then show ?thesis using assms by (simp add: pixel_on_def byte_set_byte)
qed

lemma bit_pixel_byte:
  assumes "k < 8" and "n < 8"
  shows "bit (pixel_byte False invert k b) n \<longleftrightarrow> (if n = k then \<not> invert else bit b n)"
    and "bit (pixel_byte True invert k b) (7 - n) \<longleftrightarrow> (if n = k then \<not> invert else bit b n)"
  using assms by (auto simp: pixel_byte_def Let_def bit_or_iff bit_and_iff bit_not_iff bit_1_shifted possible_bit_def)

lemma same_div_mod: "y' div 8 = y div 8 \<Longrightarrow> y' mod 8 = y mod 8 \<longleftrightarrow> y' = (y :: nat)"
  by (metis div_mult_mod_eq)

lemma pixel_draws:
  assumes "wf_oled d" and "\<not> oled_flip d" and xy: "x < 128" "y < 64"
  shows "\<exists>d'. ssd1306_pixel (int x) (int y) invert d = Some d' \<and> same_oled d d' \<and>
    (\<forall>x' < 128. \<forall>y' < 64. pixel_on d' x' y' \<longleftrightarrow> (if x' = x \<and> y' = y then \<not> invert else pixel_on d x' y'))"
  using assms pixel_on_set [OF assms(1) xy] same_set_byte [OF assms(1), of "y div 8"]
  by (auto simp: pixel_ok bit_pixel_byte same_div_mod pixel_on_def)

text \<open>
  On a flipped display \<^verbatim>\<open>_ssd1306_pixel\<close> sets the pixel, but reverses the other seven pixels of
  its byte, because the byte is not turned before the bit is set.
\<close>

theorem pixel_mirrors_when_flipped:
  assumes "wf_oled d" and "oled_flip d" and "x < 128" and "y < 64"
  shows "\<exists>d'. ssd1306_pixel (int x) (int y) invert d = Some d' \<and> same_oled d d' \<and>
    (\<forall>x' < 128. \<forall>y' < 64. pixel_on d' x' y' \<longleftrightarrow>
       (if x' = x \<and> y' = y then \<not> invert
        else if x' = x \<and> y' div 8 = y div 8 then pixel_on d x' (8 * (y' div 8) + (7 - y' mod 8))
        else pixel_on d x' y'))"
proof -
  let ?b = "pixel_byte (oled_flip d) invert (y mod 8) (byte_at d (y div 8) x)"
  have m: "(8 * q + 7 - k) div 8 = q \<and> (8 * q + 7 - k) mod 8 = 7 - k" if "k < 8" for q k :: nat
    using that by presburger
  have "pixel_on (set_byte (y div 8) x ?b d) x' y' \<longleftrightarrow> (if x' = x \<and> y' = y then \<not> invert
        else if x' = x \<and> y' div 8 = y div 8 then pixel_on d x' (8 * (y' div 8) + (7 - y' mod 8))
        else pixel_on d x' y')" if "x' < 128" "y' < 64" for x' y'
    unfolding pixel_on_set [OF assms(1,3,4) that] using assms that bit_pixel_byte(2) [of "y mod 8" "y' mod 8"] same_div_mod [of y' y]
    by (auto simp: pixel_on_def m [OF mod_less_divisor])
  then show ?thesis using assms same_set_byte [OF assms(1), of "y div 8"] by (auto simp: pixel_ok)
qed

text \<open>The loop of a line, for either axis as the longer one.\<close>

definition line_walk :: "int \<Rightarrow> int \<Rightarrow> int \<Rightarrow> int \<Rightarrow> (int \<Rightarrow> int \<Rightarrow> oled \<Rightarrow> oled option) \<Rightarrow> int \<times> int \<times> int \<times> oled \<Rightarrow> (int \<times> int \<times> int \<times> oled) option" where
  "line_walk n m sa sb put = (\<lambda>(a, b, E, d). do {
     d' \<leftarrow> put a b d;
     a \<leftarrow> i32 (a + sa);
     m2 \<leftarrow> i32 (2 * m);
     E \<leftarrow> i32 (E + m2);
     if 0 \<le> E then do { b \<leftarrow> i32 (b + sb); n2 \<leftarrow> i32 (2 * n); E \<leftarrow> i32 (E - n2); Some (a, b, E, d') }
     else Some (a, b, E, d') })"

definition swap_xy :: "int \<times> int \<times> 'a \<Rightarrow> int \<times> int \<times> 'a" where
  "swap_xy = (\<lambda>(a, b, r). (b, a, r))"

lemma line_x_walk: "line_x dx dy sx sy invert = line_walk dx dy sx sy (\<lambda>x y. ssd1306_pixel x y invert)"
  by (simp add: line_x_def line_walk_def fun_eq_iff)

lemma line_y_walk: "line_y dx dy sx sy invert (swap_xy s) =
    map_option swap_xy (line_walk dy dx sy sx (\<lambda>y x. ssd1306_pixel x y invert) s)"
  by (auto simp: line_y_def line_walk_def swap_xy_def split: prod.splits bind_splits)

lemma each_swap:
  assumes "\<And>x s. f x (g s) = map_option g (f' x s)"
  shows "each f xs (g s) = map_option g (each f' xs s)"
  by (induction xs arbitrary: s) (auto simp: assms split: bind_splits)

text \<open>The step along the shorter axis after \<open>i\<close> steps: \<open>m * i / n\<close>, rounded.\<close>

definition minor :: "int \<Rightarrow> int \<Rightarrow> int \<Rightarrow> int" where
  "minor n m i = (2 * m * i + n) div (2 * n)"

lemma minor_next:
  assumes "0 < n" and "0 \<le> m" and "m \<le> n"
  defines "E \<equiv> \<lambda>i. 2 * m * i + n - 2 * n * minor n m i - 2 * n"
  shows "minor n m (i + 1) = (if 0 \<le> E i + 2 * m then minor n m i + 1 else minor n m i)"
    and "- (2 * n) \<le> E i" and "E i < 0"
proof -
  have s: "2 * m * (i + 1) + n = 2 * m * i + n + 2 * m" by (simp add: algebra_simps)
  have d: "2 * n * minor n m i + (2 * m * i + n) mod (2 * n) = 2 * m * i + n"
    by (simp add: minor_def mult_div_mod_eq)
  have r: "0 \<le> (2 * m * i + n) mod (2 * n)" "(2 * m * i + n) mod (2 * n) < 2 * n" using assms(1) by simp_all
  then show "- (2 * n) \<le> E i" and "E i < 0" using d by (simp_all add: E_def)
  define q where "q = minor n m i"
  have e: "0 \<le> 2 * m * i + n - 2 * n * q" "2 * m * i + n - 2 * n * q < 2 * n" using d r by (simp_all add: q_def)
  show "minor n m (i + 1) = (if 0 \<le> E i + 2 * m then minor n m i + 1 else minor n m i)"
  proof (cases "0 \<le> E i + 2 * m")
    case True
    have "(2 * m * i + n + 2 * m) div (2 * n) = q + 1"
      by (rule int_div_pos_eq [of _ _ _ "2 * m * i + n + 2 * m - 2 * n * (q + 1)"])
        (use True e assms in \<open>simp_all add: E_def q_def [symmetric] algebra_simps\<close>)
    with True s show ?thesis by (simp only: minor_def q_def if_True)
  next
    case False
    have "(2 * m * i + n + 2 * m) div (2 * n) = q"
      by (rule int_div_pos_eq [of _ _ _ "2 * m * i + n + 2 * m - 2 * n * q"])
        (use False e assms in \<open>simp_all add: E_def q_def [symmetric] algebra_simps\<close>)
    with False s show ?thesis by (simp only: minor_def q_def if_False)
  qed
qed

lemma i32_small: "\<bar>i\<bar> < 2 ^ 20 \<Longrightarrow> i32 i = Some i"
  by (simp add: i32_def abs_less_iff)

lemma line_walk_loop:
  assumes n: "0 < n" "n < 1000" and m: "0 \<le> m" "m \<le> n" and ab: "\<bar>a\<bar> < 1000" "\<bar>b\<bar> < 1000" "\<bar>sa\<bar> = 1" "\<bar>sb\<bar> = 1"
    and Q0: "Q 0 d"
    and put: "\<And>i d. 0 \<le> i \<Longrightarrow> i \<le> n \<Longrightarrow> Q i d \<Longrightarrow> \<exists>d'. put (a + sa * i) (b + sb * minor n m i) d = Some d' \<and> Q (i + 1) d'"
  shows "\<exists>a' b' E' d'. each (\<lambda>_. line_walk n m sa sb put) [0..n] (a, b, - n, d) = Some (a', b', E', d') \<and> Q (n + 1) d'"
proof -
  let ?E = "\<lambda>i. 2 * m * i + n - 2 * n * minor n m i - 2 * n"
  let ?P = "\<lambda>i s. \<exists>d. s = (a + sa * i, b + sb * minor n m i, ?E i, d) \<and> Q i d \<and> 0 \<le> minor n m i \<and> minor n m i \<le> i"
  have "\<exists>s'. each (\<lambda>_. line_walk n m sa sb put) [0..n] (a, b, - n, d) = Some s' \<and> ?P (n + 1) s'"
  proof (rule each_upto)
    show "?P 0 (a, b, - n, d)" using n Q0 by (simp add: minor_def)
    fix i s assume i: "0 \<le> i" "i \<le> n" and "?P i s"
    then obtain d1 where s: "s = (a + sa * i, b + sb * minor n m i, ?E i, d1)" and Q: "Q i d1"
      and j: "0 \<le> minor n m i" "minor n m i \<le> i" by blast
    obtain d2 where d2: "put (a + sa * i) (b + sb * minor n m i) d1 = Some d2" "Q (i + 1) d2" using put [OF i Q] by blast
    note nx = minor_next [OF n(1) m, of i]
    have E: "?E (i + 1) = (if 0 \<le> ?E i + 2 * m then ?E i + 2 * m - 2 * n else ?E i + 2 * m)"
      using nx(1) by (simp add: algebra_simps)
    have a': "a + sa * i + sa = a + sa * (i + 1)" by (simp add: algebra_simps)
    have b': "b + sb * minor n m i + sb = b + sb * (minor n m i + 1)" by (simp add: algebra_simps)
    have sa: "sa = 1 \<or> sa = -1" and sb: "sb = 1 \<or> sb = -1" using ab by arith+
    have "\<bar>a + sa * i + sa\<bar> < 2 ^ 20" using sa i n ab by auto
    moreover have "\<bar>b + sb * minor n m i + sb\<bar> < 2 ^ 20" using sb i j n ab by auto
    moreover have "\<bar>2 * m\<bar> < 2 ^ 20" "\<bar>2 * n\<bar> < 2 ^ 20" "\<bar>?E i + 2 * m\<bar> < 2 ^ 20" "\<bar>?E i + 2 * m - 2 * n\<bar> < 2 ^ 20"
      using n m nx(2,3) by auto
    ultimately have w: "line_walk n m sa sb put s = (if 0 \<le> ?E i + 2 * m
        then Some (a + sa * (i + 1), b + sb * (minor n m i + 1), ?E i + 2 * m - 2 * n, d2)
        else Some (a + sa * (i + 1), b + sb * minor n m i, ?E i + 2 * m, d2))"
      unfolding s line_walk_def prod.case d2(1) by (simp only: i32_small bind.bind_lunit a' b')
    show "\<exists>s'. line_walk n m sa sb put s = Some s' \<and> ?P (i + 1) s'"
    proof (cases "0 \<le> ?E i + 2 * m")
      case True
      then have "minor n m (i + 1) = minor n m i + 1" using nx(1) by (simp only: if_True)
      moreover have "?E (i + 1) = ?E i + 2 * m - 2 * n" using E True by (simp only: if_True)
      ultimately show ?thesis using w True d2(2) j by (simp only: if_True) auto
    next
      case False
      then have "minor n m (i + 1) = minor n m i" using nx(1) by (simp only: if_False)
      moreover have "?E (i + 1) = ?E i + 2 * m" using E False by (simp only: if_False)
      ultimately show ?thesis using w False d2(2) j by (simp only: if_False) auto
    qed
  qed (use n in simp)
  then show ?thesis by blast
qed

lemma minor_range: "0 < n \<Longrightarrow> 0 \<le> m \<Longrightarrow> 0 \<le> i \<Longrightarrow> i \<le> n \<Longrightarrow> 0 \<le> minor n m i \<and> minor n m i \<le> m"
proof -
  assume n: "0 < n" "0 \<le> m" "0 \<le> i" "i \<le> n"
  then have "2 * m * i \<le> 2 * m * n" by (simp add: mult_left_mono)
  then have "2 * m * i + n < 2 * n * (m + 1)" using n by (simp add: algebra_simps)
  moreover have "2 * n * minor n m i \<le> 2 * m * i + n" unfolding minor_def
    using mult_div_mod_eq [of "2 * n" "2 * m * i + n"] pos_mod_sign [of "2 * n" "2 * m * i + n"] n by linarith
  ultimately have "2 * n * minor n m i < 2 * n * (m + 1)" by linarith
  then have "minor n m i < m + 1" using n by (simp only: mult_less_cancel_left_pos)
  moreover have "0 \<le> minor n m i" unfolding minor_def using n by (simp add: pos_imp_zdiv_nonneg_iff)
  ultimately show ?thesis by simp
qed

lemma minor_ends: "0 < n \<Longrightarrow> minor n m 0 = 0 \<and> minor n m n = m"
proof -
  assume n: "0 < n"
  have "(2 * m * n + n) div (2 * n) = m" by (rule int_div_pos_eq [of _ _ _ n]) (use n in auto)
  with n show ?thesis by (simp add: minor_def)
qed

text \<open>The points of the line from \<open>(x1, y1)\<close> to \<open>(x2, y2)\<close>: one for each step along the longer
  axis, rounded along the other one.\<close>

definition line_points :: "int \<Rightarrow> int \<Rightarrow> int \<Rightarrow> int \<Rightarrow> (int \<times> int) list" where
  "line_points x1 y1 x2 y2 = (let dx = \<bar>x2 - x1\<bar>; dy = \<bar>y2 - y1\<bar>;
     sx = (if x1 < x2 then 1 else -1); sy = (if y1 < y2 then 1 else -1) in
     if dy < dx then map (\<lambda>i. (x1 + sx * i, y1 + sy * minor dx dy i)) [0..dx]
     else map (\<lambda>i. (x1 + sx * minor dy dx i, y1 + sy * i)) [0..dy])"

definition lit_after :: "oled \<Rightarrow> bool \<Rightarrow> (int \<times> int) set \<Rightarrow> oled \<Rightarrow> bool" where
  "lit_after d v ps d' \<longleftrightarrow> same_oled d d' \<and>
     (\<forall>x < 128. \<forall>y < 64. pixel_on d' x y \<longleftrightarrow> (if (int x, int y) \<in> ps then v else pixel_on d x y))"

lemma lit_after_pixel:
  assumes "lit_after d v ps d1" and "\<not> oled_flip d" and "0 \<le> x" "x < 128" "0 \<le> y" "y < 64" and "v = (\<not> invert)"
  shows "\<exists>d'. ssd1306_pixel x y invert d1 = Some d' \<and> lit_after d v (insert (x, y) ps) d'"
proof -
  have d1: "wf_oled d1" "\<not> oled_flip d1" "same_oled d d1" using assms by (auto simp: lit_after_def same_oled_def)
  have xy: "x = int (nat x)" "y = int (nat y)" "nat x < 128" "nat y < 64" using assms by auto
  obtain d' where d': "ssd1306_pixel (int (nat x)) (int (nat y)) invert d1 = Some d'" "same_oled d1 d'"
    "\<And>x' y'. x' < 128 \<Longrightarrow> y' < 64 \<Longrightarrow> pixel_on d' x' y' \<longleftrightarrow> (if x' = nat x \<and> y' = nat y then \<not> invert else pixel_on d1 x' y')"
    using pixel_draws [OF d1(1,2) xy(3,4)] by blast
  have "lit_after d v (insert (x, y) ps) d'"
    using assms d' same_oled_trans [OF d1(3) d'(2)] xy(1,2) by (auto simp: lit_after_def)
  with d'(1) xy show ?thesis by metis
qed

lemma walk_draws:
  assumes wf: "wf_oled d" "\<not> oled_flip d" and n: "0 < n" "n < 128" "0 \<le> m" "m \<le> n" and s: "\<bar>a\<bar> < 1000" "\<bar>b\<bar> < 1000" "\<bar>sa\<bar> = 1" "\<bar>sb\<bar> = 1"
    and pt: "\<And>i. 0 \<le> i \<Longrightarrow> i \<le> n \<Longrightarrow> (case f (a + sa * i) (b + sb * minor n m i) of (x, y) \<Rightarrow> 0 \<le> x \<and> x < 128 \<and> 0 \<le> y \<and> y < 64)"
  shows "\<exists>a' b' E' d'. each (\<lambda>_. line_walk n m sa sb (\<lambda>a b. case f a b of (x, y) \<Rightarrow> ssd1306_pixel x y invert)) [0..n] (a, b, - n, d) = Some (a', b', E', d') \<and>
    lit_after d (\<not> invert) (set (map (\<lambda>i. f (a + sa * i) (b + sb * minor n m i)) [0..n])) d'"
proof -
  let ?Q = "\<lambda>i. lit_after d (\<not> invert) ((\<lambda>i. f (a + sa * i) (b + sb * minor n m i)) ` {0..<i})"
  have "\<exists>a' b' E' d'. each (\<lambda>_. line_walk n m sa sb (\<lambda>a b. case f a b of (x, y) \<Rightarrow> ssd1306_pixel x y invert)) [0..n] (a, b, - n, d) = Some (a', b', E', d') \<and>
    ?Q (n + 1) d'"
  proof (rule line_walk_loop)
    show "?Q 0 d" using wf by (simp add: lit_after_def same_oled_refl)
    fix i d1 assume i: "0 \<le> i" "i \<le> n" and Q: "?Q i d1"
    obtain x y where xy: "f (a + sa * i) (b + sb * minor n m i) = (x, y)" by fastforce
    have "{0..<i + 1} = insert i {0..<i}" using i by auto
    then show "\<exists>d'. (case f (a + sa * i) (b + sb * minor n m i) of (x, y) \<Rightarrow> ssd1306_pixel x y invert) d1 = Some d' \<and> ?Q (i + 1) d'"
      using lit_after_pixel [OF Q wf(2), of x y invert] pt [OF i] by (simp add: xy)
  qed (use n s in auto)
  moreover have "{0..<n + 1} = {0..n}" by auto
  ultimately show ?thesis by simp
qed

text \<open>
  C33: \<^verbatim>\<open>_ssd1306_line\<close> between two places of the buffer of a display that is not flipped draws
  exactly the points of the line, from one end to the other, and never leaves the buffer or the
  range of \<^verbatim>\<open>int\<close>.
\<close>

theorem line_draws:
  assumes "wf_oled d" and "\<not> oled_flip d" and "0 \<le> x1" "x1 < 128" "0 \<le> y1" "y1 < 64" and "0 \<le> x2" "x2 < 128" "0 \<le> y2" "y2 < 64"
  shows "\<exists>d'. ssd1306_line x1 y1 x2 y2 invert d = Some d' \<and> same_oled d d' \<and>
    (\<forall>x < 128. \<forall>y < 64. pixel_on d' x y \<longleftrightarrow>
       (if (int x, int y) \<in> set (line_points x1 y1 x2 y2) then \<not> invert else pixel_on d x y)) \<and>
    (x1, y1) \<in> set (line_points x1 y1 x2 y2) \<and> (x2, y2) \<in> set (line_points x1 y1 x2 y2)"
proof -
  define dx dy where "dx = \<bar>x2 - x1\<bar>" and "dy = \<bar>y2 - y1\<bar>"
  define sx sy :: int where "sx = (if x1 < x2 then 1 else -1)" and "sy = (if y1 < y2 then 1 else -1)"
  have dd: "i32 (if x1 < x2 then x2 - x1 else x1 - x2) = Some dx" "i32 (if y1 < y2 then y2 - y1 else y1 - y2) = Some dy"
    using assms by (auto simp: i32_def dx_def dy_def)
  have ends: "x2 = x1 + sx * dx" "y2 = y1 + sy * dy" by (auto simp: sx_def sy_def dx_def dy_def)
  have sxy: "\<bar>sx\<bar> = 1" "\<bar>sy\<bar> = 1" "0 \<le> dx" "0 \<le> dy" "dx < 128" "dy < 128" using assms by (auto simp: sx_def sy_def dx_def dy_def)
  have on_x: "0 \<le> x1 + sx * i \<and> x1 + sx * i < 128" if "0 \<le> i" "i \<le> dx" for i
    using that assms by (auto simp: sx_def dx_def split: if_splits)
  have on_y: "0 \<le> y1 + sy * i \<and> y1 + sy * i < 64" if "0 \<le> i" "i \<le> dy" for i
    using that assms by (auto simp: sy_def dy_def split: if_splits)
  have pts: "line_points x1 y1 x2 y2 = (if dy < dx then map (\<lambda>i. (x1 + sx * i, y1 + sy * minor dx dy i)) [0..dx]
     else map (\<lambda>i. (x1 + sx * minor dy dx i, y1 + sy * i)) [0..dy])"
    by (simp add: line_points_def Let_def dx_def dy_def sx_def sy_def)
  have "\<exists>d'. ssd1306_line x1 y1 x2 y2 invert d = Some d' \<and> lit_after d (\<not> invert) (set (line_points x1 y1 x2 y2)) d'"
  proof (cases "dy < dx")
    case True
    obtain a' b' E' d' where "each (\<lambda>_. line_x dx dy sx sy invert) [0..dx] (x1, y1, - dx, d) = Some (a', b', E', d')"
      and d': "lit_after d (\<not> invert) (set (line_points x1 y1 x2 y2)) d'"
      using walk_draws [OF assms(1,2), of dx dy x1 y1 sx sy Pair invert] True sxy assms on_x on_y minor_range [of dx dy]
      by (auto simp: line_x_walk pts)
    then have "ssd1306_line x1 y1 x2 y2 invert d = Some d'"
      unfolding ssd1306_line_def dd by (simp add: sx_def [symmetric] sy_def [symmetric] True)
    with d' show ?thesis by blast
  next
    case False
    show ?thesis
    proof (cases "dy = 0")
      case True
      have "x2 = x1" "y2 = y1" "dx = 0" using False True sxy ends by auto
      then have p: "line_points x1 y1 x2 y2 = [(x1, y1)]" unfolding pts using True by (simp add: minor_def)
      have "lit_after d (\<not> invert) {} d" using assms(1) by (simp add: lit_after_def same_oled_refl)
      then obtain d' where d': "ssd1306_pixel x1 y1 invert d = Some d'" "lit_after d (\<not> invert) {(x1, y1)} d'"
        using lit_after_pixel [of d "\<not> invert" "{}" d x1 y1 invert] assms by auto
      have "ssd1306_line x1 y1 x2 y2 invert d = Some d'"
        unfolding ssd1306_line_def dd using d'(1) True \<open>dx = 0\<close> \<open>x2 = x1\<close> \<open>y2 = y1\<close> assms
        by (simp add: line_y_def i32_small)
      with d'(2) p show ?thesis by auto
    next
      case False
      obtain a' b' E' d' where w: "each (\<lambda>_. line_walk dy dx sy sx (\<lambda>a b. case (b, a) of (x, y) \<Rightarrow> ssd1306_pixel x y invert)) [0..dy] (y1, x1, - dy, d) = Some (a', b', E', d')"
        and d': "lit_after d (\<not> invert) (set (line_points x1 y1 x2 y2)) d'"
        using walk_draws [OF assms(1,2), of dy dx y1 x1 sy sx "\<lambda>a b. (b, a)" invert] False \<open>\<not> dy < dx\<close> sxy assms on_x on_y minor_range [of dy dx]
        by (auto simp: pts)
      have "each (\<lambda>_. line_y dx dy sx sy invert) [0..dy] (swap_xy (y1, x1, - dy, d)) = Some (swap_xy (a', b', E', d'))"
        using each_swap [of "\<lambda>_ :: int. line_y dx dy sx sy invert" swap_xy, OF line_y_walk] w by simp
      then have "ssd1306_line x1 y1 x2 y2 invert d = Some d'"
        unfolding ssd1306_line_def dd by (simp add: sx_def [symmetric] sy_def [symmetric] \<open>\<not> dy < dx\<close> swap_xy_def)
      with d' show ?thesis by blast
    qed
  qed
  moreover have "(x1, y1) \<in> set (line_points x1 y1 x2 y2) \<and> (x2, y2) \<in> set (line_points x1 y1 x2 y2)"
  proof (cases "dy < dx")
    case True
    then show ?thesis unfolding pts using sxy minor_ends [of dx dy] ends by (auto intro: rev_image_eqI [of 0] rev_image_eqI [of dx])
  next
    case False
    have "minor dy dx 0 = 0 \<and> minor dy dx dy = dx"
      using False sxy minor_ends [of dy dx] by (cases "dy = 0") (auto simp: minor_def)
    then show ?thesis unfolding pts using sxy False ends by (auto intro: rev_image_eqI [of 0] rev_image_eqI [of dy])
  qed
  ultimately show ?thesis by (auto simp: lit_after_def)
qed

subsection \<open>Bitmaps\<close>

text \<open>The buffer afterwards, given as a function of the place.\<close>

definition shows_pixels :: "oled \<Rightarrow> (nat \<Rightarrow> nat \<Rightarrow> bool) \<Rightarrow> oled \<Rightarrow> bool" where
  "shows_pixels d f d' \<longleftrightarrow> same_oled d d' \<and> (\<forall>x < 128. \<forall>y < 64. pixel_on d' x y \<longleftrightarrow> f x y)"

lemma shows_pixels_cong:
  "shows_pixels d f d' \<Longrightarrow> (\<And>x y. x < 128 \<Longrightarrow> y < 64 \<Longrightarrow> f x y = g x y) \<Longrightarrow> shows_pixels d g d'"
  by (simp add: shows_pixels_def)

text \<open>The bit of a bitmap \<open>w\<close> bytes wide for a place of it.\<close>

definition bitmap_at :: "u8 list \<Rightarrow> nat \<Rightarrow> nat \<Rightarrow> nat \<Rightarrow> bool" where
  "bitmap_at bitmap w c r \<longleftrightarrow> bit (bitmap ! (c div 8 + w * r)) (7 - c mod 8)"

lemma copy_bit_ok:
  assumes "i < 8" and "k < 8"
  shows "\<exists>b. ssd1306_copy_bit src (int i) dst (int k) = Some b \<and> (\<forall>n < 8. bit b n \<longleftrightarrow> (if n = k then bit src i else bit dst n))"
proof -
  have "src AND 2 ^ i \<noteq> 0 \<longleftrightarrow> bit src i"
    using assms by (auto simp: bit_iff_and_push_bit_not_eq_0)
  then show ?thesis using assms
    by (auto simp: ssd1306_copy_bit_def bit_mask_ok bit_or_iff bit_and_iff bit_not_iff bit_1_shifted possible_bit_def)
qed

lemma bitmap_bit_step:
  assumes wf: "wf_oled d" and xy: "x < 128" "y < 64" and j: "j < length bitmap" and i: "i < 8"
  shows "\<exists>d'. bitmap_bit bitmap invert (word_of_int (int (y div 8))) (word_of_int (int (y mod 8))) (int j) (int i) (word_of_int (int x), d) =
      Some (word_of_int (int (Suc x)), d') \<and>
    shows_pixels d (\<lambda>x' y'. if x' = x \<and> y' = y then bit (bitmap ! j) i \<noteq> invert else pixel_on d x' y') d'"
proof -
  have u: "uint (word_of_int (int (y div 8)) :: u8) = int (y div 8)" "uint (word_of_int (int (y mod 8)) :: u8) = int (y mod 8)"
    "uint (word_of_int (int x) :: u8) = int x" "y div 8 < 8"
    using xy by (intro uint_word_of_nat_u8; simp)+ (use xy in simp)
  let ?b = "byte_at d (y div 8) x"
  let ?dst = "if oled_flip d then ssd1306_rotate_byte ?b else ?b"
  let ?src = "if invert then NOT (bitmap ! j) else bitmap ! j"
  obtain b where b: "ssd1306_copy_bit ?src (int i) ?dst (int (y mod 8)) = Some b"
    "\<And>n. n < 8 \<Longrightarrow> bit b n \<longleftrightarrow> (if n = y mod 8 then bit ?src i else bit ?dst n)"
    using copy_bit_ok [of i "y mod 8" ?src ?dst] i by auto
  let ?new = "if oled_flip d then ssd1306_rotate_byte b else b"
  have s: "word_of_int (int x) + 1 = (word_of_int (int (Suc x)) :: u8)" by simp
  have run: "bitmap_bit bitmap invert (word_of_int (int (y div 8))) (word_of_int (int (y mod 8))) (int j) (int i) (word_of_int (int x), d) =
      Some (word_of_int (int (Suc x)), set_byte (y div 8) x ?new d)"
    unfolding bitmap_bit_def prod.case u(1-3) s
    using xy u(4) wf j b(1) by (simp add: cell_ok copy_byte rdi_def rd_in Let_def)
  have new: "bit ?new (if oled_flip d then 7 - n else n) \<longleftrightarrow> (if n = y mod 8 then bit ?src i else bit ?b (if oled_flip d then 7 - n else n))"
    if "n < 8" for n
  proof -
    have "7 - m < (8 :: nat)" for m by simp
    with b(2) [OF that] that show ?thesis by (cases "n = y mod 8"; cases "oled_flip d"; simp)
  qed
  have src: "bit ?src i \<longleftrightarrow> (bit (bitmap ! j) i \<noteq> invert)" using i by (simp add: bit_not_iff possible_bit_def)
  have "pixel_on (set_byte (y div 8) x ?new d) x' y' \<longleftrightarrow> (if x' = x \<and> y' = y then bit (bitmap ! j) i \<noteq> invert else pixel_on d x' y')"
    if "x' < 128" "y' < 64" for x' y'
    unfolding pixel_on_set [OF wf xy that] using new [of "y' mod 8"] same_div_mod [of y' y] src
    by (auto simp: pixel_on_def)
  then show ?thesis using run same_set_byte [OF wf u(4)] by (auto simp: shows_pixels_def)
qed

text \<open>The buffer when the rows below \<open>h\<close> and \<open>c\<close> columns of row \<open>h\<close> of the bitmap are drawn.\<close>

definition bitmap_drawn :: "nat \<Rightarrow> nat \<Rightarrow> u8 list \<Rightarrow> nat \<Rightarrow> bool \<Rightarrow> oled \<Rightarrow> nat \<Rightarrow> nat \<Rightarrow> oled \<Rightarrow> bool" where
  "bitmap_drawn X Y bitmap w invert d h c = shows_pixels d (\<lambda>x y.
     if X \<le> x \<and> x < X + 8 * w \<and> Y \<le> y \<and> (y < Y + h \<or> y = Y + h \<and> x < X + c)
     then bitmap_at bitmap w (x - X) (y - Y) \<noteq> invert else pixel_on d x y)"

lemma bitmap_drawn_wf: "bitmap_drawn X Y bitmap w invert d h c d1 \<Longrightarrow> wf_oled d1"
  by (simp add: bitmap_drawn_def shows_pixels_def same_oled_def)

lemma bitmap_row_ok:
  assumes "X + 8 * w \<le> 128" and y: "Y + h < 64" and len: "w * Suc h \<le> length bitmap"
    and d1: "bitmap_drawn X Y bitmap w invert d h 0 d1"
  shows "\<exists>d2. bitmap_row bitmap invert (int X) (int w)
      (word_of_int (int ((Y + h) div 8)), word_of_int (int ((Y + h) mod 8)), int (w * h), d1) =
      Some (word_of_int (int ((Y + Suc h) div 8)), word_of_int (int ((Y + Suc h) mod 8)), int (w * Suc h), d2) \<and>
    bitmap_drawn X Y bitmap w invert d (Suc h) 0 d2"
proof -
  let ?bit = "\<lambda>index. bitmap_bit bitmap invert (word_of_int (int ((Y + h) div 8))) (word_of_int (int ((Y + h) mod 8))) (index + int (w * h))"
  let ?P = "\<lambda>c s. \<exists>d2. s = (word_of_int (int (X + c)) :: u8, d2) \<and> bitmap_drawn X Y bitmap w invert d h c d2"
  have byte: "\<exists>s'. each (?bit (int k)) [7, 6, 5, 4, 3, 2, 1, 0] s = Some s' \<and> ?P (8 * k + length [7, 6, 5, 4, 3, 2, 1, 0 :: int]) s'"
    if k: "k < w" and s: "?P (8 * k) s" for k s
  proof (rule each_nth [where P = "\<lambda>i. ?P (8 * k + i)"])
    show "?P (8 * k + 0) s" using s by simp
    fix i s assume i: "i < length [7, 6, 5, 4, 3, 2, 1, 0 :: int]" and "?P (8 * k + i) s"
    then obtain d2 where s: "s = (word_of_int (int (X + (8 * k + i))), d2)" and P: "bitmap_drawn X Y bitmap w invert d h (8 * k + i) d2" by blast
    have i8: "i < 8" using i by simp
    have e: "[7, 6, 5, 4, 3, 2, 1, 0 :: int] ! i = int (7 - i)" using less_8_cases [OF i8] by auto
    have j: "int k + int (w * h) = int (k + w * h)" by simp
    have "k + w * h < w * Suc h" using k by simp
    then have jl: "k + w * h < length bitmap" using len by linarith
    have i7: "7 - i < 8" by simp
    have x: "X + (8 * k + i) < 128" using assms(1) k i8 by linarith
    obtain d3 where d3: "?bit (int k) (int (7 - i)) s = Some (word_of_int (int (Suc (X + (8 * k + i)))), d3)"
      "shows_pixels d2 (\<lambda>x' y'. if x' = X + (8 * k + i) \<and> y' = Y + h then bit (bitmap ! (k + w * h)) (7 - i) \<noteq> invert else pixel_on d2 x' y') d3"
      using bitmap_bit_step [OF bitmap_drawn_wf [OF P] x y jl i7, of invert] unfolding s j by blast
    have b: "bitmap_at bitmap w (8 * k + i) h \<longleftrightarrow> bit (bitmap ! (k + w * h)) (7 - i)" using i8 by (simp add: bitmap_at_def)
    have "bitmap_drawn X Y bitmap w invert d h (Suc (8 * k + i)) d3"
      unfolding bitmap_drawn_def
    proof (rule shows_pixels_cong)
      show "shows_pixels d (\<lambda>x' y'. if x' = X + (8 * k + i) \<and> y' = Y + h then bit (bitmap ! (k + w * h)) (7 - i) \<noteq> invert else pixel_on d2 x' y') d3"
        using d3(2) P same_oled_trans by (auto simp: shows_pixels_def bitmap_drawn_def)
    qed (use P b k i8 in \<open>auto simp: bitmap_drawn_def shows_pixels_def\<close>)
    then show "\<exists>s'. ?bit (int k) ([7, 6, 5, 4, 3, 2, 1, 0] ! i) s = Some s' \<and> ?P (8 * k + Suc i) s'"
      using d3(1) unfolding e by simp
  qed
  have "\<exists>s'. each (\<lambda>index. each (?bit index) [7, 6, 5, 4, 3, 2, 1, 0]) [0..int w - 1] (word_of_int (int X), d1) = Some s' \<and>
      ?P (8 * nat (int w - 1 + 1)) s'"
  proof (rule each_upto [where P = "\<lambda>i. ?P (8 * nat i)"])
    fix i s assume i: "0 \<le> i" "i \<le> int w - 1" and s: "?P (8 * nat i) s"
    have n: "8 * nat (i + 1) = 8 * nat i + length [7, 6, 5, 4, 3, 2, 1, 0 :: int]" "i = int (nat i)" "nat i < w" using i by auto
    show "\<exists>s'. each (?bit i) [7, 6, 5, 4, 3, 2, 1, 0] s = Some s' \<and> ?P (8 * nat (i + 1)) s'"
      using byte [OF n(3) s] unfolding n(1) n(2) [symmetric] .
  qed (use d1 in auto)
  then obtain d2 where d2: "each (\<lambda>index. each (?bit index) [7, 6, 5, 4, 3, 2, 1, 0]) [0..int w - 1] (word_of_int (int X), d1) =
      Some (word_of_int (int (X + 8 * w)), d2)" and P2: "bitmap_drawn X Y bitmap w invert d h (8 * w) d2" by auto
  have P3: "bitmap_drawn X Y bitmap w invert d (Suc h) 0 d2"
    using P2 unfolding bitmap_drawn_def by (rule shows_pixels_cong) auto
  have nxt: "(if word_of_int (int ((Y + h) mod 8)) + 1 = (8 :: u8) then word_of_int (int ((Y + h) div 8)) + 1 else word_of_int (int ((Y + h) div 8)) :: u8) =
      word_of_int (int ((Y + Suc h) div 8))"
    "(if word_of_int (int ((Y + h) mod 8)) + 1 = (8 :: u8) then 0 else word_of_int (int ((Y + h) mod 8)) + 1 :: u8) = word_of_int (int ((Y + Suc h) mod 8))"
  proof -
    define z where "z = Y + h"
    have m8: "z mod 8 < 8" by simp
    have z: "Suc z div 8 = (if z mod 8 = 7 then Suc (z div 8) else z div 8)" "Suc z mod 8 = (if z mod 8 = 7 then 0 else Suc (z mod 8))"
      by (simp_all add: div_Suc mod_Suc)
    have "word_of_int (int (z mod 8)) + 1 = (8 :: u8) \<longleftrightarrow> z mod 8 = 7"
      using less_8_cases [OF m8] by (elim disjE) simp_all
    then show "(if word_of_int (int ((Y + h) mod 8)) + 1 = (8 :: u8) then word_of_int (int ((Y + h) div 8)) + 1 else word_of_int (int ((Y + h) div 8)) :: u8) =
      word_of_int (int ((Y + Suc h) div 8))"
    "(if word_of_int (int ((Y + h) mod 8)) + 1 = (8 :: u8) then 0 else word_of_int (int ((Y + h) mod 8)) + 1 :: u8) = word_of_int (int ((Y + Suc h) mod 8))"
      unfolding add_Suc_right z_def [symmetric] z by (simp_all add: ac_simps)
  qed
  have off: "int (w * h) + int w = int (w * Suc h)" by simp
  show ?thesis unfolding bitmap_row_def prod.case d2 bind.bind_lunit Let_def nxt off using P3 by blast
qed

text \<open>
  C32: \<^verbatim>\<open>ssd1306_bitmaps\<close> with a bitmap that lies in the buffer sets every pixel under it to its bit,
  inverted when that is asked for, and leaves all others, on a flipped display as well.
\<close>

theorem bitmaps_draws:
  assumes "wf_oled d" and "X + 8 * w \<le> 128" and "Y + H \<le> 64" and "w * H \<le> length bitmap"
  shows "\<exists>d'. ssd1306_bitmaps (int X) (int Y) bitmap (int (8 * w)) (int H) invert d = Some d' \<and> same_oled d d' \<and>
    (\<forall>x < 128. \<forall>y < 64. pixel_on d' x y \<longleftrightarrow>
       (if X \<le> x \<and> x < X + 8 * w \<and> Y \<le> y \<and> y < Y + H then bitmap_at bitmap w (x - X) (y - Y) \<noteq> invert
        else pixel_on d x y))"
proof -
  let ?P = "\<lambda>h s. \<exists>d1. s = (word_of_int (int ((Y + h) div 8)) :: u8, word_of_int (int ((Y + h) mod 8)) :: u8, int (w * h), d1) \<and>
    bitmap_drawn X Y bitmap w invert d h 0 d1"
  have W: "int (8 * w) smod 8 = 0" "int (8 * w) sdiv 8 = int w" unfolding sdiv_8 by simp_all
  have "\<exists>s'. each (\<lambda>_. bitmap_row bitmap invert (int X) (int w)) [0..int H - 1] (word_of_int (int (Y div 8)), word_of_int (int (Y mod 8)), 0, d) = Some s' \<and>
      ?P (nat (int H - 1 + 1)) s'"
  proof (rule each_upto [where P = "\<lambda>i. ?P (nat i)"])
    show "?P (nat 0) (word_of_int (int (Y div 8)), word_of_int (int (Y mod 8)), 0, d)"
      using assms(1) by (auto simp: bitmap_drawn_def shows_pixels_def same_oled_refl)
    fix i s assume i: "0 \<le> i" "i \<le> int H - 1" and "?P (nat i) s"
    then obtain d1 where s: "s = (word_of_int (int ((Y + nat i) div 8)), word_of_int (int ((Y + nat i) mod 8)), int (w * nat i), d1)"
      and P: "bitmap_drawn X Y bitmap w invert d (nat i) 0 d1" by blast
    have "Suc (nat i) \<le> H" "nat (i + 1) = Suc (nat i)" using i by auto
    moreover have "w * Suc (nat i) \<le> w * H" using calculation(1) by (simp only: mult_le_mono2)
    ultimately show "\<exists>s'. bitmap_row bitmap invert (int X) (int w) s = Some s' \<and> ?P (nat (i + 1)) s'"
      using bitmap_row_ok [OF assms(2) _ _ P] assms(3,4) unfolding s by (simp only:) fastforce
  qed simp
  then obtain d1 where d1: "each (\<lambda>_. bitmap_row bitmap invert (int X) (int w)) [0..int H - 1] (word_of_int (int (Y div 8)), word_of_int (int (Y mod 8)), 0, d) =
      Some (word_of_int (int ((Y + H) div 8)), word_of_int (int ((Y + H) mod 8)), int (w * H), d1)"
    and P: "bitmap_drawn X Y bitmap w invert d H 0 d1" by auto
  have wf1: "wf_oled d1" using bitmap_drawn_wf [OF P] .
  obtain d2 where d2: "ssd1306_show_buffer d1 = Some d2" "drawn d1 d2 (byte_at d1)"
    using show_rows_ok [OF wf1, of "oled_pages d1" oled_width] unfolding ssd1306_show_buffer_def
    by (auto simp: same_oled_def wf_oled_def)
  have "pixel_on d2 x y = pixel_on d1 x y" if "x < 128" "y < 64" for x y
    using drawnD [OF d2(2)] drawn_byte [OF d2(2), of "y div 8" x] that by (simp add: pixel_on_def)
  moreover have "same_oled d d2" using P d2(2) by (auto simp: bitmap_drawn_def shows_pixels_def drawn_def intro: same_oled_trans)
  moreover have "ssd1306_bitmaps (int X) (int Y) bitmap (int (8 * w)) (int H) invert d = Some d2"
    unfolding ssd1306_bitmaps_def W Let_def sdiv_8 [of Y] by (simp only: d1 d2 bind.bind_lunit prod.case simp_thms if_False)
  ultimately show ?thesis using P by (auto simp: bitmap_drawn_def shows_pixels_def)
qed

text \<open>Instances.\<close>

theorem pixel_mirrors_when_flipped_witness:
  "\<exists>d'. ssd1306_pixel (int 5) (int 9) False (dark_oled True) = Some d' \<and> same_oled (dark_oled True) d' \<and>
    (\<forall>x' < 128. \<forall>y' < 64. pixel_on d' x' y' \<longleftrightarrow>
       (if x' = 5 \<and> y' = 9 then \<not> False
        else if x' = 5 \<and> y' div 8 = 9 div 8 then pixel_on (dark_oled True) x' (8 * (y' div 8) + (7 - y' mod 8))
        else pixel_on (dark_oled True) x' y'))"
  by (rule pixel_mirrors_when_flipped [OF wf_dark_oled]) simp_all

theorem line_draws_witness:
  "\<exists>d'. ssd1306_line 3 60 120 2 False (dark_oled False) = Some d' \<and> same_oled (dark_oled False) d' \<and>
    (\<forall>x < 128. \<forall>y < 64. pixel_on d' x y \<longleftrightarrow>
       (if (int x, int y) \<in> set (line_points 3 60 120 2) then \<not> False else pixel_on (dark_oled False) x y)) \<and>
    (3, 60) \<in> set (line_points 3 60 120 2) \<and> (120, 2) \<in> set (line_points 3 60 120 2)"
  by (rule line_draws [OF wf_dark_oled]) simp_all

theorem bitmaps_draws_witness:
  "\<exists>d'. ssd1306_bitmaps (int 100) (int 7) [0x81, 0x42, 0xff, 0x00] (int (8 * 2)) (int 2) True (dark_oled True) = Some d' \<and>
    same_oled (dark_oled True) d' \<and> (\<forall>x < 128. \<forall>y < 64. pixel_on d' x y \<longleftrightarrow>
       (if 100 \<le> x \<and> x < 100 + 8 * 2 \<and> 7 \<le> y \<and> y < 7 + 2 then bitmap_at [0x81, 0x42, 0xff, 0x00] 2 (x - 100) (y - 7) \<noteq> True
        else pixel_on (dark_oled True) x y))"
  by (rule bitmaps_draws [OF wf_dark_oled]) simp_all

end
