(* ===== verification/SsdBus.thy ===== *)
theory SsdBus
  imports SsdDraw
begin

text \<open>
  The two buses of the display: \<open>wire\<close> is what a transfer tells the display, \<open>alike\<close> relates devices
  that differ in the bus only, and every operation of the driver preserves it. The rules are found
  by the transfer method from those of the operations below.
\<close>

subsection \<open>I2C and SPI send the same\<close>

text \<open>What a transfer tells the display: bytes, each a command or data.\<close>

fun wire :: "bus_op \<Rightarrow> (bool \<times> u8) list" where
  "wire (I2C (a # c # bs)) = map (Pair (c = OLED_CONTROL_BYTE_DATA_STREAM)) bs"
| "wire (I2C _) = []"
| "wire (SPI_command b) = [(False, b)]"
| "wire (SPI_data bs) = map (Pair True) bs"

definition sent_bytes :: "oled \<Rightarrow> (bool \<times> u8) list" where
  "sent_bytes d = concat (map wire (bus d))"

text \<open>Devices that differ only in the bus they are connected to.\<close>

definition alike :: "oled \<Rightarrow> oled \<Rightarrow> bool" where
  "alike d d' \<longleftrightarrow> oled_width d = oled_width d' \<and> oled_height d = oled_height d' \<and> oled_pages d = oled_pages d' \<and>
     sc_enable d = sc_enable d' \<and> sc_start d = sc_start d' \<and> sc_end d = sc_end d' \<and> sc_direction d = sc_direction d' \<and>
     oled_page d = oled_page d' \<and> oled_flip d = oled_flip d' \<and> sent_bytes d = sent_bytes d'"

lemma alike_refl: "alike d d"
  by (simp add: alike_def)

lemma alike_sym: "alike d d' \<Longrightarrow> alike d' d"
  by (simp add: alike_def)

text \<open>A function of an argument that is the same for both, and an operation.\<close>

abbreviation given :: "('a \<Rightarrow> 'b \<Rightarrow> bool) \<Rightarrow> ('c \<Rightarrow> 'a) \<Rightarrow> ('c \<Rightarrow> 'b) \<Rightarrow> bool" where
  "given R \<equiv> rel_fun (=) R"

abbreviation keeps_alike :: "(oled \<Rightarrow> oled option) \<Rightarrow> (oled \<Rightarrow> oled option) \<Rightarrow> bool" where
  "keeps_alike \<equiv> rel_fun alike (rel_option alike)"

lemma alike_fields [transfer_rule]:
  "(rel_fun alike (=)) oled_width oled_width" "(rel_fun alike (=)) oled_height oled_height"
  "(rel_fun alike (=)) oled_pages oled_pages" "(rel_fun alike (=)) oled_page oled_page" "(rel_fun alike (=)) oled_flip oled_flip"
  "(rel_fun alike (=)) sc_enable sc_enable" "(rel_fun alike (=)) sc_start sc_start" "(rel_fun alike (=)) sc_end sc_end"
  "(rel_fun alike (=)) sc_direction sc_direction"
  by (simp_all add: rel_fun_def alike_def)

lemma alike_updates [transfer_rule]:
  "given (rel_fun alike alike) oled_page_update oled_page_update"
  "given (rel_fun alike alike) sc_enable_update sc_enable_update"
  "given (rel_fun alike alike) sc_start_update sc_start_update"
  "given (rel_fun alike alike) sc_end_update sc_end_update"
  "given (rel_fun alike alike) sc_direction_update sc_direction_update"
  by (simp_all add: rel_fun_def alike_def sent_bytes_def)

lemma each_transfer [transfer_rule]:
  "(rel_fun (rel_fun A (rel_fun B (rel_option B))) (rel_fun (list_all2 A) (rel_fun B (rel_option B)))) each each"
proof (intro rel_funI)
  fix f f' xs xs' s s'
  assume f: "(rel_fun A (rel_fun B (rel_option B))) f f'" and xs: "list_all2 A xs xs'" and s: "B s s'"
  from xs s show "rel_option B (each f xs s) (each f' xs' s')"
  proof (induction arbitrary: s s' rule: list_all2_induct)
    case (Cons x xs x' xs')
    from f Cons have "rel_option B (f x s) (f' x' s')" by (auto dest: rel_funD)
    with Cons.IH show ?case by (auto elim: option.rel_cases)
  qed simp
qed

lemma alike_send: "alike d d' \<Longrightarrow> concat (map wire xs) = concat (map wire ys) \<Longrightarrow> alike (send_bus xs d) (send_bus ys d')"
  by (simp add: alike_def send_bus_def sent_bytes_def)

lemma row_transfer [transfer_rule]: "given (rel_fun alike (=)) row row"
  unfolding row_def by transfer_prover

lemma put_row_transfer [transfer_rule]: "given (given keeps_alike) put_row put_row"
  unfolding put_row_def by transfer_prover

lemma cell_transfer [transfer_rule]: "given (given (rel_fun alike (=))) cell cell"
  unfolding cell_def by transfer_prover

lemma copy_in_transfer [transfer_rule]: "given (given (given keeps_alike)) copy_in copy_in"
  unfolding copy_in_def by transfer_prover

lemma drive_transfer [transfer_rule]:
  "given (given (given (given keeps_alike))) drive drive"
proof (intro rel_funI, hypsubst)
  fix page seg images width d d' assume a: "alike d d'"
  then have f: "oled_pages d = oled_pages d'" "oled_width d = oled_width d'" "oled_flip d = oled_flip d'"
    by (simp_all add: alike_def)
  show "rel_option alike (drive page seg images width d) (drive page seg images width d')"
    using a unfolding drive_def spi_display_image_def i2c_display_image_def f spi_master_write_command_def spi_master_write_data_def Let_def
    by (cases "bytes_of images width") (auto intro!: alike_send simp: i2c_command_def OLED_CONTROL_BYTE_DATA_STREAM_def OLED_CONTROL_BYTE_CMD_STREAM_def)
qed

lemma ssd1306_show_buffer_transfer [transfer_rule]:
  "keeps_alike ssd1306_show_buffer ssd1306_show_buffer"
  unfolding ssd1306_show_buffer_def by transfer_prover

lemma ssd1306_set_buffer_transfer [transfer_rule]:
  "given keeps_alike ssd1306_set_buffer ssd1306_set_buffer"
  unfolding ssd1306_set_buffer_def by transfer_prover

lemma ssd1306_display_image_transfer [transfer_rule]:
  "given (given (given (given keeps_alike))) ssd1306_display_image ssd1306_display_image"
  unfolding ssd1306_display_image_def by transfer_prover

lemma ssd1306_display_text_transfer [transfer_rule]:
  "given (given (given (given keeps_alike))) ssd1306_display_text ssd1306_display_text"
  unfolding ssd1306_display_text_def by transfer_prover

lemma big_text_transfer [transfer_rule]:
  "given (given (given (given (given (given keeps_alike))))) big_text big_text"
  unfolding big_text_def by transfer_prover

lemma ssd1306_display_text_x3_transfer [transfer_rule]:
  "given (given (given (given keeps_alike))) ssd1306_display_text_x3 ssd1306_display_text_x3"
  unfolding ssd1306_display_text_x3_def by transfer_prover

lemma ssd1306_clear_line_transfer [transfer_rule]:
  "given (given keeps_alike) ssd1306_clear_line ssd1306_clear_line"
  unfolding ssd1306_clear_line_def by transfer_prover

lemma ssd1306_clear_screen_transfer [transfer_rule]:
  "given keeps_alike ssd1306_clear_screen ssd1306_clear_screen"
  unfolding ssd1306_clear_screen_def by transfer_prover

lemma ssd1306_software_scroll_transfer [transfer_rule]:
  "given (given (rel_fun alike alike)) ssd1306_software_scroll ssd1306_software_scroll"
  unfolding ssd1306_software_scroll_def by transfer_prover

lemma wrap_rows_transfer [transfer_rule]: "given (given (given keeps_alike)) wrap_rows wrap_rows"
  unfolding wrap_rows_def by transfer_prover

lemma wrap_up_transfer [transfer_rule]: "given (given keeps_alike) wrap_up wrap_up"
  unfolding wrap_up_def by transfer_prover

lemma wrap_down_transfer [transfer_rule]: "given (given keeps_alike) wrap_down wrap_down"
  unfolding wrap_down_def by transfer_prover

lemma case_scroll_type_transfer [transfer_rule]:
  "(rel_fun A (rel_fun A (rel_fun A (rel_fun A (rel_fun A (given A)))))) case_scroll_type case_scroll_type"
  by (auto simp: rel_fun_def split: scroll_type.split)

lemma ssd1306_wrap_arround_transfer [transfer_rule]:
  "given (given (given (given keeps_alike))) ssd1306_wrap_arround ssd1306_wrap_arround"
  unfolding ssd1306_wrap_arround_def by transfer_prover

lemma bitmap_bit_transfer [transfer_rule]:
  "given (given (given (given (given (given (rel_fun (rel_prod (=) alike) (rel_option (rel_prod (=) alike)))))))) bitmap_bit bitmap_bit"
  unfolding bitmap_bit_def by transfer_prover

lemma bitmap_row_transfer [transfer_rule]:
  "given (given (given (given (rel_fun (rel_prod (=) (rel_prod (=) (rel_prod (=) alike))) (rel_option (rel_prod (=) (rel_prod (=) (rel_prod (=) alike)))))))) bitmap_row bitmap_row"
  unfolding bitmap_row_def by transfer_prover

lemma ssd1306_bitmaps_transfer [transfer_rule]:
  "given (given (given (given (given (given keeps_alike))))) ssd1306_bitmaps ssd1306_bitmaps"
  unfolding ssd1306_bitmaps_def by transfer_prover

lemma ssd1306_pixel_transfer [transfer_rule]:
  "given (given (given keeps_alike)) ssd1306_pixel ssd1306_pixel"
  unfolding ssd1306_pixel_def by transfer_prover

lemma line_x_transfer [transfer_rule]:
  "given (given (given (given (given (rel_fun (rel_prod (=) (rel_prod (=) (rel_prod (=) alike))) (rel_option (rel_prod (=) (rel_prod (=) (rel_prod (=) alike))))))))) line_x line_x"
  unfolding line_x_def by transfer_prover

lemma line_y_transfer [transfer_rule]:
  "given (given (given (given (given (rel_fun (rel_prod (=) (rel_prod (=) (rel_prod (=) alike))) (rel_option (rel_prod (=) (rel_prod (=) (rel_prod (=) alike))))))))) line_y line_y"
  unfolding line_y_def by transfer_prover

lemma ssd1306_line_transfer [transfer_rule]:
  "given (given (given (given (given keeps_alike)))) ssd1306_line ssd1306_line"
  unfolding ssd1306_line_def by transfer_prover

lemma ssd1306_fadeout_transfer [transfer_rule]: "keeps_alike ssd1306_fadeout ssd1306_fadeout"
  unfolding ssd1306_fadeout_def by transfer_prover

lemma spi_commands_send: "spi_commands cs d = send_bus (map SPI_command cs) d"
proof (induction cs arbitrary: d)
  case (Cons c cs)
  then show ?case by (simp add: spi_commands_def spi_master_write_command_def)
qed (simp add: spi_commands_def)

lemma wire_commands: "concat (map (wire \<circ> SPI_command) cs) = map (Pair False) cs"
  by (induction cs) simp_all

lemmas bus_simps = spi_commands_send spi_master_write_command_def i2c_command_def Let_def wire_commands
  OLED_CONTROL_BYTE_CMD_STREAM_def OLED_CONTROL_BYTE_DATA_STREAM_def

definition sized :: "int \<Rightarrow> int \<Rightarrow> oled \<Rightarrow> oled" where
  "sized w h d = d\<lparr>oled_width := w, oled_height := h, oled_pages := (if h = 32 then 4 else 8)\<rparr>"

definition init_commands :: "int \<Rightarrow> bool \<Rightarrow> u8 list" where
  "init_commands h flp = [0xae, 0xa8] @ (if h = 64 then [0x3f] else if h = 32 then [0x1f] else []) @
     [0xd3, 0x00, 0x40, if flp then 0xa0 else 0xa1, 0xc8, 0xd5, 0x80, 0xda] @
     (if h = 64 then [0x12] else if h = 32 then [0x02] else []) @
     [0x81, 0xff, 0xa4, 0xdb, 0x40, 0x20, 0x02, 0x00, 0x10, 0x8d, 0x14, 0x2e, 0xa6, 0xaf]"

lemma i2c_init_commands:
  "i2c_init w h d = send_bus [i2c_command (init_commands h (oled_flip d)) (sized w h d)] (sized w h d)"
  by (simp add: i2c_init_def init_commands_def sized_def Let_def)

lemma spi_init_commands:
  "spi_init w h d = send_bus (map SPI_command (init_commands h (oled_flip d))) (sized w h d)"
proof -
  have send: "oled_height (send_bus xs e) = oled_height e" "oled_flip (send_bus xs e) = oled_flip e" for xs e
    by (simp_all add: send_bus_def)
  have size: "oled_height (sized w k d) = k" "oled_flip (sized w k d) = oled_flip d" for k by (simp_all add: sized_def)
  show ?thesis unfolding spi_init_def sized_def [symmetric] Let_def spi_commands_send spi_master_write_command_def
    by (cases "oled_flip d"; cases "h = 64"; cases "h = 32") (simp_all add: send size init_commands_def)
qed

lemma ssd1306_init_transfer [transfer_rule]:
  "given (given keeps_alike) ssd1306_init ssd1306_init"
proof (intro rel_funI, hypsubst)
  fix w h d d' assume a: "alike d d'"
  have s: "alike (sized w h d) (sized w h d')" "oled_flip d = oled_flip d'" using a by (simp_all add: alike_def sized_def sent_bytes_def)
  have "alike (if oled_address d = SPIAddress then spi_init w h d else i2c_init w h d)
      (if oled_address d' = SPIAddress then spi_init w h d' else i2c_init w h d')"
    unfolding i2c_init_commands spi_init_commands s(2)
    by (auto intro!: alike_send [OF s(1)] simp: i2c_command_def wire_commands
        OLED_CONTROL_BYTE_CMD_STREAM_def OLED_CONTROL_BYTE_DATA_STREAM_def)
  then have r: "alike (if oled_address d = SPIAddress then spi_init w h d else i2c_init w h d)
      (if oled_address d' = SPIAddress then spi_init w h d' else i2c_init w h d')" .
  have "keeps_alike (\<lambda>d. each (\<lambda>i. put_row i (replicate 128 0)) [0..oled_pages d - 1] d)
      (\<lambda>d. each (\<lambda>i. put_row i (replicate 128 0)) [0..oled_pages d - 1] d)" by transfer_prover
  from rel_funD [OF this r] show "rel_option alike (ssd1306_init w h d) (ssd1306_init w h d')"
    unfolding ssd1306_init_def Let_def .
qed

lemma ssd1306_contrast_transfer [transfer_rule]:
  "given (rel_fun alike alike) ssd1306_contrast ssd1306_contrast"
  by (auto intro!: rel_funI alike_send simp: ssd1306_contrast_def spi_contrast_def i2c_contrast_def bus_simps)

definition scroll_commands :: "scroll_type \<Rightarrow> int \<Rightarrow> u8 list" where
  "scroll_commands scroll height = (let
     vertical = (\<lambda>c. [0x29, 0x00, 0x00, 0x07, 0x00, c, 0xa3, 0x00] @
       (if height = 64 then [0x40] else if height = 32 then [0x20] else []) @ [0x2f]) in
     case scroll of
       SCROLL_RIGHT \<Rightarrow> [0x26, 0x00, 0x00, 0x07, 0x07, 0x00, 0xff, 0x2f]
     | SCROLL_LEFT \<Rightarrow> [0x27, 0x00, 0x00, 0x07, 0x07, 0x00, 0xff, 0x2f]
     | SCROLL_DOWN \<Rightarrow> vertical 0x3f
     | SCROLL_UP \<Rightarrow> vertical 0x01
     | SCROLL_STOP \<Rightarrow> [0x2e])"

lemma i2c_hardware_scroll_commands:
  "i2c_hardware_scroll scroll d = send_bus [i2c_command (scroll_commands scroll (oled_height d)) d] d"
  by (cases scroll) (simp_all add: i2c_hardware_scroll_def scroll_commands_def)

lemma spi_hardware_scroll_commands:
  "spi_hardware_scroll scroll d = send_bus (map SPI_command (scroll_commands scroll (oled_height d))) d"
proof -
  have send: "oled_height (send_bus xs d) = oled_height d" for xs by (simp add: send_bus_def)
  show ?thesis
    by (cases scroll) (simp_all add: spi_hardware_scroll_def scroll_commands_def Let_def spi_commands_send spi_master_write_command_def send)
qed

lemma ssd1306_hardware_scroll_transfer [transfer_rule]:
  "given (rel_fun alike alike) ssd1306_hardware_scroll ssd1306_hardware_scroll"
proof (intro rel_funI, hypsubst)
  fix scroll d d' assume a: "alike d d'"
  then have h: "oled_height d = oled_height d'" by (simp add: alike_def)
  show "alike (ssd1306_hardware_scroll scroll d) (ssd1306_hardware_scroll scroll d')"
    unfolding ssd1306_hardware_scroll_def i2c_hardware_scroll_commands spi_hardware_scroll_commands h
    by (auto intro!: alike_send [OF a] simp: i2c_command_def wire_commands
        OLED_CONTROL_BYTE_CMD_STREAM_def OLED_CONTROL_BYTE_DATA_STREAM_def)
qed

definition shift_page :: "int \<Rightarrow> oled \<Rightarrow> oled option" where
  "shift_page srcIndex d = do {
     d1 \<leftarrow> each (\<lambda>seg e. do { b \<leftarrow> cell srcIndex seg e; copy_in (srcIndex + sc_direction d) seg [b] e }) [0..oled_width d - 1] d;
     r \<leftarrow> row (srcIndex + sc_direction d) d1;
     drive (srcIndex + sc_direction d) 0 r 128 d1 }"

lemma shift_page_transfer [transfer_rule]: "given keeps_alike shift_page shift_page"
  unfolding shift_page_def by transfer_prover

lemma scroll_pages_step: "scroll_pages srcIndex d = do {
     d2 \<leftarrow> shift_page srcIndex d;
     if srcIndex = sc_start d2 then Some (srcIndex, d2) else scroll_pages (srcIndex - sc_direction d2) d2 }"
  by (subst scroll_pages.simps) (simp add: shift_page_def Let_def)

lemma alike_some: "(rel_fun alike (rel_option R)) f f \<Longrightarrow> alike d d' \<Longrightarrow> f d = Some y \<Longrightarrow> \<exists>y'. f d' = Some y' \<and> R y y'"
  by (auto dest!: rel_funD elim: option.rel_cases)

lemma scroll_pages_alike:
  assumes "scroll_pages srcIndex d = Some y" and "alike d d'"
  shows "\<exists>y'. scroll_pages srcIndex d' = Some y' \<and> rel_prod (=) alike y y'"
  using assms
proof (induction arbitrary: d' rule: scroll_pages.raw_induct [rotated, consumes 1, case_names step])
  case (step f srcIndex d y)
  from step(2) obtain d2 where d2: "shift_page srcIndex d = Some d2"
    "(if srcIndex = sc_start d2 then Some (srcIndex, d2) else f (srcIndex - sc_direction d2) d2) = Some y"
    unfolding shift_page_def Let_def by (auto split: bind_splits)
  have "keeps_alike (shift_page srcIndex) (shift_page srcIndex)" by transfer_prover
  from alike_some [OF this step(3) d2(1)] obtain d2' where d2': "shift_page srcIndex d' = Some d2'" "alike d2 d2'" by blast
  have same: "sc_start d2 = sc_start d2'" "sc_direction d2 = sc_direction d2'" using d2'(2) by (simp_all add: alike_def)
  show ?case
  proof (cases "srcIndex = sc_start d2")
    case True
    then show ?thesis unfolding scroll_pages_step [of srcIndex d'] using d2 d2' same by auto
  next
    case False
    then show ?thesis using d2 d2' same step(1) [of "srcIndex - sc_direction d2" d2 y d2']
      by (simp add: scroll_pages_step [of srcIndex d'])
  qed
qed

lemma clear_pages_alike:
  assumes "clear_pages srcIndex d = Some y" and "alike d d'"
  shows "\<exists>y'. clear_pages srcIndex d' = Some y' \<and> alike y y'"
  using assms
proof (induction arbitrary: d' rule: clear_pages.raw_induct [rotated, consumes 1, case_names step])
  case (step f srcIndex d y)
  let ?line = "\<lambda>d. ssd1306_clear_line (srcIndex + sc_direction d) False d"
  from step(2) obtain d2 where d2: "?line d = Some d2"
    "(if srcIndex + sc_direction d = sc_start d2 then Some d2 else f (srcIndex - sc_direction d2) d2) = Some y"
    unfolding Let_def by (auto split: bind_splits)
  have "keeps_alike ?line ?line" by transfer_prover
  from alike_some [OF this step(3) d2(1)] obtain d2' where d2': "?line d' = Some d2'" "alike d2 d2'" by blast
  have same: "sc_start d2 = sc_start d2'" "sc_direction d2 = sc_direction d2'" "sc_direction d = sc_direction d'"
    using d2'(2) step(3) by (simp_all add: alike_def)
  note unfold_clear = clear_pages.simps [of srcIndex d']
  show ?case
  proof (cases "srcIndex + sc_direction d = sc_start d2")
    case True
    then show ?thesis unfolding unfold_clear Let_def using d2 d2' same by auto
  next
    case False
    then show ?thesis using d2 d2' same step(1) [of "srcIndex - sc_direction d2" d2 y d2']
      by (simp add: unfold_clear Let_def)
  qed
qed

lemma rel_option_both:
  assumes "\<And>y. a = Some y \<Longrightarrow> \<exists>y'. b = Some y' \<and> R y y'" and "\<And>y. b = Some y \<Longrightarrow> \<exists>y'. a = Some y'"
  shows "rel_option R a b"
  using assms by (cases a; cases b) auto

lemma scroll_pages_transfer [transfer_rule]:
  "given (rel_fun alike (rel_option (rel_prod (=) alike))) scroll_pages scroll_pages"
  by (intro rel_funI, hypsubst, rule rel_option_both) (blast dest: scroll_pages_alike alike_sym)+

lemma clear_pages_transfer [transfer_rule]: "given keeps_alike clear_pages clear_pages"
  by (intro rel_funI, hypsubst, rule rel_option_both) (blast dest: clear_pages_alike alike_sym)+

lemma ssd1306_scroll_text_transfer [transfer_rule]:
  "given (given (given keeps_alike)) ssd1306_scroll_text ssd1306_scroll_text"
  unfolding ssd1306_scroll_text_def by transfer_prover

lemma ssd1306_scroll_clear_transfer [transfer_rule]:
  "keeps_alike ssd1306_scroll_clear ssd1306_scroll_clear"
  unfolding ssd1306_scroll_clear_def by transfer_prover

text \<open>Any use of the driver.\<close>

datatype oled_op = Init int int | Show | Set_buffer "u8 list" | Image int int "u8 list" int
  | Text int "u8 list" int bool | Text_x3 int "u8 list" int bool | Clear_screen bool | Clear_line int bool
  | Contrast int | Software_scroll int int | Scroll_text "u8 list" int bool | Scroll_clear | Hardware_scroll scroll_type
  | Wrap scroll_type int int int | Bitmap int int "u8 list" int int bool | Pixel int int bool
  | Line int int int int bool | Fadeout

fun run_oled :: "oled_op \<Rightarrow> oled \<Rightarrow> oled option" where
  "run_oled (Init w h) d = ssd1306_init w h d"
| "run_oled Show d = ssd1306_show_buffer d"
| "run_oled (Set_buffer bs) d = ssd1306_set_buffer bs d"
| "run_oled (Image p s bs w) d = ssd1306_display_image p s bs w d"
| "run_oled (Text p t n i) d = ssd1306_display_text p t n i d"
| "run_oled (Text_x3 p t n i) d = ssd1306_display_text_x3 p t n i d"
| "run_oled (Clear_screen i) d = ssd1306_clear_screen i d"
| "run_oled (Clear_line p i) d = ssd1306_clear_line p i d"
| "run_oled (Contrast c) d = Some (ssd1306_contrast c d)"
| "run_oled (Software_scroll a b) d = Some (ssd1306_software_scroll a b d)"
| "run_oled (Scroll_text t n i) d = ssd1306_scroll_text t n i d"
| "run_oled Scroll_clear d = ssd1306_scroll_clear d"
| "run_oled (Hardware_scroll s) d = Some (ssd1306_hardware_scroll s d)"
| "run_oled (Wrap s a b delay) d = ssd1306_wrap_arround s a b delay d"
| "run_oled (Bitmap x y bs w h i) d = ssd1306_bitmaps x y bs w h i d"
| "run_oled (Pixel x y i) d = ssd1306_pixel x y i d"
| "run_oled (Line x1 y1 x2 y2 i) d = ssd1306_line x1 y1 x2 y2 i d"
| "run_oled Fadeout d = ssd1306_fadeout d"

lemmas oled_transfers =
  ssd1306_init_transfer ssd1306_show_buffer_transfer ssd1306_set_buffer_transfer ssd1306_display_image_transfer
  ssd1306_display_text_transfer ssd1306_display_text_x3_transfer ssd1306_clear_screen_transfer
  ssd1306_clear_line_transfer ssd1306_contrast_transfer ssd1306_software_scroll_transfer
  ssd1306_scroll_text_transfer ssd1306_scroll_clear_transfer ssd1306_hardware_scroll_transfer
  ssd1306_wrap_arround_transfer ssd1306_bitmaps_transfer ssd1306_pixel_transfer ssd1306_line_transfer
  ssd1306_fadeout_transfer

lemma run_oled_transfer: "given keeps_alike run_oled run_oled"
proof (intro rel_funI, hypsubst)
  fix x d d' assume "alike d d'"
  then show "rel_option alike (run_oled x d) (run_oled x d')"
    by (cases x) (simp_all add: oled_transfers [unfolded rel_fun_def, simplified])
qed

text \<open>
  C31: I2C and SPI are interchangeable: the same sequence of operations fails on both or on neither,
  and leaves the same buffer and has sent the same commands and data, byte by byte.
\<close>

theorem i2c_spi_same:
  shows "(case (each run_oled xs (i2c_master_init d), each run_oled xs (spi_master_init d)) of
      (Some d1, Some d2) \<Rightarrow> oled_page d1 = oled_page d2 \<and> sent_bytes d1 = sent_bytes d2
    | (None, None) \<Rightarrow> True | _ \<Rightarrow> False)"
proof -
  have a: "alike (i2c_master_init d) (spi_master_init d)"
    by (simp add: alike_def i2c_master_init_def spi_master_init_def sent_bytes_def)
  from each_transfer [THEN rel_funD, OF run_oled_transfer, unfolded list.rel_eq, THEN rel_funD, OF refl, THEN rel_funD, OF a, of xs]
  show ?thesis by (auto elim!: option.rel_cases simp: alike_def)
qed

end
