(* ===== verification/SsdText.thy ===== *)
theory SsdText
  imports SsdBus
begin

text \<open>
  Text on the display: small and large text as bytes of the buffer, scrolling text, and fading out.
\<close>

subsection \<open>Text\<close>

lemma wr_nth: "i + length bs \<le> length m \<Longrightarrow> j < length m \<Longrightarrow>
    the (wr m i bs) ! j = (if i \<le> j \<and> j < i + length bs then bs ! (j - i) else m ! j)"
  by (auto simp: wr_def nth_append min_def)

lemma copy_row:
  assumes wf: "wf_oled d" and p: "p < 8" and s: "s + length bs \<le> 128"
  shows "\<exists>d'. copy_in (int p) (int s) bs d = Some d' \<and>
    drawn d d' (\<lambda>q r. if q = p \<and> s \<le> r \<and> r < s + length bs then bs ! (r - s) else byte_at d q r)"
proof -
  obtain r' where r': "wr (oled_page d ! p) s bs = Some r'" "length r' = 128"
    using s row_len [OF wf p] wr_fits [of s bs "oled_page d ! p"] wr_length by metis
  let ?d = "d\<lparr>oled_page := (oled_page d)[p := r']\<rparr>"
  have "copy_in (int p) (int s) bs d = Some ?d"
    using r' wf p by (simp add: copy_in_def row_ok wri_def put_row_ok)
  moreover have "same_oled d ?d" using wf_put_row [OF wf r'(2), of p] by (simp add: same_oled_def)
  moreover have "byte_at ?d q r = (if q = p \<and> s \<le> r \<and> r < s + length bs then bs ! (r - s) else byte_at d q r)"
    if "q < 8" "r < 128" for q r
    using that wf wr_nth [of s bs "oled_page d ! p" r] r'(1) s row_len [OF wf p]
    by (cases "q = p") (simp_all add: byte_at_def wf_oled_def)
  ultimately show ?thesis by (auto simp: drawn_def)
qed

lemma length_font: "length font8x8_basic_tr = 128"
  by (simp add: font8x8_basic_tr_def)

lemma font_rows: "\<forall>r \<in> set font8x8_basic_tr. length r = 8"
  by (simp add: font8x8_basic_tr_def)

lemma glyph_ok:
  assumes "i < length txt" and "txt ! i < 128"
  shows "glyph txt (int i) = Some (font8x8_basic_tr ! unat (txt ! i))" and "length (font8x8_basic_tr ! unat (txt ! i)) = 8"
proof -
  have "unat (txt ! i) < 128" using assms(2) by (simp add: word_less_nat_alt)
  then show "glyph txt (int i) = Some (font8x8_basic_tr ! unat (txt ! i))" and "length (font8x8_basic_tr ! unat (txt ! i)) = 8"
    using assms(1) font_rows nth_mem [of "unat (txt ! i)" font8x8_basic_tr] by (simp_all add: glyph_def rdi_def rd_in length_font)
qed

lemma length_image_bytes [simp]: "length (image_bytes invert flp img) = length img"
  by (simp add: image_bytes_def Let_def ssd1306_invert_def ssd1306_flip_def)

lemma display_image_ok:
  assumes "drawn d d1 f" and "p < 8" and "s + n \<le> 128" and "length img = n"
  shows "\<exists>d2. ssd1306_display_image (int p) (int s) img (int n) d1 = Some d2 \<and>
    drawn d d2 (\<lambda>q r. if q = p \<and> s \<le> r \<and> r < s + n then img ! (r - s) else f q r)"
proof -
  obtain xs where xs: "drive (int p) (int s) img (int n) d1 = Some (send_bus xs d1)" using drive_ok [of "int n" img "int p" "int s" d1] assms(4) by auto
  have d1': "drawn d (send_bus xs d1) f" using assms(1) by (rule drawn_send)
  obtain d2 where d2: "copy_in (int p) (int s) img (send_bus xs d1) = Some d2"
    "drawn (send_bus xs d1) d2 (\<lambda>q r. if q = p \<and> s \<le> r \<and> r < s + length img then img ! (r - s) else byte_at (send_bus xs d1) q r)"
    using copy_row [of "send_bus xs d1" p s img] assms drawnD [OF d1'] by auto
  have "drawn d d2 (\<lambda>q r. if q = p \<and> s \<le> r \<and> r < s + n then img ! (r - s) else f q r)"
    by (rule drawn_cong [OF drawn_trans [OF d1' d2(2)]]) (simp add: drawn_byte [OF d1'] assms(4))
  with xs d2(1) show ?thesis using assms(4) by (auto simp: ssd1306_display_image_def bytes_of_def)
qed

text \<open>The byte of a text in column \<open>s\<close>.\<close>

definition text_byte :: "u8 list \<Rightarrow> bool \<Rightarrow> bool \<Rightarrow> nat \<Rightarrow> u8" where
  "text_byte txt invert flp s = image_bytes invert flp (font8x8_basic_tr ! unat (txt ! (s div 8))) ! (s mod 8)"

lemma word_8_times: "word_of_int (int (8 * i)) + 8 = (word_of_int (int (8 * Suc i)) :: u8)"
  by simp

lemma display_text_ok:
  assumes wf: "wf_oled d" and page: "0 \<le> page" and n: "int n = max 0 (min text_len 16)"
    and chars: "n \<le> length txt" "\<And>i. i < n \<Longrightarrow> txt ! i < 128"
  shows "\<exists>d'. ssd1306_display_text page txt text_len invert d = Some d' \<and> drawn d d' (\<lambda>p s.
    if int p = page \<and> page < oled_pages d \<and> s < 8 * n then text_byte txt invert (oled_flip d) s else byte_at d p s)"
proof (cases "page < oled_pages d")
  case False
  then show ?thesis by (simp add: ssd1306_display_text_def) (rule drawn_cong [OF drawn_refl [OF wf]], simp)
next
  case True
  define p where "p = nat page"
  have p: "page = int p" "p < 8" using True page wf by (auto simp: p_def wf_oled_def)
  have n16: "n \<le> 16" using n by (auto simp: max_def min_def split: if_splits)
  let ?f = "\<lambda>k q r. if q = p \<and> r < 8 * k then text_byte txt invert (oled_flip d) r else byte_at d q r"
  let ?P = "\<lambda>i st. \<exists>d1. st = (word_of_int (int (8 * i)) :: u8, d1) \<and> drawn d d1 (?f i)"
  let ?step = "\<lambda>i (seg :: u8, d). do { img \<leftarrow> glyph txt i;
        d' \<leftarrow> ssd1306_display_image page (uint seg) (image_bytes invert (oled_flip d) img) 8 d; Some (seg + 8, d') }"
  have "\<exists>st. each ?step [0..int n - 1] (0, d) = Some st \<and> ?P (nat (int n - 1 + 1)) st"
  proof (rule each_upto [where P = "\<lambda>i. ?P (nat i)"])
    show "?P (nat 0) (0, d)" using drawn_refl [OF wf] by simp
    fix i st assume i: "0 \<le> i" "i \<le> int n - 1" and "?P (nat i) st"
    define k where "k = nat i"
    have k: "i = int k" "k < n" "nat (i + 1) = Suc k" using i by (auto simp: k_def)
    obtain d1 where st: "st = (word_of_int (int (8 * k)), d1)" and d1: "drawn d d1 (?f k)" using \<open>?P (nat i) st\<close> k_def by blast
    have k16: "8 * k + 8 \<le> 128" "k < length txt" using k n16 chars by auto
    have u: "uint (word_of_int (int (8 * k)) :: u8) = int (8 * k)" using k16 by (intro uint_word_of_nat_u8) simp
    have flp: "oled_flip d1 = oled_flip d" using drawnD [OF d1] by simp
    note g = glyph_ok [OF k16(2) chars(2) [OF k(2)]]
    have len: "length (image_bytes invert (oled_flip d) (font8x8_basic_tr ! unat (txt ! k))) = 8" using g(2) by simp
    obtain d2 where d2: "ssd1306_display_image (int p) (int (8 * k)) (image_bytes invert (oled_flip d) (font8x8_basic_tr ! unat (txt ! k))) (int 8) d1 = Some d2"
      "drawn d d2 (\<lambda>q r. if q = p \<and> 8 * k \<le> r \<and> r < 8 * k + 8
         then image_bytes invert (oled_flip d) (font8x8_basic_tr ! unat (txt ! k)) ! (r - 8 * k) else ?f k q r)"
      using display_image_ok [OF d1 p(2) k16(1) len] by blast
    have byte: "image_bytes invert (oled_flip d) (font8x8_basic_tr ! unat (txt ! k)) ! (r - 8 * k) = text_byte txt invert (oled_flip d) r"
      if "8 * k \<le> r" "r < 8 * k + 8" for r
    proof -
      obtain j where "r = 8 * k + j" "j < 8" using \<open>8 * k \<le> r\<close> \<open>r < 8 * k + 8\<close> by (metis add_less_cancel_left le_Suc_ex)
      then show ?thesis by (simp add: text_byte_def)
    qed
    have "drawn d d2 (?f (Suc k))" by (rule drawn_cong [OF d2(2)]) (auto simp: byte)
    moreover have "?step i st = Some (word_of_int (int (8 * Suc k)), d2)"
      unfolding st prod.case k(1) g(1) u p(1) flp bind.bind_lunit using d2(1) word_8_times by (simp del: of_nat_mult of_int_of_nat_eq)
    ultimately show "\<exists>st'. ?step i st = Some st' \<and> ?P (nat (i + 1)) st'" unfolding k(3) by blast
  qed simp
  moreover have "[0..min text_len 16 - 1] = [0..int n - 1]" using n by (cases "text_len \<le> 0") (auto simp: max_def min_def)
  ultimately obtain d1 where "each ?step [0..min text_len 16 - 1] (0, d) = Some (word_of_int (int (8 * n)), d1)" "drawn d d1 (?f n)" by auto
  then show ?thesis using True p(1) by (auto simp: ssd1306_display_text_def elim!: drawn_cong)
qed

subsection \<open>Scrolling text\<close>

lemma shift_page_ok:
  assumes wf: "wf_oled d" and p: "p < 8" "q < 8" "p \<noteq> q" "int q = int p + sc_direction d"
  shows "\<exists>d'. shift_page (int p) d = Some d' \<and>
    drawn d d' (\<lambda>r s. if r = q \<and> int s < oled_width d then byte_at d p s else byte_at d r s)"
proof -
  let ?f = "\<lambda>i r s. if r = q \<and> int s < i then byte_at d p s else byte_at d r s"
  let ?step = "\<lambda>seg e. do { b \<leftarrow> cell (int p) seg e; copy_in (int q) seg [b] e }"
  have w: "oled_width d \<le> 128" "0 \<le> oled_width d" using wf by (auto simp: wf_oled_def)
  have "\<exists>d1. each ?step [0..oled_width d - 1] d = Some d1 \<and> drawn d d1 (?f (oled_width d - 1 + 1))"
  proof (rule each_upto [where P = "\<lambda>i d1. drawn d d1 (?f i)"])
    show "drawn d d (?f 0)" by (rule drawn_cong [OF drawn_refl [OF wf]]) simp
    fix i d1 assume i: "0 \<le> i" "i \<le> oled_width d - 1" and d1: "drawn d d1 (?f i)"
    define k where "k = nat i"
    have k: "i = int k" "k < 128" using i w by (auto simp: k_def)
    have "drawn d (set_byte q k (byte_at d p k) d1) (?f (i + 1))"
      by (rule drawn_cong [OF drawn_set_byte [OF d1 p(2) k(2)]]) (use k in auto)
    moreover have "?step i d1 = Some (set_byte q k (byte_at d p k) d1)"
      using drawnD [OF d1] drawn_byte [OF d1 p(1) k(2)] p(1,2,3) k by (simp add: cell_ok copy_byte)
    ultimately show "\<exists>d2. ?step i d1 = Some d2 \<and> drawn d d2 (?f (i + 1))" by blast
  qed (use w in simp)
  then obtain d1 where d1: "each ?step [0..oled_width d - 1] d = Some d1" "drawn d d1 (?f (oled_width d))" by auto
  have wf1: "wf_oled d1" using drawnD [OF d1(2)] by simp
  obtain xs where "drive (int q) 0 (oled_page d1 ! q) 128 d1 = Some (send_bus xs d1)"
    using drive_ok [of 128 "oled_page d1 ! q" "int q" 0 d1] row_len [OF wf1 p(2)] by auto
  then have "shift_page (int p) d = Some (send_bus xs d1)"
    using d1(1) row_ok [OF wf1 p(2)] by (simp add: shift_page_def p(4) [symmetric])
  with drawn_send [OF d1(2)] show ?thesis by blast
qed

lemma scroll_pages_ok:
  assumes "wf_oled d" and "sc_direction d = dir" and "dir = 1 \<or> dir = -1" and "sc_start d = start"
    and "0 \<le> start" "start < 8" "0 \<le> start + dir * (int k + 1)" "start + dir * (int k + 1) < 8"
  shows "\<exists>d'. scroll_pages (start + dir * int k) d = Some (start, d') \<and>
    drawn d d' (\<lambda>p s. if int s < oled_width d \<and> 1 \<le> dir * (int p - start) \<and> dir * (int p - start) \<le> int k + 1
      then byte_at d (nat (int p - dir)) s else byte_at d p s)"
  using assms
proof (induction k arbitrary: d)
  case 0
  define p q where "p = nat start" and "q = nat (start + dir)"
  have pq: "start = int p" "start + dir = int q" "p < 8" "q < 8" "p \<noteq> q" using 0 by (auto simp: p_def q_def)
  obtain d1 where d1: "shift_page (int p) d = Some d1"
    "drawn d d1 (\<lambda>r s. if r = q \<and> int s < oled_width d then byte_at d p s else byte_at d r s)"
    using shift_page_ok [OF 0(1) pq(3,4,5)] pq 0(2) by auto
  have "sc_start d1 = start" using d1(2) 0 by (simp add: drawn_def same_oled_def)
  then have run: "scroll_pages (start + dir * int 0) d = Some (start, d1)"
    using d1(1) pq(1) by (simp add: scroll_pages_step [of _ d])
  have r: "1 \<le> dir * (int r - start) \<and> dir * (int r - start) \<le> int 0 + 1 \<longleftrightarrow> r = q" for r using 0(3) pq by auto
  have n: "nat (int q - dir) = p" using pq by linarith
  have "drawn d d1 (\<lambda>p s. if int s < oled_width d \<and> 1 \<le> dir * (int p - start) \<and> dir * (int p - start) \<le> int 0 + 1
      then byte_at d (nat (int p - dir)) s else byte_at d p s)"
    unfolding r by (rule drawn_cong [OF d1(2)]) (auto simp: n)
  with run show ?case by blast
next
  case (Suc k)
  define p q where "p = nat (start + dir * int (Suc k))" and "q = nat (start + dir * (int (Suc k) + 1))"
  have pq: "start + dir * int (Suc k) = int p" "start + dir * (int (Suc k) + 1) = int q" "p < 8" "q < 8" "p \<noteq> q" "int q = int p + dir"
    using Suc.prems by (auto simp: p_def q_def)
  obtain d1 where d1: "shift_page (int p) d = Some d1"
    "drawn d d1 (\<lambda>r s. if r = q \<and> int s < oled_width d then byte_at d p s else byte_at d r s)"
    using shift_page_ok [OF Suc.prems(1) pq(3,4,5)] pq(6) Suc.prems(2) by auto
  have s1: "sc_start d1 = start" "sc_direction d1 = dir" "wf_oled d1" "oled_width d1 = oled_width d"
    using d1(2) Suc.prems by (simp_all add: drawn_def same_oled_def)
  have bnd: "0 \<le> start + dir * (int k + 1)" "start + dir * (int k + 1) < 8" using Suc.prems by auto
  obtain d2 where d2: "scroll_pages (start + dir * int k) d1 = Some (start, d2)"
    "drawn d1 d2 (\<lambda>p s. if int s < oled_width d1 \<and> 1 \<le> dir * (int p - start) \<and> dir * (int p - start) \<le> int k + 1
      then byte_at d1 (nat (int p - dir)) s else byte_at d1 p s)"
    using Suc.IH [OF s1(3,2) Suc.prems(3) s1(1) Suc.prems(5,6) bnd] by blast
  have "int p \<noteq> start" using pq(1) Suc.prems(3) by auto
  moreover have "int p - dir = start + dir * int k" using pq(1) by (simp add: algebra_simps)
  ultimately have run: "scroll_pages (start + dir * int (Suc k)) d = Some (start, d2)"
    unfolding pq(1) scroll_pages_step [of "int p" d] using d1(1) d2(1) s1 by simp
  have r: "1 \<le> dir * (int r - start) \<and> dir * (int r - start) \<le> int (Suc k) + 1 \<longleftrightarrow>
      r = q \<or> 1 \<le> dir * (int r - start) \<and> dir * (int r - start) \<le> int k + 1" for r using Suc.prems(3) pq(2) by auto
  have n: "nat (int q - dir) = p" using pq(6) by simp
  have u: "nat (int r - dir) < 8 \<and> nat (int r - dir) \<noteq> q \<and> r \<noteq> q"
    if "1 \<le> dir * (int r - start)" "dir * (int r - start) \<le> int k + 1" for r
  proof -
    have "0 \<le> int r - dir" "int r - dir < 8" "int r - dir \<noteq> int q" "int r \<noteq> int q"
      using that Suc.prems(3,5-8) pq(2) by auto
    then show ?thesis by auto
  qed
  have "drawn d d2 (\<lambda>p s. if int s < oled_width d \<and> 1 \<le> dir * (int p - start) \<and> dir * (int p - start) \<le> int (Suc k) + 1
      then byte_at d (nat (int p - dir)) s else byte_at d p s)"
    unfolding r
  proof (rule drawn_cong [OF drawn_trans [OF d1(2) d2(2)]])
    fix r s :: nat assume rs: "r < 8" "s < 128"
    define moved where "moved \<longleftrightarrow> 1 \<le> dir * (int r - start) \<and> dir * (int r - start) \<le> int k + 1"
    have "moved \<Longrightarrow> nat (int r - dir) < 8 \<and> nat (int r - dir) \<noteq> q \<and> r \<noteq> q" unfolding moved_def using u [of r] by blast
    then have "(if int s < oled_width d1 \<and> moved then byte_at d1 (nat (int r - dir)) s else byte_at d1 r s) =
        (if int s < oled_width d \<and> (r = q \<or> moved) then byte_at d (nat (int r - dir)) s else byte_at d r s)"
      using drawn_byte [OF d1(2) _ rs(2)] rs n s1(4) by (cases moved; cases "r = q") simp_all
    then show "(if int s < oled_width d1 \<and> 1 \<le> dir * (int r - start) \<and> dir * (int r - start) \<le> int k + 1 then byte_at d1 (nat (int r - dir)) s else byte_at d1 r s) =
        (if int s < oled_width d \<and> (r = q \<or> 1 \<le> dir * (int r - start) \<and> dir * (int r - start) \<le> int k + 1) then byte_at d (nat (int r - dir)) s else byte_at d r s)"
      by (simp only: moved_def)
  qed
  with run show ?case by blast
qed

text \<open>
  Between two different pages, \<^verbatim>\<open>ssd1306_software_scroll\<close> and \<^verbatim>\<open>ssd1306_scroll_text\<close> move every
  page one on, from the first page towards the last, and put the text on the first page; the old
  last page is gone and all other pages stay.
\<close>

theorem scroll_text_scrolls:
  assumes "wf_oled d" and "0 \<le> start" "start < oled_pages d" "0 \<le> end'" "end' < oled_pages d" and "start \<noteq> end'"
    and "int n = max 0 (min text_len 16)" and "n \<le> length txt" and "\<forall>i < n. txt ! i < 128"
  defines "dir \<equiv> if end' < start then -1 else 1"
  shows "\<exists>d'. ssd1306_scroll_text txt text_len invert (ssd1306_software_scroll start end' d) = Some d' \<and>
    (\<forall>p < 8. \<forall>s < 128. byte_at d' p s =
       (if int p = start \<and> s < 8 * n then text_byte txt invert (oled_flip d) s
        else if int s < oled_width d \<and> 1 \<le> dir * (int p - start) \<and> dir * (int p - start) \<le> dir * (end' - start)
          then byte_at d (nat (int p - dir)) s
        else byte_at d p s))"
proof -
  define d0 where "d0 = ssd1306_software_scroll start end' d"
  have d0: "sc_enable d0" "wf_oled d0" "sc_direction d0 = dir" "sc_start d0 = start" "sc_end d0 = end'"
    "oled_pages d0 = oled_pages d" "oled_width d0 = oled_width d" "oled_flip d0 = oled_flip d" "byte_at d0 = byte_at d"
    using assms(1-5) by (auto simp: d0_def ssd1306_software_scroll_def wf_oled_def dir_def byte_at_def fun_eq_iff)
  have dir: "dir = 1 \<or> dir = -1" by (simp add: dir_def)
  define k where "k = nat (dir * (end' - start) - 1)"
  have k: "int k + 1 = dir * (end' - start)" "end' - dir = start + dir * int k" "start + dir * (int k + 1) = end'"
    using assms(6) by (auto simp: k_def dir_def split: if_splits)
  have pages: "oled_pages d \<le> 8" using assms(1) by (simp add: wf_oled_def)
  obtain d1 where d1: "scroll_pages (end' - dir) d0 = Some (start, d1)"
    "drawn d0 d1 (\<lambda>p s. if int s < oled_width d0 \<and> 1 \<le> dir * (int p - start) \<and> dir * (int p - start) \<le> int k + 1
      then byte_at d0 (nat (int p - dir)) s else byte_at d0 p s)"
    using scroll_pages_ok [OF d0(2,3) dir d0(4), of k] k assms(2-5) pages by auto
  have d1': "wf_oled d1" "oled_pages d1 = oled_pages d" "oled_flip d1 = oled_flip d" using drawnD [OF d1(2)] d0 by simp_all
  obtain d2 where d2: "ssd1306_display_text start txt text_len invert d1 = Some d2"
    "drawn d1 d2 (\<lambda>p s. if int p = start \<and> start < oled_pages d1 \<and> s < 8 * n then text_byte txt invert (oled_flip d1) s else byte_at d1 p s)"
    using display_text_ok [OF d1'(1) assms(2,7,8)] assms(9) by blast
  have "ssd1306_scroll_text txt text_len invert d0 = Some d2" using d0(1,3,5) d1(1) d2(1) by (simp add: ssd1306_scroll_text_def)
  moreover have "byte_at d2 p s = (if int p = start \<and> s < 8 * n then text_byte txt invert (oled_flip d) s
        else if int s < oled_width d \<and> 1 \<le> dir * (int p - start) \<and> dir * (int p - start) \<le> dir * (end' - start)
          then byte_at d (nat (int p - dir)) s else byte_at d p s)" if "p < 8" "s < 128" for p s
    unfolding drawn_byte [OF d2(2) that] drawn_byte [OF d1(2) that] d1' d0 k(1) using assms(3) by simp
  ultimately show ?thesis unfolding d0_def by blast
qed

lemma scroll_past_start:
  "wf_oled d \<Longrightarrow> sc_direction d = 1 \<Longrightarrow> int k \<le> sc_start d \<Longrightarrow> sc_start d < 8 \<Longrightarrow> scroll_pages (int k - 1) d = None"
proof (induction k arbitrary: d)
  case 0
  then have "0 < oled_width d" by (simp add: wf_oled_def)
  then have "[0..oled_width d - 1] = 0 # [1..oled_width d - 1]" by (simp add: upto_rec1)
  then have "shift_page (- 1) d = None" by (simp add: shift_page_def cell_def row_def rdi_def)
  then show ?case by (simp add: scroll_pages_step [of _ d])
next
  case (Suc k)
  have "shift_page (int k) d = None \<or> (\<exists>d1. shift_page (int k) d = Some d1 \<and> same_oled d d1)"
    using shift_page_ok [OF Suc.prems(1), of k "Suc k"] Suc.prems by (auto simp: drawn_def)
  then show ?case
  proof
    assume "\<exists>d1. shift_page (int k) d = Some d1 \<and> same_oled d d1"
    then obtain d1 where d1: "shift_page (int k) d = Some d1" "same_oled d d1" by blast
    then have "scroll_pages (int k - 1) d1 = None" using Suc.prems by (intro Suc.IH) (simp_all add: same_oled_def)
    then show ?thesis using d1 Suc.prems by (simp add: scroll_pages_step [of _ d] same_oled_def)
  qed (simp add: scroll_pages_step [of _ d])
qed

text \<open>
  A scroll range of one page is accepted by \<^verbatim>\<open>ssd1306_software_scroll\<close>, but then
  \<^verbatim>\<open>ssd1306_scroll_text\<close> runs past the start of the range and out of the buffer.
\<close>

theorem scroll_one_page_overruns:
  assumes "wf_oled d" and "0 \<le> page" "page < oled_pages d"
  shows "ssd1306_scroll_text txt text_len invert (ssd1306_software_scroll page page d) = None"
proof -
  define d0 where "d0 = ssd1306_software_scroll page page d"
  have d0: "sc_enable d0" "wf_oled d0" "sc_direction d0 = 1" "sc_start d0 = page" "sc_end d0 = page"
    using assms by (auto simp: d0_def ssd1306_software_scroll_def wf_oled_def)
  have "scroll_pages (int (nat page) - 1) d0 = None"
    using d0 assms by (intro scroll_past_start) (simp_all add: wf_oled_def)
  then show ?thesis using d0 assms(2) by (simp add: d0_def [symmetric] ssd1306_scroll_text_def)
qed

subsection \<open>Fading out\<close>

lemma fill_page:
  assumes "drawn d d1 f" and "p < 8"
  shows "\<exists>d2. each (\<lambda>seg d. do { d1 \<leftarrow> drive (int p) seg [img] 1 d; copy_in (int p) seg [img] d1 }) [0..127] d1 = Some d2 \<and>
    drawn d d2 (\<lambda>q s. if q = p then img else f q s)"
proof -
  let ?f = "\<lambda>i q s. if q = p \<and> int s < i then img else f q s"
  let ?step = "\<lambda>seg d. do { d1 \<leftarrow> drive (int p) seg [img] 1 d; copy_in (int p) seg [img] d1 }"
  have "\<exists>d2. each ?step [0..127] d1 = Some d2 \<and> drawn d d2 (?f (127 + 1))"
  proof (rule each_upto [where P = "\<lambda>i d2. drawn d d2 (?f i)"])
    show "drawn d d1 (?f 0)" using assms(1) by simp
    fix i d2 assume i: "0 \<le> i" "i \<le> (127 :: int)" and d2: "drawn d d2 (?f i)"
    define k where "k = nat i"
    have k: "i = int k" "k < 128" using i by (auto simp: k_def)
    obtain xs where xs: "drive (int p) i [img] 1 d2 = Some (send_bus xs d2)" using drive_ok [of 1 "[img]" "int p" i d2] by auto
    have d3: "drawn d (send_bus xs d2) (?f i)" using d2 by (rule drawn_send)
    have "drawn d (set_byte p k img (send_bus xs d2)) (?f (i + 1))"
      by (rule drawn_cong [OF drawn_set_byte [OF d3 assms(2) k(2)]]) (use k in auto)
    moreover have "?step i d2 = Some (set_byte p k img (send_bus xs d2))"
      using xs drawnD [OF d3] assms(2) k by (simp add: copy_byte)
    ultimately show "\<exists>d3. ?step i d2 = Some d3 \<and> drawn d d3 (?f (i + 1))" by blast
  qed simp
  then show ?thesis by (auto elim!: drawn_cong)
qed

text \<open>
  C0: \<^verbatim>\<open>ssd1306_fadeout\<close> returns and leaves every page of the display dark.
\<close>

theorem fadeout_clears:
  assumes "wf_oled d"
  shows "\<exists>d'. ssd1306_fadeout d = Some d' \<and> same_oled d d' \<and>
    (\<forall>p < 8. \<forall>s < 128. byte_at d' p s = (if int p < oled_pages d then 0 else byte_at d p s))"
proof -
  let ?shift = "\<lambda>flp (img :: u8). if flp then drop_bit 1 img else push_bit 1 img"
  let ?line = "\<lambda>page (img :: u8, d). do { let img = (if oled_flip d then drop_bit 1 img else push_bit 1 img);
       d' \<leftarrow> each (\<lambda>seg d. do { d1 \<leftarrow> drive page seg [img] 1 d; copy_in page seg [img] d1 }) [0..127] d;
       Some (img, d') }"
  let ?page = "\<lambda>page d. map_option snd (each (\<lambda>_. ?line page) [0 :: int..7] (0xFF, d))"
  have dark: "((?shift flp) ^^ 8) 0xFF = 0" for flp
  proof -
    have e: "(f ^^ 8) x = f (f (f (f (f (f (f (f x)))))))" for f and x :: u8
      by (simp add: eval_nat_numeral)
    show ?thesis unfolding e by (cases flp) simp_all
  qed
  have page: "\<exists>d2. ?page (int p) d1 = Some d2 \<and> drawn d d2 (\<lambda>q s. if q = p then 0 else f q s)"
    if d1: "drawn d d1 f" and p: "p < 8" for p d1 f
  proof -
    define img where "img i = ((?shift (oled_flip d)) ^^ nat i) (0xFF :: u8)" for i :: int
    have img: "img 0 = 0xFF" "img 8 = 0" "0 \<le> i \<Longrightarrow> ?shift (oled_flip d) (img i) = img (i + 1)" for i
      using dark by (simp_all add: img_def nat_add_distrib)
    let ?P = "\<lambda>i (st :: u8 \<times> oled). fst st = img i \<and> drawn d (snd st) (\<lambda>q s. if q = p \<and> 0 < i then img i else f q s)"
    have "\<exists>st. each (\<lambda>_. ?line (int p)) [0 :: int..7] (0xFF, d1) = Some st \<and> ?P (7 + 1) st"
    proof (rule each_upto)
      show "?P 0 (0xFF, d1)" using d1 img by simp
      fix i st assume i: "0 \<le> i" "i \<le> (7 :: int)" and P: "?P i st"
      have flp: "oled_flip (snd st) = oled_flip d" using P drawnD by blast
      note nxt = img(3) [OF i(1)]
      obtain d2 where d2: "each (\<lambda>seg d. do { d1 \<leftarrow> drive (int p) seg [img (i + 1)] 1 d; copy_in (int p) seg [img (i + 1)] d1 }) [0..127] (snd st) = Some d2"
        "drawn d d2 (\<lambda>q s. if q = p then img (i + 1) else if q = p \<and> 0 < i then img i else f q s)"
        using fill_page [OF conjunct2 [OF P] p] by blast
      have "?line (int p) st = Some (img (i + 1), d2)"
        using d2(1) P flp nxt by (cases st) (simp add: Let_def)
      moreover have "drawn d d2 (\<lambda>q s. if q = p \<and> 0 < i + 1 then img (i + 1) else f q s)"
        by (rule drawn_cong [OF d2(2)]) (use i in auto)
      ultimately have "?line (int p) st = Some (img (i + 1), d2) \<and> ?P (i + 1) (img (i + 1), d2)"
        by (simp only: fst_conv snd_conv simp_thms)
      then show "\<exists>st'. ?line (int p) st = Some st' \<and> ?P (i + 1) st'" by (rule exI)
    qed simp
    then obtain st where st: "each (\<lambda>_. ?line (int p)) [0 :: int..7] (0xFF, d1) = Some st" "?P (7 + 1) st" by blast
    have "drawn d (snd st) (\<lambda>q s. if q = p then 0 else f q s)"
      using st(2) img(2) by (auto elim!: drawn_cong)
    with st(1) show ?thesis by simp
  qed
  let ?P = "\<lambda>i d1. drawn d d1 (\<lambda>q s. if int q < i then 0 else byte_at d q s)"
  have "\<exists>d1. each ?page [0..oled_pages d - 1] d = Some d1 \<and> ?P (oled_pages d - 1 + 1) d1"
  proof (rule each_upto)
    show "?P 0 d" by (rule drawn_cong [OF drawn_refl [OF assms]]) simp
    fix i d1 assume i: "0 \<le> i" "i \<le> oled_pages d - 1" and P: "?P i d1"
    define p where "p = nat i"
    have p: "i = int p" "p < 8" using i assms by (auto simp: p_def wf_oled_def)
    obtain d2 where d2: "?page (int p) d1 = Some d2" "drawn d d2 (\<lambda>q s. if q = p then 0 else if int q < i then 0 else byte_at d q s)"
      using page [OF P p(2)] by blast
    have "?P (i + 1) d2" by (rule drawn_cong [OF d2(2)]) (use p in auto)
    with d2(1) p(1) show "\<exists>d2. ?page i d1 = Some d2 \<and> ?P (i + 1) d2" by blast
  qed (use assms in \<open>simp add: wf_oled_def\<close>)
  then show ?thesis by (auto simp: ssd1306_fadeout_def drawn_def)
qed

subsection \<open>Large text\<close>

text \<open>The byte of a large text in column \<open>s\<close> of its \<open>yy\<close>-th page.\<close>

definition big_byte :: "nat \<Rightarrow> u8 list \<Rightarrow> bool \<Rightarrow> bool \<Rightarrow> nat \<Rightarrow> nat \<Rightarrow> u8" where
  "big_byte k txt invert flp yy s =
     image_bytes invert flp (wide_image k (font8x8_basic_tr ! unat (txt ! (s div (8 * k)))) yy) ! (s mod (8 * k))"

lemma length_concat_replicate: "length (concat (map (\<lambda>c. replicate k (f c)) cs)) = k * length cs"
  by (induction cs) simp_all

lemma length_wide_image: "length (wide_image k cs yy) = k * length cs"
  by (simp add: wide_image_def length_concat_replicate)

lemma big_text_ok:
  assumes wf: "wf_oled d" and page: "0 \<le> page" "page < oled_pages d" "page + int k \<le> 8" and k: "0 < k"
    and n: "int n = max 0 (min text_len max_len)" "8 * k * n \<le> 128"
    and chars: "n \<le> length txt" "\<And>i. i < n \<Longrightarrow> txt ! i < 128"
  shows "\<exists>d'. big_text k max_len page txt text_len invert d = Some d' \<and> drawn d d' (\<lambda>p s.
    if page \<le> int p \<and> int p < page + int k \<and> s < 8 * k * n
    then big_byte k txt invert (oled_flip d) (nat (int p - page)) s else byte_at d p s)"
proof -
  define p where "p = nat page"
  have p: "page = int p" "p + k \<le> 8" using page by (auto simp: p_def)
  let ?in = "\<lambda>q. p \<le> q \<and> q < p + k"
  let ?f = "\<lambda>i q r. if ?in q \<and> r < 8 * k * i then big_byte k txt invert (oled_flip d) (q - p) r else byte_at d q r"
  let ?P = "\<lambda>i st. \<exists>d1. st = (word_of_int (int (8 * k * i)) :: u8, d1) \<and> drawn d d1 (?f i)"
  let ?part = "\<lambda>in_columns (seg :: u8) yy d. do {
            let img = image_bytes invert (oled_flip d) (wide_image k in_columns (nat yy));
            d1 \<leftarrow> drive (page + yy) (uint seg) img (8 * int k) d;
            copy_in (page + yy) (uint seg) img d1 }"
  let ?step = "\<lambda>nn (seg :: u8, d). do { in_columns \<leftarrow> glyph txt nn;
        d' \<leftarrow> each (?part in_columns seg) [0..int k - 1] d; Some (seg + 8 * of_nat k, d') }"
  have "\<exists>st. each ?step [0..int n - 1] (0, d) = Some st \<and> ?P (nat (int n - 1 + 1)) st"
  proof (rule each_upto [where P = "\<lambda>i. ?P (nat i)"])
    show "?P (nat 0) (0, d)" using drawn_refl [OF wf] by simp
    fix nn st assume nn: "0 \<le> nn" "nn \<le> int n - 1" and "?P (nat nn) st"
    define i where "i = nat nn"
    have i: "nn = int i" "i < n" "nat (nn + 1) = Suc i" using nn by (auto simp: i_def)
    obtain d1 where st: "st = (word_of_int (int (8 * k * i)), d1)" and d1: "drawn d d1 (?f i)" using \<open>?P (nat nn) st\<close> i_def by blast
    have "8 * k * Suc i \<le> 8 * k * n" using i by (simp only: mult_le_mono2 Suc_leI)
    then have i16: "8 * k * i + 8 * k \<le> 128" "i < length txt" using n(2) i chars by auto
    have u: "uint (word_of_int (int (8 * k * i)) :: u8) = int (8 * k * i)" using i16 by (intro uint_word_of_nat_u8) linarith
    note g = glyph_ok [OF i16(2) chars(2) [OF i(2)]]
    define cs where "cs = font8x8_basic_tr ! unat (txt ! i)"
    define img where "img yy = image_bytes invert (oled_flip d) (wide_image k cs yy)" for yy
    have img: "length (img yy) = 8 * k" for yy using g(2) by (simp add: img_def cs_def length_wide_image)
    let ?h = "\<lambda>j q r. if ?in q \<and> q < p + j \<and> 8 * k * i \<le> r \<and> r < 8 * k * i + 8 * k then img (q - p) ! (r - 8 * k * i) else ?f i q r"
    have "\<exists>d2. each (?part cs (word_of_int (int (8 * k * i)))) [0..int k - 1] d1 = Some d2 \<and> drawn d d2 (?h (nat (int k - 1 + 1)))"
    proof (rule each_upto [where P = "\<lambda>j d2. drawn d d2 (?h (nat j))"])
      show "drawn d d1 (?h (nat 0))" by (rule drawn_cong [OF d1]) auto
      fix yy d2 assume yy: "0 \<le> yy" "yy \<le> int k - 1" and d2: "drawn d d2 (?h (nat yy))"
      define j where "j = nat yy"
      have j: "yy = int j" "j < k" "nat (yy + 1) = Suc j" using yy by (auto simp: j_def)
      have flp: "oled_flip d2 = oled_flip d" using drawnD [OF d2] by simp
      obtain xs where xs: "drive (int (p + j)) (int (8 * k * i)) (img j) (8 * int k) d2 = Some (send_bus xs d2)"
        using drive_ok [of "8 * int k" "img j" "int (p + j)" "int (8 * k * i)" d2] img [of j] by auto
      have d3: "drawn d (send_bus xs d2) (?h j)" using drawn_send [OF d2] by (simp add: j_def)
      have pj: "p + j < 8" "8 * k * i + length (img j) \<le> 128" using j p i16 img by auto
      obtain d4 where d4: "copy_in (int (p + j)) (int (8 * k * i)) (img j) (send_bus xs d2) = Some d4"
        "drawn (send_bus xs d2) d4 (\<lambda>q r. if q = p + j \<and> 8 * k * i \<le> r \<and> r < 8 * k * i + length (img j)
          then img j ! (r - 8 * k * i) else byte_at (send_bus xs d2) q r)"
        using copy_row [OF _ pj] drawnD [OF d3] by blast
      have "drawn d d4 (?h (Suc j))"
        by (rule drawn_cong [OF drawn_trans [OF d3 d4(2)]]) (use j img in \<open>auto simp: drawn_byte [OF d3] less_Suc_eq\<close>)
      moreover have "page + yy = int (p + j)" using p j by simp
      then have "?part cs (word_of_int (int (8 * k * i))) yy d2 = Some d4"
        unfolding u Let_def flp using xs d4(1) j(1) by (simp add: img_def)
      ultimately show "\<exists>d4. ?part cs (word_of_int (int (8 * k * i))) yy d2 = Some d4 \<and> drawn d d4 (?h (nat (yy + 1)))"
        unfolding j(3) by blast
    qed (use k in simp)
    then obtain d2 where d2: "each (?part cs (word_of_int (int (8 * k * i)))) [0..int k - 1] d1 = Some d2" "drawn d d2 (?h k)" by auto
    have byte: "img (q - p) ! (r - 8 * k * i) = big_byte k txt invert (oled_flip d) (q - p) r"
      if r: "8 * k * i \<le> r" "r < 8 * k * i + 8 * k" for q r
    proof -
      obtain j where "r = 8 * k * i + j" "j < 8 * k" using r by (metis add_less_cancel_left le_Suc_ex)
      then have "r div (8 * k) = i" "r mod (8 * k) = r - 8 * k * i" using k by simp_all
      then show ?thesis by (simp add: big_byte_def img_def cs_def)
    qed
    have "drawn d d2 (?f (Suc i))" by (rule drawn_cong [OF d2(2)]) (auto simp: byte)
    moreover have "(word_of_int (int (8 * k * i)) + 8 * of_nat k :: u8) = word_of_int (int (8 * k * Suc i))" by (simp add: algebra_simps)
    then have "?step nn st = Some (word_of_int (int (8 * k * Suc i)), d2)"
      unfolding st prod.case i(1) g(1) bind.bind_lunit cs_def [symmetric] d2(1) by simp
    ultimately show "\<exists>st'. ?step nn st = Some st' \<and> ?P (nat (nn + 1)) st'" unfolding i(3) by blast
  qed simp
  moreover have "[0..min text_len max_len - 1] = [0..int n - 1]" using n by (cases "min text_len max_len \<le> 0") (auto simp: max_def)
  ultimately obtain d1 where d1: "each ?step [0..min text_len max_len - 1] (0, d) = Some (word_of_int (int (8 * k * n)), d1)" "drawn d d1 (?f n)" by auto
  have "big_text k max_len page txt text_len invert d = Some d1" using d1(1) page by (simp add: big_text_def)
  moreover have "drawn d d1 (\<lambda>q s. if page \<le> int q \<and> int q < page + int k \<and> s < 8 * k * n
    then big_byte k txt invert (oled_flip d) (nat (int q - page)) s else byte_at d q s)"
    by (rule drawn_cong [OF d1(2)]) (use p in \<open>auto simp: nat_diff_distrib\<close>)
  ultimately show ?thesis by blast
qed

text \<open>Instances.\<close>

theorem scroll_text_scrolls_witness:
  "\<exists>d'. ssd1306_scroll_text [0x48, 0x69] 2 False (ssd1306_software_scroll 6 1 (dark_oled True)) = Some d' \<and>
    (\<forall>p < 8. \<forall>s < 128. byte_at d' p s =
       (if int p = 6 \<and> s < 8 * 2 then text_byte [0x48, 0x69] False (oled_flip (dark_oled True)) s
        else if int s < oled_width (dark_oled True) \<and> 1 \<le> (if 1 < (6 :: int) then -1 else 1) * (int p - 6) \<and>
          (if 1 < (6 :: int) then -1 else 1) * (int p - 6) \<le> (if 1 < (6 :: int) then -1 else 1) * (1 - 6)
          then byte_at (dark_oled True) (nat (int p - (if 1 < (6 :: int) then -1 else 1))) s
        else byte_at (dark_oled True) p s))"
  by (rule scroll_text_scrolls [OF wf_dark_oled]) (auto simp: less_2_cases_iff)

theorem scroll_one_page_overruns_witness:
  "ssd1306_scroll_text [0x48] 1 False (ssd1306_software_scroll 3 3 (dark_oled False)) = None"
  by (rule scroll_one_page_overruns [OF wf_dark_oled]) simp_all

end
