(* ===== verification/Display.thy ===== *)
theory Display
  imports SsdText FileServer
begin

text \<open>
  The reading on the display, adc_read.c: a header, the value, and one of six levels as a bar and
  as a word, in the two sizes of text. \<^verbatim>\<open>get_average_read\<close> is in \<open>Domohelios\<close>.
\<close>

definition ssd1306_display_text_x2 :: "int \<Rightarrow> u8 list \<Rightarrow> int \<Rightarrow> bool \<Rightarrow> oled \<Rightarrow> oled option" where
  "ssd1306_display_text_x2 = big_text 2 8"

text \<open>A row of \<^verbatim>\<open>char text[][6][20]\<close>.\<close>

definition chars_20 :: "string \<Rightarrow> u8 list" where
  "chars_20 s = ascii s @ replicate (20 - length s) 0"

definition display_texts :: "u8 list list list" where
  "display_texts = map (\<lambda>rs. map chars_20 rs @ replicate (6 - length rs) (replicate 20 0))
     [['':: Lectura    ::''], ['':: Intensidad ::''],
      [''      0'', '' |    1'', '' ||   2'', '' |||  3'', '' |||| 4'', '' |||||5''],
      [''_minima_'', ''_baja___'', ''_baja___'', ''_media__'', ''_alta___'', ''_maxima_'']]"

text \<open>\<^verbatim>\<open>%04hu\<close>.\<close>

definition four_digits :: "u16 \<Rightarrow> u8 list" where
  "four_digits w = (let ds = decimal_text (unat w) in replicate (4 - length ds) 0x30 @ ds)"

text \<open>\<^verbatim>\<open>data\<close> and \<^verbatim>\<open>max\<close> are 16 bits wide; the division by \<^verbatim>\<open>max\<close> is one of \<^verbatim>\<open>int\<close>. The
  text goes into ten bytes.\<close>

definition disp_upd :: "u16 \<Rightarrow> u16 \<Rightarrow> oled \<Rightarrow> oled option" where
  "disp_upd data0 max_val d = do {
     let data = (if max_val \<le> data0 then max_val - 1 else data0);
     v_bar \<leftarrow> (if max_val = 0 then None else Some (6 * unat data div unat max_val));
     raw \<leftarrow> wr (replicate 10 0) 0 (ascii ''> '' @ four_digits (data + 1) @ ascii '' <'' @ [0]);
     d \<leftarrow> ssd1306_display_text 0 (display_texts ! 0 ! 0) 16 True d;
     d \<leftarrow> ssd1306_display_text_x2 1 raw 8 False d;
     d \<leftarrow> ssd1306_display_text 3 (display_texts ! 1 ! 0) 16 True d;
     bar \<leftarrow> rd (display_texts ! 2) v_bar;
     d \<leftarrow> ssd1306_display_text_x2 4 bar 9 False d;
     word \<leftarrow> rd (display_texts ! 3) v_bar;
     ssd1306_display_text_x2 6 word 8 False d }"

lemma unat_of_nat_u8: "n < 256 \<Longrightarrow> unat (word_of_nat n :: u8) = n"
  by (simp add: unat_of_nat)

lemma decimal_text_chars: "\<forall>c \<in> set (decimal_text n). 48 \<le> c \<and> c < 58"
proof (induction n rule: decimal_text.induct)
  case (1 n)
  have digit: "48 \<le> (word_of_nat (48 + k) :: u8) \<and> (word_of_nat (48 + k) :: u8) < 58" if "k < 10" for k
  proof -
    have "unat (word_of_nat (48 + k) :: u8) = 48 + k" using that by (intro unat_of_nat_u8) simp
    then show ?thesis using that by (simp add: word_le_nat_alt word_less_nat_alt)
  qed
  show ?case using 1 digit [of n] digit [of "n mod 10"] by (subst decimal_text.simps) auto
qed

lemma length_decimal_text: "n < 10 ^ k \<Longrightarrow> 0 < k \<Longrightarrow> length (decimal_text n) \<le> k"
proof (induction n arbitrary: k rule: decimal_text.induct)
  case (1 n)
  show ?case
  proof (cases "n < 10")
    case False
    then have "k \<noteq> Suc 0" using 1(2) by auto
    then obtain j where j: "k = Suc j" "0 < j" using 1(3) by (cases k) auto
    have "n div 10 < 10 ^ j" using 1(2) j by (simp add: less_mult_imp_div_less mult.commute)
    with 1(1) [OF False, of j] j False show ?thesis by (subst decimal_text.simps) simp
  qed (use 1(3) in \<open>subst decimal_text.simps, simp\<close>)
qed

text \<open>The text of the value in its ten bytes.\<close>

definition raw_text :: "u16 \<Rightarrow> u8 list" where
  "raw_text w = ascii ''> '' @ four_digits w @ ascii '' <'' @ replicate (6 - length (four_digits w)) 0"

lemma four_digits_facts: "length (four_digits w) \<le> 5 \<and> 4 \<le> length (four_digits w) \<and> (\<forall>c \<in> set (four_digits w). c < 128)"
proof -
  have "unat w < 65536" using unsigned_less [of w] by simp
  then have "unat w < 10 ^ 5" by simp
  then have "length (decimal_text (unat w)) \<le> 5" by (rule length_decimal_text) simp
  moreover have "\<forall>c \<in> set (decimal_text (unat w)). c < 128" using decimal_text_chars [of "unat w"] by (auto intro: less_trans)
  ultimately show ?thesis by (auto simp: four_digits_def Let_def)
qed

lemma raw_text_ok:
  "wr (replicate 10 0) 0 (ascii ''> '' @ four_digits w @ ascii '' <'' @ [0]) = Some (raw_text w)"
  "length (raw_text w) = 10" "\<forall>c \<in> set (raw_text w). c < 128"
proof -
  have a: "length (ascii ''> '') = 2" "length (ascii '' <'') = 2" by (simp_all add: ascii_def)
  have z: "replicate (6 - n) (0 :: u8) = 0 # replicate (5 - n) 0" if "n \<le> 5" for n
    using that by (simp add: Suc_diff_le numeral_eq_Suc flip: replicate_Suc)
  show "wr (replicate 10 0) 0 (ascii ''> '' @ four_digits w @ ascii '' <'' @ [0]) = Some (raw_text w)"
    using four_digits_facts [of w] z [of "length (four_digits w)"] a by (simp add: wr_def raw_text_def)
  show "length (raw_text w) = 10" using four_digits_facts [of w] a by (simp add: raw_text_def)
  show "\<forall>c \<in> set (raw_text w). c < 128" using four_digits_facts [of w] by (auto simp: raw_text_def ascii_def)
qed

lemma display_texts_ok:
  "\<forall>rs \<in> set display_texts. length rs = 6 \<and> (\<forall>r \<in> set rs. length r = 20 \<and> (\<forall>c \<in> set r. c < 128))"
  by (simp add: display_texts_def chars_20_def ascii_def)

text \<open>The level of a value.\<close>

definition level :: "u16 \<Rightarrow> u16 \<Rightarrow> nat" where
  "level data max_val = 6 * (if max_val \<le> data then unat max_val - 1 else unat data) div unat max_val"

lemma level_bound: "max_val \<noteq> 0 \<Longrightarrow> level data max_val < 6"
proof -
  assume m: "max_val \<noteq> 0"
  then have "0 < unat max_val" using unat_gt_0 by blast
  then have "(if max_val \<le> data then unat max_val - 1 else unat data) < unat max_val"
    by (auto simp: word_le_nat_alt)
  then show ?thesis unfolding level_def using \<open>0 < unat max_val\<close> by (simp add: less_mult_imp_div_less)
qed

text \<open>The bytes of the whole display, for a value and its range.\<close>

definition display_byte :: "u16 \<Rightarrow> u16 \<Rightarrow> bool \<Rightarrow> nat \<Rightarrow> nat \<Rightarrow> u8" where
  "display_byte data max_val flp p s = (let shown = (if max_val \<le> data then max_val else data + 1) in
     if p = 0 then text_byte (display_texts ! 0 ! 0) True flp s
     else if p < 3 then big_byte 2 (raw_text shown) False flp (p - 1) s
     else if p = 3 then text_byte (display_texts ! 1 ! 0) True flp s
     else if p < 6 then big_byte 2 (display_texts ! 2 ! level data max_val) False flp (p - 4) s
     else big_byte 2 (display_texts ! 3 ! level data max_val) False flp (p - 6) s)"

lemma text_line:
  assumes "drawn d d1 f" and "oled_pages d = 8" and "p < 8" and "16 \<le> length cs" "\<forall>c \<in> set cs. c < 128"
  shows "\<exists>d2. ssd1306_display_text (int p) cs 16 True d1 = Some d2 \<and>
    drawn d d2 (\<lambda>q s. if q = p then text_byte cs True (oled_flip d) s else f q s)"
proof -
  have d1: "wf_oled d1" "oled_pages d1 = 8" "oled_flip d1 = oled_flip d" using drawnD [OF assms(1)] assms(2) by simp_all
  have n: "int 16 = max 0 (min 16 16)" by simp
  have cs: "cs ! i < 128" if "i < 16" for i using assms(4,5) that by simp
  obtain d2 where d2: "ssd1306_display_text (int p) cs 16 True d1 = Some d2"
    "drawn d1 d2 (\<lambda>q s. if int q = int p \<and> int p < oled_pages d1 \<and> s < 8 * 16 then text_byte cs True (oled_flip d1) s else byte_at d1 q s)"
    using display_text_ok [OF d1(1) _ n assms(4) cs, of "int p" True] by auto
  have "drawn d d2 (\<lambda>q s. if q = p then text_byte cs True (oled_flip d) s else f q s)"
    by (rule drawn_cong [OF drawn_trans [OF assms(1) d2(2)]]) (use assms(3) d1 in \<open>auto simp: drawn_byte [OF assms(1)]\<close>)
  with d2(1) show ?thesis by blast
qed

lemma large_line:
  assumes "drawn d d1 f" and "oled_pages d = 8" and "p < 7" and "8 \<le> length cs" "\<forall>c \<in> set cs. c < 128" and "8 \<le> n"
  shows "\<exists>d2. ssd1306_display_text_x2 (int p) cs n False d1 = Some d2 \<and>
    drawn d d2 (\<lambda>q s. if q = p \<or> q = p + 1 then big_byte 2 cs False (oled_flip d) (q - p) s else f q s)"
proof -
  have d1: "wf_oled d1" "oled_pages d1 = 8" "oled_flip d1 = oled_flip d" using drawnD [OF assms(1)] assms(2) by simp_all
  have n: "int 8 = max 0 (min n 8)" "8 * 2 * 8 \<le> (128 :: nat)" using assms(6) by simp_all
  have cs: "8 \<le> length cs" "\<And>i. i < 8 \<Longrightarrow> cs ! i < 128" using assms(4,5) by simp_all
  have p: "0 \<le> int p" "int p < oled_pages d1" "int p + int 2 \<le> 8" "0 < (2 :: nat)" using assms(3) d1 by simp_all
  obtain d2 where d2: "big_text 2 8 (int p) cs n False d1 = Some d2"
    "drawn d1 d2 (\<lambda>q s. if int p \<le> int q \<and> int q < int p + int 2 \<and> s < 8 * 2 * 8
      then big_byte 2 cs False (oled_flip d1) (nat (int q - int p)) s else byte_at d1 q s)"
    using big_text_ok [OF d1(1) p n cs] by blast
  have "drawn d d2 (\<lambda>q s. if q = p \<or> q = p + 1 then big_byte 2 cs False (oled_flip d) (q - p) s else f q s)"
    by (rule drawn_cong [OF drawn_trans [OF assms(1) d2(2)]])
      (use assms(3) d1 in \<open>auto simp: drawn_byte [OF assms(1)] nat_diff_distrib\<close>)
  with d2(1) show ?thesis by (auto simp: ssd1306_display_text_x2_def)
qed

text \<open>
  C34: \<^verbatim>\<open>disp_upd\<close> on a display of 64 rows returns for every value and every range but 0, whatever was
  on the display, and the whole display then shows the value, one more than it is and cut off at the
  range, and its level.
\<close>

theorem disp_upd_shows:
  assumes "wf_oled d" and "oled_pages d = 8"
  shows "case disp_upd data max_val d of
      None \<Rightarrow> max_val = 0
    | Some d' \<Rightarrow> max_val \<noteq> 0 \<and> same_oled d d' \<and>
        (\<forall>p < 8. \<forall>s < 128. byte_at d' p s = display_byte data max_val (oled_flip d) p s)"
proof (cases "max_val = 0")
  case True
  then show ?thesis by (simp add: disp_upd_def)
next
  case False
  define v where "v = level data max_val"
  have v: "v < 6" using level_bound [OF False] by (simp add: v_def)
  define shown where "shown = (if max_val \<le> data then max_val else data + 1)"
  have bar: "6 * unat (if max_val \<le> data then max_val - 1 else data) div unat max_val = v"
    using False by (simp add: v_def level_def unat_minus_one)
  have raw: "(if max_val \<le> data then max_val - 1 else data) + 1 = shown" by (simp add: shown_def)
  have rows: "16 \<le> length (display_texts ! i ! j)" "\<forall>c \<in> set (display_texts ! i ! j). c < 128" "rd (display_texts ! i) j = Some (display_texts ! i ! j)"
    if "i < 4" "j < 6" for i j
  proof -
    have "display_texts ! i \<in> set display_texts" using that by (intro nth_mem) (simp add: display_texts_def)
    then have r: "length (display_texts ! i) = 6" "\<forall>r \<in> set (display_texts ! i). length r = 20 \<and> (\<forall>c \<in> set r. c < 128)"
      using display_texts_ok by auto
    then have "display_texts ! i ! j \<in> set (display_texts ! i)" using that by simp
    with r that show "16 \<le> length (display_texts ! i ! j)" "\<forall>c \<in> set (display_texts ! i ! j). c < 128"
      "rd (display_texts ! i) j = Some (display_texts ! i ! j)" by (auto simp: rd_def)
  qed
  have less_8: "0 < (8 :: nat)" "3 < (8 :: nat)" and less_7: "1 < (7 :: nat)" "4 < (7 :: nat)" "6 < (7 :: nat)"
    and less_4: "0 < (4 :: nat)" "1 < (4 :: nat)" "2 < (4 :: nat)" "3 < (4 :: nat)" and less_6: "0 < (6 :: nat)"
    and le_9: "8 \<le> (9 :: int)" by simp_all
  have r2: "8 \<le> length (display_texts ! 2 ! v)" "\<forall>c \<in> set (display_texts ! 2 ! v). c < 128" "rd (display_texts ! 2) v = Some (display_texts ! 2 ! v)"
    and r3: "8 \<le> length (display_texts ! 3 ! v)" "\<forall>c \<in> set (display_texts ! 3 ! v). c < 128" "rd (display_texts ! 3) v = Some (display_texts ! 3 ! v)"
    using rows [OF less_4(3) v] rows [OF less_4(4) v] by auto
  let ?F = "oled_flip d"
  obtain d1 where d1: "ssd1306_display_text (int 0) (display_texts ! 0 ! 0) 16 True d = Some d1"
    "drawn d d1 (\<lambda>q s. if q = 0 then text_byte (display_texts ! 0 ! 0) True ?F s else byte_at d q s)"
    using text_line [OF drawn_refl [OF assms(1)] assms(2) less_8(1) rows(1,2) [OF less_4(1) less_6]] by blast
  obtain d2 where d2: "ssd1306_display_text_x2 (int 1) (raw_text shown) 8 False d1 = Some d2" and
    f2: "drawn d d2 (\<lambda>q s. if q = 1 \<or> q = 1 + 1 then big_byte 2 (raw_text shown) False ?F (q - 1) s
      else if q = 0 then text_byte (display_texts ! 0 ! 0) True ?F s else byte_at d q s)"
    using large_line [OF d1(2) assms(2) less_7(1) _ raw_text_ok(3) order_refl] raw_text_ok(2) by auto
  obtain d3 where d3: "ssd1306_display_text (int 3) (display_texts ! 1 ! 0) 16 True d2 = Some d3" and
    f3: "drawn d d3 (\<lambda>q s. if q = 3 then text_byte (display_texts ! 1 ! 0) True ?F s
      else if q = 1 \<or> q = 1 + 1 then big_byte 2 (raw_text shown) False ?F (q - 1) s
      else if q = 0 then text_byte (display_texts ! 0 ! 0) True ?F s else byte_at d q s)"
    using text_line [OF f2 assms(2) less_8(2) rows(1,2) [OF less_4(2) less_6]] by blast
  obtain d4 where d4: "ssd1306_display_text_x2 (int 4) (display_texts ! 2 ! v) 9 False d3 = Some d4" and
    f4: "drawn d d4 (\<lambda>q s. if q = 4 \<or> q = 4 + 1 then big_byte 2 (display_texts ! 2 ! v) False ?F (q - 4) s
      else if q = 3 then text_byte (display_texts ! 1 ! 0) True ?F s
      else if q = 1 \<or> q = 1 + 1 then big_byte 2 (raw_text shown) False ?F (q - 1) s
      else if q = 0 then text_byte (display_texts ! 0 ! 0) True ?F s else byte_at d q s)"
    using large_line [OF f3 assms(2) less_7(2) r2(1,2) le_9] by blast
  obtain d5 where d5: "ssd1306_display_text_x2 (int 6) (display_texts ! 3 ! v) 8 False d4 = Some d5" and
    f5: "drawn d d5 (\<lambda>q s. if q = 6 \<or> q = 6 + 1 then big_byte 2 (display_texts ! 3 ! v) False ?F (q - 6) s
      else if q = 4 \<or> q = 4 + 1 then big_byte 2 (display_texts ! 2 ! v) False ?F (q - 4) s
      else if q = 3 then text_byte (display_texts ! 1 ! 0) True ?F s
      else if q = 1 \<or> q = 1 + 1 then big_byte 2 (raw_text shown) False ?F (q - 1) s
      else if q = 0 then text_byte (display_texts ! 0 ! 0) True ?F s else byte_at d q s)"
    using large_line [OF f4 assms(2) less_7(3) r3(1,2) order_refl] by blast
  have run: "disp_upd data max_val d = Some d5"
    unfolding disp_upd_def Let_def bar raw raw_text_ok(1) using False d1(1) d2 d3 d4 d5 r2(3) r3(3) v by simp
  have "drawn d d5 (display_byte data max_val ?F)"
    by (rule drawn_cong [OF f5])
      (auto simp: display_byte_def Let_def shown_def [symmetric] v_def [symmetric] less_Suc_eq numeral_eq_Suc)
  with run False show ?thesis by (simp add: drawn_def)
qed

theorem disp_upd_shows_witness:
  "case disp_upd 5000 4096 (dark_oled False) of
      None \<Rightarrow> (4096 :: u16) = 0
    | Some d' \<Rightarrow> (4096 :: u16) \<noteq> 0 \<and> same_oled (dark_oled False) d' \<and>
        (\<forall>p < 8. \<forall>s < 128. byte_at d' p s = display_byte 5000 4096 (oled_flip (dark_oled False)) p s)"
  by (rule disp_upd_shows [OF wf_dark_oled]) simp

end
