(* ===== verification/Spec2Isabelle.thy ===== *)
theory Spec2Isabelle
  imports BtQueue CJsonText CJsonTree CJsonMinify CJsonPrinted CJsonLists CJsonSort ConfigText FileServer ServoComm AppMain Display
begin

text \<open>
  A verification development of DomoHelios, the firmware of an ESP32 that turns a solar panel
  after the sun: it reads light sensors and the battery through the ADC, moves two servos, is
  configured by a JSON file, reports to a ThingsBoard server, serves its files over HTTP and
  takes files over Bluetooth.

  \<^bold>\<open>How the parts interact.\<close> \<^verbatim>\<open>app_main\<close> (\<^verbatim>\<open>main/domohelios.cpp\<close>) mounts the storage, loads
  \<^verbatim>\<open>/data/config.json\<close> with \<^verbatim>\<open>cJSON_Parse\<close> and copies it into a C structure with
  \<^verbatim>\<open>check_and_dump_cfg\<close>. From the structure it builds the tracker (\<^verbatim>\<open>Virtual_Solar_sys\<close>), whose
  sensors and servos refer to atomic variables that other threads read and write: the reading
  thread stores the light values, the tracker stores the targets of the servos, and the servo
  driver follows the targets. A battery thread disables the outputs, remote calls toggle a byte
  of switches that a loop applies to two pins. The file server writes the files that the next
  start reads; when no network can be joined it is all that runs. The Bluetooth stack answers packets of
  the controller through a send queue and stores the file a peer pushes. A display of 128 by 64 pixels
  can show a reading.

  \<^bold>\<open>Conventions.\<close> Memory is a list; a read or write outside an object, a null pointer that is
  used and any other undefined behaviour of C is \<open>None\<close>, so that a theorem stating a result
  \<open>Some x\<close> also states that the code stays inside its objects. Integers whose width matters are
  words. \<^verbatim>\<open>float\<close> and \<^verbatim>\<open>double\<close> are IEEE formats computed exactly and rounded after every
  operation (\<open>Floats\<close>, \<open>FloatOps\<close>), without fused operations. What comes from outside the
  repository is a parameter: which allocations succeed (\<open>mem\<close>), the file system and its laws
  (the locale \<open>file_store\<close>), the bytes a peer sends, the raw readings, the bytes of fresh memory.
  What the code hands to the outside (packets, calls of the HTTP server, duty cycles) is a list.

  \<^bold>\<open>Theories.\<close>
  \<^item> \<open>Base\<close>: words, bounded memory (\<open>rd\<close>, \<open>wr\<close>), bytes, \<open>run\<close> (a loop that is done or out of fuel).
  \<^item> \<open>Crc16\<close>, \<open>BtStream\<close>, \<open>BtL2cap\<close>, \<open>BtObex\<close>, \<open>BtQueue\<close> (\<^verbatim>\<open>bt_main.c\<close>, \<^verbatim>\<open>bt_main.h\<close>): the check
    sequence, equal to the bit-serial register; the writers of the 300-byte command buffer; the
    signalling and service-discovery handlers (every answer is framed with the right lengths, no
    read leaves the packet); \<^verbatim>\<open>obex_ftp\<close>, dispatch and HCI events (a PUT request is read back as
    the file it describes, a header it does not know is never left, too many headers overflow); the send
    queue (first in first out). The static variables of the file are \<open>bt_state\<close>.
  \<^item> \<open>CJson\<close>, \<open>CJsonParse\<close>, \<open>CJsonSafe\<close>, \<open>CJsonText\<close>, \<open>CJsonTree\<close>, \<open>CJsonMinify\<close>, \<open>CJsonPrint\<close>,
    \<open>CJsonPrinted\<close>, \<open>CJsonLinks\<close>, \<open>CJsonLists\<close> (\<^verbatim>\<open>cJSON.c\<close>): nodes as trees with an allocator that
    counts blocks (\<open>heap\<close>) and may fail at any request; the parser (memory-safe, leak-free, its
    result well-formed, and the tree of every text of an abstract syntax, numbers with fraction and
    exponent included); creation, copies and comparison; the minifier in place; the printers over a
    buffer that grows, equal to a text function, and for integers parsed back to the same tree; and,
    once more, the children of a node as doubly linked nodes in a store of addresses (\<open>cstore\<close>), where
    every sequence of adding, inserting, detaching and replacing refines the same operations on a list.
  \<^item> \<open>CJsonPointer\<close>, \<open>CJsonSort\<close> (\<^verbatim>\<open>cJSON_Utils.c\<close>): JSON pointers with their escapes, the way from a
    pointer to a node and back, and the sorting of members by name.
  \<^item> \<open>Config\<close>, \<open>ConfigText\<close> (\<^verbatim>\<open>json_read_DH_cfg.c\<close>): the structure \<open>DH_config\<close>, every check and
    error code, writes that stay inside the structure or leave it, and the way from the text of
    a configuration back to its values.
  \<^item> \<open>FileServer\<close> (\<^verbatim>\<open>as_server_server.c\<close>): listing, download, upload and delete over a file system.
  \<^item> \<open>Floats\<close>, \<open>FloatOps\<close>: formats, rounding, \<^verbatim>\<open>strtod\<close>, arithmetic and its error bounds.
  \<^item> \<open>Solar\<close> (\<^verbatim>\<open>solar_sys.hpp\<close>, \<^verbatim>\<open>vec.hpp\<close>), \<open>ServoComm\<close> (\<^verbatim>\<open>servo_util.cpp\<close>): the tracker and the
    servo driver round by round. The tracker keeps its targets in the interval of the constants of
    \<^verbatim>\<open>inc_offset\<close>, which is not the axis of every servo; a move forward is accurate to 25 ticks.
  \<^item> \<open>Domohelios\<close> (\<^verbatim>\<open>domohelios.cpp\<close>): configuration, tracker, readings, battery, telemetry, and the
    two threads of the switch as a step relation over atomic loads and stores.
  \<^item> \<open>Wifi\<close> (\<^verbatim>\<open>wifi_def.c\<close>): the station over the events of the driver: how \<^verbatim>\<open>init_wifi\<close> ends, and how
    often a lost connection is asked for again.
  \<^item> \<open>AppMain\<close> (\<^verbatim>\<open>domohelios.cpp\<close>): \<^verbatim>\<open>app_main\<close>, its threads and the restart by the file server as one step
    relation (\<open>main_step\<close>, \<open>task_step\<close>) over the record \<open>app\<close>: the shutdown that never ends, the uses of a
    destroyed object, and the life without a network.
  \<^item> \<open>Ssd1306\<close>, \<open>SsdPixels\<close>, \<open>SsdDraw\<close>, \<open>SsdBus\<close>, \<open>SsdText\<close> (\<^verbatim>\<open>ssd1306.c\<close>, \<^verbatim>\<open>ssd1306_i2c.c\<close>,
    \<^verbatim>\<open>ssd1306_spi.c\<close>), \<open>Display\<close> (\<^verbatim>\<open>adc_read.c\<close>): the display as a buffer of pages (\<open>oled\<close>) and the bytes
    sent over either bus; what every drawing operation does to the pixels, that both buses get the same,
    scrolling texts, and the page that \<^verbatim>\<open>disp_upd\<close> leaves on the display.

  \<^bold>\<open>Bounds and fuel.\<close> The mutual recursion of the parser takes fuel; one unit more than the
  length of the text is enough, and the entry points pass that much, so that \<open>Running\<close> is never
  their result. The same holds for the loop over the characters of a string. The header loop of
  \<^verbatim>\<open>obex_ftp\<close> has no bound in the code: a well-formed packet needs one unit per header and one
  to leave, and for a packet with an unknown header no fuel is enough, which is a theorem. The
  loops over linked nodes are \<^verbatim>\<open>partial_function\<close>s: their theorems state that they return.
  Every other loop is structural or has a measure.

  \<^bold>\<open>Not modelled.\<close> The ThingsBoard SDK under \<^verbatim>\<open>main/include/thingsboard\<close>, ArduinoJson,
  \<^verbatim>\<open>components/spi_flash\<close> and \<^verbatim>\<open>parseutl.c\<close> are copies of other projects that the program only calls, or
  does not call; so are the tests, the fuzzers and the unity framework of cJSON. Of \<^verbatim>\<open>cJSON_Utils.c\<close> the
  patches and merge patches are left out. The bring-up of drivers (HCI, PWM timers, ADC, GPIO, HTTP
  server, the access point, the mounting of the storage) is a sequence of framework calls without state
  of its own, and \<^verbatim>\<open>as_client_server.c\<close> sends one constant page. Log messages, \<^verbatim>\<open>print_DH_config\<close>, the info
  texts of the tracker and the servos and the random vectors of its simulation only print. Threads are
  modelled round by round (the publisher in two steps, the switch by its atomic accesses); memory
  orders weaker than sequential consistency are not. In the cJSON models strings are values, so an
  alias of a name is not seen. A restart begins a new run: what survives it is the disk.
\<close>

end
